(* ===== verification/Prelude.thy ===== *)
theory Prelude
  imports Complex_Main "HOL-Library.Word" "HOL-Library.AList" "HOL-Library.List_Lexorder"
begin

text \<open>
  What the components share: Python values as HOL types (\<open>bytes\<close>, floats, the exceptions
  the sources raise), the result type of fallible code, insertion-ordered dictionaries,
  \<open>int.bit_length\<close>, \<open>round\<close> and the string methods the sources call, and the lemmas on
  them that the component proofs use. The collections \<open>res_simps\<close> (the result type) and
  \<open>dict_simps\<close> (dictionaries) are the simplifier sets of the development.

  A Python \<open>float\<close> is modelled by the rational number it denotes (every finite float is
  one); the rounding of floating-point operations and the special values are not modelled,
  so a sum or a product here is the exact one. Exception messages are not modelled.
\<close>

named_theorems res_simps \<open>rules of the result type\<close>
named_theorems dict_simps \<open>rules of insertion-ordered dictionaries\<close>

section \<open>Exceptions and results\<close>

datatype py_error =
    ValueError
  | IndexError
  | KeyError
  | OverflowError
  | RuntimeError
  | TypeError
  | AttributeError
  | TimeoutError
  | NetworkXError

type_synonym 'a result = "py_error + 'a"

definition bind_res :: "('e + 'a) \<Rightarrow> ('a \<Rightarrow> 'e + 'b) \<Rightarrow> 'e + 'b" where
  "bind_res r f = (case r of Inl e \<Rightarrow> Inl e | Inr x \<Rightarrow> f x)"

definition map_res :: "('a \<Rightarrow> 'b) \<Rightarrow> ('e + 'a) \<Rightarrow> 'e + 'b" where
  "map_res f r = bind_res r (\<lambda>x. Inr (f x))"

definition ok :: "('e + 'a) \<Rightarrow> bool" where
  "ok r = (case r of Inl _ \<Rightarrow> False | Inr _ \<Rightarrow> True)"

lemma bind_res_Inl [simp, res_simps]: "bind_res (Inl e) f = Inl e"
  by (simp add: bind_res_def)

lemma bind_res_Inr [simp, res_simps]: "bind_res (Inr x) f = f x"
  by (simp add: bind_res_def)

lemma map_res_Inl [simp, res_simps]: "map_res f (Inl e) = Inl e"
  by (simp add: map_res_def)

lemma map_res_Inr [simp, res_simps]: "map_res f (Inr x) = Inr (f x)"
  by (simp add: map_res_def)

lemma ok_Inl [simp, res_simps]: "\<not> ok (Inl e)"
  by (simp add: ok_def)

lemma ok_Inr [simp, res_simps]: "ok (Inr x)"
  by (simp add: ok_def)

lemma ok_iff: "ok r \<longleftrightarrow> (\<exists>x. r = Inr x)"
  by (cases r) auto

lemma not_ok_iff: "\<not> ok r \<longleftrightarrow> (\<exists>e. r = Inl e)"
  by (cases r) auto

lemma bind_res_eq_Inr:
  "bind_res r f = Inr y \<longleftrightarrow> (\<exists>x. r = Inr x \<and> f x = Inr y)"
  by (cases r) auto

lemma map_res_eq_Inr:
  "map_res f r = Inr y \<longleftrightarrow> (\<exists>x. r = Inr x \<and> y = f x)"
  by (cases r) auto

lemma bind_res_split:
  "P (bind_res r f) \<longleftrightarrow> (\<forall>e. r = Inl e \<longrightarrow> P (Inl e)) \<and> (\<forall>x. r = Inr x \<longrightarrow> P (f x))"
  by (cases r) auto

text \<open>\<open>seq[i]\<close> for an index that is known not to be negative.\<close>

definition nth_res :: "'a list \<Rightarrow> nat \<Rightarrow> 'a result" where
  "nth_res xs i = (if i < length xs then Inr (xs ! i) else Inl IndexError)"

lemma nth_res_in [simp, res_simps]: "i < length xs \<Longrightarrow> nth_res xs i = Inr (xs ! i)"
  by (simp add: nth_res_def)

lemma nth_res_out [simp, res_simps]: "length xs \<le> i \<Longrightarrow> nth_res xs i = Inl IndexError"
  by (simp add: nth_res_def)

lemma distinct_subset_length: "distinct xs \<Longrightarrow> set xs \<subseteq> set ys \<Longrightarrow> length xs \<le> length ys"
  using card_mono [OF finite_set, of "set xs" ys] card_length [of ys] distinct_card [of xs] by simp

section \<open>Bytes and integers\<close>

type_synonym byte = "8 word"
type_synonym bytes = "byte list"

definition zero_bytes32 :: bytes where
  "zero_bytes32 = replicate 32 0"

definition ascii :: "string \<Rightarrow> bytes" where
  "ascii s = map (\<lambda>c. word_of_nat (of_char c)) s"

text \<open>\<open>n.bit_length()\<close> of a non-negative integer.\<close>

fun bit_length :: "nat \<Rightarrow> nat" where
  "bit_length n = (if n = 0 then 0 else Suc (bit_length (n div 2)))"

declare bit_length.simps [simp del]

lemma bit_length_0 [simp]: "bit_length 0 = 0"
  by (simp add: bit_length.simps)

lemma bit_length_pos: "0 < n \<Longrightarrow> bit_length n = Suc (bit_length (n div 2))"
  by (simp add: bit_length.simps [of n])

lemma less_pow_bit_length: "n < 2 ^ bit_length n"
proof (induction n rule: bit_length.induct)
  case (1 n)
  show ?case
  proof (cases "n = 0")
    case True
    then show ?thesis by simp
  next
    case False
    with 1 have "n div 2 < 2 ^ bit_length (n div 2)" by simp
    with False show ?thesis by (simp add: bit_length_pos)
  qed
qed

lemma bit_length_le: "n < 2 ^ k \<Longrightarrow> bit_length n \<le> k"
proof (induction k arbitrary: n)
  case 0
  then show ?case by simp
next
  case (Suc k)
  show ?case
  proof (cases "n = 0")
    case True
    then show ?thesis by simp
  next
    case False
    from Suc.prems have "n div 2 < 2 ^ k" by auto
    then have "bit_length (n div 2) \<le> k" by (rule Suc.IH)
    with False show ?thesis by (simp add: bit_length_pos)
  qed
qed

lemma bit_length_le_iff: "bit_length n \<le> k \<longleftrightarrow> n < 2 ^ k"
proof
  assume "bit_length n \<le> k"
  then have "(2::nat) ^ bit_length n \<le> 2 ^ k" by (simp add: power_increasing)
  with less_pow_bit_length [of n] show "n < 2 ^ k" by linarith
qed (rule bit_length_le)

lemma bit_length_pow2: "bit_length (2 ^ k) = Suc k"
proof (rule antisym)
  show "bit_length (2 ^ k) \<le> Suc k" by (simp add: bit_length_le_iff)
  have "\<not> bit_length (2 ^ k) \<le> k" by (simp add: bit_length_le_iff)
  then show "Suc k \<le> bit_length (2 ^ k)" by simp
qed

lemma bit_length_Suc_le: "bit_length (Suc n) \<le> Suc (bit_length n)"
proof -
  have "Suc n < 2 ^ Suc (bit_length n)"
    using less_pow_bit_length [of n] by simp
  then show ?thesis by (simp only: bit_length_le_iff)
qed

lemma bit_length_mono: "m \<le> n \<Longrightarrow> bit_length m \<le> bit_length n"
  using less_pow_bit_length [of n] by (simp add: bit_length_le_iff)

section \<open>Floats\<close>

type_synonym py_float = rat

text \<open>
  \<open>int(x)\<close> truncates towards zero; \<open>round(x, n)\<close> gives the nearest multiple of
  \<open>10 ^ -n\<close>, ties to the even one.
\<close>

definition py_trunc :: "py_float \<Rightarrow> int" where
  "py_trunc x = (if 0 \<le> x then \<lfloor>x\<rfloor> else \<lceil>x\<rceil>)"

definition round_half_even :: "py_float \<Rightarrow> int" where
  "round_half_even x =
     (let f = \<lfloor>x\<rfloor>; d = x - of_int f
      in if d < 1 / 2 then f else if 1 / 2 < d then f + 1 else if even f then f else f + 1)"

definition py_round :: "nat \<Rightarrow> py_float \<Rightarrow> py_float" where
  "py_round n x = of_int (round_half_even (x * 10 ^ n)) / 10 ^ n"

lemma round_half_even_int [simp]: "round_half_even (of_int z) = z"
  by (simp add: round_half_even_def)

lemma round_half_even_mono: "x \<le> y \<Longrightarrow> round_half_even x \<le> round_half_even y"
proof -
  assume le: "x \<le> y"
  then have fl: "\<lfloor>x\<rfloor> \<le> \<lfloor>y\<rfloor>" by (rule floor_mono)
  show ?thesis
  proof (cases "\<lfloor>x\<rfloor> = \<lfloor>y\<rfloor>")
    case True
    with le show ?thesis by (auto simp: round_half_even_def Let_def)
  next
    case False
    with fl have "\<lfloor>x\<rfloor> + 1 \<le> \<lfloor>y\<rfloor>" by simp
    then show ?thesis by (auto simp: round_half_even_def Let_def)
  qed
qed

lemma py_round_mono: "x \<le> y \<Longrightarrow> py_round n x \<le> py_round n y"
  by (simp add: py_round_def divide_right_mono round_half_even_mono)

lemma py_round_of_int [simp]: "py_round n (of_int z) = of_int z"
proof -
  have "(of_int z :: rat) * 10 ^ n = of_int (z * 10 ^ n)" by simp
  then show ?thesis by (simp only: py_round_def round_half_even_int) simp
qed

lemma py_round_0 [simp]: "py_round n 0 = 0"
  using py_round_of_int [of n 0] by simp

lemma py_round_1 [simp]: "py_round n 1 = 1"
  using py_round_of_int [of n 1] by simp

lemma py_round_nonneg: "0 \<le> x \<Longrightarrow> 0 \<le> py_round n x"
  using py_round_mono [of 0 x n] by simp

lemma round_half_even_error: "\<bar>of_int (round_half_even x) - x\<bar> \<le> 1 / 2"
proof -
  have f: "of_int \<lfloor>x\<rfloor> \<le> x" "x < of_int \<lfloor>x\<rfloor> + 1" by linarith+
  define d where "d = x - of_int \<lfloor>x\<rfloor>"
  have x: "x = of_int \<lfloor>x\<rfloor> + d" by (simp add: d_def)
  have "0 \<le> d" "d < 1" using f by (simp_all add: d_def)
  moreover have "round_half_even x = (if d < 1 / 2 then \<lfloor>x\<rfloor> else if 1 / 2 < d then \<lfloor>x\<rfloor> + 1
      else if even \<lfloor>x\<rfloor> then \<lfloor>x\<rfloor> else \<lfloor>x\<rfloor> + 1)"
    by (simp add: round_half_even_def Let_def d_def)
  ultimately show ?thesis by (subst x) (auto simp: d_def split: if_splits)
qed

lemma py_round_error: "\<bar>py_round n x - x\<bar> \<le> 1 / (2 * 10 ^ n)"
proof -
  have "py_round n x - x = (of_int (round_half_even (x * 10 ^ n)) - x * 10 ^ n) / 10 ^ n"
    by (simp add: py_round_def diff_divide_distrib)
  then have "\<bar>py_round n x - x\<bar> = \<bar>of_int (round_half_even (x * 10 ^ n)) - x * 10 ^ n\<bar> / 10 ^ n"
    by (simp add: abs_divide)
  also have "\<dots> \<le> (1 / 2) / 10 ^ n"
    by (intro divide_right_mono round_half_even_error) simp
  finally show ?thesis by simp
qed

lemma sum_round_error:
  "\<bar>sum_list (map (\<lambda>x. py_round n (f x)) xs) - sum_list (map f xs)\<bar> \<le> of_nat (length xs) / (2 * 10 ^ n)"
proof (induction xs)
  case (Cons x xs)
  have "\<bar>py_round n (f x) - f x\<bar> \<le> 1 / (2 * 10 ^ n)" by (rule py_round_error)
  with Cons show ?case by (simp add: add_divide_distrib)
qed simp

section \<open>Dictionaries\<close>

text \<open>
  A Python dictionary keeps its insertion order: it is an association list in which every
  key occurs once. \<open>d[k] = v\<close> is \<open>AList.update\<close> (in place for a key that is there, at the
  end otherwise), \<open>del d[k]\<close> and \<open>d.pop(k, None)\<close> are \<open>AList.delete\<close>, and
  \<open>d.get(k)\<close> is \<open>map_of d k\<close>.
\<close>

type_synonym ('k, 'v) dict = "('k \<times> 'v) list"

definition wf_dict :: "('k, 'v) dict \<Rightarrow> bool" where
  "wf_dict d = distinct (map fst d)"

abbreviation dict_set :: "'k \<Rightarrow> 'v \<Rightarrow> ('k, 'v) dict \<Rightarrow> ('k, 'v) dict" where
  "dict_set k v d \<equiv> AList.update k v d"

abbreviation dict_del :: "'k \<Rightarrow> ('k, 'v) dict \<Rightarrow> ('k, 'v) dict" where
  "dict_del k d \<equiv> AList.delete k d"

definition dict_get :: "('k, 'v) dict \<Rightarrow> 'k \<Rightarrow> 'v \<Rightarrow> 'v" where
  "dict_get d k v0 = (case map_of d k of None \<Rightarrow> v0 | Some v \<Rightarrow> v)"

definition dict_has :: "('k, 'v) dict \<Rightarrow> 'k \<Rightarrow> bool" where
  "dict_has d k = (k \<in> fst ` set d)"

definition dict_index :: "('k, 'v) dict \<Rightarrow> 'k \<Rightarrow> 'v result" where
  "dict_index d k = (case map_of d k of None \<Rightarrow> Inl KeyError | Some v \<Rightarrow> Inr v)"

lemma wf_dict_Nil [simp, dict_simps]: "wf_dict []"
  by (simp add: wf_dict_def)

lemma wf_dict_set [simp, intro, dict_simps]: "wf_dict d \<Longrightarrow> wf_dict (dict_set k v d)"
  by (simp add: wf_dict_def distinct_update)

lemma wf_dict_del [simp, intro, dict_simps]: "wf_dict d \<Longrightarrow> wf_dict (dict_del k d)"
  by (simp add: wf_dict_def distinct_delete)

lemma map_of_dict_set [simp, dict_simps]: "map_of (dict_set k v d) = (map_of d)(k \<mapsto> v)"
  by (rule update_conv')

lemma map_of_dict_del [simp, dict_simps]: "map_of (dict_del k d) = (map_of d)(k := None)"
  by (rule delete_conv')

lemma dict_has_iff: "dict_has d k \<longleftrightarrow> map_of d k \<noteq> None"
  by (simp add: dict_has_def map_of_eq_None_iff)

lemma length_dict_set:
  "length (dict_set k v d) = (if dict_has d k then length d else Suc (length d))"
  by (induction d) (auto simp: dict_has_def)

lemma length_dict_del_le: "length (dict_del k d) \<le> length d"
  by (rule length_delete_le)

lemma length_dict_del: "wf_dict d \<Longrightarrow> dict_has d k \<Longrightarrow> length (dict_del k d) = length d - 1"
proof (induction d)
  case Nil
  then show ?case by (simp add: dict_has_def)
next
  case (Cons p d)
  show ?case
  proof (cases "fst p = k")
    case True
    with Cons.prems have "k \<notin> fst ` set d" by (auto simp: wf_dict_def)
    then have "dict_del k d = d" by simp
    with True show ?thesis by simp
  next
    case False
    with Cons.prems have "wf_dict d" and "dict_has d k" by (auto simp: wf_dict_def dict_has_def)
    moreover from this have "0 < length d" by (cases d) (auto simp: dict_has_def)
    ultimately show ?thesis using False Cons.IH by simp
  qed
qed

lemma fst_set_dict_set: "fst ` set (dict_set k v d) = insert k (fst ` set d)"
  by (induction d) auto

lemma fst_set_dict_del: "fst ` set (dict_del k d) = fst ` set d - {k}"
  by (induction d) auto

section \<open>Strings\<close>

text \<open>
  The string methods the sources call. A \<open>char\<close> stands for a code point below 256 and a
  string is a list of them: \<open>s.strip()\<close> removes the white space of that range (9 to 13, 28 to
  32, 133 and 160) at both ends, \<open>s.lower()\<close> maps the upper-case letters of that range (65 to
  90, and 192 to 222 without the multiplication sign 215) by adding 32.
\<close>

definition is_space :: "char \<Rightarrow> bool" where
  "is_space c = (let n = (of_char c :: nat) 
     in 9 \<le> n \<and> n \<le> 13 \<or> 28 \<le> n \<and> n \<le> 32 \<or> n = 133 \<or> n = 160)"

definition lstrip :: "string \<Rightarrow> string" where
  "lstrip s = dropWhile is_space s"

definition strip :: "string \<Rightarrow> string" where
  "strip s = rev (lstrip (rev (lstrip s)))"

definition lower_char :: "char \<Rightarrow> char" where
  "lower_char c =
     (let n = (of_char c :: nat)
      in if 65 \<le> n \<and> n \<le> 90 \<or> 192 \<le> n \<and> n \<le> 222 \<and> n \<noteq> 215 then char_of (n + 32) else c)"

definition lower :: "string \<Rightarrow> string" where
  "lower s = map lower_char s"

lemma lstrip_id: "s = [] \<or> \<not> is_space (hd s) \<Longrightarrow> lstrip s = s"
  by (cases s) (auto simp: lstrip_def)

lemma lstrip_hd: "lstrip s = [] \<or> \<not> is_space (hd (lstrip s))"
  using hd_dropWhile [of is_space s] by (auto simp: lstrip_def)

lemma lstrip_last: "lstrip s \<noteq> [] \<Longrightarrow> last (lstrip s) = last s"
  by (induction s) (auto simp: lstrip_def)

lemma strip_idem [simp]: "strip (strip s) = strip s"
proof -
  let ?t = "lstrip (rev (lstrip s))"
  have "?t = [] \<or> \<not> is_space (last ?t)"
  proof (cases "?t = []")
    case False
    then have "last ?t = hd (lstrip s)"
      using lstrip_last [of "rev (lstrip s)"] by (auto simp: last_rev lstrip_def)
    moreover have "lstrip s \<noteq> []" using False by (auto simp: lstrip_def dest: set_dropWhileD)
    ultimately show ?thesis using lstrip_hd [of s] by simp
  qed simp
  then have "lstrip (rev ?t) = rev ?t"
    by (intro lstrip_id) (auto simp: hd_rev)
  moreover have "lstrip ?t = ?t" by (rule lstrip_id) (rule lstrip_hd)
  ultimately show ?thesis by (simp add: strip_def)
qed

text \<open>The characters that file names of tenants and tasks keep, \<open>[A-Za-z0-9_.-]\<close>.\<close>

definition safe_char :: "char \<Rightarrow> bool" where
  "safe_char c =
     (let n = (of_char c :: nat)
      in 48 \<le> n \<and> n \<le> 57 \<or> 65 \<le> n \<and> n \<le> 90 \<or> 97 \<le> n \<and> n \<le> 122 \<or> n = 95 \<or> n = 46 \<or> n = 45)"

text \<open>
  \<open>str(n)\<close> and \<open>f"{x:.nf}"\<close>: the latter rounds half to even on the exact value and keeps the
  sign of a negative number that rounds to zero. \<open>xs[:n]\<close> drops from the end for a
  negative \<open>n\<close>.
\<close>

fun show_nat :: "nat \<Rightarrow> string" where
  "show_nat n = (if n < 10 then [char_of (48 + n)] else show_nat (n div 10) @ [char_of (48 + n mod 10)])"

declare show_nat.simps [simp del]

lemma show_nat_digit: "n < 10 \<Longrightarrow> of_char (char_of (48 + n) :: char) = (48 + n :: nat)"
  by simp

lemma show_nat_digits: "c \<in> set (show_nat n) \<Longrightarrow> 48 \<le> (of_char c :: nat) \<and> (of_char c :: nat) \<le> 57"
proof (induction n rule: show_nat.induct)
  case (1 n)
  have "n mod 10 < 10" by simp
  with 1 show ?case by (auto simp: show_nat.simps [of n] show_nat_digit split: if_splits)
qed

lemma show_nat_nonempty [simp]: "show_nat n \<noteq> []"
  by (simp add: show_nat.simps [of n])

lemma show_nat_inj: "show_nat a = show_nat b \<Longrightarrow> a = b"
proof (induction a arbitrary: b rule: show_nat.induct)
  case (1 n)
  have digit: "char_of (48 + x) = (char_of (48 + y) :: char) \<Longrightarrow> x = y" if "x < 10" "y < 10" for x y :: nat
    using that show_nat_digit by (metis add_left_cancel)
  consider "n < 10" "b < 10" | "\<not> n < 10" "\<not> b < 10" | "(n < 10) \<noteq> (b < 10)" by blast
  then show ?case
  proof cases
    case 1
    then show ?thesis using "1.prems" digit [of n b] by (simp add: show_nat.simps [of n] show_nat.simps [of b])
  next
    case 2
    then have "show_nat (n div 10) = show_nat (b div 10)" "char_of (48 + n mod 10) = (char_of (48 + b mod 10) :: char)"
      using "1.prems" by (simp_all add: show_nat.simps [of n] show_nat.simps [of b])
    then have "n div 10 = b div 10" "n mod 10 = b mod 10" using "1.IH" [OF 2(1)] digit [of "n mod 10" "b mod 10"] by simp_all
    then show ?thesis by (metis div_mult_mod_eq)
  next
    case 3
    then show ?thesis using "1.prems" by (auto simp: show_nat.simps [of n] show_nat.simps [of b] append_eq_Cons_conv Cons_eq_append_conv split: if_splits)
  qed
qed

definition show_int :: "int \<Rightarrow> string" where
  "show_int i = (if i < 0 then ''-'' @ show_nat (nat (- i)) else show_nat (nat i))"

definition fmt_fixed :: "nat \<Rightarrow> py_float \<Rightarrow> string" where
  "fmt_fixed n x =
     (let m = nat (round_half_even (\<bar>x\<bar> * 10 ^ n));
          frac = show_nat (m mod 10 ^ n)
      in (if x < 0 then ''-'' else []) @ show_nat (m div 10 ^ n)
         @ (if n = 0 then [] else ''.'' @ replicate (n - length frac) CHR ''0'' @ frac))"

definition py_take :: "int \<Rightarrow> 'a list \<Rightarrow> 'a list" where
  "py_take n xs = (if 0 \<le> n then take (nat n) xs else take (length xs - nat (- n)) xs)"

definition py_join :: "string \<Rightarrow> string list \<Rightarrow> string" where
  "py_join sep ss = (case ss of [] \<Rightarrow> [] | s # rest \<Rightarrow> s @ concat (map (\<lambda>t. sep @ t) rest))"

lemma length_py_take_le: "0 \<le> n \<Longrightarrow> int (length (py_take n xs)) \<le> n"
  by (simp add: py_take_def)

lemma set_py_take: "set (py_take n xs) \<subseteq> set xs"
  by (simp add: py_take_def set_take_subset)

section \<open>JSON values and hexadecimal text\<close>

text \<open>
  \<open>json\<close> is a parsed JSON document (an object keeps the order of its keys). Iterating over
  one gives the elements of an array, the characters of a string or the keys of an object, and
  raises \<open>TypeError\<close> otherwise; \<open>a, b = x\<close> raises \<open>ValueError\<close> unless \<open>x\<close> has two items.
\<close>

datatype json =
    JNull
  | JBool bool
  | JInt int
  | JFloat py_float
  | JStr string
  | JList "json list"
  | JDict "(string \<times> json) list"

fun json_truthy :: "json \<Rightarrow> bool" where
  "json_truthy JNull = False"
| "json_truthy (JBool b) = b"
| "json_truthy (JInt i) = (i \<noteq> 0)"
| "json_truthy (JFloat x) = (x \<noteq> 0)"
| "json_truthy (JStr s) = (s \<noteq> [])"
| "json_truthy (JList xs) = (xs \<noteq> [])"
| "json_truthy (JDict d) = (d \<noteq> [])"

fun json_iter :: "json \<Rightarrow> json list result" where
  "json_iter (JList xs) = Inr xs"
| "json_iter (JStr s) = Inr (map (\<lambda>c. JStr [c]) s)"
| "json_iter (JDict d) = Inr (map (\<lambda>(k, _). JStr k) d)"
| "json_iter _ = Inl TypeError"

fun json_unpack2 :: "json \<Rightarrow> (json \<times> json) result" where
  "json_unpack2 j =
     bind_res (json_iter j) (\<lambda>xs. case xs of [a, b] \<Rightarrow> Inr (a, b) | _ \<Rightarrow> Inl ValueError)"

fun json_key :: "json \<Rightarrow> string \<Rightarrow> json result" where
  "json_key (JDict d) k = dict_index d k"
| "json_key _ k = Inl TypeError"

fun map_result :: "('a \<Rightarrow> 'b result) \<Rightarrow> 'a list \<Rightarrow> 'b list result" where
  "map_result f [] = Inr []"
| "map_result f (x # xs) = bind_res (f x) (\<lambda>y. map_res (Cons y) (map_result f xs))"

text \<open>Methods of a dictionary raise \<open>AttributeError\<close> on another value.\<close>

definition as_dict :: "json \<Rightarrow> (string, json) dict result" where
  "as_dict j = (case j of JDict d \<Rightarrow> Inr d | _ \<Rightarrow> Inl AttributeError)"

lemma map_result_Inr:
  "(\<And>x. x \<in> set xs \<Longrightarrow> f x = Inr (g x)) \<Longrightarrow> map_result f xs = Inr (map g xs)"
  by (induction xs) auto

lemma length_map_result: "map_result f xs = Inr ys \<Longrightarrow> length ys = length xs"
  by (induction xs arbitrary: ys) (auto simp: bind_res_eq_Inr map_res_eq_Inr)

text \<open>\<open>b.hex()\<close> and \<open>bytes.fromhex(s)\<close>, which skips ASCII white space between bytes.\<close>

definition hex_digit :: "nat \<Rightarrow> char" where
  "hex_digit n = (if n < 10 then char_of (48 + n) else char_of (87 + n))"

definition hex_value :: "char \<Rightarrow> nat option" where
  "hex_value c =
     (let n = (of_char c :: nat)
      in if 48 \<le> n \<and> n \<le> 57 then Some (n - 48)
         else if 97 \<le> n \<and> n \<le> 102 then Some (n - 87)
         else if 65 \<le> n \<and> n \<le> 70 then Some (n - 55)
         else None)"

definition is_ascii_space :: "char \<Rightarrow> bool" where
  "is_ascii_space c = (let n = (of_char c :: nat) in n = 32 \<or> 9 \<le> n \<and> n \<le> 13)"

fun to_hex :: "bytes \<Rightarrow> string" where
  "to_hex [] = []"
| "to_hex (b # bs) = hex_digit (unat b div 16) # hex_digit (unat b mod 16) # to_hex bs"

fun fromhex :: "string \<Rightarrow> bytes result" where
  "fromhex [] = Inr []"
| "fromhex (c # cs) =
     (if is_ascii_space c then fromhex cs
      else case cs of
        [] \<Rightarrow> Inl ValueError
      | d # ds \<Rightarrow>
          (case (hex_value c, hex_value d) of
             (Some a, Some b) \<Rightarrow> map_res (Cons (word_of_nat (16 * a + b))) (fromhex ds)
           | _ \<Rightarrow> Inl ValueError))"

lemma hex_value_digit: "n < 16 \<Longrightarrow> hex_value (hex_digit n) = Some n"
  by (auto simp: hex_value_def hex_digit_def Let_def)

lemma hex_digit_not_space: "n < 16 \<Longrightarrow> \<not> is_ascii_space (hex_digit n)"
  by (auto simp: is_ascii_space_def hex_digit_def Let_def)

lemma unat_byte_less: "unat (b :: byte) < 256"
  using unsigned_less [of b, where ?'a = nat] by simp

lemma fromhex_to_hex [simp]: "fromhex (to_hex bs) = Inr bs"
proof (induction bs)
  case Nil
  then show ?case by simp
next
  case (Cons b bs)
  have "unat b div 16 < 16" and "unat b mod 16 < 16"
    using unat_byte_less [of b] by auto
  then show ?case
    using Cons by (simp add: hex_value_digit hex_digit_not_space)
qed

lemma to_hex_inj: "to_hex a = to_hex b \<Longrightarrow> a = b"
  by (metis fromhex_to_hex sum.inject(2))

definition json_fromhex :: "json \<Rightarrow> bytes result" where
  "json_fromhex j = (case j of JStr s \<Rightarrow> fromhex s | _ \<Rightarrow> Inl TypeError)"

lemma json_fromhex_JStr [simp]: "json_fromhex (JStr s) = fromhex s"
  by (simp add: json_fromhex_def)

end
