(* ===== verification/Hash_Tree.thy ===== *)
theory Hash_Tree
  imports Prelude
begin

text \<open>
  The abstract side of the two Merkle components. \<open>mnode hp leaf k j\<close> is the node of height
  \<open>k\<close> and index \<open>j\<close> of the infinite binary tree over the leaves \<open>leaf 0, leaf 1, ...\<close>
  whose inner nodes combine their children with \<open>hp\<close>: the specification both the static
  level builder and the incremental tree of \<open>noema/audit/merkle_proof.py\<close> are proved to
  implement. The locale \<open>inclusion_scheme\<close> is the contract of an inclusion-proof scheme
  (folding the proof of a leaf gives the root), which both \<open>merkle_proof.py\<close> and
  \<open>merkle.py\<close> provide; \<open>binding_scheme\<close> adds what a collision-free combination gives.
\<close>

section \<open>Nodes of a perfect tree\<close>

primrec mnode :: "('h \<Rightarrow> 'h \<Rightarrow> 'h) \<Rightarrow> (nat \<Rightarrow> 'h) \<Rightarrow> nat \<Rightarrow> nat \<Rightarrow> 'h" where
  "mnode hp leaf 0 j = leaf j"
| "mnode hp leaf (Suc k) j = hp (mnode hp leaf k (2 * j)) (mnode hp leaf k (2 * j + 1))"

lemma mnode_cong:
  assumes "\<And>i. j * 2 ^ k \<le> i \<Longrightarrow> i < (j + 1) * 2 ^ k \<Longrightarrow> f i = g i"
  shows "mnode hp f k j = mnode hp g k j"
  using assms
proof (induction k arbitrary: j)
  case 0
  then show ?case by simp
next
  case (Suc k)
  have "mnode hp f k (2 * j) = mnode hp g k (2 * j)"
    by (rule Suc.IH, rule Suc.prems) (auto simp: algebra_simps)
  moreover have "mnode hp f k (2 * j + 1) = mnode hp g k (2 * j + 1)"
    by (rule Suc.IH, rule Suc.prems) (auto simp: algebra_simps)
  ultimately show ?case by simp
qed

text \<open>Where all the leaves are the same, the node depends on the height only.\<close>

lemma mnode_const:
  assumes "\<And>i. j * 2 ^ k \<le> i \<Longrightarrow> i < (j + 1) * 2 ^ k \<Longrightarrow> leaf i = x"
  shows "mnode hp leaf k j = mnode hp (\<lambda>_. x) k 0"
proof -
  have "mnode hp (\<lambda>_. x) k i = mnode hp (\<lambda>_. x) k 0" for i
    by (induction k arbitrary: i) (simp, metis mnode.simps(2))
  then show ?thesis using mnode_cong [of j k leaf "\<lambda>_. x" hp] assms by metis
qed

lemma mnode_const_Suc:
  "mnode hp (\<lambda>_. x) (Suc k) 0 = hp (mnode hp (\<lambda>_. x) k 0) (mnode hp (\<lambda>_. x) k 0)"
proof -
  have "mnode hp (\<lambda>_. x) k 1 = mnode hp (\<lambda>_. x) k 0" by (rule mnode_const) simp
  then show ?thesis by simp
qed

text \<open>
  The authentication path of leaf \<open>i\<close>: at every height the sibling of the node on the way
  to the root, with the flag that the node itself is a right child.
\<close>

primrec mpath :: "('h \<Rightarrow> 'h \<Rightarrow> 'h) \<Rightarrow> (nat \<Rightarrow> 'h) \<Rightarrow> nat \<Rightarrow> nat \<Rightarrow> nat \<Rightarrow> ('h \<times> bool) list" where
  "mpath hp leaf 0 k j = []"
| "mpath hp leaf (Suc d) k j =
     (if even j then (mnode hp leaf k (j + 1), False) else (mnode hp leaf k (j - 1), True))
     # mpath hp leaf d (Suc k) (j div 2)"

definition mstep :: "('h \<Rightarrow> 'h \<Rightarrow> 'h) \<Rightarrow> 'h \<Rightarrow> 'h \<times> bool \<Rightarrow> 'h" where
  "mstep hp cur sd = (if snd sd then hp (fst sd) cur else hp cur (fst sd))"

lemma mpath_complete:
  "foldl (mstep hp) (mnode hp leaf k j) (mpath hp leaf d k j) = mnode hp leaf (k + d) (j div 2 ^ d)"
proof (induction d arbitrary: k j)
  case 0
  then show ?case by simp
next
  case (Suc d)
  let ?h = "if even j then (mnode hp leaf k (j + 1), False) else (mnode hp leaf k (j - 1), True)"
  have "mstep hp (mnode hp leaf k j) ?h = mnode hp leaf (Suc k) (j div 2)"
  proof (cases "even j")
    case True
    then have "2 * (j div 2) = j" by simp
    with True show ?thesis by (simp add: mstep_def)
  next
    case False
    then have "2 * (j div 2) + 1 = j" by simp
    moreover from False have "2 * (j div 2) = j - 1" by presburger
    ultimately show ?thesis using False by (simp add: mstep_def del: odd_two_times_div_two_nat)
  qed
  then have "foldl (mstep hp) (mnode hp leaf k j) (mpath hp leaf (Suc d) k j)
      = mnode hp leaf (Suc k + d) (j div 2 div 2 ^ d)"
    using Suc [of "Suc k" "j div 2"] by simp
  then show ?case by (simp add: div_mult2_eq)
qed

lemma length_mpath [simp]: "length (mpath hp leaf d k j) = d"
  by (induction d arbitrary: k j) auto

section \<open>Inclusion proofs as an interface\<close>

text \<open>
  A provider commits to a list of leaves by \<open>root\<close> and issues \<open>path ls i\<close> for a leaf; a
  verifier folds \<open>step\<close> over the path from the leaf and compares with the root.
\<close>

locale inclusion_scheme =
  fixes step :: "'h \<Rightarrow> 'h \<times> bool \<Rightarrow> 'h"
    and root :: "'h list \<Rightarrow> 'h"
    and path :: "'h list \<Rightarrow> nat \<Rightarrow> ('h \<times> bool) list"
  assumes complete: "i < length ls \<Longrightarrow> foldl step (ls ! i) (path ls i) = root ls"
begin

lemma member_provable: "x \<in> set ls \<Longrightarrow> \<exists>i < length ls. ls ! i = x \<and> foldl step x (path ls i) = root ls"
  using complete by (auto simp: in_set_conv_nth)

lemma fold_unique: "i < length ls \<Longrightarrow> foldl step (ls ! i) (path ls i) = r \<longleftrightarrow> r = root ls"
  using complete by auto

lemma root_determines_acceptance:
  assumes "root ls = root ms" and "i < length ls"
  shows "foldl step (ls ! i) (path ls i) = root ms"
  using assms complete by simp

end

text \<open>
  The converse direction. Combining two nodes is injective, up to the order of the two, on the
  pairs in \<open>P\<close>; then a fold that ends in a node of height \<open>k + d\<close> and only combines pairs
  of \<open>P\<close> started at a node of height \<open>k\<close>.
\<close>

locale binding_scheme =
  fixes hp :: "'h \<Rightarrow> 'h \<Rightarrow> 'h" and P :: "('h \<times> 'h) set"
  assumes inj: "(a, b) \<in> P \<Longrightarrow> (c, d) \<in> P \<Longrightarrow> hp a b = hp c d \<Longrightarrow> {a, b} = {c, d}"
    and sym: "hp a b = hp b a"
begin

lemma fold_binds:
  assumes "foldl (mstep hp) x p = mnode hp leaf (k + length p) j"
    and "\<And>q s r. p = q @ s # r \<Longrightarrow> (foldl (mstep hp) x q, fst s) \<in> P"
    and "\<And>m i. k \<le> m \<Longrightarrow> m < k + length p \<Longrightarrow>
      i < (j + 1) * 2 ^ (k + length p - Suc m) \<Longrightarrow>
      (mnode hp leaf m (2 * i), mnode hp leaf m (2 * i + 1)) \<in> P"
  shows "\<exists>i < (j + 1) * 2 ^ length p. x = mnode hp leaf k i"
  using assms
proof (induction p arbitrary: j rule: rev_induct)
  case Nil
  then show ?case by (intro exI [of _ j]) simp
next
  case (snoc s p)
  let ?m = "k + length p" and ?x = "foldl (mstep hp) x p"
  let ?l = "mnode hp leaf ?m (2 * j)" and ?r = "mnode hp leaf ?m (2 * j + 1)"
  have "mstep hp a s = hp a (fst s)" for a
    by (simp add: mstep_def sym)
  then have "hp ?x (fst s) = hp ?l ?r"
    using snoc.prems(1) by simp
  moreover have "(?x, fst s) \<in> P" using snoc.prems(2) [of p s "[]"] by simp
  moreover have "(?l, ?r) \<in> P" using snoc.prems(3) [of ?m j] by simp
  ultimately have "?x = ?l \<or> ?x = ?r" using inj by blast
  moreover have "2 * j < (j + 1) * 2" and "2 * j + 1 < (j + 1) * 2" by simp_all
  ultimately obtain j' where j': "?x = mnode hp leaf ?m j'" and less: "j' < (j + 1) * 2"
    by blast
  have "\<exists>i < (j' + 1) * 2 ^ length p. x = mnode hp leaf k i"
  proof (rule snoc.IH [OF j'])
    show "(foldl (mstep hp) x q, fst t) \<in> P" if "p = q @ t # r" for q t r
      using snoc.prems(2) [of q t "r @ [s]"] that by simp
  next
    fix m i
    assume m: "k \<le> m" "m < ?m" and i: "i < (j' + 1) * 2 ^ (?m - Suc m)"
    from less have "(j' + 1) * 2 ^ (?m - Suc m) \<le> ((j + 1) * 2) * 2 ^ (?m - Suc m)"
      by (intro mult_right_mono) auto
    also have "\<dots> = (j + 1) * 2 ^ Suc (?m - Suc m)" by simp
    also have "Suc (?m - Suc m) = k + length (p @ [s]) - Suc m" using m by simp
    finally show "(mnode hp leaf m (2 * i), mnode hp leaf m (2 * i + 1)) \<in> P"
      using snoc.prems(3) [of m i] m i by simp
  qed
  then obtain i where i: "i < (j' + 1) * 2 ^ length p" and x: "x = mnode hp leaf k i" by blast
  from less have "(j' + 1) * 2 ^ length p \<le> ((j + 1) * 2) * 2 ^ length p"
    by (intro mult_right_mono) auto
  with i have "i < (j + 1) * 2 ^ length (p @ [s])" by simp
  with x show ?case by blast
qed

end

end
