(* ===== verification/Merkle_Proof.thy ===== *)
theory Merkle_Proof
  imports Hash_Tree
begin

text \<open>
  \<open>noema/audit/merkle_proof.py\<close>: the static builder of a Merkle tree padded to a power of two
  (\<open>compute_root\<close>, \<open>generate_inclusion_proof\<close>, \<open>verify_inclusion_proof\<close>), the dictionary
  form of a proof, and the incremental tree, whose padding nodes are stored as \<open>None\<close>.
  SHA-256 is the parameter \<open>sha\<close> and the JSON serialiser the parameter \<open>ser\<close> of the
  definitions. The lemmas show that the builders never raise on their domain, that both
  trees implement \<open>mnode\<close> of theory \<open>Hash_Tree\<close> (so the incremental tree has the roots and
  the proofs of the static one), and completeness and binding of the proofs.
\<close>

section \<open>Hashing\<close>

definition DOMAIN_SEPARATOR :: bytes where
  "DOMAIN_SEPARATOR = ascii ''NOEMA_FRAMEWORK_AUDIT_V1''"

definition safe_hash :: "(bytes \<Rightarrow> bytes) \<Rightarrow> bytes \<Rightarrow> bytes" where
  "safe_hash sha data = sha (DOMAIN_SEPARATOR @ data)"

definition hash_pair :: "(bytes \<Rightarrow> bytes) \<Rightarrow> bytes \<Rightarrow> bytes \<Rightarrow> bytes" where
  "hash_pair sha left right =
     (if left < right then safe_hash sha (left @ right) else safe_hash sha (right @ left))"

definition next_pow2 :: "nat \<Rightarrow> nat" where
  "next_pow2 n = (if 0 < n then 2 ^ bit_length (n - 1) else 1)"

definition pad_sequence :: "bytes list \<Rightarrow> bytes list result" where
  "pad_sequence seq =
     (if seq = [] then Inl ValueError
      else let n = length seq; target = next_pow2 n
           in Inr (seq @ replicate (target - n) (last seq)))"

section \<open>The static builder\<close>

text \<open>
  The body of the loop over \<open>range(0, len(level), 2)\<close> reads \<open>level[i + 1]\<close>, which raises for
  a level of odd length.
\<close>

fun parent_level :: "(bytes \<Rightarrow> bytes) \<Rightarrow> bytes list \<Rightarrow> bytes list result" where
  "parent_level sha [] = Inr []"
| "parent_level sha [x] = Inl IndexError"
| "parent_level sha (x # y # xs) = map_res (Cons (hash_pair sha x y)) (parent_level sha xs)"

lemma length_parent_level:
  "parent_level sha xs = Inr ys \<Longrightarrow> length xs = 2 * length ys"
  by (induction sha xs arbitrary: ys rule: parent_level.induct) (auto simp: map_res_eq_Inr)

function grow_levels :: "(bytes \<Rightarrow> bytes) \<Rightarrow> bytes list \<Rightarrow> bytes list list result" where
  "grow_levels sha level =
     (if 1 < length level
      then (case parent_level sha level of
              Inl e \<Rightarrow> Inl e
            | Inr parent \<Rightarrow> map_res (Cons level) (grow_levels sha parent))
      else Inr [level])"
  by pat_completeness auto
termination
  by (relation "measure (\<lambda>(sha, level). length level)") (fastforce dest: length_parent_level)+

declare grow_levels.simps [simp del]

definition build_levels :: "(bytes \<Rightarrow> bytes) \<Rightarrow> bytes list \<Rightarrow> bytes list list result" where
  "build_levels sha leaves = bind_res (pad_sequence leaves) (grow_levels sha)"

definition last_first :: "bytes list list \<Rightarrow> bytes result" where
  "last_first levels = (if levels = [] then Inl IndexError else nth_res (last levels) 0)"

definition compute_root :: "(bytes \<Rightarrow> bytes) \<Rightarrow> bytes list \<Rightarrow> bytes result" where
  "compute_root sha leaf_hashes =
     (if leaf_hashes = [] then Inr zero_bytes32
      else bind_res (build_levels sha leaf_hashes) last_first)"

record inclusion_proof =
  leaf_hash :: bytes
  ipath :: "(bytes \<times> bool) list"
  root_hash :: bytes
  block_index :: json

text \<open>The loop over \<open>levels[:-1]\<close> that collects the siblings.\<close>

fun collect_path :: "bytes list list \<Rightarrow> nat \<Rightarrow> (bytes \<times> bool) list result" where
  "collect_path [] idx = Inr []"
| "collect_path (level # levels) idx =
     bind_res (if idx mod 2 = 0 then map_res (\<lambda>s. (s, False)) (nth_res level (idx + 1))
               else map_res (\<lambda>s. (s, True)) (nth_res level (idx - 1)))
       (\<lambda>s. map_res (Cons s) (collect_path levels (idx div 2)))"

definition generate_inclusion_proof ::
  "(bytes \<Rightarrow> bytes) \<Rightarrow> ('d \<Rightarrow> bytes) \<Rightarrow> 'd \<Rightarrow> int \<Rightarrow> bytes list \<Rightarrow> inclusion_proof result" where
  "generate_inclusion_proof sha ser leaf_data leaf_index all_leaf_hashes =
     (if all_leaf_hashes = [] then Inl ValueError
      else if leaf_index < 0 \<or> int (length all_leaf_hashes) \<le> leaf_index then Inl IndexError
      else bind_res (build_levels sha all_leaf_hashes) (\<lambda>levels.
           bind_res (collect_path (butlast levels) (nat leaf_index)) (\<lambda>path.
           map_res (\<lambda>root. \<lparr> leaf_hash = safe_hash sha (ser leaf_data), ipath = path,
                            root_hash = root, block_index = JInt leaf_index \<rparr>)
             (last_first levels))))"

definition verify_step :: "(bytes \<Rightarrow> bytes) \<Rightarrow> bytes \<Rightarrow> bytes \<times> bool \<Rightarrow> bytes" where
  "verify_step sha current sd =
     (if snd sd then hash_pair sha (fst sd) current else hash_pair sha current (fst sd))"

definition verify_inclusion_proof ::
  "(bytes \<Rightarrow> bytes) \<Rightarrow> ('d \<Rightarrow> bytes) \<Rightarrow> inclusion_proof \<Rightarrow> 'd \<Rightarrow> bool" where
  "verify_inclusion_proof sha ser proof leaf_data =
     (let current = safe_hash sha (ser leaf_data)
      in if current \<noteq> leaf_hash proof then False
         else foldl (verify_step sha) current (ipath proof) = root_hash proof)"

section \<open>The dictionary form of a proof\<close>

definition to_dict :: "inclusion_proof \<Rightarrow> json" where
  "to_dict p = JDict
     [(''leaf_hash'', JStr (to_hex (leaf_hash p))),
      (''path'', JList (map (\<lambda>(h, d). JList [JStr (to_hex h), JBool d]) (ipath p))),
      (''root_hash'', JStr (to_hex (root_hash p))),
      (''block_index'', block_index p)]"

definition from_dict_step :: "json \<Rightarrow> (bytes \<times> bool) result" where
  "from_dict_step j =
     bind_res (json_unpack2 j) (\<lambda>(h, d). map_res (\<lambda>b. (b, json_truthy d)) (json_fromhex h))"

definition from_dict :: "json \<Rightarrow> inclusion_proof result" where
  "from_dict data =
     bind_res (bind_res (json_key data ''leaf_hash'') json_fromhex) (\<lambda>lh.
     bind_res (bind_res (json_key data ''path'')
                 (\<lambda>j. bind_res (json_iter j) (map_result from_dict_step))) (\<lambda>pth.
     bind_res (bind_res (json_key data ''root_hash'') json_fromhex) (\<lambda>rh.
     map_res (\<lambda>bi. \<lparr> leaf_hash = lh, ipath = pth, root_hash = rh, block_index = bi \<rparr>)
       (json_key data ''block_index''))))"

section \<open>The incremental tree\<close>

record merkle_tree =
  levels :: "bytes option list list"
  reals :: "bytes list"
  pad_hashes :: "bytes list"

definition zero_or_last :: "bytes list \<Rightarrow> bytes" where
  "zero_or_last rs = (if rs = [] then zero_bytes32 else last rs)"

fun pad_chain :: "(bytes \<Rightarrow> bytes) \<Rightarrow> bytes \<Rightarrow> nat \<Rightarrow> bytes list" where
  "pad_chain sha h 0 = []"
| "pad_chain sha h (Suc n) = (let h' = hash_pair sha h h in h' # pad_chain sha h' n)"

definition compute_pad_hashes ::
  "(bytes \<Rightarrow> bytes) \<Rightarrow> bytes list \<Rightarrow> bytes option list list \<Rightarrow> bytes list" where
  "compute_pad_hashes sha rs lvls =
     (let leaf = zero_or_last rs in leaf # pad_chain sha leaf (length lvls - 1))"

definition nullify_from :: "nat \<Rightarrow> bytes option list \<Rightarrow> bytes option list" where
  "nullify_from start level = take start level @ replicate (length level - start) None"

fun nullify_pads :: "nat \<Rightarrow> nat \<Rightarrow> bytes option list list \<Rightarrow> bytes option list list" where
  "nullify_pads n k [] = []"
| "nullify_pads n k (level # lvls) =
     nullify_from ((n + 2 ^ k - 1) div 2 ^ k) level # nullify_pads n (Suc k) lvls"

definition init_tree :: "(bytes \<Rightarrow> bytes) \<Rightarrow> bytes list \<Rightarrow> merkle_tree result" where
  "init_tree sha leaves =
     (if leaves \<noteq> []
      then map_res (\<lambda>lvls. let ls = nullify_pads (length leaves) 0 (map (map Some) lvls)
                           in \<lparr> levels = ls, reals = leaves,
                                pad_hashes = compute_pad_hashes sha leaves ls \<rparr>)
             (build_levels sha leaves)
      else Inr \<lparr> levels = [[]], reals = [], pad_hashes = compute_pad_hashes sha [] [[]] \<rparr>)"

definition node :: "merkle_tree \<Rightarrow> nat \<Rightarrow> nat \<Rightarrow> bytes result" where
  "node t k j =
     bind_res (nth_res (levels t) k) (\<lambda>level.
       (case (if j < length level then level ! j else None) of
          Some value \<Rightarrow> Inr value
        | None \<Rightarrow> nth_res (pad_hashes t) k))"

definition root :: "merkle_tree \<Rightarrow> bytes result" where
  "root t = (if reals t = [] then Inr zero_bytes32 else node t (length (levels t) - 1) 0)"

definition depth :: "merkle_tree \<Rightarrow> nat" where
  "depth t = length (levels t) - 1"

text \<open>\<open>while len(level) <= i: level.append(None)\<close>, then \<open>level[i] = v\<close>.\<close>

definition extend_to :: "nat \<Rightarrow> bytes option list \<Rightarrow> bytes option list" where
  "extend_to i level = level @ replicate (Suc i - length level) None"

definition store :: "merkle_tree \<Rightarrow> nat \<Rightarrow> nat \<Rightarrow> bytes \<Rightarrow> merkle_tree" where
  "store t k i v = t\<lparr>levels := (levels t)[k := (extend_to i (levels t ! k))[i := Some v]]\<rparr>"

text \<open>
  \<open>_refresh_path\<close>: the loop \<open>for k in range(1, len(self._levels))\<close>; the second argument counts
  the levels that are left.
\<close>

fun refresh_path :: "(bytes \<Rightarrow> bytes) \<Rightarrow> nat \<Rightarrow> nat \<Rightarrow> nat \<Rightarrow> merkle_tree \<Rightarrow> merkle_tree result" where
  "refresh_path sha 0 k idx t = Inr t"
| "refresh_path sha (Suc m) k idx t =
     (let i = idx div 2
      in bind_res (node t (k - 1) (2 * i)) (\<lambda>l.
         bind_res (node t (k - 1) (2 * i + 1)) (\<lambda>r.
         refresh_path sha m (Suc k) i (store t k i (hash_pair sha l r)))))"

definition append_leaf :: "(bytes \<Rightarrow> bytes) \<Rightarrow> merkle_tree \<Rightarrow> bytes \<Rightarrow> merkle_tree result" where
  "append_leaf sha t leaf =
     (if levels t = [[]]
      then Inr (let ls = [[Some leaf]]; rs = reals t @ [leaf]
                in t\<lparr>levels := ls, reals := rs, pad_hashes := compute_pad_hashes sha rs ls\<rparr>)
      else let rs = reals t @ [leaf];
               padded = next_pow2 (length rs);
               ls = (if length (levels t) < bit_length padded then levels t @ [[]] else levels t);
               t1 = store (t\<lparr>levels := ls, reals := rs\<rparr>) 0 (length rs - 1) leaf;
               t2 = t1\<lparr>pad_hashes := compute_pad_hashes sha rs (levels t1)\<rparr>
           in refresh_path sha (length (levels t2) - 1) 1 (length rs - 1) t2)"

fun proof_from :: "merkle_tree \<Rightarrow> nat \<Rightarrow> nat \<Rightarrow> nat \<Rightarrow> (bytes \<times> bool) list result" where
  "proof_from t 0 k idx = Inr []"
| "proof_from t (Suc m) k idx =
     bind_res (if idx mod 2 = 0 then node t k (idx + 1) else node t k (idx - 1)) (\<lambda>sibling.
       map_res (Cons (sibling, idx mod 2 \<noteq> 0)) (proof_from t m (Suc k) (idx div 2)))"

definition tree_proof :: "merkle_tree \<Rightarrow> int \<Rightarrow> (bytes \<times> bool) list result" where
  "tree_proof t leaf_index =
     (if \<not> (0 \<le> leaf_index \<and> leaf_index < int (length (reals t))) then Inl IndexError
      else proof_from t (length (levels t) - 1) 0 (nat leaf_index))"

definition tree_inclusion_proof ::
  "(bytes \<Rightarrow> bytes) \<Rightarrow> ('d \<Rightarrow> bytes) \<Rightarrow> merkle_tree \<Rightarrow> 'd \<Rightarrow> int \<Rightarrow> inclusion_proof result" where
  "tree_inclusion_proof sha ser t leaf_data leaf_index =
     (if \<not> (0 \<le> leaf_index \<and> leaf_index < int (length (reals t))) then Inl IndexError
      else bind_res (tree_proof t leaf_index) (\<lambda>path.
           map_res (\<lambda>r. \<lparr> leaf_hash = safe_hash sha (ser leaf_data), ipath = path,
                          root_hash = r, block_index = JInt leaf_index \<rparr>) (root t)))"

fun append_leaves :: "(bytes \<Rightarrow> bytes) \<Rightarrow> merkle_tree \<Rightarrow> bytes list \<Rightarrow> merkle_tree result" where
  "append_leaves sha t [] = Inr t"
| "append_leaves sha t (x # xs) = bind_res (append_leaf sha t x) (\<lambda>t'. append_leaves sha t' xs)"

section \<open>The static builder implements the specification\<close>

definition leaf_at :: "bytes list \<Rightarrow> nat \<Rightarrow> bytes" where
  "leaf_at leaves j = (if j < length leaves then leaves ! j else last leaves)"

definition tdepth :: "nat \<Rightarrow> nat" where
  "tdepth n = bit_length (n - 1)"

definition mlevels :: "('h \<Rightarrow> 'h \<Rightarrow> 'h) \<Rightarrow> (nat \<Rightarrow> 'h) \<Rightarrow> nat \<Rightarrow> nat \<Rightarrow> 'h list list" where
  "mlevels hp f k d = map (\<lambda>i. map (mnode hp f (k + i)) [0..<2 ^ (d - i)]) [0..<Suc d]"

lemma hash_pair_commute: "hash_pair sha a b = hash_pair sha b a"
  by (cases "a < b"; cases "b < a") (auto simp: hash_pair_def not_less)

lemma verify_step_mstep: "verify_step sha = mstep (hash_pair sha)"
  by (intro ext) (simp add: verify_step_def mstep_def)

lemma next_pow2_tdepth: "0 < n \<Longrightarrow> next_pow2 n = 2 ^ tdepth n"
  by (simp add: next_pow2_def tdepth_def)

lemma le_pow_tdepth: "n \<le> 2 ^ tdepth n"
  using less_pow_bit_length [of "n - 1"] by (simp add: tdepth_def)

lemma bit_length_next_pow2: "0 < n \<Longrightarrow> bit_length (next_pow2 n) = Suc (tdepth n)"
  by (simp add: next_pow2_tdepth bit_length_pow2)

lemma pad_sequence_eq:
  assumes "leaves \<noteq> []"
  shows "pad_sequence leaves = Inr (map (leaf_at leaves) [0..<2 ^ tdepth (length leaves)])"
proof -
  let ?n = "length leaves" and ?t = "2 ^ tdepth (length leaves)"
  have "leaves @ replicate (?t - ?n) (last leaves) = map (leaf_at leaves) [0..<?t]"
    using le_pow_tdepth [of ?n]
    by (intro nth_equalityI) (auto simp: leaf_at_def nth_append)
  with assms show ?thesis by (simp add: pad_sequence_def next_pow2_tdepth)
qed

lemma upt_0_Suc: "[0..<Suc n] = 0 # map Suc [0..<n]"
  by (simp add: map_Suc_upt upt_conv_Cons del: upt_Suc)

lemma upt_double_Suc: "[0..<2 * Suc m] = 0 # 1 # map (\<lambda>i. Suc (Suc i)) [0..<2 * m]"
proof -
  have "2 * Suc m = Suc (Suc (2 * m))" by simp
  then show ?thesis by (simp only: upt_0_Suc list.map map_map comp_def One_nat_def)
qed

lemma parent_level_map:
  "parent_level sha (map f [0..<2 * m]) = Inr (map (\<lambda>j. hash_pair sha (f (2 * j)) (f (2 * j + 1))) [0..<m])"
proof (induction m arbitrary: f)
  case 0
  then show ?case by simp
next
  case (Suc m)
  have "map f [0..<2 * Suc m] = f 0 # f 1 # map (\<lambda>i. f (Suc (Suc i))) [0..<2 * m]"
    by (simp only: upt_double_Suc list.map map_map comp_def)
  moreover have "parent_level sha (map (\<lambda>i. f (Suc (Suc i))) [0..<2 * m])
      = Inr (map (\<lambda>j. hash_pair sha (f (2 * Suc j)) (f (2 * Suc j + 1))) [0..<m])"
    using Suc [of "\<lambda>i. f (Suc (Suc i))"] by simp
  ultimately show ?case by (simp add: upt_0_Suc del: upt_Suc mult_Suc_right)
qed

lemma mlevels_0: "mlevels hp f k 0 = [map (mnode hp f k) [0..<1]]"
  by (simp add: mlevels_def)

lemma mlevels_Suc:
  "mlevels hp f k (Suc d) = map (mnode hp f k) [0..<2 ^ Suc d] # mlevels hp f (Suc k) d"
  unfolding mlevels_def by (subst upt_0_Suc) (simp del: upt_Suc)

lemma length_mlevels [simp]: "length (mlevels hp f k d) = Suc d"
  by (simp add: mlevels_def)

lemma mlevels_not_Nil [simp]: "mlevels hp f k d \<noteq> []"
  by (simp add: mlevels_def)

lemma nth_mlevels: "i \<le> d \<Longrightarrow> mlevels hp f k d ! i = map (mnode hp f (k + i)) [0..<2 ^ (d - i)]"
  unfolding mlevels_def by (subst nth_map) (simp_all del: upt_Suc)

lemma grow_levels_eq:
  "grow_levels sha (map (mnode (hash_pair sha) f k) [0..<2 ^ d]) = Inr (mlevels (hash_pair sha) f k d)"
proof (induction d arbitrary: k)
  case 0
  show ?case by (simp add: grow_levels.simps mlevels_0)
next
  case (Suc d)
  have "parent_level sha (map (mnode (hash_pair sha) f k) [0..<2 ^ Suc d])
      = Inr (map (mnode (hash_pair sha) f (Suc k)) [0..<2 ^ d])"
    using parent_level_map [of sha "mnode (hash_pair sha) f k" "2 ^ d"] by simp
  moreover have "1 < length (map (mnode (hash_pair sha) f k) [0..<2 ^ Suc d])"
    using one_less_power [of "2::nat" "Suc d"] by simp
  ultimately show ?case
    using Suc [of "Suc k"] by (subst grow_levels.simps) (simp add: mlevels_Suc del: power_Suc mnode.simps(2))
qed

lemma build_levels_eq:
  assumes "leaves \<noteq> []"
  shows "build_levels sha leaves
    = Inr (mlevels (hash_pair sha) (leaf_at leaves) 0 (tdepth (length leaves)))"
proof -
  have "leaf_at leaves = mnode (hash_pair sha) (leaf_at leaves) 0" by (rule ext) simp
  then have "pad_sequence leaves
      = Inr (map (mnode (hash_pair sha) (leaf_at leaves) 0) [0..<2 ^ tdepth (length leaves)])"
    using pad_sequence_eq [OF assms] by metis
  then show ?thesis by (simp add: build_levels_def grow_levels_eq)
qed

lemma last_first_mlevels: "last_first (mlevels hp f k d) = Inr (mnode hp f (k + d) 0)"
proof -
  have "last (mlevels hp f k d) = [mnode hp f (k + d) 0]"
    by (simp add: last_conv_nth nth_mlevels)
  then show ?thesis by (simp add: last_first_def)
qed

definition static_root :: "(bytes \<Rightarrow> bytes) \<Rightarrow> bytes list \<Rightarrow> bytes" where
  "static_root sha leaves = mnode (hash_pair sha) (leaf_at leaves) (tdepth (length leaves)) 0"

definition static_path :: "(bytes \<Rightarrow> bytes) \<Rightarrow> bytes list \<Rightarrow> nat \<Rightarrow> (bytes \<times> bool) list" where
  "static_path sha leaves i = mpath (hash_pair sha) (leaf_at leaves) (tdepth (length leaves)) 0 i"

lemma compute_root_eq:
  "leaves \<noteq> [] \<Longrightarrow> compute_root sha leaves = Inr (static_root sha leaves)"
  by (simp add: compute_root_def build_levels_eq last_first_mlevels static_root_def)

lemma butlast_mlevels_Suc:
  "butlast (mlevels hp f k (Suc d)) = map (mnode hp f k) [0..<2 ^ Suc d] # butlast (mlevels hp f (Suc k) d)"
  by (simp only: mlevels_Suc butlast.simps mlevels_not_Nil if_False)

lemma collect_path_eq:
  "idx < 2 ^ d \<Longrightarrow> collect_path (butlast (mlevels hp f k d)) idx = Inr (mpath hp f d k idx)"
proof (induction d arbitrary: k idx)
  case 0
  show ?case by (simp add: mlevels_0)
next
  case (Suc d)
  from Suc.prems have "idx div 2 < 2 ^ d" by auto
  then have IH: "collect_path (butlast (mlevels hp f (Suc k) d)) (idx div 2)
      = Inr (mpath hp f d (Suc k) (idx div 2))" by (rule Suc.IH)
  have sib: "idx + 1 < 2 ^ Suc d" if "idx mod 2 = 0"
    using that Suc.prems by (simp add: less_Suc_eq_le) presburger
  show ?case
  proof (cases "idx mod 2 = 0")
    case True
    with sib IH show ?thesis
      by (simp add: butlast_mlevels_Suc even_iff_mod_2_eq_zero del: power_Suc upt_Suc)
  next
    case False
    with Suc.prems IH show ?thesis
      by (simp add: butlast_mlevels_Suc even_iff_mod_2_eq_zero del: power_Suc upt_Suc)
  qed
qed

lemma generate_inclusion_proof_eq:
  assumes "i < length leaves"
  shows "generate_inclusion_proof sha ser data (int i) leaves
    = Inr \<lparr> leaf_hash = safe_hash sha (ser data), ipath = static_path sha leaves i,
            root_hash = static_root sha leaves, block_index = JInt (int i) \<rparr>"
proof -
  from assms have "leaves \<noteq> []" by auto
  moreover have "i < 2 ^ tdepth (length leaves)"
    using assms le_pow_tdepth [of "length leaves"] by simp
  ultimately show ?thesis
    using assms
    by (simp add: generate_inclusion_proof_def build_levels_eq collect_path_eq last_first_mlevels
        static_path_def static_root_def)
qed

interpretation static: inclusion_scheme "verify_step sha" "static_root sha" "static_path sha" for sha
proof
  fix i and ls :: "bytes list"
  assume i: "i < length ls"
  then have "i < 2 ^ tdepth (length ls)" using le_pow_tdepth [of "length ls"] by simp
  then have "i div 2 ^ tdepth (length ls) = 0" by simp
  moreover have "mnode (hash_pair sha) (leaf_at ls) 0 i = ls ! i" using i by (simp add: leaf_at_def)
  ultimately show "foldl (verify_step sha) (ls ! i) (static_path sha ls i) = static_root sha ls"
    using mpath_complete [of "hash_pair sha" "leaf_at ls" 0 i "tdepth (length ls)"]
    by (simp add: verify_step_mstep static_path_def static_root_def)
qed

section \<open>The incremental tree implements the specification\<close>

definition slot :: "'a option list \<Rightarrow> nat \<Rightarrow> 'a option" where
  "slot level j = (if j < length level then level ! j else None)"

definition node_spec :: "(bytes \<Rightarrow> bytes) \<Rightarrow> bytes list \<Rightarrow> nat \<Rightarrow> nat \<Rightarrow> bytes option" where
  "node_spec sha rs k j =
     (if j * 2 ^ k < length rs then Some (mnode (hash_pair sha) (leaf_at rs) k j) else None)"

definition pad_spec :: "(bytes \<Rightarrow> bytes) \<Rightarrow> bytes list \<Rightarrow> nat \<Rightarrow> bytes list" where
  "pad_spec sha rs m = map (\<lambda>k. mnode (hash_pair sha) (\<lambda>_. last rs) k 0) [0..<m]"

text \<open>
  A stored level is right when it holds exactly the nodes that cover a real leaf; \<open>level_pre\<close>
  leaves out the node on the path of the last leaf, which \<open>refresh_path\<close> recomputes.
\<close>

definition level_inv :: "(bytes \<Rightarrow> bytes) \<Rightarrow> bytes list \<Rightarrow> nat \<Rightarrow> bytes option list \<Rightarrow> bool" where
  "level_inv sha rs k level = (\<forall>j. slot level j = node_spec sha rs k j)"

definition level_pre :: "(bytes \<Rightarrow> bytes) \<Rightarrow> bytes list \<Rightarrow> nat \<Rightarrow> bytes option list \<Rightarrow> bool" where
  "level_pre sha rs k level =
     (\<forall>j. j \<noteq> (length rs - 1) div 2 ^ k \<longrightarrow> slot level j = node_spec sha rs k j)"

definition tree_inv :: "(bytes \<Rightarrow> bytes) \<Rightarrow> merkle_tree \<Rightarrow> bool" where
  "tree_inv sha t =
     (if reals t = [] then levels t = [[]]
      else length (levels t) = Suc (tdepth (length (reals t)))
         \<and> pad_hashes t = pad_spec sha (reals t) (length (levels t))
         \<and> (\<forall>k < length (levels t). level_inv sha (reals t) k (levels t ! k)))"

lemma slot_Nil [simp]: "slot [] j = None"
  by (simp add: slot_def)

lemma slot_store [simp]:
  "slot ((extend_to i level)[i := Some v]) j = (if j = i then Some v else slot level j)"
  by (auto simp: slot_def extend_to_def nth_append)

lemma slot_nullify:
  "slot (nullify_from start (map Some xs)) j = (if j < start \<and> j < length xs then Some (xs ! j) else None)"
  by (auto simp: slot_def nullify_from_def nth_append)

lemma length_nullify_pads [simp]: "length (nullify_pads n k ls) = length ls"
  by (induction ls arbitrary: k) auto

lemma nth_nullify_pads:
  "i < length ls \<Longrightarrow>
    nullify_pads n k ls ! i = nullify_from ((n + 2 ^ (k + i) - 1) div 2 ^ (k + i)) (ls ! i)"
  by (induction ls arbitrary: k i) (auto simp: nth_Cons split: nat.split)

lemma less_ceil_div: "j < (n + 2 ^ k - 1) div 2 ^ k \<longleftrightarrow> j * 2 ^ k < (n::nat)"
proof -
  have "j < (n + 2 ^ k - 1) div 2 ^ k \<longleftrightarrow> Suc j * 2 ^ k \<le> n + 2 ^ k - 1"
    using less_eq_div_iff_mult_less_eq [of "2 ^ k" "Suc j" "n + 2 ^ k - 1"]
    by (simp add: Suc_le_eq del: mult_Suc)
  also have "\<dots> \<longleftrightarrow> j * 2 ^ k < n" using zero_less_power [OF pos2, of k] by (simp; linarith)
  finally show ?thesis .
qed

lemma pad_chain_eq:
  "pad_chain sha (mnode (hash_pair sha) (\<lambda>_. x) k 0) n
    = map (\<lambda>i. mnode (hash_pair sha) (\<lambda>_. x) (Suc k + i) 0) [0..<n]"
proof (induction n arbitrary: k)
  case 0
  then show ?case by simp
next
  case (Suc n)
  show ?case
    by (subst upt_0_Suc)
      (simp only: pad_chain.simps Let_def mnode_const_Suc [symmetric] Suc, simp del: mnode.simps(2))
qed

lemma compute_pad_hashes_eq:
  assumes "rs \<noteq> []" and "ls \<noteq> []"
  shows "compute_pad_hashes sha rs ls = pad_spec sha rs (length ls)"
proof -
  obtain m where m: "length ls = Suc m" using assms(2) by (cases ls) auto
  have "mnode (hash_pair sha) (\<lambda>_. last rs) 0 0 = last rs" by simp
  then have "pad_chain sha (last rs) m = map (\<lambda>i. mnode (hash_pair sha) (\<lambda>_. last rs) (Suc 0 + i) 0) [0..<m]"
    using pad_chain_eq [of sha "last rs" 0 m] by simp
  with m assms(1) show ?thesis
    by (simp add: compute_pad_hashes_def zero_or_last_def pad_spec_def upt_0_Suc Let_def comp_def
        del: upt_Suc mnode.simps(2))
qed

lemma leaf_at_past: "length rs \<le> Suc i \<Longrightarrow> rs \<noteq> [] \<Longrightarrow> leaf_at rs i = last rs"
  by (auto simp: leaf_at_def last_conv_nth le_Suc_eq)

lemma mnode_past:
  assumes "length rs \<le> j * 2 ^ k" and "rs \<noteq> []"
  shows "mnode hp (leaf_at rs) k j = mnode hp (\<lambda>_. last rs) k 0"
  by (rule mnode_const) (use assms in \<open>auto intro: leaf_at_past\<close>)

lemma node_eq:
  assumes "k < length (levels t)" and "pad_hashes t = pad_spec sha (reals t) (length (levels t))"
    and "level_inv sha (reals t) k (levels t ! k)" and "reals t \<noteq> []"
  shows "node t k j = Inr (mnode (hash_pair sha) (leaf_at (reals t)) k j)"
proof -
  have s: "(if j < length (levels t ! k) then levels t ! k ! j else None) = node_spec sha (reals t) k j"
    using assms(3) by (simp add: level_inv_def slot_def)
  have pad: "nth_res (pad_hashes t) k = Inr (mnode (hash_pair sha) (\<lambda>_. last (reals t)) k 0)"
    using assms(1,2) by (simp add: pad_spec_def)
  show ?thesis
    using assms(1,4) mnode_past [of "reals t" j k "hash_pair sha"]
    by (simp only: node_def s pad nth_res_in bind_res_Inr) (auto simp: node_spec_def not_less)
qed

lemma level_pre_append:
  assumes "level_inv sha rs k level" and "rs \<noteq> []"
  shows "level_pre sha (rs @ [x]) k level"
proof -
  have "slot level j = node_spec sha (rs @ [x]) k j" if j: "j \<noteq> length rs div 2 ^ k" for j
  proof (cases "j * 2 ^ k < length rs")
    case True
    then have "j \<le> length rs div 2 ^ k"
      by (simp add: less_eq_div_iff_mult_less_eq)
    with j have "Suc j \<le> length rs div 2 ^ k" by simp
    then have "(j + 1) * 2 ^ k \<le> length rs"
      by (simp add: less_eq_div_iff_mult_less_eq)
    then have "mnode (hash_pair sha) (leaf_at rs) k j = mnode (hash_pair sha) (leaf_at (rs @ [x])) k j"
      by (intro mnode_cong) (auto simp: leaf_at_def nth_append)
    with True assms(1) show ?thesis by (simp add: level_inv_def node_spec_def)
  next
    case False
    from j have "j * 2 ^ k \<noteq> length rs" by (metis div_mult_self_is_m pos2 zero_less_power)
    with False have "\<not> j * 2 ^ k < Suc (length rs)" by simp
    with False assms(1) show ?thesis by (simp add: level_inv_def node_spec_def)
  qed
  then show ?thesis by (simp add: level_pre_def)
qed

lemma level_pre_top:
  assumes "length rs \<le> 2 ^ k"
  shows "level_pre sha rs k []"
proof -
  have "length rs \<le> j * 2 ^ k" if "j \<noteq> (length rs - 1) div 2 ^ k" for j
  proof -
    have "length rs - 1 < 2 ^ k" using assms by (cases "length rs") auto
    then have "(length rs - 1) div 2 ^ k = 0" by simp
    with that have "1 * 2 ^ k \<le> j * 2 ^ k" by (intro mult_right_mono) auto
    with assms show ?thesis by linarith
  qed
  then show ?thesis unfolding level_pre_def node_spec_def slot_Nil by (metis not_less)
qed

lemma level_inv_store:
  assumes "level_pre sha rs k level" and "i = (length rs - 1) div 2 ^ k" and "rs \<noteq> []"
    and "v = mnode (hash_pair sha) (leaf_at rs) k i"
  shows "level_inv sha rs k ((extend_to i level)[i := Some v])"
proof -
  have "i * 2 ^ k \<le> length rs - 1" using assms(2) by simp
  with assms(3) have "i * 2 ^ k < length rs" by (cases rs) auto
  with assms(4) have "node_spec sha rs k i = Some v" by (simp add: node_spec_def)
  with assms(1,2) show ?thesis by (simp add: level_inv_def level_pre_def)
qed

lemma refresh_path_ok:
  assumes "reals t = rs" and "rs \<noteq> []" and "length (levels t) = k + m" and "1 \<le> k"
    and "pad_hashes t = pad_spec sha rs (k + m)"
    and "\<And>i. i < k \<Longrightarrow> level_inv sha rs i (levels t ! i)"
    and "\<And>i. k \<le> i \<Longrightarrow> i < k + m \<Longrightarrow> level_pre sha rs i (levels t ! i)"
    and "idx = (length rs - 1) div 2 ^ (k - 1)"
  shows "\<exists>t'. refresh_path sha m k idx t = Inr t' \<and> reals t' = rs
    \<and> pad_hashes t' = pad_hashes t \<and> length (levels t') = k + m
    \<and> (\<forall>i < k + m. level_inv sha rs i (levels t' ! i))"
  using assms
proof (induction m arbitrary: k idx t)
  case 0
  then show ?case by simp
next
  case (Suc m)
  let ?hp = "hash_pair sha" and ?i = "idx div 2"
  let ?v = "?hp (mnode ?hp (leaf_at rs) (k - 1) (2 * ?i)) (mnode ?hp (leaf_at rs) (k - 1) (2 * ?i + 1))"
  let ?t = "store t k ?i ?v"
  have nd: "node t (k - 1) j = Inr (mnode ?hp (leaf_at rs) (k - 1) j)" for j
    using Suc.prems node_eq [of "k - 1" t sha j] by simp
  have v: "?v = mnode ?hp (leaf_at rs) k ?i"
    using Suc.prems(4) by (cases k) simp_all
  have i: "?i = (length rs - 1) div 2 ^ k"
    using Suc.prems(4,8) by (cases k) (simp_all add: div_mult2_eq [symmetric] mult.commute)
  have k: "level_inv sha rs k (levels ?t ! k)"
    using Suc.prems(2,3,7) level_inv_store [OF _ i _ v]
    by (simp add: store_def)
  have "\<exists>t'. refresh_path sha m (Suc k) ?i ?t = Inr t' \<and> reals t' = rs
    \<and> pad_hashes t' = pad_hashes ?t \<and> length (levels t') = Suc k + m
    \<and> (\<forall>i < Suc k + m. level_inv sha rs i (levels t' ! i))"
  proof (rule Suc.IH)
    show "level_inv sha rs i (levels ?t ! i)" if "i < Suc k" for i
      using that k Suc.prems(6) by (cases "i = k") (auto simp: store_def)
    show "level_pre sha rs i (levels ?t ! i)" if "Suc k \<le> i" "i < Suc k + m" for i
      using that Suc.prems(7) by (auto simp: store_def)
  qed (use Suc.prems i in \<open>simp_all add: store_def\<close>)
  then show ?case using nd by (simp add: store_def Let_def)
qed

lemma tdepth_Suc: "0 < n \<Longrightarrow> tdepth (Suc n) = tdepth n \<or> tdepth (Suc n) = Suc (tdepth n)"
  using bit_length_Suc_le [of "n - 1"] bit_length_mono [of "n - 1" n] by (auto simp: tdepth_def)

lemma append_levels_pre:
  assumes inv: "tree_inv sha t" and ne: "reals t \<noteq> []"
    and ls: "ls = (if length (levels t) < bit_length (next_pow2 (Suc (length (reals t))))
                   then levels t @ [[]] else levels t)"
  shows "length ls = Suc (tdepth (Suc (length (reals t))))"
    and "i < length ls \<Longrightarrow> level_pre sha (reals t @ [x]) i (ls ! i)"
proof -
  let ?n = "length (reals t)"
  from inv ne have len: "length (levels t) = Suc (tdepth ?n)"
    and lv: "\<And>k. k < length (levels t) \<Longrightarrow> level_inv sha (reals t) k (levels t ! k)"
    by (auto simp: tree_inv_def)
  show ll: "length ls = Suc (tdepth (Suc ?n))"
    using len ls ne tdepth_Suc [of ?n] by (auto simp: bit_length_next_pow2)
  show "level_pre sha (reals t @ [x]) i (ls ! i)" if "i < length ls"
  proof (cases "i < length (levels t)")
    case True
    then have "ls ! i = levels t ! i" by (simp add: ls nth_append)
    with True lv ne show ?thesis by (simp add: level_pre_append)
  next
    case False
    with that len ls have "ls = levels t @ [[]]" and "i = length (levels t)"
      by (auto split: if_splits)
    moreover from this ll have "i = tdepth (Suc ?n)" by simp
    ultimately show ?thesis using le_pow_tdepth [of "Suc ?n"] by (simp add: level_pre_top)
  qed
qed

lemma append_leaf_ok:
  assumes inv: "tree_inv sha t"
  shows "\<exists>t'. append_leaf sha t x = Inr t' \<and> reals t' = reals t @ [x] \<and> tree_inv sha t'"
proof (cases "reals t = []")
  case True
  with inv have "levels t = [[]]" by (simp add: tree_inv_def)
  moreover have "level_inv sha [x] 0 [Some x]"
    by (auto simp: level_inv_def node_spec_def slot_def leaf_at_def)
  ultimately show ?thesis using True
    by (simp add: append_leaf_def tree_inv_def Let_def compute_pad_hashes_eq tdepth_def)
next
  case False
  let ?rs = "reals t @ [x]" and ?n = "length (reals t)"
  define ls where "ls = (if length (levels t) < bit_length (next_pow2 (Suc ?n))
                         then levels t @ [[]] else levels t)"
  note pre = append_levels_pre [OF inv False ls_def]
  define t1 where "t1 = store (t\<lparr>levels := ls, reals := ?rs\<rparr>) 0 ?n x"
  define t2 where "t2 = t1\<lparr>pad_hashes := compute_pad_hashes sha ?rs (levels t1)\<rparr>"
  let ?m = "tdepth (Suc ?n)"
  have len: "length (levels t2) = 1 + ?m" and rs: "reals t2 = ?rs"
    using pre(1) by (simp_all add: t2_def t1_def store_def)
  have pads: "pad_hashes t2 = pad_spec sha ?rs (1 + ?m)"
    using len by (auto simp: t2_def intro!: compute_pad_hashes_eq [THEN trans])
  have "level_inv sha ?rs 0 ((extend_to ?n (ls ! 0))[?n := Some x])"
    by (rule level_inv_store) (use pre in \<open>simp_all add: leaf_at_def\<close>)
  then have l0: "level_inv sha ?rs i (levels t2 ! i)" if "i < 1" for i
    using that pre(1) by (simp add: t2_def t1_def store_def)
  have lk: "level_pre sha ?rs i (levels t2 ! i)" if "1 \<le> i" "i < 1 + ?m" for i
    using that pre by (simp add: t2_def t1_def store_def)
  have "levels t \<noteq> [[]]"
  proof
    assume eq: "levels t = [[]]"
    with inv False have "level_inv sha (reals t) 0 []" by (simp add: tree_inv_def)
    then have "node_spec sha (reals t) 0 0 = None" unfolding level_inv_def by (metis slot_Nil)
    with False show False by (simp add: node_spec_def)
  qed
  then have "append_leaf sha t x = refresh_path sha ?m 1 ?n t2"
    using len by (simp add: append_leaf_def Let_def ls_def t1_def t2_def)
  moreover have "\<exists>t'. refresh_path sha ?m 1 ?n t2 = Inr t' \<and> reals t' = ?rs
      \<and> pad_hashes t' = pad_hashes t2 \<and> length (levels t') = 1 + ?m
      \<and> (\<forall>i < 1 + ?m. level_inv sha ?rs i (levels t' ! i))"
    by (rule refresh_path_ok) (use len rs pads l0 lk in simp_all)
  ultimately obtain t' where t': "append_leaf sha t x = Inr t'" "reals t' = ?rs"
    "pad_hashes t' = pad_spec sha ?rs (1 + ?m)" "length (levels t') = 1 + ?m"
    "\<And>i. i < 1 + ?m \<Longrightarrow> level_inv sha ?rs i (levels t' ! i)"
    using pads by auto
  then have "tree_inv sha t'" by (simp add: tree_inv_def)
  with t' show ?thesis by blast
qed

lemma init_level_inv:
  assumes "k \<le> tdepth (length ls)"
  shows "level_inv sha ls k (nullify_from ((length ls + 2 ^ k - 1) div 2 ^ k)
    (map Some (map (mnode (hash_pair sha) (leaf_at ls) k) [0..<2 ^ (tdepth (length ls) - k)])))"
proof -
  let ?d = "tdepth (length ls)"
  have "j < 2 ^ (?d - k)" if "j * 2 ^ k < length ls" for j
  proof -
    from that le_pow_tdepth [of "length ls"] have "j * 2 ^ k < 2 ^ ?d" by linarith
    also have "(2::nat) ^ ?d = 2 ^ (?d - k) * 2 ^ k" using assms by (simp add: power_add [symmetric])
    finally show ?thesis by simp
  qed
  then show ?thesis
    by (auto simp: level_inv_def slot_nullify node_spec_def less_ceil_div
        simp del: map_map One_nat_def)
qed

lemma init_tree_ok:
  "\<exists>t. init_tree sha ls = Inr t \<and> reals t = ls \<and> tree_inv sha t"
proof (cases "ls = []")
  case True
  then show ?thesis by (simp add: init_tree_def tree_inv_def)
next
  case False
  let ?d = "tdepth (length ls)"
  let ?lv = "nullify_pads (length ls) 0 (map (map Some) (mlevels (hash_pair sha) (leaf_at ls) 0 ?d))"
  have "level_inv sha ls k (?lv ! k)" if "k < Suc ?d" for k
    using that init_level_inv [of k ls sha]
    by (simp add: nth_nullify_pads nth_mlevels less_Suc_eq_le del: map_map)
  moreover have "?lv \<noteq> []" by (metis length_map length_mlevels length_nullify_pads list.size(3) nat.simps(3))
  ultimately show ?thesis using False
    by (simp add: init_tree_def build_levels_eq tree_inv_def Let_def compute_pad_hashes_eq)
qed

lemma append_leaves_ok:
  "tree_inv sha t \<Longrightarrow>
    \<exists>t'. append_leaves sha t xs = Inr t' \<and> reals t' = reals t @ xs \<and> tree_inv sha t'"
proof (induction xs arbitrary: t)
  case Nil
  then show ?case by simp
next
  case (Cons x xs)
  obtain t1 where t1: "append_leaf sha t x = Inr t1" "reals t1 = reals t @ [x]" "tree_inv sha t1"
    using append_leaf_ok [OF Cons.prems] by blast
  with Cons.IH [OF t1(3)] show ?case by auto
qed

lemma tree_inv_node:
  "tree_inv sha t \<Longrightarrow> reals t \<noteq> [] \<Longrightarrow> k \<le> tdepth (length (reals t)) \<Longrightarrow>
    node t k j = Inr (mnode (hash_pair sha) (leaf_at (reals t)) k j)"
  by (rule node_eq) (auto simp: tree_inv_def)

lemma tree_root_eq:
  assumes "tree_inv sha t"
  shows "root t = compute_root sha (reals t)"
proof (cases "reals t = []")
  case True
  then show ?thesis by (simp add: root_def compute_root_def)
next
  case False
  with assms show ?thesis
    by (simp add: root_def compute_root_eq static_root_def tree_inv_node)
      (simp add: tree_inv_def tree_inv_node)
qed

lemma proof_from_eq:
  assumes "tree_inv sha t" and "reals t \<noteq> []" and "k + m \<le> tdepth (length (reals t))"
  shows "proof_from t m k idx = Inr (mpath (hash_pair sha) (leaf_at (reals t)) m k idx)"
  using assms(3)
proof (induction m arbitrary: k idx)
  case 0
  then show ?case by simp
next
  case (Suc m)
  then have "k \<le> tdepth (length (reals t))" by simp
  with Suc tree_inv_node [OF assms(1,2)] show ?case
    by (cases "even idx") (simp_all add: even_iff_mod_2_eq_zero)
qed

lemma tree_proof_eq:
  assumes "tree_inv sha t" and "i < length (reals t)"
  shows "tree_proof t (int i) = Inr (static_path sha (reals t) i)"
proof -
  from assms have "length (levels t) = Suc (tdepth (length (reals t)))"
    by (auto simp: tree_inv_def split: if_splits)
  moreover have "reals t \<noteq> []" using assms(2) by auto
  ultimately show ?thesis
    using assms by (simp add: tree_proof_def static_path_def proof_from_eq)
qed

lemma tree_inclusion_proof_eq:
  assumes "tree_inv sha t" and "reals t \<noteq> []"
  shows "tree_inclusion_proof sha ser t data i = generate_inclusion_proof sha ser data i (reals t)"
proof (cases "0 \<le> i \<and> i < int (length (reals t))")
  case True
  then obtain j where j: "i = int j" "j < length (reals t)"
    by (metis nat_eq_iff nat_less_iff)
  with assms show ?thesis
    by (simp add: tree_inclusion_proof_def tree_proof_eq tree_root_eq compute_root_eq
        generate_inclusion_proof_eq)
next
  case False
  with assms(2) show ?thesis
    by (auto simp: tree_inclusion_proof_def generate_inclusion_proof_def)
qed

section \<open>Binding\<close>

text \<open>
  The byte strings that a tree and a proof hash: the sorted concatenations of two nodes. The
  binding theorem assumes that SHA-256 does not collide on these finitely many inputs.
\<close>

definition sorted_cat :: "bytes \<Rightarrow> bytes \<Rightarrow> bytes" where
  "sorted_cat a b = (if a < b then a @ b else b @ a)"

fun level_inputs :: "bytes list \<Rightarrow> bytes list" where
  "level_inputs (x # y # xs) = sorted_cat x y # level_inputs xs"
| "level_inputs _ = []"

fun path_inputs :: "(bytes \<Rightarrow> bytes) \<Rightarrow> bytes \<Rightarrow> (bytes \<times> bool) list \<Rightarrow> bytes list" where
  "path_inputs sha cur [] = []"
| "path_inputs sha cur (sd # p) = sorted_cat cur (fst sd) # path_inputs sha (verify_step sha cur sd) p"

definition hashed_pairs :: "(bytes \<Rightarrow> bytes) \<Rightarrow> bytes set \<Rightarrow> (bytes \<times> bytes) set" where
  "hashed_pairs sha S =
     {(a, b). inj_on (safe_hash sha) S \<and> length a = 32 \<and> length b = 32 \<and> sorted_cat a b \<in> S}"

lemma hash_pair_sorted_cat: "hash_pair sha a b = safe_hash sha (sorted_cat a b)"
  by (simp add: hash_pair_def sorted_cat_def)

lemma sorted_cat_inj:
  assumes "length a = n" "length b = n" "length c = n" "length d = n"
    and "sorted_cat a b = sorted_cat c d"
  shows "{a, b} = {c, d}"
  using assms by (auto simp: sorted_cat_def split: if_splits)

interpretation binding: binding_scheme "hash_pair sha" "hashed_pairs sha S" for sha S
proof
  fix a b c d
  assume ab: "(a, b) \<in> hashed_pairs sha S" and cd: "(c, d) \<in> hashed_pairs sha S"
    and eq: "hash_pair sha a b = hash_pair sha c d"
  then have "sorted_cat a b = sorted_cat c d"
    by (auto simp: hashed_pairs_def hash_pair_sorted_cat dest: inj_onD)
  moreover have "length a = 32" "length b = 32" "length c = 32" "length d = 32"
    using ab cd by (simp_all add: hashed_pairs_def)
  ultimately show "{a, b} = {c, d}" by (intro sorted_cat_inj)
qed (rule hash_pair_commute)

lemma level_inputs_nth:
  "2 * i + 1 < length xs \<Longrightarrow> sorted_cat (xs ! (2 * i)) (xs ! (2 * i + 1)) \<in> set (level_inputs xs)"
proof (induction xs arbitrary: i rule: level_inputs.induct)
  case (1 x y xs)
  then show ?case by (cases i) auto
qed auto

lemma path_inputs_split:
  "sorted_cat (foldl (verify_step sha) x q) (fst s) \<in> set (path_inputs sha x (q @ s # r))"
  by (induction q arbitrary: x) auto

lemma length_hash_pair: "(\<And>x. length (sha x) = 32) \<Longrightarrow> length (hash_pair sha a b) = 32"
  by (simp add: hash_pair_def safe_hash_def)

lemma length_mnode32:
  assumes "\<And>x. length (sha x) = 32" and "\<And>i. length (leaf i) = 32"
  shows "length (mnode (hash_pair sha) leaf k j) = 32"
  using assms by (cases k) (auto simp: length_hash_pair)

lemma length_verify_fold:
  "(\<And>x. length (sha x) = 32) \<Longrightarrow> length x = 32 \<Longrightarrow> length (foldl (verify_step sha) x p) = 32"
  by (induction p arbitrary: x) (auto simp: verify_step_def length_hash_pair)

lemma mlevels_inputs:
  assumes "m < d" and "i < 2 ^ (d - Suc m)"
  shows "sorted_cat (mnode hp f m (2 * i)) (mnode hp f m (2 * i + 1))
    \<in> set (concat (map level_inputs (mlevels hp f 0 d)))"
proof -
  let ?L = "mlevels hp f 0 d ! m"
  have L: "?L = map (mnode hp f m) [0..<2 ^ (d - m)]" using assms by (simp add: nth_mlevels)
  have "2 ^ (d - m) = 2 * (2::nat) ^ (d - Suc m)"
    using assms(1) by (metis Suc_diff_Suc power_Suc)
  with assms(2) have "2 * i + 1 < length ?L" by (simp add: L)
  then have "sorted_cat (?L ! (2 * i)) (?L ! (2 * i + 1)) \<in> set (level_inputs ?L)"
    by (rule level_inputs_nth)
  moreover have "?L \<in> set (mlevels hp f 0 d)" using assms(1) by simp
  moreover have "2 * i + 1 < 2 ^ (d - m)"
    using \<open>2 * i + 1 < length ?L\<close> by (simp only: L length_map length_upt diff_zero)
  ultimately show ?thesis by (auto simp: L)
qed

lemma static_fold_binds:
  assumes "leaves \<noteq> []"
    and "\<And>y. length (sha y) = 32" and "length x = 32"
    and "\<And>y. y \<in> set leaves \<Longrightarrow> length y = 32" and "\<And>sd. sd \<in> set p \<Longrightarrow> length (fst sd) = 32"
    and "length p = tdepth (length leaves)"
    and inj: "inj_on (safe_hash sha)
      (set (path_inputs sha x p) \<union> set (concat (map level_inputs
         (mlevels (hash_pair sha) (leaf_at leaves) 0 (tdepth (length leaves))))))"
    and "foldl (verify_step sha) x p = static_root sha leaves"
  shows "x \<in> set leaves"
proof -
  let ?d = "tdepth (length leaves)" and ?lv = "mlevels (hash_pair sha) (leaf_at leaves) 0 (tdepth (length leaves))"
  let ?S = "set (path_inputs sha x p) \<union> set (concat (map level_inputs ?lv))"
  have leaf32: "length (leaf_at leaves i) = 32" for i
    using assms(1,4) by (auto simp: leaf_at_def)
  have "\<exists>i < (0 + 1) * 2 ^ length p. x = mnode (hash_pair sha) (leaf_at leaves) 0 i"
  proof (rule binding.fold_binds)
    show "foldl (mstep (hash_pair sha)) x p = mnode (hash_pair sha) (leaf_at leaves) (0 + length p) 0"
      using assms(6,8) by (simp add: static_root_def verify_step_mstep)
  next
    fix q s r
    assume "p = q @ s # r"
    then show "(foldl (mstep (hash_pair sha)) x q, fst s) \<in> hashed_pairs sha ?S"
      using inj assms(2,3,5) path_inputs_split [of sha x q s r]
      by (auto simp: hashed_pairs_def length_verify_fold verify_step_mstep [symmetric])
  next
    fix m i :: nat
    assume "m < 0 + length p" and "i < (0 + 1) * 2 ^ (0 + length p - Suc m)"
    then show "(mnode (hash_pair sha) (leaf_at leaves) m (2 * i),
        mnode (hash_pair sha) (leaf_at leaves) m (2 * i + 1)) \<in> hashed_pairs sha ?S"
      using inj assms(2,6) leaf32 mlevels_inputs [of m ?d i "hash_pair sha" "leaf_at leaves"]
      by (simp add: hashed_pairs_def length_mnode32)
  qed
  then show ?thesis using assms(1) by (auto simp: leaf_at_def)
qed

section \<open>Properties\<close>

text \<open>
  (C1) The incremental tree refines the static builder. Starting from any leaves and appending
  any further leaves, no operation raises, the tree holds exactly these leaves, its root is
  the root \<open>compute_root\<close> computes from scratch, and for every datum and index its inclusion
  proof is the one \<open>generate_inclusion_proof\<close> builds, errors included (on the empty tree both
  refuse, with different exceptions).
\<close>

theorem incremental_refines_static:
  "\<exists>t0 t. init_tree sha ls = Inr t0 \<and> append_leaves sha t0 xs = Inr t
    \<and> reals t = ls @ xs
    \<and> root t = compute_root sha (ls @ xs)
    \<and> (\<forall>ser data i. tree_inclusion_proof sha ser t data i =
         (if ls @ xs = [] then Inl IndexError
          else generate_inclusion_proof sha ser data i (ls @ xs)))"
proof -
  obtain t0 where t0: "init_tree sha ls = Inr t0" "reals t0 = ls" "tree_inv sha t0"
    using init_tree_ok by blast
  then obtain t where t: "append_leaves sha t0 xs = Inr t" "reals t = ls @ xs" "tree_inv sha t"
    using append_leaves_ok by blast
  have "tree_inclusion_proof sha ser t data i =
         (if ls @ xs = [] then Inl IndexError
          else generate_inclusion_proof sha ser data i (ls @ xs))" for ser data i
  proof (cases "ls @ xs = []")
    case True
    with t(2) show ?thesis by (auto simp: tree_inclusion_proof_def)
  next
    case False
    with t(2) show ?thesis using tree_inclusion_proof_eq [OF t(3)] by (simp del: append_is_Nil_conv)
  qed
  with t0 t show ?thesis using tree_root_eq [OF t(3)] by metis
qed

text \<open>
  (C5) Completeness and exactness of the generated proofs: for every leaf index in range the
  generator returns a proof whose root is the tree's root and whose length is the depth of the
  tree, and the verifier accepts it for a datum exactly when the datum hashes to that leaf
  provided the proof was generated for it.
\<close>

theorem generated_proof_verifies:
  assumes "i < length leaves" and "safe_hash sha (ser data) = leaves ! i"
  shows "\<exists>p. generate_inclusion_proof sha ser data (int i) leaves = Inr p
    \<and> compute_root sha leaves = Inr (root_hash p)
    \<and> length (ipath p) = bit_length (length leaves - 1)
    \<and> (\<forall>data'. verify_inclusion_proof sha ser p data' \<longleftrightarrow> safe_hash sha (ser data') = leaves ! i)"
proof -
  from assms(1) have "leaves \<noteq> []" by auto
  then show ?thesis
    using assms static.complete [of i leaves sha]
    by (auto simp: generate_inclusion_proof_eq compute_root_eq verify_inclusion_proof_def
        static_path_def tdepth_def Let_def)
qed

theorem generated_proof_verifies_witness:
  "\<exists>p. generate_inclusion_proof (\<lambda>x. drop 24 x) (\<lambda>n. [n]) 7 (int 1) [[5], [7], [9]] = Inr p
    \<and> length (ipath p) = 2 \<and> verify_inclusion_proof (\<lambda>x. drop 24 x) (\<lambda>n. [n]) p 7"
proof -
  have h: "safe_hash (\<lambda>x. drop 24 x) [n] = [n]" for n
    by (simp add: safe_hash_def DOMAIN_SEPARATOR_def ascii_def)
  then show ?thesis
    using generated_proof_verifies [of 1 "[[5], [7], [9]]" "\<lambda>x. drop 24 x" "\<lambda>n. [n]" 7]
    by (auto simp: bit_length.simps)
qed

text \<open>
  (C4) Binding: a proof that verifies against the root of a tree and has as many steps as the
  tree has levels proves membership. If SHA-256 does not collide on the byte strings that the
  tree and the proof hash, and all nodes are 32 bytes long, the hash of the verified datum is
  one of the leaves.
\<close>

theorem verified_proof_binds:
  assumes "verify_inclusion_proof sha ser p data"
    and "build_levels sha leaves = Inr lvls" and "compute_root sha leaves = Inr (root_hash p)"
    and "length (ipath p) = length lvls - 1"
    and "\<And>x. length (sha x) = 32" and "\<And>x. x \<in> set leaves \<Longrightarrow> length x = 32"
    and "\<And>s d. (s, d) \<in> set (ipath p) \<Longrightarrow> length s = 32"
    and "inj_on (safe_hash sha)
      (set (path_inputs sha (leaf_hash p) (ipath p)) \<union> set (concat (map level_inputs lvls)))"
  shows "safe_hash sha (ser data) \<in> set leaves"
proof -
  from assms(2) have ne: "leaves \<noteq> []" by (auto simp: build_levels_def pad_sequence_def)
  with assms(2) have lv: "lvls = mlevels (hash_pair sha) (leaf_at leaves) 0 (tdepth (length leaves))"
    by (simp add: build_levels_eq)
  have leaf: "leaf_hash p = safe_hash sha (ser data)"
    and fold: "foldl (verify_step sha) (leaf_hash p) (ipath p) = root_hash p"
    using assms(1) by (auto simp: verify_inclusion_proof_def Let_def split: if_splits)
  have "leaf_hash p \<in> set leaves"
    by (rule static_fold_binds [of leaves sha "leaf_hash p" "ipath p"])
      (use assms ne lv leaf fold in \<open>auto simp: compute_root_eq safe_hash_def\<close>)
  with leaf show ?thesis by simp
qed

theorem verified_proof_binds_witness:
  "safe_hash (\<lambda>x. if x = DOMAIN_SEPARATOR @ [1] then replicate 32 1 else replicate 32 2) [1]
    \<in> set [replicate 32 1, replicate 32 (9::byte)]"
proof -
  let ?sha = "\<lambda>x. if x = DOMAIN_SEPARATOR @ [1] then replicate 32 1 else replicate 32 (2::byte)"
  let ?a = "replicate 32 (1::byte)" and ?b = "replicate 32 (9::byte)"
  let ?p = "\<lparr> leaf_hash = ?a, ipath = [(?b, False)], root_hash = replicate 32 2, block_index = JInt 0 \<rparr>"
  have d: "tdepth (Suc (Suc 0)) = Suc 0" by (simp add: tdepth_def bit_length.simps)
  have hp: "hash_pair ?sha ?a ?b = replicate 32 2"
    by (auto simp: hash_pair_def safe_hash_def dest: arg_cong [where f = length])
  have lv: "build_levels ?sha [?a, ?b] = Inr [[?a, ?b], [replicate 32 2]]"
    using hp by (subst build_levels_eq) (simp_all add: d mlevels_Suc mlevels_0 leaf_at_def numeral_2_eq_2)
  have v: "verify_inclusion_proof ?sha (\<lambda>x. x) ?p [1]"
    using hp by (simp add: verify_inclusion_proof_def verify_step_def safe_hash_def
)
  show ?thesis
    by (rule verified_proof_binds [where p = ?p and ser = "\<lambda>x. x" and lvls = "[[?a, ?b], [replicate 32 2]]"])
      (use v lv in \<open>auto simp: compute_root_def last_first_def nth_res_def\<close>)
qed

text \<open>
  A proof survives its dictionary form: reading back what \<open>to_dict\<close> wrote gives the same
  proof, for every proof.
\<close>

theorem proof_dict_roundtrip: "from_dict (to_dict p) = Inr p"
proof -
  have step: "from_dict_step (JList [JStr (to_hex h), JBool d]) = Inr (h, d)" for h d
    by (simp add: from_dict_step_def)
  have "map_result from_dict_step (map (\<lambda>(h, d). JList [JStr (to_hex h), JBool d]) ps) = Inr ps" for ps
    by (induction ps) (auto simp: step)
  then show ?thesis by (simp add: from_dict_def to_dict_def dict_index_def)
qed

text \<open>
  The root does not determine the number of leaves: because padding repeats the last leaf,
  appending a copy of the last leaf below the next power of two leaves the root unchanged.
\<close>

theorem root_ignores_repeated_last_leaf:
  assumes "next_pow2 (length ls + 2) = next_pow2 (length ls + 1)"
  shows "compute_root sha (ls @ [x, x]) = compute_root sha (ls @ [x])"
proof -
  have "tdepth (length ls + 2) = tdepth (length ls + 1)"
    using assms by (simp add: next_pow2_tdepth)
  moreover have "leaf_at (ls @ [x, x]) = leaf_at (ls @ [x])"
    by (rule ext) (auto simp: leaf_at_def nth_append less_Suc_eq)
  ultimately show ?thesis by (simp add: compute_root_eq static_root_def)
qed

theorem root_ignores_repeated_last_leaf_witness:
  "compute_root (drop 24) ([[1], [2]] @ [[3], [3]]) = compute_root (drop 24) ([[1], [2]] @ [[3]])"
  by (rule root_ignores_repeated_last_leaf) (simp add: next_pow2_def bit_length.simps)

end
