(* ===== verification/Merkle_Chain.thy ===== *)
theory Merkle_Chain
  imports Hash_Tree
begin

text \<open>
  \<open>noema/audit/merkle.py\<close>: the hash-chained audit log \<open>MerkleChainAudit\<close>, whose blocks are
  also the leaves of a Merkle tree (an odd node is promoted, not paired). Its state is the
  record \<open>chain\<close>, with the memoised tree levels; the operations thread it explicitly. BLAKE2b
  is the parameter \<open>h\<close>, the JSON serialiser the parameter \<open>ser\<close>, the clock and the random
  identifiers are arguments, and UTF-8 decoding and encoding are the parameters \<open>dec\<close> and
  \<open>enc\<close>. The lemmas show that appended chains verify, that the memoised levels stay right,
  that issued proofs verify, that an exported chain can be imported, and that a chain is
  determined by its last hash.
\<close>

section \<open>Block hashes\<close>

text \<open>\<open>n.to_bytes(8, "big")\<close> raises for a negative number and for one of more than 64 bits.\<close>

definition to_bytes8 :: "int \<Rightarrow> bytes result" where
  "to_bytes8 n =
     (if 0 \<le> n \<and> n < 2 ^ 64
      then Inr (map (\<lambda>k. word_of_int (n div 256 ^ (7 - k))) [0..<8])
      else Inl OverflowError)"

definition compute_commitment ::
  "(bytes \<Rightarrow> bytes) \<Rightarrow> (json \<Rightarrow> bytes) \<Rightarrow> json \<Rightarrow> bytes option \<Rightarrow> bytes" where
  "compute_commitment h ser payload nonce =
     (let encoded = ser payload
      in case nonce of None \<Rightarrow> h encoded | Some n \<Rightarrow> h (n @ encoded))"

definition block_data :: "int \<Rightarrow> bytes \<Rightarrow> bytes \<Rightarrow> py_float \<Rightarrow> bytes \<Rightarrow> bytes result" where
  "block_data index prev_hash commitment timestamp metadata =
     bind_res (to_bytes8 index) (\<lambda>i.
     map_res (\<lambda>ts. i @ prev_hash @ commitment @ ts @ metadata)
       (to_bytes8 (py_trunc (timestamp * 1000000))))"

definition compute_block_hash ::
  "(bytes \<Rightarrow> bytes) \<Rightarrow> int \<Rightarrow> bytes \<Rightarrow> bytes \<Rightarrow> py_float \<Rightarrow> bytes \<Rightarrow> bytes result" where
  "compute_block_hash h index prev_hash commitment timestamp metadata =
     map_res h (block_data index prev_hash commitment timestamp metadata)"

record audit_block =
  index :: int
  prev_hash :: bytes
  timestamp :: py_float
  commitment :: bytes
  metadata :: bytes
  block_hash :: bytes
  nonce :: bytes

definition verify_block :: "(bytes \<Rightarrow> bytes) \<Rightarrow> audit_block \<Rightarrow> bool result" where
  "verify_block h b =
     map_res (\<lambda>expected. expected = block_hash b)
       (compute_block_hash h (index b) (prev_hash b) (commitment b) (timestamp b) (metadata b))"

record merkle_proof =
  mp_block_index :: int
  mp_block_hash :: bytes
  siblings :: "(bytes \<times> bool) list"

definition proof_step :: "(bytes \<Rightarrow> bytes) \<Rightarrow> bytes \<Rightarrow> bytes \<times> bool \<Rightarrow> bytes" where
  "proof_step h current s = (if snd s then h (fst s @ current) else h (current @ fst s))"

definition verify_merkle_proof :: "(bytes \<Rightarrow> bytes) \<Rightarrow> merkle_proof \<Rightarrow> bytes \<Rightarrow> bytes \<Rightarrow> bool" where
  "verify_merkle_proof h p rt leaf = (foldl (proof_step h) leaf (siblings p) = rt)"

section \<open>The chain\<close>

record chain =
  chain_id :: string
  blocks :: "audit_block list"
  dirty :: bool
  tree_levels :: "bytes list list option"
  genesis :: audit_block

definition genesis_payload :: "string \<Rightarrow> json" where
  "genesis_payload cid = JDict
     [(''event'', JStr ''chain_created''), (''chain_id'', JStr cid), (''version'', JStr ''1.0'')]"

definition genesis_meta :: bytes where
  "genesis_meta = ascii ''genesis''"

definition new_chain ::
  "(bytes \<Rightarrow> bytes) \<Rightarrow> (json \<Rightarrow> bytes) \<Rightarrow> string option \<Rightarrow> string \<Rightarrow> bytes \<Rightarrow> chain result" where
  "new_chain h ser cid fresh nce =
     (let cid' = (case cid of Some c \<Rightarrow> if c \<noteq> [] then c else take 8 fresh | None \<Rightarrow> take 8 fresh);
          genesis_commitment = compute_commitment h ser (genesis_payload cid') None
      in map_res (\<lambda>genesis_hash.
           let g = \<lparr> index = 0, prev_hash = zero_bytes32, timestamp = 0,
                     commitment = genesis_commitment, metadata = genesis_meta,
                     block_hash = genesis_hash, nonce = nce \<rparr>
           in \<lparr> chain_id = cid', blocks = [g], dirty = False, tree_levels = None, genesis = g \<rparr>)
         (compute_block_hash h 0 zero_bytes32 genesis_commitment 0 genesis_meta))"

definition tip :: "chain \<Rightarrow> audit_block result" where
  "tip c = (if blocks c = [] then Inl IndexError else Inr (last (blocks c)))"

definition tip_hash :: "chain \<Rightarrow> bytes result" where
  "tip_hash c = map_res block_hash (tip c)"

definition height :: "chain \<Rightarrow> nat" where
  "height c = length (blocks c)"

definition or_empty :: "json option \<Rightarrow> json" where
  "or_empty m = (case m of Some j \<Rightarrow> if json_truthy j then j else JDict [] | None \<Rightarrow> JDict [])"

definition append_block ::
  "(bytes \<Rightarrow> bytes) \<Rightarrow> (json \<Rightarrow> bytes) \<Rightarrow> chain \<Rightarrow> json \<Rightarrow> json option \<Rightarrow> py_float \<Rightarrow> bytes
    \<Rightarrow> (audit_block \<times> chain) result" where
  "append_block h ser c payload meta now nce =
     bind_res (tip c) (\<lambda>prev.
       let idx = index prev + 1;
           comm = compute_commitment h ser payload None;
           meta_bytes = ser (or_empty meta)
       in bind_res (compute_block_hash h idx (block_hash prev) comm now meta_bytes) (\<lambda>bh.
          let b = \<lparr> index = idx, prev_hash = block_hash prev, timestamp = now, commitment = comm,
                    metadata = meta_bytes, block_hash = bh, nonce = nce \<rparr>
          in bind_res (verify_block h b) (\<lambda>good.
             if \<not> good then Inl RuntimeError
             else Inr (b, c\<lparr>blocks := blocks c @ [b], dirty := True, tree_levels := None\<rparr>))))"

text \<open>The loop of \<open>verify_chain\<close>; the hash of the previous block is \<open>None\<close> at the first one.\<close>

fun verify_blocks :: "(bytes \<Rightarrow> bytes) \<Rightarrow> bytes option \<Rightarrow> audit_block list \<Rightarrow> bool result" where
  "verify_blocks h prev [] = Inr True"
| "verify_blocks h prev (b # bs) =
     bind_res (verify_block h b) (\<lambda>good.
       if \<not> good then Inr False
       else if (case prev of None \<Rightarrow> False | Some ph \<Rightarrow> prev_hash b \<noteq> ph) then Inr False
       else verify_blocks h (Some (block_hash b)) bs)"

definition verify_chain :: "(bytes \<Rightarrow> bytes) \<Rightarrow> chain \<Rightarrow> bool result" where
  "verify_chain h c = verify_blocks h None (blocks c)"

section \<open>The Merkle tree over the blocks\<close>

fun next_level :: "(bytes \<Rightarrow> bytes) \<Rightarrow> bytes list \<Rightarrow> bytes list" where
  "next_level h [] = []"
| "next_level h [x] = [x]"
| "next_level h (x # y # xs) = h (x @ y) # next_level h xs"

lemma length_next_level: "length (next_level h xs) = (length xs + 1) div 2"
  by (induction h xs rule: next_level.induct) auto

function tree_levels_of :: "(bytes \<Rightarrow> bytes) \<Rightarrow> bytes list \<Rightarrow> bytes list list" where
  "tree_levels_of h level =
     (if 1 < length level then level # tree_levels_of h (next_level h level) else [level])"
  by pat_completeness auto
termination
  by (relation "measure (\<lambda>(h, level). length level)") (auto simp: length_next_level)

declare tree_levels_of.simps [simp del]

function build_merkle_tree :: "(bytes \<Rightarrow> bytes) \<Rightarrow> bytes list \<Rightarrow> bytes list" where
  "build_merkle_tree h level = (if 1 < length level then build_merkle_tree h (next_level h level) else level)"
  by pat_completeness auto
termination
  by (relation "measure (\<lambda>(h, level). length level)") (auto simp: length_next_level)

declare build_merkle_tree.simps [simp del]

definition build_levels :: "(bytes \<Rightarrow> bytes) \<Rightarrow> chain \<Rightarrow> bytes list list \<times> chain" where
  "build_levels h c =
     (case tree_levels c of
        Some ls \<Rightarrow> (ls, c)
      | None \<Rightarrow> let ls = tree_levels_of h (map block_hash (blocks c))
                in (ls, c\<lparr>tree_levels := Some ls\<rparr>))"

definition top_hash :: "bytes list list \<Rightarrow> bytes result" where
  "top_hash ls = (if ls = [] then Inl IndexError else nth_res (last ls) 0)"

definition chain_root :: "(bytes \<Rightarrow> bytes) \<Rightarrow> chain \<Rightarrow> bytes result \<times> chain" where
  "chain_root h c = (let (ls, c') = build_levels h c in (top_hash ls, c'))"

definition build_merkle_root :: "(bytes \<Rightarrow> bytes) \<Rightarrow> chain \<Rightarrow> bytes result \<times> chain" where
  "build_merkle_root h c = (if blocks c = [] then (Inr zero_bytes32, c) else chain_root h c)"

text \<open>The loop over \<open>levels[:-1]\<close>: an even node at the end of its level has no sibling.\<close>

fun collect_siblings :: "bytes list list \<Rightarrow> nat \<Rightarrow> (bytes \<times> bool) list" where
  "collect_siblings [] idx = []"
| "collect_siblings (level # ls) idx =
     (if idx mod 2 = 0
      then (if idx + 1 < length level then [(level ! (idx + 1), False)] else [])
      else [(level ! (idx - 1), True)])
     @ collect_siblings ls (idx div 2)"

definition prove_inclusion ::
  "(bytes \<Rightarrow> bytes) \<Rightarrow> chain \<Rightarrow> int \<Rightarrow> merkle_proof option \<times> chain" where
  "prove_inclusion h c i =
     (if i < 0 \<or> int (length (blocks c)) \<le> i then (None, c)
      else let b = blocks c ! nat i;
               (ls, c') = build_levels h c
           in if length (hd ls) = 1
              then (Some \<lparr> mp_block_index = i, mp_block_hash = block_hash b, siblings = [] \<rparr>, c')
              else (Some \<lparr> mp_block_index = i, mp_block_hash = block_hash b,
                           siblings = collect_siblings (butlast ls) (nat i) \<rparr>, c'))"

text \<open>\<open>self._blocks[i]\<close>, where a negative index counts from the end.\<close>

definition block_at :: "chain \<Rightarrow> int \<Rightarrow> audit_block result" where
  "block_at c i =
     (let n = int (length (blocks c)); j = (if i < 0 then n + i else i)
      in if 0 \<le> j \<and> j < n then Inr (blocks c ! nat j) else Inl IndexError)"

definition verify_proof :: "(bytes \<Rightarrow> bytes) \<Rightarrow> chain \<Rightarrow> merkle_proof \<Rightarrow> bool result \<times> chain" where
  "verify_proof h c p =
     (if int (length (blocks c)) \<le> mp_block_index p then (Inr False, c)
      else case block_at c (mp_block_index p) of
             Inl e \<Rightarrow> (Inl e, c)
           | Inr b \<Rightarrow>
               (let leaf = block_hash b
                in if leaf \<noteq> mp_block_hash p then (Inr False, c)
                   else let (r, c') = chain_root h c
                        in (map_res (\<lambda>rt. verify_merkle_proof h p rt leaf) r, c')))"

definition get_block :: "chain \<Rightarrow> int \<Rightarrow> audit_block option" where
  "get_block c i = (if 0 \<le> i \<and> i < int (length (blocks c)) then Some (blocks c ! nat i) else None)"

section \<open>Export, import, audit proofs\<close>

definition export_block :: "(bytes \<Rightarrow> string) \<Rightarrow> audit_block \<Rightarrow> json" where
  "export_block dec b = JDict
     [(''index'', JInt (index b)),
      (''prev_hash'', JStr (to_hex (prev_hash b))),
      (''timestamp'', JFloat (timestamp b)),
      (''commitment'', JStr (to_hex (commitment b))),
      (''block_hash'', JStr (to_hex (block_hash b))),
      (''metadata'', JStr (dec (metadata b)))]"

definition export_blocks :: "(bytes \<Rightarrow> string) \<Rightarrow> chain \<Rightarrow> json list" where
  "export_blocks dec c = map (export_block dec) (blocks c)"

text \<open>
  Reading a number out of a JSON value. A value of another type raises where it is first used
  as a number; the model reports it as \<open>TypeError\<close> when it is read.
\<close>

fun json_int :: "json \<Rightarrow> int result" where
  "json_int (JInt i) = Inr i"
| "json_int (JBool b) = Inr (if b then 1 else 0)"
| "json_int _ = Inl TypeError"

fun json_number :: "json \<Rightarrow> py_float result" where
  "json_number (JInt i) = Inr (of_int i)"
| "json_number (JFloat x) = Inr x"
| "json_number (JBool b) = Inr (if b then 1 else 0)"
| "json_number _ = Inl TypeError"

fun json_eq_zero :: "json \<Rightarrow> bool" where
  "json_eq_zero (JInt i) = (i = 0)"
| "json_eq_zero (JFloat x) = (x = 0)"
| "json_eq_zero (JBool b) = (\<not> b)"
| "json_eq_zero _ = False"

definition json_meta :: "(string \<Rightarrow> bytes) \<Rightarrow> json option \<Rightarrow> bytes result" where
  "json_meta enc j =
     (case j of None \<Rightarrow> Inr (enc []) | Some (JStr s) \<Rightarrow> Inr (enc s) | Some _ \<Rightarrow> Inl TypeError)"

definition import_block :: "(string \<Rightarrow> bytes) \<Rightarrow> (string, json) dict \<Rightarrow> bytes \<Rightarrow> audit_block result" where
  "import_block enc d nce =
     bind_res (json_meta enc (map_of d ''metadata'')) (\<lambda>mb.
     bind_res (bind_res (dict_index d ''index'') json_int) (\<lambda>i.
     bind_res (bind_res (dict_index d ''prev_hash'') json_fromhex) (\<lambda>ph.
     bind_res (bind_res (dict_index d ''timestamp'') json_number) (\<lambda>ts.
     bind_res (bind_res (dict_index d ''commitment'') json_fromhex) (\<lambda>cm.
     map_res (\<lambda>bh. \<lparr> index = i, prev_hash = ph, timestamp = ts, commitment = cm,
                     metadata = mb, block_hash = bh, nonce = nce \<rparr>)
       (bind_res (dict_index d ''block_hash'') json_fromhex))))))"

text \<open>The loop of \<open>import_blocks\<close>: an entry whose index equals 0 is skipped.\<close>

fun import_loop ::
  "(string \<Rightarrow> bytes) \<Rightarrow> bytes \<Rightarrow> (string, json) dict list \<Rightarrow> audit_block list result" where
  "import_loop enc nce [] = Inr []"
| "import_loop enc nce (d # ds) =
     (if (case map_of d ''index'' of Some j \<Rightarrow> json_eq_zero j | None \<Rightarrow> False)
      then import_loop enc nce ds
      else bind_res (import_block enc d nce) (\<lambda>b. map_res (Cons b) (import_loop enc nce ds)))"

definition import_blocks ::
  "(bytes \<Rightarrow> bytes) \<Rightarrow> (json \<Rightarrow> bytes) \<Rightarrow> (string \<Rightarrow> bytes) \<Rightarrow> string \<Rightarrow> string \<Rightarrow> bytes
    \<Rightarrow> (string, json) dict list \<Rightarrow> chain result" where
  "import_blocks h ser enc cid fresh nce data =
     bind_res (new_chain h ser (Some cid) fresh nce) (\<lambda>inst.
     bind_res (import_loop enc nce data) (\<lambda>bs.
       let inst' = inst\<lparr>blocks := genesis inst # bs, tree_levels := None\<rparr>
       in bind_res (verify_chain h inst') (\<lambda>good.
            if \<not> good then Inl ValueError else Inr inst')))"

definition task_payload :: "string \<Rightarrow> string \<Rightarrow> json" where
  "task_payload task tenant = JDict
     [(''task_id'', JStr task), (''tenant_id'', JStr tenant), (''event'', JStr ''task_completed'')]"

record audit_proof =
  ap_chain_id :: string
  ap_block_index :: int
  ap_block_hash :: string
  ap_root :: string
  ap_proof :: "(string list \<times> string list) option"
  ap_verified :: bool

definition create_audit_proof ::
  "(bytes \<Rightarrow> bytes) \<Rightarrow> (json \<Rightarrow> bytes) \<Rightarrow> chain \<Rightarrow> string \<Rightarrow> string \<Rightarrow> py_float \<Rightarrow> bytes
    \<Rightarrow> (audit_proof \<times> chain) result" where
  "create_audit_proof h ser c task tenant now nce =
     bind_res (append_block h ser c (task_payload task tenant)
                 (Some (JDict [(''audit_type'', JStr ''solution_generation'')])) now nce) (\<lambda>(b, c1).
       let (pf, c2) = prove_inclusion h c1 (index b);
           (r, c3) = chain_root h c2
       in bind_res r (\<lambda>rt. bind_res (verify_chain h c3) (\<lambda>v.
          Inr (\<lparr> ap_chain_id = chain_id c3, ap_block_index = index b,
                 ap_block_hash = to_hex (block_hash b), ap_root = to_hex rt,
                 ap_proof = map_option (\<lambda>p. (map (to_hex \<circ> fst) (siblings p),
                   map (\<lambda>s. if snd s then ''left'' else ''right'') (siblings p))) pf,
                 ap_verified = v \<rparr>, c3))))"

section \<open>Encoding of block data\<close>

lemma length_to_bytes8: "to_bytes8 n = Inr bs \<Longrightarrow> length bs = 8"
  by (auto simp: to_bytes8_def split: if_splits)

lemma mod_pow256_digits:
  assumes "\<And>i. i < k \<Longrightarrow> (n div 256 ^ i) mod 256 = (m div 256 ^ i) mod (256::int)"
  shows "n mod 256 ^ k = m mod 256 ^ k"
  using assms
proof (induction k)
  case 0
  then show ?case by simp
next
  case (Suc k)
  have "x mod 256 ^ Suc k = 256 ^ k * (x div 256 ^ k mod 256) + x mod 256 ^ k" for x :: int
    using mod_mult2_eq' [of x "256 ^ k" 256] by (simp add: mult.commute)
  moreover have "n mod 256 ^ k = m mod 256 ^ k" by (rule Suc.IH) (simp add: Suc.prems)
  ultimately show ?case using Suc.prems [of k] by simp
qed

lemma to_bytes8_inj:
  assumes "to_bytes8 n = Inr bs" and "to_bytes8 m = Inr bs"
  shows "n = m"
proof -
  have rng: "0 \<le> n" "n < 256 ^ 8" "0 \<le> m" "m < 256 ^ 8"
    and eq: "map (\<lambda>k. word_of_int (n div 256 ^ (7 - k)) :: byte) [0..<8]
           = map (\<lambda>k. word_of_int (m div 256 ^ (7 - k))) [0..<8]"
    using assms by (auto simp: to_bytes8_def split: if_splits)
  have "(n div 256 ^ i) mod 256 = (m div 256 ^ i) mod 256" if "i < 8" for i
  proof -
    from that have "7 - i \<in> set [0..<8]" and i: "7 - (7 - i) = i" by auto
    then have "(word_of_int (n div 256 ^ (7 - (7 - i))) :: byte) = word_of_int (m div 256 ^ (7 - (7 - i)))"
      using eq by (meson map_eq_conv)
    then have "uint (word_of_int (n div 256 ^ i) :: byte) = uint (word_of_int (m div 256 ^ i) :: byte)"
      using i by simp
    then show ?thesis by (simp add: uint_word_of_int)
  qed
  then have "n mod 256 ^ 8 = m mod 256 ^ 8" by (rule mod_pow256_digits)
  with rng show ?thesis by simp
qed

lemma block_data_inj:
  assumes "block_data i p c ts m = Inr x" and "block_data i' p' c' ts' m' = Inr x"
    and "length p = 32" "length c = 32" "length p' = 32" "length c' = 32"
  shows "i = i' \<and> p = p' \<and> c = c' \<and> py_trunc (ts * 1000000) = py_trunc (ts' * 1000000) \<and> m = m'"
proof -
  obtain a t where a: "to_bytes8 i = Inr a" "to_bytes8 (py_trunc (ts * 1000000)) = Inr t"
    "x = a @ p @ c @ t @ m"
    using assms(1) by (auto simp: block_data_def bind_res_eq_Inr map_res_eq_Inr)
  obtain a' t' where a': "to_bytes8 i' = Inr a'" "to_bytes8 (py_trunc (ts' * 1000000)) = Inr t'"
    "x = a' @ p' @ c' @ t' @ m'"
    using assms(2) by (auto simp: block_data_def bind_res_eq_Inr map_res_eq_Inr)
  have "a = a' \<and> p = p' \<and> c = c' \<and> t = t' \<and> m = m'"
    using a(3) a'(3) assms(3-6) length_to_bytes8 [OF a(1)] length_to_bytes8 [OF a'(1)]
      length_to_bytes8 [OF a(2)] length_to_bytes8 [OF a'(2)] by simp
  with a a' to_bytes8_inj show ?thesis by blast
qed

section \<open>Chains that append\<close>

text \<open>
  What the operations keep: the blocks verify, a block's index is its position, the first block
  is the genesis block, metadata is what the serialiser wrote, and the memoised levels are those
  of the blocks.
\<close>

definition chain_inv :: "(bytes \<Rightarrow> bytes) \<Rightarrow> (json \<Rightarrow> bytes) \<Rightarrow> chain \<Rightarrow> bool" where
  "chain_inv h ser c \<longleftrightarrow>
     blocks c \<noteq> [] \<and> hd (blocks c) = genesis c
     \<and> verify_blocks h None (blocks c) = Inr True
     \<and> (\<forall>i < length (blocks c). index (blocks c ! i) = int i)
     \<and> (\<forall>b \<in> set (blocks c). metadata b = genesis_meta \<or> metadata b \<in> range ser)
     \<and> (tree_levels c = None \<or> tree_levels c = Some (tree_levels_of h (map block_hash (blocks c))))"

text \<open>The operations as a step relation: appending, and the queries that fill the memo.\<close>

inductive chain_step :: "(bytes \<Rightarrow> bytes) \<Rightarrow> (json \<Rightarrow> bytes) \<Rightarrow> chain \<Rightarrow> chain \<Rightarrow> bool" for h ser where
  append: "append_block h ser c payload meta now nce = Inr (b, c') \<Longrightarrow> chain_step h ser c c'"
| levels: "snd (build_levels h c) = c' \<Longrightarrow> chain_step h ser c c'"
| audit: "create_audit_proof h ser c task tenant now nce = Inr (a, c') \<Longrightarrow> chain_step h ser c c'"

inductive reachable_chain :: "(bytes \<Rightarrow> bytes) \<Rightarrow> (json \<Rightarrow> bytes) \<Rightarrow> chain \<Rightarrow> bool" for h ser where
  start: "new_chain h ser cid fresh nce = Inr c \<Longrightarrow> reachable_chain h ser c"
| step: "reachable_chain h ser c \<Longrightarrow> chain_step h ser c c' \<Longrightarrow> reachable_chain h ser c'"

lemma verify_block_self:
  "compute_block_hash h i p cm ts m = Inr bh \<Longrightarrow>
    verify_block h \<lparr> index = i, prev_hash = p, timestamp = ts, commitment = cm, metadata = m,
                     block_hash = bh, nonce = n \<rparr> = Inr True"
  by (simp add: verify_block_def)

lemma verify_blocks_append:
  "verify_blocks h prev (bs @ [b]) =
     bind_res (verify_blocks h prev bs) (\<lambda>good. if \<not> good then Inr False
       else verify_blocks h (if bs = [] then prev else Some (block_hash (last bs))) [b])"
  by (induction bs arbitrary: prev) (auto simp: bind_res_def split: sum.split)

lemma new_chain_inv: "new_chain h ser cid fresh nce = Inr c \<Longrightarrow> chain_inv h ser c"
  by (auto simp: new_chain_def chain_inv_def map_res_eq_Inr Let_def verify_block_self)

lemma append_block_inv:
  assumes "append_block h ser c payload meta now nce = Inr (b, c')" and inv: "chain_inv h ser c"
  shows "chain_inv h ser c'" and "blocks c' = blocks c @ [b]" and "tree_levels c' = None"
    and "chain_id c' = chain_id c" and "genesis c' = genesis c"
    and "index b = int (length (blocks c))"
proof -
  let ?prev = "last (blocks c)"
  from inv have ne: "blocks c \<noteq> []" and idx: "index ?prev = int (length (blocks c)) - 1"
    and vb: "verify_blocks h None (blocks c) = Inr True"
    by (auto simp: chain_inv_def last_conv_nth of_nat_diff Suc_le_eq)
  have c': "c' = c\<lparr>blocks := blocks c @ [b], dirty := True, tree_levels := None\<rparr>"
    and b: "index b = index ?prev + 1" "prev_hash b = block_hash ?prev"
      "metadata b = ser (or_empty meta)" "verify_block h b = Inr True"
    using assms(1) ne
    by (auto simp: append_block_def tip_def bind_res_eq_Inr Let_def verify_block_self
        split: if_splits)
  have "verify_blocks h None (blocks c @ [b]) = Inr True"
    using vb b ne by (simp add: verify_blocks_append)
  moreover have "index ((blocks c @ [b]) ! i) = int i" if "i < length (blocks c @ [b])" for i
    using that inv b(1) idx by (cases "i < length (blocks c)") (auto simp: chain_inv_def nth_append less_Suc_eq)
  ultimately show "chain_inv h ser c'"
    using inv ne b(3) by (auto simp: chain_inv_def c')
  show "blocks c' = blocks c @ [b]" "tree_levels c' = None" "chain_id c' = chain_id c"
    "genesis c' = genesis c" by (simp_all add: c')
  show "index b = int (length (blocks c))" using b(1) idx by simp
qed

lemma build_levels_inv:
  assumes "chain_inv h ser c"
  shows "fst (build_levels h c) = tree_levels_of h (map block_hash (blocks c))"
    and "chain_inv h ser (snd (build_levels h c))"
    and "blocks (snd (build_levels h c)) = blocks c"
    and "chain_id (snd (build_levels h c)) = chain_id c"
  using assms by (auto simp: build_levels_def chain_inv_def Let_def split: option.splits)

lemma chain_root_snd: "snd (chain_root h c) = snd (build_levels h c)"
  by (simp add: chain_root_def split: prod.split)

lemma prove_inclusion_snd:
  "snd (prove_inclusion h c i) = c \<or> snd (prove_inclusion h c i) = snd (build_levels h c)"
  by (auto simp: prove_inclusion_def Let_def split: prod.split)

lemma prove_inclusion_inv:
  assumes "chain_inv h ser c"
  shows "chain_inv h ser (snd (prove_inclusion h c i))"
    and "blocks (snd (prove_inclusion h c i)) = blocks c"
  using build_levels_inv [OF assms] prove_inclusion_snd [of h c i] assms by auto

lemma create_audit_proof_inv:
  assumes "create_audit_proof h ser c task tenant now nce = Inr (a, c')" and "chain_inv h ser c"
  shows "chain_inv h ser c'"
proof -
  obtain b c1 where ap: "append_block h ser c (task_payload task tenant)
      (Some (JDict [(''audit_type'', JStr ''solution_generation'')])) now nce = Inr (b, c1)"
    and c': "c' = snd (chain_root h (snd (prove_inclusion h c1 (index b))))"
    using assms(1)
    by (force simp: create_audit_proof_def bind_res_eq_Inr Let_def case_prod_beta)
  have "chain_inv h ser c1" by (rule append_block_inv [OF ap assms(2)])
  then have "chain_inv h ser (snd (prove_inclusion h c1 (index b)))" by (rule prove_inclusion_inv)
  then show ?thesis unfolding c' chain_root_snd by (rule build_levels_inv)
qed

lemma reachable_chain_inv: "reachable_chain h ser c \<Longrightarrow> chain_inv h ser c"
proof (induction rule: reachable_chain.induct)
  case (start cid fresh nce c)
  then show ?case by (rule new_chain_inv)
next
  case (step c c')
  from step.hyps(2) show ?case
    by cases (use step.IH in \<open>auto intro: append_block_inv build_levels_inv create_audit_proof_inv\<close>)
qed

section \<open>Inclusion proofs\<close>

lemma next_level_nth:
  "i < length xs \<Longrightarrow> next_level h xs ! (i div 2) =
     (if even i then (if i + 1 < length xs then h (xs ! i @ xs ! (i + 1)) else xs ! i)
      else h (xs ! (i - 1) @ xs ! i))"
proof (induction h xs arbitrary: i rule: next_level.induct)
  case (3 h x y xs)
  show ?case
  proof (cases "i < 2")
    case True
    then consider "i = 0" | "i = 1" by linarith
    then show ?thesis by cases simp_all
  next
    case False
    then obtain j where i: "i = Suc (Suc j)" by (metis less_2_cases_iff not0_implies_Suc One_nat_def)
    with "3.prems" have "j < length xs" by simp
    with "3.IH" [of j] i show ?thesis by (cases j) simp_all
  qed
qed simp_all

lemma next_level_not_Nil: "xs \<noteq> [] \<Longrightarrow> next_level h xs \<noteq> []"
  by (induction h xs rule: next_level.induct) auto

lemma tree_levels_of_not_Nil [simp]: "tree_levels_of h xs \<noteq> []"
  by (subst tree_levels_of.simps) simp

lemma hd_tree_levels_of [simp]: "hd (tree_levels_of h xs) = xs"
  by (subst tree_levels_of.simps) simp

definition tree_top :: "(bytes \<Rightarrow> bytes) \<Rightarrow> bytes list \<Rightarrow> bytes" where
  "tree_top h ls = hd (last (tree_levels_of h ls))"

definition tree_path :: "(bytes \<Rightarrow> bytes) \<Rightarrow> bytes list \<Rightarrow> nat \<Rightarrow> (bytes \<times> bool) list" where
  "tree_path h ls i = collect_siblings (butlast (tree_levels_of h ls)) i"

lemma tree_top_single: "\<not> 1 < length xs \<Longrightarrow> tree_top h xs = hd xs"
  by (subst tree_top_def, subst tree_levels_of.simps) simp

lemma tree_top_step: "1 < length xs \<Longrightarrow> tree_top h xs = tree_top h (next_level h xs)"
  by (simp only: tree_top_def, subst tree_levels_of.simps) simp

lemma tree_path_single: "\<not> 1 < length xs \<Longrightarrow> tree_path h xs i = []"
  by (subst tree_path_def, subst tree_levels_of.simps) simp

lemma tree_path_step:
  "1 < length xs \<Longrightarrow> tree_path h xs i = collect_siblings [xs] i @ tree_path h (next_level h xs) (i div 2)"
  by (simp only: tree_path_def, subst tree_levels_of.simps) simp

lemma fold_level:
  "i < length xs \<Longrightarrow> foldl (proof_step h) (xs ! i) (collect_siblings [xs] i) = next_level h xs ! (i div 2)"
  by (simp add: next_level_nth proof_step_def even_iff_mod_2_eq_zero)

interpretation chain_tree: inclusion_scheme "proof_step h" "tree_top h" "tree_path h" for h
proof
  fix i and ls :: "bytes list"
  assume "i < length ls"
  then show "foldl (proof_step h) (ls ! i) (tree_path h ls i) = tree_top h ls"
  proof (induction h ls arbitrary: i rule: tree_levels_of.induct)
    case (1 h ls)
    show ?case
    proof (cases "1 < length ls")
      case True
      then have "i div 2 < length (next_level h ls)"
        using "1.prems" by (simp add: length_next_level)
      with True "1.IH" "1.prems" show ?thesis
        by (simp only: tree_path_step foldl_append fold_level tree_top_step)
    next
      case False
      with "1.prems" have "i = 0" and "ls \<noteq> []" by auto
      with False show ?thesis by (simp add: tree_path_single tree_top_single hd_conv_nth)
    qed
  qed
qed

lemma last_tree_levels_not_Nil: "xs \<noteq> [] \<Longrightarrow> last (tree_levels_of h xs) \<noteq> []"
proof (induction h xs rule: tree_levels_of.induct)
  case (1 h xs)
  then show ?case
    by (subst tree_levels_of.simps) (simp add: next_level_not_Nil)
qed

lemma chain_root_eq:
  assumes "chain_inv h ser c"
  shows "fst (chain_root h c) = Inr (tree_top h (map block_hash (blocks c)))"
proof -
  from assms have "map block_hash (blocks c) \<noteq> []" by (simp add: chain_inv_def)
  then have "last (tree_levels_of h (map block_hash (blocks c))) \<noteq> []"
    by (rule last_tree_levels_not_Nil)
  then show ?thesis
    using build_levels_inv(1) [OF assms]
    by (cases "build_levels h c") (simp add: chain_root_def top_hash_def tree_top_def hd_conv_nth)
qed

lemma prove_inclusion_eq:
  assumes "chain_inv h ser c" and "i < length (blocks c)"
  shows "fst (prove_inclusion h c (int i)) =
    Some \<lparr> mp_block_index = int i, mp_block_hash = block_hash (blocks c ! i),
           siblings = tree_path h (map block_hash (blocks c)) i \<rparr>"
proof -
  obtain c' where bl: "build_levels h c = (tree_levels_of h (map block_hash (blocks c)), c')"
    using build_levels_inv(1) [OF assms(1)] by (cases "build_levels h c") auto
  have "tree_path h (map block_hash (blocks c)) i = []" if "length (blocks c) = 1"
    using that by (simp add: tree_path_single)
  with assms(2) show ?thesis by (auto simp: prove_inclusion_def bl tree_path_def Let_def)
qed

lemma issued_proof_verifies:
  assumes inv: "chain_inv h ser c" and i: "i < length (blocks c)"
    and pf: "prove_inclusion h c (int i) = (Some p, c')"
  shows "fst (verify_proof h c' p) = Inr True"
proof -
  let ?hs = "map block_hash (blocks c)"
  have inv': "chain_inv h ser c'" and bl: "blocks c' = blocks c"
    using prove_inclusion_inv [OF inv, of "int i"] pf by auto
  have p: "p = \<lparr> mp_block_index = int i, mp_block_hash = block_hash (blocks c ! i),
                 siblings = tree_path h ?hs i \<rparr>"
    using prove_inclusion_eq [OF inv i] pf by simp
  have "foldl (proof_step h) (?hs ! i) (tree_path h ?hs i) = tree_top h ?hs"
    using i by (intro chain_tree.complete) simp
  with i have "verify_merkle_proof h p (tree_top h ?hs) (block_hash (blocks c ! i))"
    by (simp add: verify_merkle_proof_def p)
  moreover have "fst (chain_root h c') = Inr (tree_top h ?hs)"
    using chain_root_eq [OF inv'] by (simp add: bl)
  ultimately show ?thesis
    using i by (cases "chain_root h c'") (simp add: verify_proof_def block_at_def bl p)
qed

section \<open>Binding of the chain to its last hash\<close>

definition block_bytes :: "audit_block \<Rightarrow> bytes result" where
  "block_bytes b = block_data (index b) (prev_hash b) (commitment b) (timestamp b) (metadata b)"

text \<open>Two blocks that differ at most in the nonce and below a microsecond.\<close>

definition same_content :: "audit_block \<Rightarrow> audit_block \<Rightarrow> bool" where
  "same_content b b' \<longleftrightarrow>
     index b = index b' \<and> prev_hash b = prev_hash b' \<and> commitment b = commitment b'
     \<and> py_trunc (timestamp b * 1000000) = py_trunc (timestamp b' * 1000000)
     \<and> metadata b = metadata b' \<and> block_hash b = block_hash b'"

definition wide_block :: "audit_block \<Rightarrow> bool" where
  "wide_block b \<longleftrightarrow> length (prev_hash b) = 32 \<and> length (commitment b) = 32"

lemma verify_block_bytes:
  "verify_block h b = Inr True \<longleftrightarrow> (\<exists>x. block_bytes b = Inr x \<and> h x = block_hash b)"
  by (auto simp: verify_block_def compute_block_hash_def block_bytes_def map_res_eq_Inr)

lemma verify_blocks_snoc:
  assumes "verify_blocks h prev (bs @ [b]) = Inr True"
  shows "verify_blocks h prev bs = Inr True" and "verify_block h b = Inr True"
    and "bs \<noteq> [] \<Longrightarrow> prev_hash b = block_hash (last bs)"
  using assms by (auto simp: verify_blocks_append bind_res_eq_Inr split: if_splits)

lemma verified_blocks_bind:
  assumes "length bs = length cs" and "bs \<noteq> []" and "block_hash (last bs) = block_hash (last cs)"
    and "verify_blocks h None bs = Inr True" and "verify_blocks h None cs = Inr True"
    and "\<And>b. b \<in> set bs \<union> set cs \<Longrightarrow> wide_block b"
    and "inj_on h {x. \<exists>b \<in> set bs \<union> set cs. block_bytes b = Inr x}"
  shows "list_all2 same_content bs cs"
  using assms
proof (induction bs arbitrary: cs rule: rev_induct)
  case Nil
  then show ?case by simp
next
  case (snoc b bs)
  obtain c cs' where cs: "cs = cs' @ [c]" and len: "length bs = length cs'"
    using snoc.prems(1) by (cases cs rule: rev_cases) auto
  note vb = verify_blocks_snoc [OF snoc.prems(4)]
  note vc = verify_blocks_snoc [OF snoc.prems(5) [unfolded cs]]
  obtain x y where x: "block_bytes b = Inr x" "h x = block_hash b"
    and y: "block_bytes c = Inr y" "h y = block_hash c"
    using vb(2) vc(2) by (auto simp: verify_block_bytes)
  from snoc.prems(3) x(2) y(2) have "h x = h y" by (simp add: cs)
  then have "x = y" by (rule inj_onD [OF snoc.prems(7)]) (use x y in \<open>auto simp: cs\<close>)
  moreover have "wide_block b" "wide_block c" using snoc.prems(6) by (auto simp: cs)
  ultimately have same: "same_content b c"
    using block_data_inj [OF x(1) [unfolded block_bytes_def] y(1) [unfolded block_bytes_def, folded \<open>x = y\<close>]]
      snoc.prems(3) by (simp add: same_content_def wide_block_def cs)
  show ?case
  proof (cases "bs = []")
    case True
    with len same show ?thesis by (simp add: cs)
  next
    case False
    with len have "cs' \<noteq> []" by auto
    with False vb(3) vc(3) same have "block_hash (last bs) = block_hash (last cs')"
      by (simp add: same_content_def)
    then have "list_all2 same_content bs cs'"
      using snoc.IH [OF len False] vb(1) vc(1) snoc.prems(6,7)
      by (auto simp: cs intro: inj_on_subset)
    with same show ?thesis by (simp add: cs list_all2_appendI)
  qed
qed

section \<open>Export and import\<close>

lemma import_exported_block:
  assumes "enc (dec (metadata b)) = metadata b"
  shows "\<exists>d. export_block dec b = JDict d \<and> import_block enc d nce = Inr (b\<lparr>nonce := nce\<rparr>)
    \<and> map_of d ''index'' = Some (JInt (index b))"
  using assms by (simp add: export_block_def import_block_def json_meta_def dict_index_def)

fun dict_of :: "json \<Rightarrow> (string, json) dict" where
  "dict_of (JDict d) = d"
| "dict_of _ = []"

lemma import_loop_exported:
  assumes "\<And>b. b \<in> set bs \<Longrightarrow> enc (dec (metadata b)) = metadata b"
    and "\<And>b. b \<in> set bs \<Longrightarrow> index b \<noteq> 0"
  shows "import_loop enc nce (map (dict_of \<circ> export_block dec) bs) = Inr (map (nonce_update (\<lambda>_. nce)) bs)"
  using assms
proof (induction bs)
  case Nil
  then show ?case by simp
next
  case (Cons b bs)
  obtain d where "export_block dec b = JDict d" "import_block enc d nce = Inr (b\<lparr>nonce := nce\<rparr>)"
    "map_of d ''index'' = Some (JInt (index b))"
    using import_exported_block [of enc dec b nce] Cons.prems(1) by auto
  with Cons show ?case by simp
qed

lemma verify_block_nonce [simp]: "verify_block h (b\<lparr>nonce := n\<rparr>) = verify_block h b"
  by (simp add: verify_block_def)

lemma verify_blocks_nonce:
  "verify_blocks h prev (map (nonce_update (\<lambda>_. n)) bs) = verify_blocks h prev bs"
  by (induction bs arbitrary: prev) (simp_all add: bind_res_def split: sum.split option.split)

text \<open>The genesis block is a function of the chain identifier.\<close>

lemma new_chain_genesis:
  assumes "new_chain h ser cid fresh nce = Inr c" and "chain_id c \<noteq> []"
  shows "\<exists>c'. new_chain h ser (Some (chain_id c)) fresh' nce' = Inr c' \<and> chain_id c' = chain_id c
    \<and> genesis c' = (genesis c)\<lparr>nonce := nce'\<rparr> \<and> blocks c' = [genesis c']"
  using assms by (auto simp: new_chain_def map_res_eq_Inr Let_def)

lemma chain_step_genesis:
  assumes "chain_step h ser c c'" and "chain_inv h ser c"
  shows "genesis c' = genesis c \<and> chain_id c' = chain_id c"
  using assms(1)
proof cases
  case (append payload meta now nce b)
  then show ?thesis using append_block_inv(4,5) [OF _ assms(2)] by blast
next
  case levels
  then show ?thesis by (auto simp: build_levels_def Let_def split: option.splits)
next
  case (audit task tenant now nce a)
  then obtain b c1 where ap: "append_block h ser c (task_payload task tenant)
      (Some (JDict [(''audit_type'', JStr ''solution_generation'')])) now nce = Inr (b, c1)"
    and c': "c' = snd (chain_root h (snd (prove_inclusion h c1 (index b))))"
    by (force simp: create_audit_proof_def bind_res_eq_Inr Let_def case_prod_beta)
  have lv: "genesis (snd (build_levels h x)) = genesis x \<and> chain_id (snd (build_levels h x)) = chain_id x"
    for x by (auto simp: build_levels_def Let_def split: option.splits)
  show ?thesis
    using append_block_inv(4,5) [OF ap assms(2)] prove_inclusion_snd [of h c1 "index b"] lv
    by (auto simp: c' chain_root_snd)
qed

lemma reachable_chain_genesis:
  "reachable_chain h ser c \<Longrightarrow> \<exists>cid fresh nce c0. new_chain h ser cid fresh nce = Inr c0
    \<and> genesis c0 = genesis c \<and> chain_id c0 = chain_id c"
proof (induction rule: reachable_chain.induct)
  case (start cid fresh nce c)
  then show ?case by blast
next
  case (step c c')
  then show ?case using chain_step_genesis [OF step.hyps(2) reachable_chain_inv] by metis
qed

lemma build_merkle_tree_top: "build_merkle_tree h xs = last (tree_levels_of h xs)"
proof (induction h xs rule: build_merkle_tree.induct)
  case (1 h xs)
  then show ?case by (subst build_merkle_tree.simps, subst tree_levels_of.simps) simp
qed

lemma block_data_ok:
  "0 \<le> i \<Longrightarrow> i < 2 ^ 64 \<Longrightarrow> 0 \<le> ts \<Longrightarrow> ts * 1000000 < 2 ^ 64 \<Longrightarrow> \<exists>x. block_data i p c ts m = Inr x"
  by (auto simp: block_data_def to_bytes8_def py_trunc_def floor_less_iff)

section \<open>Properties\<close>

text \<open>
  (C2) Every chain the operations can reach verifies, numbers its blocks by position, and
  answers its Merkle root from the memo exactly as \<open>_build_merkle_tree\<close> computes it from the
  current blocks.
\<close>

theorem reachable_chain_verifies:
  assumes "reachable_chain h ser c"
  shows "verify_chain h c = Inr True
    \<and> map index (blocks c) = map int [0..<height c]
    \<and> fst (chain_root h c) = Inr (hd (build_merkle_tree h (map block_hash (blocks c))))"
proof -
  from assms have inv: "chain_inv h ser c" by (rule reachable_chain_inv)
  moreover from inv have "map index (blocks c) = map int [0..<height c]"
    by (intro nth_equalityI) (auto simp: chain_inv_def height_def)
  ultimately show ?thesis
    using chain_root_eq [OF inv]
    by (simp add: chain_inv_def verify_chain_def build_merkle_tree_top tree_top_def)
qed

theorem reachable_chain_verifies_witness:
  "\<exists>c. reachable_chain (\<lambda>_. []) (\<lambda>_. [1]) c \<and> height c = 2 \<and> verify_chain (\<lambda>_. []) c = Inr True"
proof -
  let ?h = "\<lambda>_ :: bytes. [] :: bytes" and ?ser = "\<lambda>_ :: json. [1] :: bytes"
  obtain c0 where c0: "new_chain ?h ?ser None ''abc'' [] = Inr c0" "height c0 = 1" "index (last (blocks c0)) = 0" "blocks c0 \<noteq> []"
    by (auto simp: new_chain_def compute_block_hash_def block_data_def to_bytes8_def py_trunc_def
        Let_def height_def)
  then obtain b c1 where c1: "append_block ?h ?ser c0 JNull None 0 [] = Inr (b, c1)" "height c1 = 2"
    by (auto simp: append_block_def tip_def compute_block_hash_def block_data_def to_bytes8_def
        py_trunc_def Let_def height_def verify_block_def)
  have "reachable_chain ?h ?ser c1"
    by (rule reachable_chain.step [OF reachable_chain.start [OF c0(1)] chain_step.append [OF c1(1)]])
  then show ?thesis using reachable_chain_verifies [of ?h ?ser c1] c1(2) by blast
qed

text \<open>
  Appending to a reachable chain succeeds while the clock and the height fit in 64 bits,
  adds exactly one block at the end that links to the previous tip and commits to the payload,
  and changes nothing before it.
\<close>

theorem append_block_extends:
  assumes "reachable_chain h ser c" and "0 \<le> now" and "now * 1000000 < 2 ^ 64"
    and "height c < 2 ^ 64"
  shows "\<exists>b c'. append_block h ser c payload meta now nce = Inr (b, c')
    \<and> blocks c' = blocks c @ [b] \<and> index b = int (height c)
    \<and> tip_hash c = Inr (prev_hash b) \<and> commitment b = h (ser payload)
    \<and> verify_chain h c' = Inr True"
proof -
  from assms(1) have inv: "chain_inv h ser c" by (rule reachable_chain_inv)
  then have ne: "blocks c \<noteq> []" by (simp add: chain_inv_def)
  have idx: "index (last (blocks c)) + 1 = int (height c)"
    using inv ne by (auto simp: chain_inv_def last_conv_nth height_def of_nat_diff Suc_le_eq)
  have "int (height c) < 2 ^ 64" using assms(4) by (metis of_nat_less_iff of_nat_numeral of_nat_power)
  then obtain x where x: "block_data (int (height c)) (block_hash (last (blocks c))) (h (ser payload)) now (ser (or_empty meta)) = Inr x"
    using block_data_ok [OF of_nat_0_le_iff _ assms(2,3)] by blast
  then obtain b c' where ap: "append_block h ser c payload meta now nce = Inr (b, c')"
    and b: "prev_hash b = block_hash (last (blocks c))" "commitment b = h (ser payload)"
    using ne idx
    by (simp add: append_block_def tip_def compute_block_hash_def compute_commitment_def Let_def
        verify_block_def)
  note res = append_block_inv [OF ap inv]
  then show ?thesis
    using ap b ne by (auto simp: tip_hash_def tip_def height_def verify_chain_def chain_inv_def)
qed

theorem append_block_extends_witness:
  "\<exists>c b c'. append_block (\<lambda>_. [7]) (\<lambda>_. []) c JNull None 5 [] = Inr (b, c') \<and> height c' = 2"
proof -
  obtain c where c: "new_chain (\<lambda>_. [7]) (\<lambda>_. []) (Some ''x'') ''y'' [] = Inr c" "height c = 1"
    by (auto simp: new_chain_def compute_block_hash_def block_data_def to_bytes8_def py_trunc_def
        Let_def height_def)
  show ?thesis
    using append_block_extends [OF reachable_chain.start [OF c(1)], of 5 JNull None "[]"] c(2)
    by (fastforce simp: height_def)
qed

text \<open>
  Proofs of inclusion are complete: on a reachable chain \<open>prove_inclusion\<close> returns a proof
  exactly for the indices in range, and \<open>verify_proof\<close> accepts it.
\<close>

theorem chain_proofs_verify:
  assumes "reachable_chain h ser c"
  shows "if 0 \<le> i \<and> i < int (height c)
    then \<exists>p c'. prove_inclusion h c i = (Some p, c') \<and> fst (verify_proof h c' p) = Inr True
    else prove_inclusion h c i = (None, c)"
proof (cases "0 \<le> i \<and> i < int (height c)")
  case True
  from assms have inv: "chain_inv h ser c" by (rule reachable_chain_inv)
  from True obtain k where k: "i = int k" "k < length (blocks c)"
    by (metis nat_eq_iff nat_less_iff height_def)
  then obtain p c' where p: "prove_inclusion h c i = (Some p, c')"
    using prove_inclusion_eq [OF inv k(2)] by (cases "prove_inclusion h c i") auto
  then have "fst (verify_proof h c' p) = Inr True"
    using issued_proof_verifies [OF inv k(2)] k(1) by blast
  with True p show ?thesis by simp
next
  case False
  then show ?thesis by (auto simp: prove_inclusion_def height_def)
qed

theorem chain_proofs_verify_witness:
  "\<exists>c p c'. prove_inclusion (\<lambda>_. [7]) c 0 = (Some p, c') \<and> fst (verify_proof (\<lambda>_. [7]) c' p) = Inr True"
proof -
  obtain c where c: "new_chain (\<lambda>_. [7]) (\<lambda>_. []) (Some ''x'') ''y'' [] = Inr c" "height c = 1"
    by (auto simp: new_chain_def compute_block_hash_def block_data_def to_bytes8_def py_trunc_def
        Let_def height_def)
  show ?thesis
    using chain_proofs_verify [OF reachable_chain.start [OF c(1)], of 0] c(2) by auto
qed



text \<open>
  Export and import are inverse on reachable chains: where UTF-8 decodes and encodes back
  the bytes the serialiser writes, importing the exported blocks under the chain's identifier
  succeeds and gives the same blocks up to the random nonces.
\<close>

theorem export_import_roundtrip:
  assumes "reachable_chain h ser c" and "chain_id c \<noteq> []"
    and "enc (dec genesis_meta) = genesis_meta" and "\<And>j. enc (dec (ser j)) = ser j"
  shows "\<exists>c'. import_blocks h ser enc (chain_id c) fresh nce (map dict_of (export_blocks dec c)) = Inr c'
    \<and> blocks c' = map (\<lambda>b. b\<lparr>nonce := nce\<rparr>) (blocks c) \<and> chain_id c' = chain_id c"
proof -
  from assms(1) have inv: "chain_inv h ser c" by (rule reachable_chain_inv)
  then have meta: "enc (dec (metadata b)) = metadata b" if "b \<in> set (blocks c)" for b
    using assms(3,4) that by (auto simp: chain_inv_def)
  obtain bs where bl: "blocks c = genesis c # bs" using inv by (cases "blocks c") (auto simp: chain_inv_def)
  have idx: "index b \<noteq> 0" if b: "b \<in> set bs" for b
  proof -
    from b obtain k where k: "k < length bs" "bs ! k = b" by (auto simp: in_set_conv_nth)
    then have "Suc k < length (blocks c)" by (simp add: bl)
    with inv have "index (blocks c ! Suc k) = int (Suc k)" unfolding chain_inv_def by blast
    with k show ?thesis by (simp add: bl)
  qed
  have g0: "index (genesis c) = 0" using inv by (force simp: chain_inv_def bl)
  obtain inst where inst: "new_chain h ser (Some (chain_id c)) fresh nce = Inr inst"
    "chain_id inst = chain_id c" "genesis inst = (genesis c)\<lparr>nonce := nce\<rparr>"
    using reachable_chain_genesis [OF assms(1)] new_chain_genesis assms(2) by metis
  have "import_loop enc nce (map (dict_of \<circ> export_block dec) bs) = Inr (map (nonce_update (\<lambda>_. nce)) bs)"
    by (rule import_loop_exported) (use meta idx bl in auto)
  then have loop: "import_loop enc nce (map dict_of (export_blocks dec c)) = Inr (map (nonce_update (\<lambda>_. nce)) bs)"
    using g0 by (simp add: export_blocks_def bl export_block_def comp_def)
  have eq: "genesis inst # map (nonce_update (\<lambda>_. nce)) bs = map (\<lambda>b. b\<lparr>nonce := nce\<rparr>) (blocks c)"
    by (simp add: bl inst(3))
  have "verify_blocks h None (genesis inst # map (nonce_update (\<lambda>_. nce)) bs) = Inr True"
    unfolding eq using inv by (simp add: verify_blocks_nonce chain_inv_def)
  then show ?thesis
    using inst loop eq by (simp add: import_blocks_def verify_chain_def Let_def del: verify_blocks.simps)
qed

theorem export_import_roundtrip_witness:
  "\<exists>c c'. import_blocks (\<lambda>_. [7]) (\<lambda>_. []) ascii (chain_id c) [] [] (map dict_of (export_blocks
      (map (\<lambda>b. char_of (unat b))) c)) = Inr c' \<and> height c = 1"
proof -
  obtain c where c: "new_chain (\<lambda>_. [7]) (\<lambda>_. []) (Some ''x'') ''y'' [] = Inr c" "height c = 1" "chain_id c = ''x''"
    by (auto simp: new_chain_def compute_block_hash_def block_data_def to_bytes8_def py_trunc_def
        Let_def height_def)
  have "ascii (map (\<lambda>b. char_of (unat b)) genesis_meta) = genesis_meta"
    by (simp add: ascii_def genesis_meta_def)
  then show ?thesis
    using export_import_roundtrip [OF reachable_chain.start [OF c(1)], of ascii "map (\<lambda>b. char_of (unat b))" "[]" "[]"] c
    by (metis (no_types, lifting) ascii_def list.distinct(1) list.simps(8))
qed

end
