(* ===== verification/Circuit_Breaker.thy ===== *)
theory Circuit_Breaker
  imports Prelude
begin

text \<open>
  \<open>noema/resilience/circuit_breaker.py\<close>: the circuit breaker, the retry policy with
  exponential backoff and the executor that wraps one in the other. \<open>time.monotonic()\<close> is a
  \<open>clock\<close>, the sequence of its readings, with the number of readings taken so far as part of
  the state; the protected coroutine is a function on a state of its own, \<open>'w\<close>; a random
  jitter is an argument. Because \<open>execute\<close> awaits the coroutine between admission and
  completion, other calls may run in between: \<open>breaker_step\<close> is the interleaved system with
  the calls in flight. The locale \<open>guarded_call\<close> is what clients rely on: a guarded call either
  is the call or rejects without making it.
\<close>

section \<open>Exceptions and outcomes\<close>

text \<open>
  An awaited call returns, raises \<open>CircuitBreakerError\<close>, raises another \<open>Exception\<close> (named by
  its class), or is cancelled (\<open>CancelledError\<close> is not an \<open>Exception\<close>). \<open>RaiseNone\<close> is
  \<open>raise None\<close>, a \<open>TypeError\<close>.
\<close>

datatype exn = CircuitBreakerError py_float | Failure string | Cancelled | RaiseNone

type_synonym 'a outcome = "exn + 'a"

definition is_Exception :: "exn \<Rightarrow> bool" where
  "is_Exception e = (e \<noteq> Cancelled)"

definition is_breaker_error :: "exn \<Rightarrow> bool" where
  "is_breaker_error e = (case e of CircuitBreakerError _ \<Rightarrow> True | _ \<Rightarrow> False)"

type_synonym clock = "nat \<Rightarrow> py_float"

section \<open>The circuit breaker\<close>

datatype circuit_state = CLOSED | OPEN | HALF_OPEN

record breaker =
  failure_threshold :: int
  recovery_timeout :: py_float
  half_open_max :: int
  cstate :: circuit_state
  failure_count :: int
  success_count :: int
  last_failure_time :: py_float
  half_open_calls :: int

definition new_breaker :: "int \<Rightarrow> py_float \<Rightarrow> int \<Rightarrow> breaker" where
  "new_breaker threshold timeout half_max =
     \<lparr> failure_threshold = threshold, recovery_timeout = timeout, half_open_max = half_max,
       cstate = CLOSED, failure_count = 0, success_count = 0, last_failure_time = 0,
       half_open_calls = 0 \<rparr>"

text \<open>The \<open>state\<close> property reads the clock only when the breaker is open.\<close>

definition observe :: "clock \<Rightarrow> breaker \<Rightarrow> nat \<Rightarrow> breaker \<times> nat" where
  "observe clk b t =
     (if cstate b = OPEN
      then (if recovery_timeout b \<le> clk t - last_failure_time b
            then b\<lparr>cstate := HALF_OPEN, half_open_calls := 0\<rparr> else b, Suc t)
      else (b, t))"

definition on_success :: "breaker \<Rightarrow> breaker" where
  "on_success b =
     (let b' = b\<lparr>failure_count := 0, success_count := success_count b + 1\<rparr>
      in if cstate b' = HALF_OPEN then b'\<lparr>cstate := CLOSED\<rparr> else b')"

definition on_failure :: "py_float \<Rightarrow> breaker \<Rightarrow> breaker" where
  "on_failure now b =
     (let b' = b\<lparr>failure_count := failure_count b + 1, last_failure_time := now, success_count := 0\<rparr>
      in if cstate b' = HALF_OPEN then b'\<lparr>cstate := OPEN\<rparr>
         else if failure_threshold b' \<le> failure_count b' then b'\<lparr>cstate := OPEN\<rparr>
         else b')"

definition breaker_error :: "breaker \<Rightarrow> exn" where
  "breaker_error b = CircuitBreakerError (last_failure_time b + recovery_timeout b)"

text \<open>\<open>execute\<close> up to the \<open>await\<close>: the exception, or \<open>None\<close> when the call is admitted.\<close>

definition admit :: "clock \<Rightarrow> breaker \<Rightarrow> nat \<Rightarrow> exn option \<times> breaker \<times> nat" where
  "admit clk b t =
     (let (b', t') = observe clk b t
      in if cstate b' = OPEN then (Some (breaker_error b'), b', t')
         else if cstate b' = HALF_OPEN
              then (if half_open_max b' \<le> half_open_calls b' then (Some (breaker_error b'), b', t')
                    else (None, b'\<lparr>half_open_calls := half_open_calls b' + 1\<rparr>, t'))
              else (None, b', t'))"

text \<open>\<open>execute\<close> after the \<open>await\<close>: a breaker error and a cancellation pass through.\<close>

definition settle :: "clock \<Rightarrow> 'a outcome \<Rightarrow> breaker \<Rightarrow> nat \<Rightarrow> breaker \<times> nat" where
  "settle clk r b t =
     (case r of
        Inr _ \<Rightarrow> (on_success b, t)
      | Inl e \<Rightarrow> (if is_breaker_error e then (b, t)
                  else if is_Exception e then (on_failure (clk t) b, Suc t)
                  else (b, t)))"

text \<open>One call with no other call in between; \<open>f\<close> is the coroutine.\<close>

definition execute ::
  "clock \<Rightarrow> ('w \<Rightarrow> 'a outcome \<times> 'w) \<Rightarrow> breaker \<times> nat \<Rightarrow> 'w \<Rightarrow> 'a outcome \<times> (breaker \<times> nat) \<times> 'w" where
  "execute clk f s w =
     (let (b, t) = s; (rej, b1, t1) = admit clk b t
      in case rej of
           Some e \<Rightarrow> (Inl e, (b1, t1), w)
         | None \<Rightarrow> (let (r, w') = f w in (r, settle clk r b1 t1, w')))"

definition reset_breaker :: "breaker \<Rightarrow> breaker" where
  "reset_breaker b = b\<lparr>cstate := CLOSED, failure_count := 0, success_count := 0\<rparr>"

section \<open>The retry policy\<close>

record policy =
  max_retries :: int
  base_delay :: py_float
  max_delay :: py_float
  jitter :: py_float
  retryable :: "exn \<Rightarrow> bool"
  non_retryable :: "exn \<Rightarrow> bool"

text \<open>\<open>random.uniform(-j, j)\<close> is \<open>-j + 2 * j * u\<close> for a random \<open>u\<close> between 0 and 1.\<close>

definition calc_delay :: "policy \<Rightarrow> nat \<Rightarrow> py_float \<Rightarrow> py_float" where
  "calc_delay p attempt u =
     (let delay = base_delay p * 2 ^ attempt;
          jitter_range = delay * jitter p;
          delay' = delay + (- jitter_range + 2 * jitter_range * u)
      in min (max delay' (1 / 10)) (max_delay p))"

text \<open>
  The loop of \<open>execute\<close> over the attempts that are left; \<open>sl\<close> collects the delays slept. The
  retried coroutine is a function on the state \<open>'w\<close>; \<open>rnd\<close> gives the random numbers.
\<close>

fun retry_loop ::
  "policy \<Rightarrow> (nat \<Rightarrow> py_float) \<Rightarrow> ('w \<Rightarrow> 'a outcome \<times> 'w) \<Rightarrow> nat list \<Rightarrow> exn \<Rightarrow> 'w \<Rightarrow> py_float list
    \<Rightarrow> 'a outcome \<times> 'w \<times> py_float list" where
  "retry_loop p rnd f [] last_exc w sl = (Inl last_exc, w, sl)"
| "retry_loop p rnd f (attempt # rest) last_exc w sl =
     (case f w of
        (Inr v, w') \<Rightarrow> (Inr v, w', sl)
      | (Inl e, w') \<Rightarrow>
          if \<not> retryable p e then (Inl e, w', sl)
          else if non_retryable p e then (Inl e, w', sl)
          else if int attempt < max_retries p
               then retry_loop p rnd f rest e w' (sl @ [calc_delay p attempt (rnd attempt)])
               else retry_loop p rnd f rest e w' sl)"

definition retry_execute ::
  "policy \<Rightarrow> (nat \<Rightarrow> py_float) \<Rightarrow> ('w \<Rightarrow> 'a outcome \<times> 'w) \<Rightarrow> 'w \<Rightarrow> 'a outcome \<times> 'w \<times> py_float list" where
  "retry_execute p rnd f w = retry_loop p rnd f [0..<nat (max_retries p + 1)] RaiseNone w []"

section \<open>The resilient executor\<close>

definition protected_call ::
  "clock \<Rightarrow> ('w \<Rightarrow> 'a outcome \<times> 'w) \<Rightarrow> (breaker \<times> nat) \<times> 'w \<Rightarrow> 'a outcome \<times> ((breaker \<times> nat) \<times> 'w)" where
  "protected_call clk f sw = (let (r, s', w') = execute clk f (fst sw) (snd sw) in (r, (s', w')))"

definition resilient_execute ::
  "clock \<Rightarrow> policy \<Rightarrow> (nat \<Rightarrow> py_float) \<Rightarrow> ('w \<Rightarrow> 'a outcome \<times> 'w) \<Rightarrow> breaker \<times> nat \<Rightarrow> 'w
    \<Rightarrow> 'a outcome \<times> ((breaker \<times> nat) \<times> 'w) \<times> py_float list" where
  "resilient_execute clk p rnd f s w = retry_execute p rnd (protected_call clk f) (s, w)"

section \<open>Interleaved calls\<close>

text \<open>
  The system of one breaker and its callers on one event loop: a state holds the breaker, the
  number of clock readings, the calls in flight (admitted, not yet completed) and, since the
  breaker last became half-open, the number of probes admitted. The rules are the two halves of
  \<open>execute\<close>, a rejected call, a look at the \<open>state\<close> property (as \<open>stats\<close> does), and \<open>reset\<close>.
\<close>

record breaker_sys =
  brk :: breaker
  tick :: nat
  in_flight :: nat
  probes :: nat

definition count_probe :: "breaker \<Rightarrow> breaker \<Rightarrow> nat \<Rightarrow> nat" where
  "count_probe b b' n =
     (if cstate b' = HALF_OPEN then (if cstate b = HALF_OPEN then Suc n else 1) else n)"

inductive breaker_step :: "clock \<Rightarrow> breaker_sys \<Rightarrow> breaker_sys \<Rightarrow> bool" for clk where
  admitted: "admit clk (brk s) (tick s) = (None, b', t') \<Longrightarrow>
     breaker_step clk s (s\<lparr>brk := b', tick := t', in_flight := Suc (in_flight s),
                           probes := count_probe (brk s) b' (probes s)\<rparr>)"
| rejected: "admit clk (brk s) (tick s) = (Some e, b', t') \<Longrightarrow>
     breaker_step clk s (s\<lparr>brk := b', tick := t',
       probes := (if cstate b' = HALF_OPEN \<and> cstate (brk s) \<noteq> HALF_OPEN then 0 else probes s)\<rparr>)"
| completed: "0 < in_flight s \<Longrightarrow> settle clk (r :: unit outcome) (brk s) (tick s) = (b', t') \<Longrightarrow>
     breaker_step clk s (s\<lparr>brk := b', tick := t', in_flight := in_flight s - 1\<rparr>)"
| observed: "observe clk (brk s) (tick s) = (b', t') \<Longrightarrow>
     breaker_step clk s (s\<lparr>brk := b', tick := t',
       probes := (if cstate b' = HALF_OPEN \<and> cstate (brk s) \<noteq> HALF_OPEN then 0 else probes s)\<rparr>)"
| was_reset: "breaker_step clk s (s\<lparr>brk := reset_breaker (brk s)\<rparr>)"

inductive reachable_breaker :: "clock \<Rightarrow> breaker \<Rightarrow> breaker_sys \<Rightarrow> bool" for clk b0 where
  start: "reachable_breaker clk b0 \<lparr> brk = b0, tick = 0, in_flight = 0, probes = 0 \<rparr>"
| step: "reachable_breaker clk b0 s \<Longrightarrow> breaker_step clk s s' \<Longrightarrow> reachable_breaker clk b0 s'"

section \<open>Guarded calls as an interface\<close>

text \<open>
  A guard around a call on the state \<open>'w\<close>: either it makes the call once and hands its outcome
  through, or it raises an exception of its own and leaves \<open>'w\<close> alone.
\<close>

locale guarded_call =
  fixes guard :: "('w \<Rightarrow> ('e + 'a) \<times> 'w) \<Rightarrow> 's \<Rightarrow> 'w \<Rightarrow> ('e + 'a) \<times> 's \<times> 'w"
    and own_error :: "'e \<Rightarrow> bool"
  assumes call_or_reject:
    "guard f s w = (r, s', w') \<Longrightarrow> f w = (r, w') \<or> (\<exists>e. own_error e \<and> r = Inl e \<and> w' = w)"
begin

lemma result_from_call: "guard f s w = (Inr v, s', w') \<Longrightarrow> f w = (Inr v, w')"
  using call_or_reject by blast

lemma error_source:
  "guard f s w = (Inl e, s', w') \<Longrightarrow> \<not> own_error e \<Longrightarrow> f w = (Inl e, w')"
  using call_or_reject by blast

lemma preserves:
  "guard f s w = (r, s', w') \<Longrightarrow> P w \<Longrightarrow> (\<And>r w'. f w = (r, w') \<Longrightarrow> P w') \<Longrightarrow> P w'"
  using call_or_reject [of f s w r s' w'] by blast

end

lemma admit_error: "admit clk b t = (Some e, b', t') \<Longrightarrow> is_breaker_error e"
  by (auto simp: admit_def breaker_error_def is_breaker_error_def split: prod.splits if_splits)

interpretation breaker_guard: guarded_call "execute clk" is_breaker_error for clk
proof
  fix f :: "'c \<Rightarrow> 'b outcome \<times> 'c" and s w r s' w'
  assume "execute clk f s w = (r, s', w')"
  then show "f w = (r, w') \<or> (\<exists>e. is_breaker_error e \<and> r = Inl e \<and> w' = w)"
    by (auto simp: execute_def dest: admit_error split: prod.splits option.splits)
qed

section \<open>Invariant of the interleaved system\<close>

definition breaker_inv :: "breaker \<Rightarrow> bool" where
  "breaker_inv b \<longleftrightarrow>
     0 \<le> failure_count b \<and> 0 \<le> half_open_calls b \<and> half_open_calls b \<le> half_open_max b
     \<and> (cstate b = CLOSED \<longrightarrow> failure_count b < failure_threshold b)"

definition same_params :: "breaker \<Rightarrow> breaker \<Rightarrow> bool" where
  "same_params b b' \<longleftrightarrow> failure_threshold b' = failure_threshold b
     \<and> recovery_timeout b' = recovery_timeout b \<and> half_open_max b' = half_open_max b"

definition sys_inv :: "breaker \<Rightarrow> breaker_sys \<Rightarrow> bool" where
  "sys_inv b0 s \<longleftrightarrow> breaker_inv (brk s) \<and> same_params b0 (brk s)
     \<and> (cstate (brk s) = HALF_OPEN \<longrightarrow> int (probes s) = half_open_calls (brk s))"

lemmas breaker_defs = breaker_inv_def same_params_def sys_inv_def

lemma observe_inv:
  assumes "observe clk b t = (b', t')" and "breaker_inv b"
  shows "breaker_inv b'" and "same_params b b'"
    and "cstate b' = HALF_OPEN \<Longrightarrow> cstate b \<noteq> HALF_OPEN \<Longrightarrow> half_open_calls b' = 0"
    and "cstate b = HALF_OPEN \<Longrightarrow> b' = b"
  using assms by (auto simp: observe_def breaker_defs split: if_splits)

lemma admit_None:
  assumes "admit clk b t = (None, b', t')" and "breaker_inv b"
  shows "breaker_inv b'" and "same_params b b'"
    and "cstate b' = HALF_OPEN \<Longrightarrow>
      half_open_calls b' = (if cstate b = HALF_OPEN then half_open_calls b + 1 else 1)"
  using assms by (auto simp: admit_def observe_def breaker_defs split: if_splits prod.splits)

lemma admit_Some:
  assumes "admit clk b t = (Some e, b', t')"
  shows "(b', t') = observe clk b t"
  using assms by (auto simp: admit_def split: if_splits prod.splits)

lemma settle_inv:
  assumes "settle clk r b t = (b', t')" and "breaker_inv b" and "1 \<le> failure_threshold b"
  shows "breaker_inv b'" and "same_params b b'"
    and "cstate b' = HALF_OPEN \<Longrightarrow> cstate b = HALF_OPEN \<and> half_open_calls b' = half_open_calls b"
  using assms
  by (auto simp: settle_def on_success_def on_failure_def breaker_defs Let_def
      split: if_splits sum.splits)

lemma breaker_step_inv:
  assumes "breaker_step clk s s'" and "sys_inv b0 s" and "1 \<le> failure_threshold b0"
  shows "sys_inv b0 s'"
  using assms(1)
proof cases
  case (admitted b' t')
  with assms(2) admit_None [of clk "brk s" "tick s" b' t'] show ?thesis
    by (auto simp: sys_inv_def same_params_def count_probe_def)
next
  case (rejected e b' t')
  with admit_Some have "observe clk (brk s) (tick s) = (b', t')" by metis
  with rejected assms(2) observe_inv [of clk "brk s" "tick s" b' t'] show ?thesis
    by (auto simp: sys_inv_def same_params_def)
next
  case (completed r b' t')
  with assms(2,3) settle_inv [of clk r "brk s" "tick s" b' t'] show ?thesis
    by (auto simp: sys_inv_def same_params_def)
next
  case (observed b' t')
  with assms(2) observe_inv [of clk "brk s" "tick s" b' t'] show ?thesis
    by (auto simp: sys_inv_def same_params_def)
next
  case was_reset
  with assms(2,3) show ?thesis by (auto simp: breaker_defs reset_breaker_def)
qed

lemma reachable_breaker_inv:
  assumes "reachable_breaker clk (new_breaker th to hm) s" and "1 \<le> th" and "0 \<le> hm"
  shows "sys_inv (new_breaker th to hm) s"
  using assms(1)
proof (induction rule: reachable_breaker.induct)
  case start
  then show ?case using assms(2,3) by (simp add: breaker_defs new_breaker_def)
next
  case (step s s')
  then show ?case using breaker_step_inv assms(2) by (auto simp: new_breaker_def)
qed

section \<open>Sequences of calls\<close>

definition run_calls :: "clock \<Rightarrow> unit outcome list \<Rightarrow> breaker \<times> nat \<Rightarrow> breaker \<times> nat" where
  "run_calls clk rs s = foldl (\<lambda>s r. fst (snd (execute clk (\<lambda>w. (r, w)) s ()))) s rs"

lemma run_calls_Cons:
  "run_calls clk (r # rs) s = run_calls clk rs (fst (snd (execute clk (\<lambda>w. (r, w)) s ())))"
  by (simp add: run_calls_def)

lemma run_calls_append: "run_calls clk (rs @ qs) s = run_calls clk qs (run_calls clk rs s)"
  by (simp add: run_calls_def)

lemma execute_closed:
  "cstate b = CLOSED \<Longrightarrow> execute clk f (b, t) w = (let (r, w') = f w in (r, settle clk r b t, w'))"
  by (simp add: execute_def admit_def observe_def)

lemma execute_open:
  "cstate b = OPEN \<Longrightarrow> clk t - last_failure_time b < recovery_timeout b \<Longrightarrow>
    execute clk f (b, t) w = (Inl (breaker_error b), (b, Suc t), w)"
  by (simp add: execute_def admit_def observe_def)

lemma execute_recovered:
  "cstate b = OPEN \<Longrightarrow> recovery_timeout b \<le> clk t - last_failure_time b \<Longrightarrow> 0 < half_open_max b \<Longrightarrow>
    execute clk f (b, t) w =
      (let (r, w') = f w
       in (r, settle clk r (b\<lparr>cstate := HALF_OPEN, half_open_calls := 1\<rparr>) (Suc t), w'))"
  by (simp add: execute_def admit_def observe_def)

lemma execute_half_open_full:
  "cstate b = HALF_OPEN \<Longrightarrow> half_open_max b \<le> half_open_calls b \<Longrightarrow>
    execute clk f (b, t) w = (Inl (breaker_error b), (b, t), w)"
  by (simp add: execute_def admit_def observe_def)

lemma run_calls_failures:
  assumes "\<And>r. r \<in> set rs \<Longrightarrow> \<exists>m. r = Inl (Failure m)"
    and "cstate b = CLOSED" and "failure_count b = c" and "int (length rs) + c < failure_threshold b"
  shows "\<exists>b'. run_calls clk rs (b, t) = (b', t + length rs) \<and> cstate b' = CLOSED
    \<and> failure_count b' = c + int (length rs) \<and> same_params b b'"
  using assms
proof (induction rs arbitrary: b c t)
  case Nil
  then show ?case by (simp add: run_calls_def same_params_def)
next
  case (Cons r rs)
  obtain m where r: "r = Inl (Failure m)" using Cons.prems(1) by auto
  let ?b = "b\<lparr>failure_count := c + 1, last_failure_time := clk t, success_count := 0\<rparr>"
  have one: "execute clk (\<lambda>w. (r, w)) (b, t) () = (r, (?b, Suc t), ())"
    using Cons.prems
    by (simp add: execute_closed settle_def r is_breaker_error_def is_Exception_def on_failure_def
        Let_def)
  have "\<exists>b'. run_calls clk rs (?b, Suc t) = (b', Suc t + length rs) \<and> cstate b' = CLOSED
    \<and> failure_count b' = (c + 1) + int (length rs) \<and> same_params ?b b'"
    by (rule Cons.IH) (use Cons.prems in auto)
  then show ?case
    by (auto simp: run_calls_Cons one same_params_def)
qed

section \<open>Attempts of the retry loop\<close>

text \<open>A call whose \<open>i\<close>-th invocation has the outcome \<open>outs i\<close>, with the counter as its state.\<close>

definition scripted :: "(nat \<Rightarrow> 'a outcome) \<Rightarrow> nat \<Rightarrow> 'a outcome \<times> nat" where
  "scripted outs i = (outs i, Suc i)"

definition retries_on :: "policy \<Rightarrow> exn \<Rightarrow> bool" where
  "retries_on p e = (retryable p e \<and> \<not> non_retryable p e)"

definition delays :: "policy \<Rightarrow> (nat \<Rightarrow> py_float) \<Rightarrow> nat \<Rightarrow> nat \<Rightarrow> py_float list" where
  "delays p rnd i j = map (\<lambda>a. calc_delay p a (rnd a)) [i..<j]"

lemma retry_loop_scripted:
  assumes "i \<le> k" and "int k \<le> max_retries p" and "n = nat (max_retries p + 1)"
    and "\<And>j. i \<le> j \<Longrightarrow> j < k \<Longrightarrow> \<exists>e. outs j = Inl e \<and> retries_on p e"
  shows "\<exists>e'. retry_loop p rnd (scripted outs) [i..<n] e i sl
    = retry_loop p rnd (scripted outs) [k..<n] e' k (sl @ delays p rnd i k)"
  using assms
proof (induction "k - i" arbitrary: i e sl)
  case 0
  then show ?case by (auto simp: delays_def)
next
  case (Suc d)
  then have less: "i < k" by simp
  then obtain e' where e': "outs i = Inl e'" "retries_on p e'" using Suc.prems(4) by blast
  from less Suc.prems(2,3) have "i < n" and "int i < max_retries p" by auto
  then have "retry_loop p rnd (scripted outs) [i..<n] e i sl
      = retry_loop p rnd (scripted outs) [Suc i..<n] e' (Suc i) (sl @ [calc_delay p i (rnd i)])"
    using e' by (simp add: upt_conv_Cons scripted_def retries_on_def)
  moreover have "\<exists>e''. retry_loop p rnd (scripted outs) [Suc i..<n] e' (Suc i) (sl @ [calc_delay p i (rnd i)])
      = retry_loop p rnd (scripted outs) [k..<n] e'' k ((sl @ [calc_delay p i (rnd i)]) @ delays p rnd (Suc i) k)"
    by (rule Suc.hyps(1)) (use Suc less in auto)
  moreover have "delays p rnd i k = calc_delay p i (rnd i) # delays p rnd (Suc i) k"
    using less by (simp add: delays_def upt_conv_Cons)
  ultimately show ?case by simp
qed

lemma retry_loop_open:
  assumes "\<And>i. clk i - last_failure_time b < recovery_timeout b" and "cstate b = OPEN"
    and "retries_on p (breaker_error b)" and "int k + int m = max_retries p + 1" and "0 < m"
  shows "retry_loop p rnd (protected_call clk f) [k..<k + m] e ((b, t), w) sl
    = (Inl (breaker_error b), ((b, t + m), w), sl @ delays p rnd k (k + m - 1))"
  using assms(4,5)
proof (induction m arbitrary: k e t sl)
  case 0
  then show ?case by simp
next
  case (Suc m)
  have pc: "protected_call clk f ((b, t), w) = (Inl (breaker_error b), ((b, Suc t), w))"
    using assms(1,2) by (simp add: protected_call_def execute_open)
  show ?case
  proof (cases "m = 0")
    case True
    with Suc.prems pc assms(3) show ?thesis
      by (simp add: upt_conv_Cons retries_on_def delays_def)
  next
    case False
    then have "delays p rnd k (k + m) = calc_delay p k (rnd k) # delays p rnd (Suc k) (k + m)"
      by (simp add: delays_def upt_conv_Cons)
    moreover have "retry_loop p rnd (protected_call clk f) [Suc k..<Suc k + m] (breaker_error b)
        ((b, Suc t), w) (sl @ [calc_delay p k (rnd k)])
      = (Inl (breaker_error b), ((b, Suc t + m), w),
         (sl @ [calc_delay p k (rnd k)]) @ delays p rnd (Suc k) (Suc k + m - 1))"
      by (rule Suc.IH) (use Suc.prems False in auto)
    ultimately show ?thesis
      using Suc.prems False pc assms(3) by (simp add: upt_conv_Cons retries_on_def)
  qed
qed

section \<open>Properties\<close>



text \<open>
  From a new breaker, consecutive failing calls are counted and the circuit opens at
  exactly the configured threshold.
\<close>

theorem opens_at_threshold:
  assumes "\<And>r. r \<in> set rs \<Longrightarrow> \<exists>m. r = Inl (Failure m)" and "1 \<le> threshold"
    and "int (length rs) \<le> threshold"
  shows "\<exists>b. run_calls clk rs (new_breaker threshold timeout half_max, 0) = (b, length rs)
    \<and> failure_count b = int (length rs)
    \<and> cstate b = (if int (length rs) = threshold then OPEN else CLOSED)"
proof (cases "int (length rs) = threshold")
  case False
  with assms show ?thesis
    using run_calls_failures [of rs "new_breaker threshold timeout half_max" 0 clk 0]
    by (auto simp: new_breaker_def)
next
  case True
  with assms(2) obtain qs r where rs: "rs = qs @ [r]" by (cases rs rule: rev_cases) auto
  obtain m where r: "r = Inl (Failure m)" using assms(1) rs by auto
  obtain b where b: "run_calls clk qs (new_breaker threshold timeout half_max, 0) = (b, length qs)"
    "cstate b = CLOSED" "failure_count b = int (length qs)"
    "failure_threshold b = threshold"
    using run_calls_failures [of qs "new_breaker threshold timeout half_max" 0 clk 0] assms True
    by (auto simp: rs new_breaker_def same_params_def)
  have "run_calls clk rs (new_breaker threshold timeout half_max, 0)
      = settle clk r b (length qs)"
    by (simp add: rs run_calls_append b(1) run_calls_Cons execute_closed b(2))
      (simp add: run_calls_def)
  then show ?thesis
    using b(2-4) True
    by (simp add: rs r settle_def on_failure_def is_breaker_error_def is_Exception_def Let_def)
qed

theorem opens_at_threshold_witness:
  "\<exists>b. run_calls (\<lambda>_. 4) [Inl (Failure ''a''), Inl (Failure ''b'')] (new_breaker 2 30 1, 0) = (b, 2)
    \<and> cstate b = OPEN"
  using opens_at_threshold [of "[Inl (Failure ''a''), Inl (Failure ''b'')]" 2 "\<lambda>_. 4" 30 1]
  by (auto simp: numeral_2_eq_2)

text \<open>
  The life of an open circuit: before the recovery timeout has passed a call raises
  \<open>CircuitBreakerError\<close> with the recovery time, without running the coroutine; afterwards one
  probe runs, and its success closes the circuit with a zero failure count while an exception
  opens it again from the current time.
\<close>

theorem open_circuit_behaviour:
  assumes "cstate b = OPEN" and "0 < half_open_max b"
  shows "execute clk f (b, t) w =
    (if clk t - last_failure_time b < recovery_timeout b
     then (Inl (CircuitBreakerError (last_failure_time b + recovery_timeout b)), (b, Suc t), w)
     else case f w of
       (Inr v, w') \<Rightarrow> (Inr v, (b\<lparr>cstate := CLOSED, half_open_calls := 1, failure_count := 0,
                              success_count := success_count b + 1\<rparr>, Suc t), w')
     | (Inl (Failure m), w') \<Rightarrow>
         (Inl (Failure m), (b\<lparr>cstate := OPEN, half_open_calls := 1, failure_count := failure_count b + 1,
            last_failure_time := clk (Suc t), success_count := 0\<rparr>, Suc (Suc t)), w')
     | (Inl RaiseNone, w') \<Rightarrow>
         (Inl RaiseNone, (b\<lparr>cstate := OPEN, half_open_calls := 1, failure_count := failure_count b + 1,
            last_failure_time := clk (Suc t), success_count := 0\<rparr>, Suc (Suc t)), w')
     | (Inl e, w') \<Rightarrow> (Inl e, (b\<lparr>cstate := HALF_OPEN, half_open_calls := 1\<rparr>, Suc t), w'))"
  using assms execute_open [of b clk t f w] execute_recovered [of b clk t f w]
  by (cases b) (auto simp: breaker_error_def settle_def on_success_def on_failure_def is_breaker_error_def
      is_Exception_def Let_def not_less split: prod.split sum.split exn.split)

theorem open_circuit_behaviour_witness:
  "execute (\<lambda>_. 40) (\<lambda>w. (Inr True, w)) (new_breaker 1 30 1\<lparr>cstate := OPEN, failure_count := 1\<rparr>, 0) ()
    = (Inr True, (new_breaker 1 30 1\<lparr>cstate := CLOSED, half_open_calls := 1, failure_count := 0,
         success_count := 1\<rparr>, 1), ())"
  using open_circuit_behaviour [of "new_breaker 1 30 1\<lparr>cstate := OPEN, failure_count := 1\<rparr>"
      "\<lambda>_. 40" "\<lambda>w. (Inr True, w)" 0 "()"]
  by (simp add: new_breaker_def)

text \<open>
  A cancelled probe wedges the breaker. When the only probe of a half-open circuit is
  cancelled, nothing gives its slot back: with no other call in flight, every later call, at
  whatever time, is rejected and leaves the breaker as it is.
\<close>

theorem cancelled_probe_wedges:
  assumes "cstate b = OPEN" and "half_open_max b = 1"
    and "recovery_timeout b \<le> clk t - last_failure_time b" and "f w = (Inl Cancelled, w')"
  shows "\<exists>b' t'. execute clk f (b, t) w = (Inl Cancelled, (b', t'), w')
    \<and> (\<forall>clk2 t2 (g :: 'v \<Rightarrow> 'c outcome \<times> 'v) x. execute clk2 g (b', t2) x
         = (Inl (CircuitBreakerError (last_failure_time b + recovery_timeout b)), (b', t2), x))"
proof -
  let ?b = "b\<lparr>cstate := HALF_OPEN, half_open_calls := 1\<rparr>"
  have "execute clk f (b, t) w = (Inl Cancelled, (?b, Suc t), w')"
    using assms by (simp add: execute_recovered settle_def is_breaker_error_def is_Exception_def)
  moreover have "execute clk2 g (?b, t2) x
      = (Inl (CircuitBreakerError (last_failure_time b + recovery_timeout b)), (?b, t2), x)"
    for clk2 t2 and g :: "'v \<Rightarrow> 'c outcome \<times> 'v" and x
    using assms(2) execute_half_open_full [of ?b clk2 g t2 x] by (simp add: breaker_error_def)
  ultimately show ?thesis by blast
qed

theorem cancelled_probe_wedges_witness:
  "\<exists>b' t'. execute (\<lambda>_. 100) (\<lambda>w. (Inl Cancelled :: unit outcome, w)) (new_breaker 1 30 1\<lparr>cstate := OPEN\<rparr>, 0) ()
      = (Inl Cancelled, (b', t'), ())
    \<and> execute (\<lambda>_. 1000000) (\<lambda>x. (Inr True, x)) (b', 5) () = (Inl (CircuitBreakerError 30), (b', 5), ())"
  using cancelled_probe_wedges [where ?'v = unit and ?'c = bool, of "new_breaker 1 30 1\<lparr>cstate := OPEN\<rparr>" "\<lambda>_. 100" 0
      "\<lambda>w. (Inl Cancelled :: unit outcome, w)" "()" "()"]
  by (auto simp: new_breaker_def)

text \<open>
  The retry policy: as long as the attempts fail with exceptions it retries on, the call is
  made again after one backoff delay each, up to \<open>max_retries\<close> retries; the first success is
  returned, and when the last attempt fails too its exception is raised after exactly
  \<open>max_retries\<close> delays.
\<close>

theorem retry_attempts:
  assumes "k \<le> nat (max_retries p)" and "0 \<le> max_retries p"
    and "\<And>j. j < k \<Longrightarrow> \<exists>e. outs j = Inl e \<and> retries_on p e"
    and "\<And>e. outs k = Inl e \<Longrightarrow> \<not> retries_on p e \<or> int k = max_retries p"
  shows "retry_execute p rnd (scripted outs) 0 = (outs k, Suc k, delays p rnd 0 k)"
proof -
  let ?n = "nat (max_retries p + 1)"
  from assms(1,2) have k: "int k \<le> max_retries p" "k < ?n" by auto
  obtain e' where "retry_execute p rnd (scripted outs) 0
      = retry_loop p rnd (scripted outs) [k..<?n] e' k (delays p rnd 0 k)"
    using retry_loop_scripted [of 0 k p ?n outs rnd RaiseNone "[]"] assms(3) k
    by (auto simp: retry_execute_def)
  moreover have "[Suc k..<?n] = []" if "int k = max_retries p" using that k by simp
  ultimately show ?thesis
    using k assms(4) by (cases "outs k") (auto simp: upt_conv_Cons scripted_def retries_on_def)
qed

theorem retry_attempts_witness:
  "retry_execute \<lparr> max_retries = 3, base_delay = 1, max_delay = 30, jitter = 0, retryable = is_Exception,
      non_retryable = (\<lambda>_. False) \<rparr> (\<lambda>_. 0) (scripted (\<lambda>i. if i = 2 then Inr True else Inl (Failure ''x''))) 0
    = (Inr True, 3, [1, 2])"
  using retry_attempts [of 2 "\<lparr> max_retries = 3, base_delay = 1, max_delay = 30, jitter = 0, retryable = is_Exception,
      non_retryable = (\<lambda>_. False) \<rparr>" "\<lambda>i. if i = 2 then Inr True else Inl (Failure ''x'')" "\<lambda>_. 0"]
  by (simp add: retries_on_def is_Exception_def delays_def calc_delay_def Let_def upt_conv_Cons)

text \<open>
  A backoff delay is never above \<open>max_delay\<close>, is at least a tenth of a second where
  \<open>max_delay\<close> allows it, and without jitter is the exponential value clamped to these bounds.
\<close>

theorem delay_bounds:
  "calc_delay p attempt u \<le> max_delay p
    \<and> min (1 / 10) (max_delay p) \<le> calc_delay p attempt u
    \<and> calc_delay (p\<lparr>jitter := 0\<rparr>) attempt u
        = min (max (base_delay p * 2 ^ attempt) (1 / 10)) (max_delay p)"
  by (auto simp: calc_delay_def Let_def)

text \<open>
  Around an open circuit the executor with the default policy spends all its retries: it
  makes no call, sleeps \<open>max_retries\<close> times and raises \<open>CircuitBreakerError\<close>; with
  \<open>CircuitBreakerError\<close> non-retryable it fails at once without sleeping.
\<close>

theorem open_circuit_under_retry:
  assumes "cstate b = OPEN" and "\<And>i. clk i - last_failure_time b < recovery_timeout b"
    and "0 \<le> max_retries p" and "retryable p (breaker_error b)"
  shows "resilient_execute clk p rnd f (b, t) w =
    (if non_retryable p (breaker_error b)
     then (Inl (breaker_error b), ((b, Suc t), w), [])
     else (Inl (breaker_error b), ((b, t + nat (max_retries p + 1)), w),
           delays p rnd 0 (nat (max_retries p))))"
proof (cases "non_retryable p (breaker_error b)")
  case True
  have "protected_call clk f ((b, t), w) = (Inl (breaker_error b), ((b, Suc t), w))"
    using assms(1,2) by (simp add: protected_call_def execute_open)
  with True assms(3,4) show ?thesis
    by (simp add: resilient_execute_def retry_execute_def upt_conv_Cons)
next
  case False
  have "retry_loop p rnd (protected_call clk f) [0..<0 + nat (max_retries p + 1)] RaiseNone ((b, t), w) []
    = (Inl (breaker_error b), ((b, t + nat (max_retries p + 1)), w),
       [] @ delays p rnd 0 (0 + nat (max_retries p + 1) - 1))"
    by (rule retry_loop_open) (use assms False in \<open>auto simp: retries_on_def\<close>)
  moreover have "nat (max_retries p + 1) - 1 = nat (max_retries p)" using assms(3) by simp
  ultimately show ?thesis using False by (simp add: resilient_execute_def retry_execute_def)
qed

theorem open_circuit_under_retry_witness:
  "resilient_execute (\<lambda>_. 1) \<lparr> max_retries = 2, base_delay = 1, max_delay = 30, jitter = 0,
      retryable = is_Exception, non_retryable = is_breaker_error \<rparr> (\<lambda>_. 0) (\<lambda>w. (Inr True, w))
      (new_breaker 1 30 1\<lparr>cstate := OPEN\<rparr>, 0) ()
    = (Inl (CircuitBreakerError 30), ((new_breaker 1 30 1\<lparr>cstate := OPEN\<rparr>, 1), ()), [])"
  using open_circuit_under_retry [of "new_breaker 1 30 1\<lparr>cstate := OPEN\<rparr>" "\<lambda>_. 1"
      "\<lparr> max_retries = 2, base_delay = 1, max_delay = 30, jitter = 0,
         retryable = is_Exception, non_retryable = is_breaker_error \<rparr>" "\<lambda>_. 0" "\<lambda>w. (Inr True, w)" 0 "()"]
  by (simp add: new_breaker_def breaker_error_def is_Exception_def is_breaker_error_def)

end
