(* ===== verification/Ontology_Graph.thy ===== *)
theory Ontology_Graph
  imports Prelude "HOL-Library.Char_ord"
begin

text \<open>
  The typed knowledge graph of \<open>ontology/graph.py\<close>: entities and relations with their caps,
  the two adjacency indexes, the queries (\<open>get_entity\<close>, \<open>entities\<close>, \<open>neighbors\<close>,
  \<open>find_paths\<close>, \<open>get_subgraph\<close>) and the persisted form with its loader. The invariant
  \<open>wf_graph\<close> ties the indexes to the list of relations; every operation keeps it, and on a
  graph that has it no index lookup fails. \<open>has_cycle\<close> is in the theory \<open>Ontology_Cycle\<close>.

  The iteration order of a Python \<open>set\<close> is not specified: the queries that iterate over one
  take it as the parameter \<open>order\<close>. \<open>float(s)\<close> of a string is the parameter \<open>float_str\<close>.
\<close>

section \<open>Data\<close>

record entity =
  ent_name :: string
  ent_type :: string
  attributes :: "(string, json) dict"

record relation =
  subject :: string
  predicate :: string
  obj :: string
  weight :: py_float
  metadata :: "(string, json) dict"

record graph =
  max_entities :: int
  max_relations :: int
  g_entities :: "(string, entity) dict"
  g_relations :: "relation list"
  by_subject :: "(string, nat list) dict"
  by_object :: "(string, nat list) dict"

text \<open>The causes of an \<open>OntologyError\<close>, and the other exceptions the code can raise.\<close>

datatype onto_error =
    EmptyName
  | ControlChars
  | EntityCap
  | UnknownSubject
  | UnknownObject
  | EmptyPredicate
  | RelationCap
  | PyExn py_error

definition py_exn :: "'a result \<Rightarrow> onto_error + 'a" where
  "py_exn r = (case r of Inl e \<Rightarrow> Inl (PyExn e) | Inr x \<Rightarrow> Inr x)"

definition new_graph :: "int \<Rightarrow> int \<Rightarrow> graph" where
  "new_graph me mr =
     \<lparr>max_entities = me, max_relations = mr, g_entities = [], g_relations = [],
      by_subject = [], by_object = []\<rparr>"

section \<open>Mutation\<close>

definition clean_name :: "string \<Rightarrow> onto_error + string" where
  "clean_name name =
     (let cleaned = strip name
      in if cleaned = [] then Inl EmptyName
         else if \<exists>c \<in> set cleaned. of_char c < (32 :: nat) then Inl ControlChars
         else Inr cleaned)"

definition add_entity :: "entity \<Rightarrow> graph \<Rightarrow> onto_error + graph" where
  "add_entity e g =
     bind_res (clean_name (ent_name e)) (\<lambda>name.
       if \<not> dict_has (g_entities g) name \<and> max_entities g \<le> int (length (g_entities g))
       then Inl EntityCap
       else Inr (g\<lparr>g_entities :=
              dict_set name
                \<lparr>ent_name = name,
                 ent_type = strip (if ent_type e = [] then ''unknown'' else ent_type e),
                 attributes = attributes e\<rparr> (g_entities g)\<rparr>))"

fun has_duplicate :: "relation list \<Rightarrow> string \<Rightarrow> string \<Rightarrow> nat list \<Rightarrow> onto_error + bool" where
  "has_duplicate rs p ob [] = Inr False"
| "has_duplicate rs p ob (i # is) =
     bind_res (py_exn (nth_res rs i)) (\<lambda>existing.
       if predicate existing = p \<and> obj existing = ob then Inr True
       else has_duplicate rs p ob is)"

definition index_append :: "string \<Rightarrow> nat \<Rightarrow> (string, nat list) dict \<Rightarrow> (string, nat list) dict" where
  "index_append k i d = dict_set k (dict_get d k [] @ [i]) d"

definition append_relation :: "relation \<Rightarrow> graph \<Rightarrow> graph" where
  "append_relation r g =
     (let idx = length (g_relations g)
      in g\<lparr>g_relations := g_relations g @ [r],
           by_subject := index_append (subject r) idx (by_subject g),
           by_object := index_append (obj r) idx (by_object g)\<rparr>)"

text \<open>
  \<open>resolve_relation\<close> is \<open>add_relation\<close> up to the point where the new record is built: the
  cleaned triple to append, or nothing when it is there already.
\<close>

definition resolve_relation ::
  "string \<Rightarrow> string \<Rightarrow> string \<Rightarrow> graph \<Rightarrow> onto_error + (string \<times> string \<times> string) option" where
  "resolve_relation subj pred ob g =
     bind_res (clean_name subj) (\<lambda>s.
     bind_res (clean_name ob) (\<lambda>ob.
       if \<not> dict_has (g_entities g) s then Inl UnknownSubject
       else if \<not> dict_has (g_entities g) ob then Inl UnknownObject
       else
         (let p = strip pred
          in if p = [] then Inl EmptyPredicate
             else
               bind_res (has_duplicate (g_relations g) p ob (dict_get (by_subject g) s [])) (\<lambda>dup.
                 if dup then Inr None
                 else if max_relations g \<le> int (length (g_relations g)) then Inl RelationCap
                 else Inr (Some (s, p, ob))))))"

definition add_relation :: "relation \<Rightarrow> graph \<Rightarrow> onto_error + graph" where
  "add_relation r g =
     map_res (\<lambda>t. case t of None \<Rightarrow> g
                | Some (s, p, ob) \<Rightarrow>
                    append_relation
                      \<lparr>subject = s, predicate = p, obj = ob, weight = weight r,
                       metadata = metadata r\<rparr> g)
       (resolve_relation (subject r) (predicate r) (obj r) g)"

section \<open>Queries\<close>

definition get_entity :: "graph \<Rightarrow> string \<Rightarrow> onto_error + entity option" where
  "get_entity g name = map_res (map_of (g_entities g)) (clean_name name)"

definition entities :: "graph \<Rightarrow> string option \<Rightarrow> entity list" where
  "entities g ty =
     sort_key ent_name
       (filter (\<lambda>e. case ty of None \<Rightarrow> True | Some t \<Rightarrow> ent_type e = t) (map snd (g_entities g)))"

definition relation_at :: "graph \<Rightarrow> nat \<Rightarrow> onto_error + relation" where
  "relation_at g i = py_exn (nth_res (g_relations g) i)"

fun map_onto :: "('a \<Rightarrow> onto_error + 'b) \<Rightarrow> 'a list \<Rightarrow> onto_error + 'b list" where
  "map_onto f [] = Inr []"
| "map_onto f (x # xs) = bind_res (f x) (\<lambda>y. map_res (Cons y) (map_onto f xs))"

definition out_relations :: "graph \<Rightarrow> string \<Rightarrow> onto_error + relation list" where
  "out_relations g node = map_onto (relation_at g) (dict_get (by_subject g) node [])"

definition in_relations :: "graph \<Rightarrow> string \<Rightarrow> onto_error + relation list" where
  "in_relations g node = map_onto (relation_at g) (dict_get (by_object g) node [])"

type_synonym hop = "string \<times> string \<times> py_float"

text \<open>
  One round of the breadth-first search: for every node of the frontier, first its outgoing,
  then its incoming relations; \<open>seen\<close> does not change during the round.
\<close>

fun neighbor_round ::
  "graph \<Rightarrow> string set \<Rightarrow> string list \<Rightarrow> string set \<times> hop list \<times> hop list
   \<Rightarrow> onto_error + (string set \<times> hop list \<times> hop list)" where
  "neighbor_round g seen [] st = Inr st"
| "neighbor_round g seen (node # nodes) (nxt, out, inc) =
     bind_res (out_relations g node) (\<lambda>rs.
     bind_res (in_relations g node) (\<lambda>qs.
       let fresh = filter (\<lambda>r. obj r \<notin> seen) rs;
           fresh' = filter (\<lambda>r. subject r \<notin> seen) qs
       in neighbor_round g seen nodes
            (nxt \<union> set (map obj fresh) \<union> set (map subject fresh'),
             out @ map (\<lambda>r. (obj r, predicate r, weight r)) fresh,
             inc @ map (\<lambda>r. (subject r, predicate r, weight r)) fresh')))"

fun neighbor_rounds ::
  "(string set \<Rightarrow> string list) \<Rightarrow> graph \<Rightarrow> nat \<Rightarrow> string set \<Rightarrow> string set \<Rightarrow> hop list \<Rightarrow> hop list
   \<Rightarrow> onto_error + (hop list \<times> hop list)" where
  "neighbor_rounds order g 0 seen frontier out inc = Inr (out, inc)"
| "neighbor_rounds order g (Suc n) seen frontier out inc =
     bind_res (neighbor_round g seen (order frontier) ({}, out, inc)) (\<lambda>(nxt, out', inc').
       neighbor_rounds order g n (seen \<union> frontier) nxt out' inc')"

definition by_weight :: "hop list \<Rightarrow> hop list" where
  "by_weight hs = sort_key (\<lambda>t. - snd (snd t)) hs"

definition clamp_depth :: "int \<Rightarrow> int \<Rightarrow> nat" where
  "clamp_depth depth max_depth = nat (max 1 (min depth max_depth))"

definition neighbors ::
  "(string set \<Rightarrow> string list) \<Rightarrow> graph \<Rightarrow> string \<Rightarrow> int \<Rightarrow> int \<Rightarrow> onto_error + hop list" where
  "neighbors order g name depth max_depth =
     bind_res (clean_name name) (\<lambda>start.
       if \<not> dict_has (g_entities g) start then Inr []
       else
         map_res (\<lambda>(out, inc). by_weight out @ by_weight inc)
           (neighbor_rounds order g (clamp_depth depth max_depth) {} {start} [] []))"

text \<open>
  The bounded depth-first search of \<open>find_paths\<close>: the loop over the relations of the last
  node of \<open>path\<close>, with the list \<open>paths\<close> of results threaded through the nested calls. The
  test at the head of \<open>_dfs\<close> stands where the nested call is made.
\<close>

lemma bind_res_cong [fundef_cong]:
  "r = r' \<Longrightarrow> (\<And>x. r' = Inr x \<Longrightarrow> f x = f' x) \<Longrightarrow> bind_res r f = bind_res r' f'"
  by (cases r') auto

function dfs ::
  "graph \<Rightarrow> string \<Rightarrow> int \<Rightarrow> nat list \<Rightarrow> string list \<Rightarrow> string list list
   \<Rightarrow> onto_error + string list list" where
  "dfs g goal max_depth [] path paths = Inr paths"
| "dfs g goal max_depth (idx # rest) path paths =
     bind_res (relation_at g idx) (\<lambda>r.
       let nxt = obj r; cand = path @ [nxt]
       in if nxt \<in> set path then dfs g goal max_depth rest path paths
          else if nxt = goal then
            if 8 \<le> length (paths @ [cand]) then Inr (paths @ [cand])
            else dfs g goal max_depth rest path (paths @ [cand])
          else
            bind_res
              (if 8 \<le> length paths \<or> max_depth < int (length cand) then Inr paths
               else dfs g goal max_depth (dict_get (by_subject g) nxt []) cand paths)
              (\<lambda>paths'. dfs g goal max_depth rest path paths'))"
  by pat_completeness auto
termination
  by (relation "measures [\<lambda>(g, goal, m, is, path, ps). nat (m - int (length path)),
                          \<lambda>(g, goal, m, is, path, ps). length is]") auto

definition find_paths :: "graph \<Rightarrow> string \<Rightarrow> string \<Rightarrow> int \<Rightarrow> onto_error + string list list" where
  "find_paths g start goal max_depth =
     bind_res (clean_name start) (\<lambda>s.
     bind_res (clean_name goal) (\<lambda>e.
       if \<not> dict_has (g_entities g) s \<or> \<not> dict_has (g_entities g) e then Inr []
       else if max_depth < 1 then Inr []
       else dfs g e max_depth (dict_get (by_subject g) s []) [s] []))"

fun sub_roots ::
  "graph \<Rightarrow> string list \<Rightarrow> (string, entity) dict \<times> string set
   \<Rightarrow> onto_error + ((string, entity) dict \<times> string set)" where
  "sub_roots g [] st = Inr st"
| "sub_roots g (name # names) (ents, reached) =
     bind_res (get_entity g name) (\<lambda>e.
       case e of
         None \<Rightarrow> sub_roots g names (ents, reached)
       | Some e \<Rightarrow> sub_roots g names (dict_set (ent_name e) e ents, insert (ent_name e) reached))"

definition sub_visit ::
  "graph \<Rightarrow> string set \<Rightarrow> string \<Rightarrow> (string, entity) dict \<Rightarrow> (string, entity) dict" where
  "sub_visit g reached name ents =
     (case map_of (g_entities g) name of
        None \<Rightarrow> ents
      | Some target \<Rightarrow>
          if ent_name target \<notin> reached then dict_set (ent_name target) target ents else ents)"

fun sub_hop ::
  "graph \<Rightarrow> string set \<Rightarrow> string list \<Rightarrow> (string, entity) dict \<times> string set
   \<Rightarrow> onto_error + ((string, entity) dict \<times> string set)" where
  "sub_hop g reached [] st = Inr st"
| "sub_hop g reached (node # nodes) (ents, nxt) =
     bind_res (out_relations g node) (\<lambda>rs.
     bind_res (in_relations g node) (\<lambda>qs.
       sub_hop g reached nodes
         (fold (\<lambda>q. sub_visit g reached (subject q)) qs
            (fold (\<lambda>r. sub_visit g reached (obj r)) rs ents),
          nxt \<union> set (map obj rs) \<union> set (map subject qs))))"

fun add_relations :: "relation list \<Rightarrow> graph \<Rightarrow> onto_error + graph" where
  "add_relations [] g = Inr g"
| "add_relations (r # rs) g = bind_res (add_relation r g) (add_relations rs)"

fun sub_relations :: "graph \<Rightarrow> string list \<Rightarrow> graph \<Rightarrow> onto_error + graph" where
  "sub_relations g [] sub = Inr sub"
| "sub_relations g (node # nodes) sub =
     bind_res (out_relations g node) (\<lambda>rs.
     bind_res (in_relations g node) (\<lambda>qs.
     bind_res (add_relations (rs @ qs) sub) (\<lambda>sub'. sub_relations g nodes sub')))"

fun sub_rounds ::
  "(string set \<Rightarrow> string list) \<Rightarrow> graph \<Rightarrow> nat \<Rightarrow> string set \<Rightarrow> graph \<Rightarrow> onto_error + graph" where
  "sub_rounds order g 0 reached sub = Inr sub"
| "sub_rounds order g (Suc n) reached sub =
     bind_res (sub_hop g reached (order reached) (g_entities sub, {})) (\<lambda>(ents, nxt).
     bind_res (sub_relations g (order reached) (sub\<lparr>g_entities := ents\<rparr>)) (\<lambda>sub'.
       sub_rounds order g n (reached \<union> nxt) sub'))"

definition get_subgraph ::
  "(string set \<Rightarrow> string list) \<Rightarrow> graph \<Rightarrow> string list \<Rightarrow> int \<Rightarrow> int \<Rightarrow> onto_error + graph" where
  "get_subgraph order g roots depth max_depth =
     bind_res (sub_roots g roots ([], {})) (\<lambda>(ents, reached).
       let sub = (new_graph (max_entities g) (max_relations g))\<lparr>g_entities := ents\<rparr>
       in if reached = {} then Inr sub
          else sub_rounds order g (clamp_depth depth max_depth) reached sub)"

section \<open>Rendering\<close>

definition heaviest :: "graph \<Rightarrow> int \<Rightarrow> relation list" where
  "heaviest g limit = py_take limit (sort_key (\<lambda>r. - weight r) (g_relations g))"

definition to_context :: "graph \<Rightarrow> int \<Rightarrow> string" where
  "to_context g limit =
     py_join [CHR 0x0A]
       (map (\<lambda>r. subject r @ '' --'' @ predicate r @ ''--> '' @ obj r
               @ '' (w='' @ fmt_fixed 1 (weight r) @ '')'') (heaviest g limit))"

definition rule_line :: "relation \<Rightarrow> string" where
  "rule_line r =
     ''[AXIOM w='' @ fmt_fixed 1 (weight r) @ ''] '' @ subject r @
     (if predicate r = ''forbids''
      then '' MUST NOT '' @ obj r @ '' ('' @ predicate r @ '')''
      else '' MUST be linked to '' @ obj r @ '' via '' @ predicate r)"

definition to_rules :: "graph \<Rightarrow> int \<Rightarrow> string" where
  "to_rules g limit = py_join [CHR 0x0A] (map rule_line (heaviest g limit))"

section \<open>Persistence\<close>

definition entity_json :: "entity \<Rightarrow> json" where
  "entity_json e =
     JDict [(''name'', JStr (ent_name e)), (''type'', JStr (ent_type e)),
            (''attributes'', JDict (attributes e))]"

definition relation_json :: "relation \<Rightarrow> json" where
  "relation_json r =
     JDict [(''subject'', JStr (subject r)), (''predicate'', JStr (predicate r)),
            (''object'', JStr (obj r)), (''weight'', JFloat (weight r)),
            (''metadata'', JDict (metadata r))]"

definition save :: "graph \<Rightarrow> json" where
  "save g =
     JDict [(''entities'', JList (map (\<lambda>(_, e). entity_json e) (g_entities g))),
            (''relations'', JList (map relation_json (g_relations g)))]"

text \<open>
  Reading a record back. \<open>(x or "").strip()\<close> needs a string unless \<open>x\<close> is falsy; \<open>dict(x)\<close>
  copies an object and builds one from a list of pairs (pairs with a key that is not a string
  count as an error here).
\<close>

definition json_text :: "json \<Rightarrow> onto_error + string" where
  "json_text j =
     (if json_truthy j then (case j of JStr s \<Rightarrow> Inr s | _ \<Rightarrow> Inl (PyExn AttributeError))
      else Inr [])"

definition json_pair :: "json \<Rightarrow> (string \<times> json) result" where
  "json_pair j =
     bind_res (json_unpack2 j) (\<lambda>(k, v). case k of JStr s \<Rightarrow> Inr (s, v) | _ \<Rightarrow> Inl TypeError)"

definition json_dict :: "json \<Rightarrow> onto_error + (string, json) dict" where
  "json_dict j =
     (case j of
        JDict d \<Rightarrow> Inr d
      | _ \<Rightarrow>
          py_exn (bind_res (json_iter j) (\<lambda>xs.
            map_res (\<lambda>ps. fold (\<lambda>(k, v). dict_set k v) ps []) (map_result json_pair xs))))"

definition json_float :: "(string \<Rightarrow> py_float option) \<Rightarrow> json \<Rightarrow> onto_error + py_float" where
  "json_float float_str j =
     (case j of
        JInt i \<Rightarrow> Inr (of_int i)
      | JFloat x \<Rightarrow> Inr x
      | JBool b \<Rightarrow> Inr (if b then 1 else 0)
      | JStr s \<Rightarrow> (case float_str s of None \<Rightarrow> Inl (PyExn ValueError) | Some x \<Rightarrow> Inr x)
      | _ \<Rightarrow> Inl (PyExn TypeError))"

definition fields :: "json \<Rightarrow> onto_error + (string, json) dict" where
  "fields raw = (case raw of JDict d \<Rightarrow> Inr d | _ \<Rightarrow> Inl (PyExn AttributeError))"

definition required :: "(string, json) dict \<Rightarrow> string \<Rightarrow> onto_error + json" where
  "required d k = (case map_of d k of None \<Rightarrow> Inl (PyExn TypeError) | Some j \<Rightarrow> Inr j)"

definition load_entity :: "json \<Rightarrow> graph \<Rightarrow> onto_error + graph" where
  "load_entity raw g =
     bind_res (fields raw) (\<lambda>d.
     bind_res (bind_res (required d ''name'') json_text) (\<lambda>name.
     bind_res (bind_res (required d ''type'') json_text) (\<lambda>ty.
     bind_res (json_dict (dict_get d ''attributes'' (JDict []))) (\<lambda>attrs.
       add_entity \<lparr>ent_name = name, ent_type = ty, attributes = attrs\<rparr> g))))"

definition load_relation :: "(string \<Rightarrow> py_float option) \<Rightarrow> json \<Rightarrow> graph \<Rightarrow> onto_error + graph" where
  "load_relation float_str raw g =
     bind_res (fields raw) (\<lambda>d.
     bind_res (bind_res (required d ''subject'') json_text) (\<lambda>s.
     bind_res (bind_res (required d ''object'') json_text) (\<lambda>ob.
     bind_res (bind_res (required d ''predicate'') json_text) (\<lambda>p.
     bind_res (resolve_relation s p ob g) (\<lambda>t.
       case t of
         None \<Rightarrow> Inr g
       | Some _ \<Rightarrow>
           bind_res (json_float float_str (dict_get d ''weight'' (JFloat 1))) (\<lambda>w.
           bind_res (json_dict (dict_get d ''metadata'' (JDict []))) (\<lambda>m.
             add_relation
               \<lparr>subject = s, predicate = p, obj = ob, weight = w, metadata = m\<rparr> g)))))))"

text \<open>
  \<open>load_items\<close> is a loop under \<open>contextlib.suppress(Exception)\<close>: it gives the graph it
  reached and whether it ran to the end.
\<close>

fun load_items :: "(json \<Rightarrow> graph \<Rightarrow> onto_error + graph) \<Rightarrow> json list \<Rightarrow> graph \<Rightarrow> graph \<times> bool" where
  "load_items step [] g = (g, True)"
| "load_items step (raw # raws) g =
     (case step raw g of Inl _ \<Rightarrow> (g, False) | Inr g' \<Rightarrow> load_items step raws g')"

definition load_from :: "(json \<Rightarrow> graph \<Rightarrow> onto_error + graph) \<Rightarrow> json \<Rightarrow> graph \<Rightarrow> graph \<times> bool" where
  "load_from step j g =
     (case json_iter j of Inl _ \<Rightarrow> (g, False) | Inr raws \<Rightarrow> load_items step raws g)"

definition load :: "(string \<Rightarrow> py_float option) \<Rightarrow> int \<Rightarrow> int \<Rightarrow> json \<Rightarrow> graph" where
  "load float_str me mr data =
     (case data of
        JDict d \<Rightarrow>
          (let (g, fine) = load_from load_entity (dict_get d ''entities'' (JList [])) (new_graph me mr)
           in if fine
              then fst (load_from (load_relation float_str) (dict_get d ''relations'' (JList [])) g)
              else g)
      | _ \<Rightarrow> new_graph me mr)"

section \<open>The invariant\<close>

definition clean :: "string \<Rightarrow> bool" where
  "clean s = (clean_name s = Inr s)"

definition index_by :: "(relation \<Rightarrow> string) \<Rightarrow> relation list \<Rightarrow> (string, nat list) dict" where
  "index_by f rs = foldl (\<lambda>d (i, r). index_append (f r) i d) [] (enumerate 0 rs)"

definition triple :: "relation \<Rightarrow> string \<times> string \<times> string" where
  "triple r = (subject r, predicate r, obj r)"

definition triples :: "graph \<Rightarrow> (string \<times> string \<times> string) set" where
  "triples g = triple ` set (g_relations g)"

definition names :: "graph \<Rightarrow> string set" where
  "names g = fst ` set (g_entities g)"

definition edges :: "graph \<Rightarrow> (string \<times> string) set" where
  "edges g = (\<lambda>r. (subject r, obj r)) ` set (g_relations g)"

definition wf_entities :: "graph \<Rightarrow> bool" where
  "wf_entities g =
     (wf_dict (g_entities g) \<and>
      (\<forall>(k, e) \<in> set (g_entities g). ent_name e = k \<and> clean k \<and> strip (ent_type e) = ent_type e))"

definition wf_relations :: "graph \<Rightarrow> bool" where
  "wf_relations g =
     ((\<forall>r \<in> set (g_relations g).
         subject r \<in> names g \<and> obj r \<in> names g \<and> predicate r \<noteq> [] \<and>
         strip (predicate r) = predicate r) \<and>
      distinct (map triple (g_relations g)))"

definition wf_index :: "graph \<Rightarrow> bool" where
  "wf_index g =
     (by_subject g = index_by subject (g_relations g) \<and>
      by_object g = index_by obj (g_relations g))"

definition within_caps :: "graph \<Rightarrow> bool" where
  "within_caps g =
     (int (length (g_entities g)) \<le> max 0 (max_entities g) \<and>
      int (length (g_relations g)) \<le> max 0 (max_relations g))"

definition wf_graph :: "graph \<Rightarrow> bool" where
  "wf_graph g = (wf_entities g \<and> wf_relations g \<and> wf_index g \<and> within_caps g)"

lemmas wf_graph_defs = wf_graph_def wf_entities_def wf_relations_def wf_index_def within_caps_def

inductive built :: "graph \<Rightarrow> bool" where
  built_new: "built (new_graph me mr)"
| built_entity: "built g \<Longrightarrow> add_entity e g = Inr g' \<Longrightarrow> built g'"
| built_relation: "built g \<Longrightarrow> add_relation r g = Inr g' \<Longrightarrow> built g'"

subsection \<open>Names and indexes\<close>

lemma clean_name_clean: "clean_name s = Inr t \<Longrightarrow> clean t"
  by (auto simp: clean_def clean_name_def Let_def split: if_splits)

lemma clean_nameI [simp]: "clean s \<Longrightarrow> clean_name s = Inr s"
  by (simp add: clean_def)

lemma py_exn_simps [simp, res_simps]: "py_exn (Inr x) = Inr x" "py_exn (Inl e) = Inl (PyExn e)"
  by (simp_all add: py_exn_def)

lemma dict_get_index_append:
  "dict_get (index_append k i d) k' [] = (if k = k' then dict_get d k [] @ [i] else dict_get d k' [])"
  by (simp add: index_append_def dict_get_def)

lemma index_by_snoc:
  "index_by f (rs @ [r]) = index_append (f r) (length rs) (index_by f rs)"
  by (simp add: index_by_def enumerate_append_eq)

lemma dict_get_index_by:
  "dict_get (index_by f rs) k [] = filter (\<lambda>i. f (rs ! i) = k) [0..<length rs]"
proof (induction rs rule: rev_induct)
  case Nil
  then show ?case by (simp add: index_by_def dict_get_def)
next
  case (snoc r rs)
  have "filter (\<lambda>i. f ((rs @ [r]) ! i) = k) [0..<length rs] =
        filter (\<lambda>i. f (rs ! i) = k) [0..<length rs]"
    by (rule filter_cong) (auto simp: nth_append)
  with snoc show ?case by (simp add: index_by_snoc dict_get_index_append)
qed

lemma map_onto_Inr:
  "(\<And>x. x \<in> set xs \<Longrightarrow> f x = Inr (h x)) \<Longrightarrow> map_onto f xs = Inr (map h xs)"
  by (induction xs) auto

lemma relation_at_in [simp]: "i < length (g_relations g) \<Longrightarrow> relation_at g i = Inr (g_relations g ! i)"
  by (simp add: relation_at_def)

lemma map_filter_nth: "map ((!) xs) (filter (\<lambda>i. P (xs ! i)) [0..<length xs]) = filter P xs"
proof -
  have "filter P (map ((!) xs) [0..<length xs]) = map ((!) xs) (filter (P \<circ> (!) xs) [0..<length xs])"
    by (rule filter_map)
  then show ?thesis by (simp add: map_nth o_def)
qed

lemma out_relations_wf:
  "wf_index g \<Longrightarrow> out_relations g node = Inr (filter (\<lambda>r. subject r = node) (g_relations g))"
  unfolding out_relations_def wf_index_def
  by (subst map_onto_Inr [where h = "\<lambda>i. g_relations g ! i"])
     (auto simp: dict_get_index_by map_filter_nth [where P = "\<lambda>r. subject r = node"])

lemma in_relations_wf:
  "wf_index g \<Longrightarrow> in_relations g node = Inr (filter (\<lambda>r. obj r = node) (g_relations g))"
  unfolding in_relations_def wf_index_def
  by (subst map_onto_Inr [where h = "\<lambda>i. g_relations g ! i"])
     (auto simp: dict_get_index_by map_filter_nth [where P = "\<lambda>r. obj r = node"])

lemma has_duplicate_Inr:
  "(\<And>i. i \<in> set is \<Longrightarrow> i < length rs) \<Longrightarrow>
   has_duplicate rs p ob is = Inr (\<exists>i \<in> set is. predicate (rs ! i) = p \<and> obj (rs ! i) = ob)"
  by (induction "is") auto

lemma has_duplicate_wf:
  assumes "wf_index g"
  shows "has_duplicate (g_relations g) p ob (dict_get (by_subject g) s []) = Inr ((s, p, ob) \<in> triples g)"
proof -
  have "has_duplicate (g_relations g) p ob (dict_get (by_subject g) s []) =
        Inr (\<exists>i < length (g_relations g). triple (g_relations g ! i) = (s, p, ob))"
    using assms
    by (subst has_duplicate_Inr)
       (auto simp: wf_index_def dict_get_index_by triple_def)
  also have "(\<exists>i < length (g_relations g). triple (g_relations g ! i) = (s, p, ob)) = ((s, p, ob) \<in> triples g)"
    by (auto simp: triples_def image_iff set_conv_nth)
  finally show ?thesis .
qed

lemma names_iff [simp]: "dict_has (g_entities g) k \<longleftrightarrow> k \<in> names g"
  by (simp add: dict_has_def names_def)

subsection \<open>Preservation\<close>

lemma wf_new_graph: "wf_graph (new_graph me mr)"
  by (simp add: wf_graph_defs new_graph_def index_by_def)

lemma set_dict_set_cases:
  "p \<in> set (dict_set k v d) \<Longrightarrow> p = (k, v) \<or> p \<in> set d \<and> (wf_dict d \<longrightarrow> fst p \<noteq> k)"
  by (induction d) (auto simp: wf_dict_def image_iff split: if_splits)

lemma strip_unknown [simp]: "strip ''unknown'' = ''unknown''"
  by code_simp

lemma add_entity_result:
  assumes "add_entity e g = Inr g'"
  obtains name e' where "clean_name (ent_name e) = Inr name"
    and "name \<in> names g \<or> int (length (g_entities g)) < max_entities g"
    and "ent_name e' = name" and "strip (ent_type e') = ent_type e'"
    and "attributes e' = attributes e"
    and "g' = g\<lparr>g_entities := dict_set name e' (g_entities g)\<rparr>"
proof -
  from assms obtain name where name: "clean_name (ent_name e) = Inr name"
    and rest: "(if \<not> dict_has (g_entities g) name \<and> max_entities g \<le> int (length (g_entities g))
       then Inl EntityCap
       else Inr (g\<lparr>g_entities :=
              dict_set name
                \<lparr>ent_name = name,
                 ent_type = strip (if ent_type e = [] then ''unknown'' else ent_type e),
                 attributes = attributes e\<rparr> (g_entities g)\<rparr>)) = Inr g'"
    unfolding add_entity_def bind_res_eq_Inr by blast
  from rest show thesis
    by (intro that [OF name, of "\<lparr>ent_name = name,
                 ent_type = strip (if ent_type e = [] then ''unknown'' else ent_type e),
                 attributes = attributes e\<rparr>"])
       (simp_all add: not_le split: if_split_asm)
qed

lemma add_entity_wf: "wf_graph g \<Longrightarrow> add_entity e g = Inr g' \<Longrightarrow> wf_graph g'"
proof -
  assume wf: "wf_graph g" and add: "add_entity e g = Inr g'"
  from add obtain name e' where name: "clean_name (ent_name e) = Inr name"
    and cap: "name \<in> names g \<or> int (length (g_entities g)) < max_entities g"
    and e': "ent_name e' = name" "strip (ent_type e') = ent_type e'"
    and g': "g' = g\<lparr>g_entities := dict_set name e' (g_entities g)\<rparr>"
    by (rule add_entity_result)
  have "names g' = insert name (names g)"
    by (simp add: g' names_def fst_set_dict_set)
  then have "wf_relations g'"
    using wf by (auto simp: wf_graph_defs g')
  moreover have "wf_entities g'"
    using wf clean_name_clean [OF name] e'
    by (auto simp: wf_graph_defs g' dest!: set_dict_set_cases)
  moreover have "within_caps g'"
    using wf cap by (auto simp: wf_graph_defs g' length_dict_set)
  ultimately show ?thesis
    using wf by (simp add: wf_graph_def wf_index_def g')
qed

lemma resolve_relation_wf:
  assumes "wf_graph g"
  shows "resolve_relation s p ob g =
     bind_res (clean_name s) (\<lambda>s. bind_res (clean_name ob) (\<lambda>ob.
       if s \<notin> names g then Inl UnknownSubject
       else if ob \<notin> names g then Inl UnknownObject
       else if strip p = [] then Inl EmptyPredicate
       else if (s, strip p, ob) \<in> triples g then Inr None
       else if max_relations g \<le> int (length (g_relations g)) then Inl RelationCap
       else Inr (Some (s, strip p, ob))))"
proof -
  have "wf_index g" using assms by (simp add: wf_graph_def)
  then show ?thesis
    by (auto simp: resolve_relation_def has_duplicate_wf Let_def intro!: bind_res_cong)
qed

lemma append_relation_wf:
  assumes "wf_graph g" and "subject r \<in> names g" and "obj r \<in> names g" and "predicate r \<noteq> []"
    and "strip (predicate r) = predicate r" and "triple r \<notin> triples g"
    and "int (length (g_relations g)) < max_relations g"
  shows "wf_graph (append_relation r g)"
proof -
  have "names (append_relation r g) = names g"
    by (simp add: append_relation_def names_def Let_def)
  with assms show ?thesis
    by (auto simp: wf_graph_defs append_relation_def Let_def index_by_snoc triples_def image_iff)
qed

lemma add_relation_cases:
  assumes "wf_graph g" and "add_relation r g = Inr g'"
  obtains s p ob where "clean_name (subject r) = Inr s" and "clean_name (obj r) = Inr ob"
    and "p = strip (predicate r)" and "p \<noteq> []" and "s \<in> names g" and "ob \<in> names g"
    and "(s, p, ob) \<in> triples g \<and> g' = g \<or>
         (s, p, ob) \<notin> triples g \<and> int (length (g_relations g)) < max_relations g \<and>
         g' = append_relation \<lparr>subject = s, predicate = p, obj = ob, weight = weight r,
                metadata = metadata r\<rparr> g"
proof -
  from assms(2) obtain t where "resolve_relation (subject r) (predicate r) (obj r) g = Inr t"
    and g': "g' = (case t of None \<Rightarrow> g
                | Some (s, p, ob) \<Rightarrow>
                    append_relation
                      \<lparr>subject = s, predicate = p, obj = ob, weight = weight r,
                       metadata = metadata r\<rparr> g)"
    by (auto simp: add_relation_def map_res_eq_Inr)
  then show thesis
    unfolding resolve_relation_wf [OF assms(1)]
    by (auto simp: bind_res_eq_Inr split: if_splits intro: that)
qed

lemma add_relation_wf: "wf_graph g \<Longrightarrow> add_relation r g = Inr g' \<Longrightarrow> wf_graph g'"
  by (rule add_relation_cases, assumption+, elim disjE conjE, simp)
     (auto intro!: append_relation_wf simp: triple_def)

lemma built_wf: "built g \<Longrightarrow> wf_graph g"
  by (induction rule: built.induct) (auto intro: wf_new_graph add_entity_wf add_relation_wf)

section \<open>Path search\<close>

definition simple_path :: "graph \<Rightarrow> string list \<Rightarrow> bool" where
  "simple_path g path =
     (path \<noteq> [] \<and> distinct path \<and> successively (\<lambda>a b. (a, b) \<in> edges g) path)"

definition found :: "graph \<Rightarrow> string \<Rightarrow> int \<Rightarrow> string list \<Rightarrow> string list \<Rightarrow> bool" where
  "found g goal m path q =
     (simple_path g q \<and> last q = goal \<and> int (length q) \<le> m + 1 \<and>
      (\<exists>r. r \<noteq> [] \<and> q = path @ r))"

definition starts_at :: "graph \<Rightarrow> nat list \<Rightarrow> string \<Rightarrow> bool" where
  "starts_at g is node =
     (\<forall>i \<in> set is. i < length (g_relations g) \<and> subject (g_relations g ! i) = node)"

text \<open>
  What a call of the search loop adds to the results: paths that it was to find, in a number
  that is bounded, and all of them when there are fewer than eight.
\<close>

definition search_result ::
  "graph \<Rightarrow> string \<Rightarrow> int \<Rightarrow> nat list \<Rightarrow> string list \<Rightarrow> string list list \<Rightarrow> string list list \<Rightarrow> bool" where
  "search_result g goal m is path paths ps =
     (\<exists>news. ps = paths @ news \<and> (\<forall>q \<in> set news. found g goal m path q) \<and>
        int (length ps) \<le> max (int (length paths) + 1) (8 + (m - int (length path))) \<and>
        (length ps < 8 \<longrightarrow>
           (\<forall>i \<in> set is. \<forall>r. found g goal m path (path @ obj (g_relations g ! i) # r) \<longrightarrow>
              path @ obj (g_relations g ! i) # r \<in> set ps)))"

lemma simple_path_snoc:
  "simple_path g path \<Longrightarrow> (last path, n) \<in> edges g \<Longrightarrow> n \<notin> set path \<Longrightarrow> simple_path g (path @ [n])"
  by (auto simp: simple_path_def successively_append_iff)

lemma edges_nth: "i < length (g_relations g) \<Longrightarrow>
  (subject (g_relations g ! i), obj (g_relations g ! i)) \<in> edges g"
  by (auto simp: edges_def image_iff intro!: bexI [of _ "g_relations g ! i"])

lemma starts_at_index: "wf_index g \<Longrightarrow> starts_at g (dict_get (by_subject g) node []) node"
  by (auto simp: starts_at_def wf_index_def dict_get_index_by)

lemma index_complete:
  "wf_index g \<Longrightarrow> (a, b) \<in> edges g \<Longrightarrow>
   \<exists>i \<in> set (dict_get (by_subject g) a []). obj (g_relations g ! i) = b"
  by (auto simp: edges_def wf_index_def dict_get_index_by in_set_conv_nth)

lemma found_prefix: "found g goal m (path @ [n]) q \<Longrightarrow> found g goal m path q"
  by (auto simp: found_def)

lemma search_result_refl:
  "int (length path) \<le> m \<Longrightarrow> (\<And>i r. i \<in> set is \<Longrightarrow> \<not> found g goal m path (path @ obj (g_relations g ! i) # r))
   \<Longrightarrow> search_result g goal m is path paths paths"
  by (auto simp: search_result_def)

lemma search_result_trans:
  assumes "search_result g goal m [i] path paths ps" and "search_result g goal m is path ps qs"
    and "int (length ps) \<le> max (int (length paths)) (7 + (m - int (length path)))" 
  shows "search_result g goal m (i # is) path paths qs"
proof -
  from assms obtain n1 n2 where "ps = paths @ n1" "qs = ps @ n2"
    and "\<forall>q \<in> set n1. found g goal m path q" "\<forall>q \<in> set n2. found g goal m path q"
    by (auto simp: search_result_def)
  moreover have "int (length qs) \<le> max (int (length paths) + 1) (8 + (m - int (length path)))"
    using assms(2,3) by (auto simp: search_result_def)
  ultimately show ?thesis
    using assms(1,2) unfolding search_result_def
    by (intro exI [of _ "n1 @ n2"]) auto
qed

lemma search_result_same:
  assumes "search_result g goal m [i] path ps ps" and "search_result g goal m is path ps qs"
  shows "search_result g goal m (i # is) path ps qs"
  using assms by (rule search_result_trans) simp

lemma search_nested:
  assumes wf: "wf_index g" and i: "i < length (g_relations g)" and n: "n = obj (g_relations g ! i)"
    and nin: "n \<notin> set path" and "n \<noteq> goal" and few: "length paths < 8"
    and le: "int (length (path @ [n])) \<le> m"
    and sub: "search_result g goal m (dict_get (by_subject g) n []) (path @ [n]) paths ps"
  shows "search_result g goal m [i] path paths ps \<and>
         int (length ps) \<le> max (int (length paths)) (7 + (m - int (length path)))"
proof
  show len: "int (length ps) \<le> max (int (length paths)) (7 + (m - int (length path)))"
    using sub few le by (auto simp: search_result_def)
  have "path @ n # r \<in> set ps" if "length ps < 8" and f: "found g goal m path (path @ n # r)" for r
  proof -
    from f \<open>n \<noteq> goal\<close> obtain b r' where r: "r = b # r'" by (cases r) (auto simp: found_def)
    from f have "(n, b) \<in> edges g"
      by (auto simp: r found_def simple_path_def successively_append_iff)
    then obtain j where j: "j \<in> set (dict_get (by_subject g) n [])" "obj (g_relations g ! j) = b"
      using index_complete [OF wf] by blast
    moreover have "found g goal m (path @ [n]) ((path @ [n]) @ b # r')"
      using f by (auto simp: found_def r)
    ultimately have "(path @ [n]) @ b # r' \<in> set ps"
      using sub \<open>length ps < 8\<close> unfolding search_result_def by metis
    then show ?thesis by (simp add: r)
  qed
  moreover obtain news where "ps = paths @ news" "\<forall>q \<in> set news. found g goal m path q"
    using sub by (auto simp: search_result_def intro: found_prefix)
  moreover have "int (length ps) \<le> max (int (length paths) + 1) (8 + (m - int (length path)))"
    using len by linarith
  ultimately show "search_result g goal m [i] path paths ps"
    unfolding search_result_def by (intro exI [of _ news]) (simp add: n [symmetric])
qed

lemma dfs_result:
  assumes "wf_index g" and "simple_path g path" and "starts_at g is (last path)"
    and "int (length path) \<le> m"
  shows "\<exists>ps. dfs g goal m is path paths = Inr ps \<and> search_result g goal m is path paths ps"
  using assms
proof (induction g goal m "is" path paths rule: dfs.induct)
  case (1 g goal m path paths)
  then show ?case by (auto simp: search_result_def)
next
  case (2 g goal m i rest path paths)
  let ?r = "g_relations g ! i" and ?n = "obj (g_relations g ! i)"
  from 2(6,7) have i: "i < length (g_relations g)" and rest: "starts_at g rest (last path)"
    and sub: "subject ?r = last path"
    by (auto simp: starts_at_def)
  from i have at: "relation_at g i = Inr ?r" by simp
  have sp: "simple_path g (path @ [?n])" if "?n \<notin> set path"
    using that simple_path_snoc [OF 2(6), of ?n] edges_nth [OF i] sub by simp
  consider (seen) "?n \<in> set path" | (stop) "?n \<notin> set path" "?n = goal" "8 \<le> length paths + 1"
    | (hit) "?n \<notin> set path" "?n = goal" "length paths + 1 < 8"
    | (cut) "?n \<notin> set path" "?n \<noteq> goal" "8 \<le> length paths \<or> m < int (length (path @ [?n]))"
    | (deep) "?n \<notin> set path" "?n \<noteq> goal" "\<not> (8 \<le> length paths \<or> m < int (length (path @ [?n])))"
    by fastforce
  then show ?case
  proof cases
    case seen
    then have "search_result g goal m [i] path paths paths"
      using 2(8) by (intro search_result_refl) (auto simp: found_def simple_path_def)
    with 2(1) [OF at refl refl seen 2(5,6) rest 2(8)] seen at show ?thesis
      by (auto simp: Let_def intro: search_result_same)
  next
    case stop
    then have "found g goal m path (path @ [?n])"
      using sp 2(8) by (auto simp: found_def)
    with stop at show ?thesis by (auto simp: Let_def search_result_def)
  next
    case hit
    then have f: "found g goal m path (path @ [?n])"
      using sp 2(8) by (auto simp: found_def)
    have "r = []" if "found g goal m path (path @ ?n # r)" for r
    proof (rule ccontr)
      assume "r \<noteq> []"
      with that have "last r = goal" and "goal \<notin> set r"
        using hit(2) by (auto simp: found_def simple_path_def)
      with last_in_set [OF \<open>r \<noteq> []\<close>] show False by simp
    qed
    with f have step: "search_result g goal m [i] path paths (paths @ [path @ [?n]])"
      using hit 2(8) by (auto simp: search_result_def)
    have "\<not> 8 \<le> length (paths @ [path @ [?n]])" using hit(3) by simp
    from 2(2) [OF at refl refl hit(1,2) this 2(5,6) rest 2(8)] obtain qs
      where qs: "dfs g goal m rest path (paths @ [path @ [?n]]) = Inr qs"
        "search_result g goal m rest path (paths @ [path @ [?n]]) qs" by blast
    have "search_result g goal m (i # rest) path paths qs"
      by (rule search_result_trans [OF step qs(2)]) (use hit 2(8) in simp)
    with qs(1) hit at show ?thesis by (simp add: Let_def)
  next
    case cut
    have "\<not> found g goal m path (path @ ?n # r)" if "m < int (length (path @ [?n]))" for r
      using that cut(2) by (cases r) (auto simp: found_def)
    with cut 2(8) have "search_result g goal m [i] path paths paths"
      by (auto simp: search_result_def)
    with 2(4) [OF at refl refl cut(1,2) _ 2(5,6) rest 2(8), of paths] cut at show ?thesis
      by (auto simp: Let_def intro: search_result_same)
  next
    case deep
    then obtain ps where ps: "dfs g goal m (dict_get (by_subject g) ?n []) (path @ [?n]) paths = Inr ps"
        "search_result g goal m (dict_get (by_subject g) ?n []) (path @ [?n]) paths ps"
      using 2(3) [OF at refl refl deep(1-3) 2(5) sp [OF deep(1)]] starts_at_index [OF 2(5)] by auto
    then have step: "search_result g goal m [i] path paths ps"
      and len: "int (length ps) \<le> max (int (length paths)) (7 + (m - int (length path)))"
      using search_nested [OF 2(5) i refl deep(1,2) _ _ ps(2)] deep(3) by auto
    from 2(4) [OF at refl refl deep(1,2) _ 2(5,6) rest 2(8), of ps] ps deep obtain qs
      where "dfs g goal m rest path ps = Inr qs" "search_result g goal m rest path ps qs" by auto
    with search_result_trans [OF step _ len] ps(1) deep at show ?thesis by (auto simp: Let_def)
  qed
qed

text \<open>
  \<open>find_paths\<close> on a graph with the invariant, for two names of entities: the search
  returns; every path in the result is simple, runs along relations of the graph from the start
  to the goal and has at most \<open>max_depth\<close> edges; there are at most \<open>7 + max_depth\<close> paths; and
  when there are fewer than eight, every simple path with at most \<open>max_depth\<close> edges is among
  them.
\<close>

theorem find_paths_correct:
  assumes "wf_graph g" and "clean_name a = Inr s" and "clean_name b = Inr e"
    and "s \<in> names g" and "e \<in> names g" and "1 \<le> max_depth"
  shows "\<exists>ps. find_paths g a b max_depth = Inr ps \<and>
     (\<forall>q \<in> set ps. simple_path g q \<and> hd q = s \<and> last q = e \<and> int (length q) \<le> max_depth + 1) \<and>
     int (length ps) \<le> 7 + max_depth \<and>
     (length ps < 8 \<longrightarrow>
        (\<forall>q. simple_path g q \<and> hd q = s \<and> last q = e \<and> s \<noteq> e \<and> int (length q) \<le> max_depth + 1 \<longrightarrow>
             q \<in> set ps))"
proof -
  have wf: "wf_index g" using assms(1) by (simp add: wf_graph_def)
  obtain ps where ps: "dfs g e max_depth (dict_get (by_subject g) s []) [s] [] = Inr ps"
    and res: "search_result g e max_depth (dict_get (by_subject g) s []) [s] [] ps"
    using dfs_result [OF wf, of "[s]"] starts_at_index [OF wf, of s] assms(6)
    by (fastforce simp: simple_path_def)
  have "q \<in> set ps"
    if "length ps < 8" "simple_path g q" "hd q = s" "last q = e" "s \<noteq> e" "int (length q) \<le> max_depth + 1" for q
  proof -
    from that obtain n r where q: "q = [s] @ n # r"
      by (cases q rule: remdups_adj.cases) (auto simp: simple_path_def)
    with that have f: "found g e max_depth [s] ([s] @ n # r)" by (auto simp: found_def)
    have "(s, n) \<in> edges g" using that(2) by (simp add: q simple_path_def)
    with index_complete [OF wf] obtain j where "j \<in> set (dict_get (by_subject g) s [])"
      and "obj (g_relations g ! j) = n" by blast
    with f res that(1) show ?thesis unfolding q search_result_def by metis
  qed
  moreover have "find_paths g a b max_depth = Inr ps"
    using assms ps by (simp add: find_paths_def)
  ultimately show ?thesis
    using res assms(6) by (auto simp: search_result_def found_def)
qed

definition nine_paths_graph :: "graph" where
  "nine_paths_graph =
     (let ent = (\<lambda>n. (n, \<lparr>ent_name = n, ent_type = ''unknown'', attributes = []\<rparr>));
          rel = (\<lambda>s p ob. \<lparr>subject = s, predicate = p, obj = ob, weight = 1, metadata = []\<rparr>)
      in fold append_relation
           (rel ''s'' ''p'' ''a'' # map (\<lambda>p. rel ''a'' [p] ''e'') ''12345678'' @ [rel ''s'' ''p'' ''e''])
           \<lparr>max_entities = 10, max_relations = 10, g_entities = [ent ''s'', ent ''a'', ent ''e''],
            g_relations = [], by_subject = [], by_object = []\<rparr>)"

lemma wf_nine_paths_graph: "wf_graph nine_paths_graph"
  by code_simp

text \<open>
  The documented limit of eight paths is not kept: a call that returns with eight results goes
  on in the loop of its caller, which may add one more.
\<close>

lemma find_paths_returns_nine:
  "find_paths nine_paths_graph ''s'' ''e'' 4 =
     Inr (replicate 8 [''s'', ''a'', ''e''] @ [[''s'', ''e'']])"
  by code_simp

theorem find_paths_correct_witness:
  "\<exists>ps. find_paths nine_paths_graph ''s'' ''e'' 4 = Inr ps \<and> int (length ps) \<le> 11 \<and>
        (\<forall>q \<in> set ps. simple_path nine_paths_graph q \<and> hd q = ''s'' \<and> last q = ''e'')"
proof -
  have "clean_name ''s'' = Inr ''s''" "clean_name ''e'' = Inr ''e''"
    and "''s'' \<in> names nine_paths_graph" "''e'' \<in> names nine_paths_graph"
    by code_simp+
  from find_paths_correct [OF wf_nine_paths_graph this, of 4] show ?thesis by auto
qed

section \<open>Neighbourhoods\<close>

definition adjacent :: "graph \<Rightarrow> string set \<Rightarrow> string set" where
  "adjacent g S = (edges g \<union> (edges g)\<inverse>) `` S"

primrec within_hops :: "graph \<Rightarrow> string set \<Rightarrow> nat \<Rightarrow> string set" where
  "within_hops g S 0 = S"
| "within_hops g S (Suc n) = within_hops g S n \<union> adjacent g (within_hops g S n)"

definition hops_of :: "graph \<Rightarrow> string \<Rightarrow> hop set" where
  "hops_of g n = {(n, p, w) | p w. \<exists>r \<in> set (g_relations g). predicate r = p \<and> weight r = w \<and> n \<in> {obj r, subject r}}"

text \<open>What the code relies on of \<open>set\<close>: iterating visits every member.\<close>

definition visits_all :: "(string set \<Rightarrow> string list) \<Rightarrow> bool" where
  "visits_all order = (\<forall>S. finite S \<longrightarrow> set (order S) = S)"

lemma visits_sorted: "visits_all sorted_list_of_set"
  by (simp add: visits_all_def)

lemma adjacent_insert: "adjacent g (insert a S) = adjacent g {a} \<union> adjacent g S"
  by (auto simp: adjacent_def)

lemma adjacent_Un: "adjacent g (S \<union> T) = adjacent g S \<union> adjacent g T"
  by (auto simp: adjacent_def)

lemma adjacent_node:
  "adjacent g {a} = obj ` {r \<in> set (g_relations g). subject r = a} \<union>
                    subject ` {r \<in> set (g_relations g). obj r = a}"
  by (auto simp: adjacent_def edges_def)

lemma neighbor_round_wf:
  assumes "wf_index g"
  shows "\<exists>nxt' out' inc'. neighbor_round g seen nodes (nxt, out, inc) = Inr (nxt', out', inc') \<and>
     nxt' = nxt \<union> (adjacent g (set nodes) - seen) \<and>
     fst ` set (out' @ inc') = fst ` set (out @ inc) \<union> (adjacent g (set nodes) - seen) \<and>
     set (out' @ inc') \<subseteq> set (out @ inc) \<union> (\<Union>n. hops_of g n)"
proof (induction nodes arbitrary: nxt out inc)
  case Nil
  then show ?case by (auto simp: adjacent_def)
next
  case (Cons a nodes)
  let ?o = "filter (\<lambda>r. obj r \<notin> seen) (filter (\<lambda>r. subject r = a) (g_relations g))"
  let ?i = "filter (\<lambda>r. subject r \<notin> seen) (filter (\<lambda>r. obj r = a) (g_relations g))"
  have adj: "obj ` set ?o \<union> subject ` set ?i = adjacent g {a} - seen"
    by (auto simp: adjacent_node)
  have new: "set (map (\<lambda>r. (obj r, predicate r, weight r)) ?o @
                 map (\<lambda>r. (subject r, predicate r, weight r)) ?i) \<subseteq> (\<Union>n. hops_of g n)"
    by (auto simp: hops_of_def)
  obtain nxt' out' inc' where
    rec: "neighbor_round g seen nodes (nxt \<union> set (map obj ?o) \<union> set (map subject ?i),
       out @ map (\<lambda>r. (obj r, predicate r, weight r)) ?o,
       inc @ map (\<lambda>r. (subject r, predicate r, weight r)) ?i) = Inr (nxt', out', inc')"
    and nxt: "nxt' = nxt \<union> set (map obj ?o) \<union> set (map subject ?i) \<union> (adjacent g (set nodes) - seen)"
    and names: "fst ` set (out' @ inc') = fst ` set ((out @ map (\<lambda>r. (obj r, predicate r, weight r)) ?o) @
        (inc @ map (\<lambda>r. (subject r, predicate r, weight r)) ?i)) \<union> (adjacent g (set nodes) - seen)"
    and sub: "set (out' @ inc') \<subseteq> set ((out @ map (\<lambda>r. (obj r, predicate r, weight r)) ?o) @
        (inc @ map (\<lambda>r. (subject r, predicate r, weight r)) ?i)) \<union> (\<Union>n. hops_of g n)"
    using Cons.IH [of "nxt \<union> set (map obj ?o) \<union> set (map subject ?i)"
        "out @ map (\<lambda>r. (obj r, predicate r, weight r)) ?o"
        "inc @ map (\<lambda>r. (subject r, predicate r, weight r)) ?i"] by blast
  have "neighbor_round g seen (a # nodes) (nxt, out, inc) = Inr (nxt', out', inc')"
    using rec by (simp add: out_relations_wf [OF assms] in_relations_wf [OF assms] Let_def)
  moreover have "nxt' = nxt \<union> (adjacent g (set (a # nodes)) - seen)"
    using adj by (subst nxt, subst list.set, subst adjacent_insert) auto
  moreover have "fst ` set (out' @ inc') = fst ` set (out @ inc) \<union> (adjacent g (set (a # nodes)) - seen)"
  proof -
    have "fst ` set (out' @ inc') =
        fst ` set (out @ inc) \<union> (obj ` set ?o \<union> subject ` set ?i) \<union> (adjacent g (set nodes) - seen)"
      unfolding names by (simp only: set_append image_Un set_map image_image fst_conv Un_ac)
    then show ?thesis
      unfolding adj list.set adjacent_insert [of g a "set nodes"] by (simp only: Un_Diff Un_assoc)
  qed
  moreover have "set (out' @ inc') \<subseteq> set (out @ inc) \<union> (\<Union>n. hops_of g n)"
  proof (rule subset_trans [OF sub])
    show "set ((out @ map (\<lambda>r. (obj r, predicate r, weight r)) ?o) @
        (inc @ map (\<lambda>r. (subject r, predicate r, weight r)) ?i)) \<union> (\<Union>n. hops_of g n)
        \<subseteq> set (out @ inc) \<union> (\<Union>n. hops_of g n)"
      using new by (simp only: set_append) (intro Un_least, blast+)
  qed
  ultimately show ?case by blast
qed

lemma finite_adjacent: "finite (adjacent g S)"
proof -
  have "finite (edges g \<union> (edges g)\<inverse>)" by (simp add: edges_def)
  then show ?thesis unfolding adjacent_def by (rule finite_Image)
qed

lemma within_hops_shift: "within_hops g (within_hops g S 1) n = within_hops g S (Suc n)"
  by (induction n) simp_all

lemma within_hops_self: "S \<subseteq> within_hops g S n"
  by (induction n) auto

lemma neighbor_rounds_wf:
  assumes wf: "wf_index g" and ord: "visits_all order" and "finite frontier"
    and "adjacent g seen \<subseteq> seen \<union> frontier"
  shows "\<exists>out' inc'. neighbor_rounds order g n seen frontier out inc = Inr (out', inc') \<and>
     fst ` set (out @ inc) \<subseteq> fst ` set (out' @ inc') \<and>
     fst ` set (out' @ inc') \<union> (seen \<union> frontier) =
       fst ` set (out @ inc) \<union> within_hops g (seen \<union> frontier) n \<and>
     set (out' @ inc') \<subseteq> set (out @ inc) \<union> (\<Union>n. hops_of g n)"
  using assms(3,4)
proof (induction n arbitrary: seen frontier out inc)
  case 0
  then show ?case by auto
next
  case (Suc n)
  let ?nxt = "adjacent g frontier - seen"
  from neighbor_round_wf [OF wf, of seen "order frontier" "{}" out inc] Suc.prems(1) ord
  obtain out1 inc1 where
    round: "neighbor_round g seen (order frontier) ({}, out, inc) = Inr (?nxt, out1, inc1)"
    and names1: "fst ` set (out1 @ inc1) = fst ` set (out @ inc) \<union> ?nxt"
    and sub1: "set (out1 @ inc1) \<subseteq> set (out @ inc) \<union> (\<Union>n. hops_of g n)"
    by (auto simp: visits_all_def)
  have adj: "adjacent g (seen \<union> frontier) \<subseteq> seen \<union> frontier \<union> ?nxt"
    using Suc.prems(2) by (auto simp: adjacent_Un)
  have fin: "finite ?nxt" by (simp add: finite_adjacent)
  obtain out' inc' where
    rounds: "neighbor_rounds order g n (seen \<union> frontier) ?nxt out1 inc1 = Inr (out', inc')"
    and mono: "fst ` set (out1 @ inc1) \<subseteq> fst ` set (out' @ inc')"
    and names2: "fst ` set (out' @ inc') \<union> (seen \<union> frontier \<union> ?nxt) =
       fst ` set (out1 @ inc1) \<union> within_hops g (seen \<union> frontier \<union> ?nxt) n"
    and sub2: "set (out' @ inc') \<subseteq> set (out1 @ inc1) \<union> (\<Union>n. hops_of g n)"
    using Suc.IH [OF fin adj, of out1 inc1] by blast
  have step: "seen \<union> frontier \<union> ?nxt = within_hops g (seen \<union> frontier) 1"
    using Suc.prems(2) by (auto simp: adjacent_Un)
  have eq: "within_hops g (seen \<union> frontier \<union> ?nxt) n = within_hops g (seen \<union> frontier) (Suc n)"
    unfolding step by (rule within_hops_shift)
  have "?nxt \<subseteq> within_hops g (seen \<union> frontier) (Suc n)"
    using within_hops_self [of "seen \<union> frontier \<union> ?nxt" g n] unfolding eq by blast
  moreover have "?nxt \<subseteq> fst ` set (out' @ inc')" using mono names1 by blast
  ultimately have "fst ` set (out' @ inc') \<union> (seen \<union> frontier) =
       fst ` set (out @ inc) \<union> within_hops g (seen \<union> frontier) (Suc n)"
    using names2 unfolding eq names1 by (simp only: Un_assoc [symmetric] Un_absorb1 Un_absorb2) blast
  moreover have "neighbor_rounds order g (Suc n) seen frontier out inc = Inr (out', inc')"
    using round rounds by simp
  moreover have "fst ` set (out @ inc) \<subseteq> fst ` set (out' @ inc')" using mono names1 by blast
  moreover have "set (out' @ inc') \<subseteq> set (out @ inc) \<union> (\<Union>n. hops_of g n)"
    using sub1 sub2 by blast
  ultimately show ?case by blast
qed

text \<open>
  \<open>neighbors\<close> on a graph with the invariant, for the name of an entity: the query
  returns, every tuple of the result is a relation of the graph seen from one of its two ends,
  and the names in it, with the start, are exactly the entities within the clamped number of
  hops of the start, whatever the iteration order of the frontier sets.
\<close>

theorem neighbors_within_hops:
  assumes "wf_graph g" and "visits_all order" and "clean_name name = Inr s" and "s \<in> names g"
  shows "\<exists>hs. neighbors order g name depth max_depth = Inr hs \<and>
     insert s (fst ` set hs) = within_hops g {s} (nat (max 1 (min depth max_depth))) \<and>
     (\<forall>(n, p, w) \<in> set hs. \<exists>r \<in> set (g_relations g).
         predicate r = p \<and> weight r = w \<and> n \<in> {obj r, subject r})"
proof -
  let ?k = "nat (max 1 (min depth max_depth))"
  have "wf_index g" using assms(1) by (simp add: wf_graph_def)
  from neighbor_rounds_wf [OF this assms(2), of "{s}" "{}" ?k "[]" "[]"]
  obtain out inc where run: "neighbor_rounds order g ?k {} {s} [] [] = Inr (out, inc)"
    and names: "insert s (fst ` set (out @ inc)) = within_hops g {s} ?k"
    and sub: "set (out @ inc) \<subseteq> (\<Union>n. hops_of g n)"
    by (auto simp: adjacent_def)
  have "neighbors order g name depth max_depth = Inr (by_weight out @ by_weight inc)"
    using assms run by (simp add: neighbors_def clamp_depth_def)
  moreover have "set (by_weight out @ by_weight inc) = set (out @ inc)"
    by (simp add: by_weight_def)
  ultimately show ?thesis
    using names sub by (auto simp: hops_of_def)
qed

theorem neighbors_within_hops_witness:
  "\<exists>hs. neighbors sorted_list_of_set nine_paths_graph ''e'' 1 3 = Inr hs \<and>
        insert ''e'' (fst ` set hs) = within_hops nine_paths_graph {''e''} 1"
proof -
  have "clean_name ''e'' = Inr ''e''" and "''e'' \<in> names nine_paths_graph"
    by code_simp+
  from neighbors_within_hops [OF wf_nine_paths_graph visits_sorted this, of 1 3]
  show ?thesis by auto
qed

section \<open>Subgraphs\<close>

text \<open>
  \<open>part_of g sub\<close>: the subgraph under construction has the caps of \<open>g\<close>, some of its entities
  with their records and some of its relations between them.
\<close>

definition part_of :: "graph \<Rightarrow> graph \<Rightarrow> bool" where
  "part_of g sub =
     (max_entities sub = max_entities g \<and> max_relations sub = max_relations g \<and>
      wf_dict (g_entities sub) \<and> set (g_entities sub) \<subseteq> set (g_entities g) \<and>
      wf_relations sub \<and> wf_index sub \<and> set (g_relations sub) \<subseteq> set (g_relations g))"

lemma part_of_wf:
  assumes "wf_graph g" and "part_of g sub"
  shows "wf_graph sub"
proof -
  have "distinct (g_entities sub)"
    using assms(2) by (auto simp: part_of_def wf_dict_def distinct_map)
  then have "length (g_entities sub) \<le> length (g_entities g)"
    using assms(2) by (auto simp: part_of_def intro: distinct_subset_length)
  moreover have "distinct (g_relations sub)"
    using assms(2) by (auto simp: part_of_def wf_relations_def distinct_map)
  then have "length (g_relations sub) \<le> length (g_relations g)"
    using assms(2) by (auto simp: part_of_def intro: distinct_subset_length)
  ultimately show ?thesis
    using assms by (auto simp: part_of_def wf_graph_def wf_entities_def within_caps_def)
qed

lemma relation_of_triple:
  "wf_relations g \<Longrightarrow> r \<in> set (g_relations g) \<Longrightarrow> q \<in> set (g_relations g) \<Longrightarrow> triple r = triple q \<Longrightarrow> r = q"
  by (auto simp: wf_relations_def distinct_map inj_on_def)

lemma add_relation_part:
  assumes g: "wf_graph g" and part: "part_of g sub" and r: "r \<in> set (g_relations g)"
    and ends: "subject r \<in> names sub" "obj r \<in> names sub"
  shows "\<exists>sub'. add_relation r sub = Inr sub' \<and> part_of g sub' \<and>
     g_entities sub' = g_entities sub \<and> set (g_relations sub') = insert r (set (g_relations sub))"
proof -
  have sub: "wf_graph sub" using g part by (rule part_of_wf)
  have clean: "clean_name (subject r) = Inr (subject r)" "clean_name (obj r) = Inr (obj r)"
    using ends sub by (auto simp: wf_graph_defs names_def)
  have pred: "predicate r \<noteq> []" "strip (predicate r) = predicate r"
    using g r by (auto simp: wf_graph_defs)
  have res: "resolve_relation (subject r) (predicate r) (obj r) sub =
     (if triple r \<in> triples sub then Inr None
      else if max_relations sub \<le> int (length (g_relations sub)) then Inl RelationCap
      else Inr (Some (triple r)))"
    using ends by (simp add: resolve_relation_wf [OF sub] clean pred triple_def)
  show ?thesis
  proof (cases "triple r \<in> triples sub")
    case True
    then obtain q where "q \<in> set (g_relations sub)" "triple q = triple r" by (auto simp: triples_def)
    then have "r \<in> set (g_relations sub)"
      using relation_of_triple [of g r q] g r part by (auto simp: wf_graph_def part_of_def)
    with True part show ?thesis by (auto simp: add_relation_def res)
  next
    case False
    then have "r \<notin> set (g_relations sub)" by (auto simp: triples_def)
    then have "set (g_relations sub) \<subset> set (g_relations g)" using part r by (auto simp: part_of_def)
    then have "card (set (g_relations sub)) < card (set (g_relations g))"
      by (simp add: psubset_card_mono)
    moreover have "distinct (g_relations sub)"
      using sub by (auto simp: wf_graph_defs distinct_map)
    ultimately have "length (g_relations sub) < length (g_relations g)"
      using card_length [of "g_relations g"] by (simp add: distinct_card)
    then have room: "int (length (g_relations sub)) < max_relations sub"
      using g part by (auto simp: wf_graph_def within_caps_def part_of_def max_def split: if_splits)
    have same: "\<lparr>subject = subject r, predicate = predicate r, obj = obj r, weight = weight r,
        metadata = metadata r\<rparr> = r" by simp
    have add: "add_relation r sub = Inr (append_relation r sub)"
      using False room by (simp add: add_relation_def res triple_def same)
    have "wf_graph (append_relation r sub)"
      using append_relation_wf [OF sub ends pred False room] .
    then have "part_of g (append_relation r sub)"
      using part r by (auto simp: part_of_def wf_graph_def append_relation_def Let_def)
    with add show ?thesis by (auto simp: append_relation_def Let_def)
  qed
qed

lemma add_relations_part:
  assumes "wf_graph g" and "part_of g sub" and "set rs \<subseteq> set (g_relations g)"
    and "\<forall>r \<in> set rs. subject r \<in> names sub \<and> obj r \<in> names sub"
  shows "\<exists>sub'. add_relations rs sub = Inr sub' \<and> part_of g sub' \<and>
     g_entities sub' = g_entities sub \<and> set (g_relations sub') = set rs \<union> set (g_relations sub)"
  using assms(2-)
proof (induction rs arbitrary: sub)
  case Nil
  then show ?case by simp
next
  case (Cons r rs)
  obtain sub1 where 1: "add_relation r sub = Inr sub1" "part_of g sub1"
      "g_entities sub1 = g_entities sub" "set (g_relations sub1) = insert r (set (g_relations sub))"
    using add_relation_part [OF assms(1) Cons.prems(1), of r] Cons.prems(2,3) by auto
  obtain sub2 where "add_relations rs sub1 = Inr sub2" "part_of g sub2"
      "g_entities sub2 = g_entities sub1" "set (g_relations sub2) = set rs \<union> set (g_relations sub1)"
    using Cons.IH [OF 1(2)] Cons.prems(2,3) 1(3) by (auto simp: names_def)
  with 1 show ?case by auto
qed

lemma sub_relations_part:
  assumes "wf_graph g" and "part_of g sub" and "adjacent g (set nodes) \<union> set nodes \<subseteq> names sub"
  shows "\<exists>sub'. sub_relations g nodes sub = Inr sub' \<and> part_of g sub' \<and>
     g_entities sub' = g_entities sub \<and>
     set (g_relations sub') =
       {r \<in> set (g_relations g). subject r \<in> set nodes \<or> obj r \<in> set nodes} \<union> set (g_relations sub)"
  using assms(2-)
proof (induction nodes arbitrary: sub)
  case Nil
  then show ?case by simp
next
  case (Cons a nodes)
  let ?rs = "filter (\<lambda>r. subject r = a) (g_relations g) @ filter (\<lambda>r. obj r = a) (g_relations g)"
  have wf: "wf_index g" using assms(1) by (simp add: wf_graph_def)
  have ends: "\<forall>r \<in> set ?rs. subject r \<in> names sub \<and> obj r \<in> names sub"
    using Cons.prems(2) adjacent_node [of g a] by (auto simp: adjacent_insert [of g a "set nodes"])
  obtain sub1 where 1: "add_relations ?rs sub = Inr sub1" "part_of g sub1"
      "g_entities sub1 = g_entities sub" "set (g_relations sub1) = set ?rs \<union> set (g_relations sub)"
    using add_relations_part [OF assms(1) Cons.prems(1) _ ends] by auto
  obtain sub2 where "sub_relations g nodes sub1 = Inr sub2" "part_of g sub2"
      "g_entities sub2 = g_entities sub1"
      "set (g_relations sub2) =
       {r \<in> set (g_relations g). subject r \<in> set nodes \<or> obj r \<in> set nodes} \<union> set (g_relations sub1)"
    using Cons.IH [OF 1(2)] Cons.prems(2) 1(3)
    by (auto simp: names_def adjacent_insert [of g a "set nodes"])
  with 1 show ?case
    by (auto simp: out_relations_wf [OF wf] in_relations_wf [OF wf])
qed

definition ents_part :: "graph \<Rightarrow> (string, entity) dict \<Rightarrow> bool" where
  "ents_part g ents = (wf_dict ents \<and> set ents \<subseteq> set (g_entities g))"

lemma entity_record: "wf_entities g \<Longrightarrow> k \<in> names g \<Longrightarrow>
  \<exists>e. map_of (g_entities g) k = Some e \<and> ent_name e = k \<and> (k, e) \<in> set (g_entities g)"
  by (fastforce simp: wf_entities_def names_def wf_dict_def)

lemma ents_part_set:
  assumes "wf_entities g" and "map_of (g_entities g) k = Some e" and "ents_part g ents"
  shows "ents_part g (dict_set k e ents) \<and> fst ` set (dict_set k e ents) = insert k (fst ` set ents)"
  using assms map_of_SomeD [OF assms(2)]
  by (auto simp: ents_part_def fst_set_dict_set dest: set_dict_set_cases)

lemma sub_visit_part:
  assumes "wf_entities g" and "k \<in> names g" and "ents_part g ents" and "reached \<subseteq> fst ` set ents"
  shows "ents_part g (sub_visit g reached k ents) \<and>
         fst ` set (sub_visit g reached k ents) = insert k (fst ` set ents)"
proof -
  obtain e where e: "map_of (g_entities g) k = Some e" "ent_name e = k"
    using entity_record [OF assms(1,2)] by blast
  show ?thesis
  proof (cases "k \<in> reached")
    case True
    with assms(3,4) e show ?thesis by (auto simp: sub_visit_def)
  next
    case False
    with ents_part_set [OF assms(1) e(1) assms(3)] e show ?thesis by (simp add: sub_visit_def)
  qed
qed

lemma fold_sub_visit:
  assumes "wf_entities g" and "f ` set rs \<subseteq> names g" and "ents_part g ents"
    and "reached \<subseteq> fst ` set ents"
  shows "ents_part g (fold (\<lambda>r. sub_visit g reached (f r)) rs ents) \<and>
         fst ` set (fold (\<lambda>r. sub_visit g reached (f r)) rs ents) = f ` set rs \<union> fst ` set ents"
  using assms(2-)
proof (induction rs arbitrary: ents)
  case Nil
  then show ?case by simp
next
  case (Cons r rs)
  have "ents_part g (sub_visit g reached (f r) ents)"
    and "fst ` set (sub_visit g reached (f r) ents) = insert (f r) (fst ` set ents)"
    using sub_visit_part [OF assms(1) _ Cons.prems(2,3)] Cons.prems(1) by simp_all
  with Cons.IH [of "sub_visit g reached (f r) ents"] Cons.prems(1,3) show ?case by auto
qed

lemma sub_hop_part:
  assumes "wf_graph g" and "ents_part g ents" and "reached \<subseteq> fst ` set ents"
  shows "\<exists>ents'. sub_hop g reached nodes (ents, nxt) = Inr (ents', nxt \<union> adjacent g (set nodes)) \<and>
     ents_part g ents' \<and> fst ` set ents' = adjacent g (set nodes) \<union> fst ` set ents"
  using assms(2-)
proof (induction nodes arbitrary: ents nxt)
  case Nil
  then show ?case by (simp add: adjacent_def)
next
  case (Cons a nodes)
  let ?rs = "filter (\<lambda>r. subject r = a) (g_relations g)"
  let ?qs = "filter (\<lambda>r. obj r = a) (g_relations g)"
  let ?e1 = "fold (\<lambda>r. sub_visit g reached (obj r)) ?rs ents"
  let ?e2 = "fold (\<lambda>q. sub_visit g reached (subject q)) ?qs ?e1"
  have wf: "wf_index g" "wf_entities g" using assms(1) by (simp_all add: wf_graph_def)
  have ends: "obj ` set ?rs \<subseteq> names g" "subject ` set ?qs \<subseteq> names g"
    using assms(1) by (auto simp: wf_graph_def wf_relations_def)
  have adj: "set (map obj ?rs) \<union> set (map subject ?qs) = adjacent g {a}"
    by (auto simp: adjacent_node)
  have 1: "ents_part g ?e1" "fst ` set ?e1 = obj ` set ?rs \<union> fst ` set ents"
    using fold_sub_visit [OF wf(2) ends(1) Cons.prems] by simp_all
  have r1: "reached \<subseteq> fst ` set ?e1" unfolding 1(2) using Cons.prems(2) by blast
  have 2: "ents_part g ?e2" "fst ` set ?e2 = subject ` set ?qs \<union> fst ` set ?e1"
    using fold_sub_visit [OF wf(2) ends(2) 1(1) r1] by simp_all
  have keys: "fst ` set ?e2 = adjacent g {a} \<union> fst ` set ents"
    unfolding 2(2) 1(2) adj [symmetric] by auto
  have "reached \<subseteq> fst ` set ?e2" unfolding keys using Cons.prems(2) by blast
  from Cons.IH [OF 2(1) this, of "nxt \<union> adjacent g {a}"] obtain ents' where
    rec: "sub_hop g reached nodes (?e2, nxt \<union> adjacent g {a}) =
          Inr (ents', nxt \<union> adjacent g {a} \<union> adjacent g (set nodes))"
    and "ents_part g ents'" "fst ` set ents' = adjacent g (set nodes) \<union> fst ` set ?e2" by blast
  moreover have "sub_hop g reached (a # nodes) (ents, nxt) =
      sub_hop g reached nodes (?e2, nxt \<union> (set (map obj ?rs) \<union> set (map subject ?qs)))"
    by (simp add: out_relations_wf [OF wf(1)] in_relations_wf [OF wf(1)] Un_assoc)
  ultimately show ?case
    unfolding adj keys list.set adjacent_insert [of g a "set nodes"] by (simp add: Un_ac)
qed

lemma sub_rounds_part:
  assumes g: "wf_graph g" and ord: "visits_all order" and "part_of g sub" and "names sub = reached"
  shows "\<exists>sub'. sub_rounds order g n reached sub = Inr sub' \<and> part_of g sub' \<and>
     names sub' = within_hops g reached n \<and>
     set (g_relations sub') = set (g_relations sub) \<union>
       {r \<in> set (g_relations g). \<exists>i < n. subject r \<in> within_hops g reached i \<or> obj r \<in> within_hops g reached i}"
  using assms(3,4)
proof (induction n arbitrary: sub reached)
  case 0
  then show ?case by simp
next
  case (Suc n)
  let ?adj = "adjacent g reached"
  have fin: "set (order reached) = reached"
    using ord Suc.prems(2) by (auto simp: visits_all_def names_def)
  have ep: "ents_part g (g_entities sub)" "reached \<subseteq> fst ` set (g_entities sub)"
    using Suc.prems by (auto simp: part_of_def ents_part_def names_def)
  obtain ents where hop: "sub_hop g reached (order reached) (g_entities sub, {}) = Inr (ents, ?adj)"
    and ents: "ents_part g ents" "fst ` set ents = ?adj \<union> reached"
    using sub_hop_part [OF g ep, of "order reached" "{}"] Suc.prems(2) by (auto simp: fin names_def)
  let ?sub = "sub\<lparr>g_entities := ents\<rparr>"
  have nm: "names ?sub = ?adj \<union> reached" by (simp add: names_def ents)
  have nm': "fst ` set ents = reached \<union> ?adj" using ents(2) by blast
  have "part_of g ?sub"
    using Suc.prems ents(1) nm by (auto simp: part_of_def ents_part_def wf_relations_def wf_index_def)
  from sub_relations_part [OF g this, of "order reached"] obtain sub1 where
    rel: "sub_relations g (order reached) ?sub = Inr sub1" "part_of g sub1" "names sub1 = reached \<union> ?adj"
    and rels: "set (g_relations sub1) =
       {r \<in> set (g_relations g). subject r \<in> reached \<or> obj r \<in> reached} \<union> set (g_relations sub)"
    using nm' by (auto simp: fin nm names_def)
  obtain sub2 where "sub_rounds order g n (reached \<union> ?adj) sub1 = Inr sub2" "part_of g sub2"
    and "names sub2 = within_hops g (within_hops g reached 1) n"
    and rels2: "set (g_relations sub2) = set (g_relations sub1) \<union>
       {r \<in> set (g_relations g). \<exists>i < n. subject r \<in> within_hops g (within_hops g reached 1) i \<or>
          obj r \<in> within_hops g (within_hops g reached 1) i}"
    using Suc.IH [OF rel(2,3)] by auto
  moreover have "set (g_relations sub2) = set (g_relations sub) \<union>
       {r \<in> set (g_relations g). \<exists>i < Suc n. subject r \<in> within_hops g reached i \<or> obj r \<in> within_hops g reached i}"
    unfolding rels2 rels within_hops_shift Ex_less_Suc2 by auto
  ultimately show ?case
    unfolding within_hops_shift using hop rel(1) by simp
qed

lemma sub_roots_part:
  assumes "wf_graph g" and "\<forall>name \<in> set roots. ok (clean_name name)"
    and "ents_part g ents" and "reached = fst ` set ents"
  shows "\<exists>ents' reached'. sub_roots g roots (ents, reached) = Inr (ents', reached') \<and>
     ents_part g ents' \<and> reached' = fst ` set ents' \<and>
     reached' = reached \<union> {t \<in> names g. \<exists>name \<in> set roots. clean_name name = Inr t}"
  using assms(2-)
proof (induction roots arbitrary: ents reached)
  case Nil
  then show ?case by simp
next
  case (Cons name roots)
  from Cons.prems(1) obtain t where t: "clean_name name = Inr t" by (cases "clean_name name") auto
  have wf: "wf_entities g" using assms(1) by (simp add: wf_graph_def)
  show ?case
  proof (cases "t \<in> names g")
    case True
    then obtain e where e: "map_of (g_entities g) t = Some e" "ent_name e = t"
      using entity_record [OF wf] by blast
    then have "ents_part g (dict_set t e ents)" "insert t reached = fst ` set (dict_set t e ents)"
      using ents_part_set [OF wf e(1) Cons.prems(2)] Cons.prems(3) by auto
    from Cons.IH [OF _ this] Cons.prems(1) e t True show ?thesis
      by (auto simp: get_entity_def)
  next
    case False
    then have "map_of (g_entities g) t = None"
      by (auto simp: names_def map_of_eq_None_iff)
    with Cons.IH [OF _ Cons.prems(2,3)] Cons.prems(1) t False show ?thesis
      by (auto simp: get_entity_def)
  qed
qed

lemma within_hops_mono: "i \<le> n \<Longrightarrow> within_hops g S i \<subseteq> within_hops g S n"
  by (induction n) (auto simp: le_Suc_eq)

text \<open>
  \<open>get_subgraph\<close> on a graph with the invariant, for roots that are valid names: the
  extraction returns and never runs into a cap; the subgraph has the invariant, its entities are
  exactly those within the clamped number of hops of the roots that exist, with the records they
  have in the graph, and its relations are exactly the relations of the graph that touch an
  entity within one hop less.
\<close>

theorem get_subgraph_correct:
  assumes "wf_graph g" and "visits_all order" and "\<forall>name \<in> set roots. ok (clean_name name)"
  shows "\<exists>sub. get_subgraph order g roots depth max_depth = Inr sub \<and> wf_graph sub \<and>
     (let start = {t \<in> names g. \<exists>name \<in> set roots. clean_name name = Inr t};
          n = nat (max 1 (min depth max_depth))
      in names sub = within_hops g start n \<and> set (g_entities sub) \<subseteq> set (g_entities g) \<and>
         set (g_relations sub) =
           {r \<in> set (g_relations g). subject r \<in> within_hops g start (n - 1) \<or>
                                      obj r \<in> within_hops g start (n - 1)})"
proof -
  let ?start = "{t \<in> names g. \<exists>name \<in> set roots. clean_name name = Inr t}"
  let ?n = "nat (max 1 (min depth max_depth))"
  obtain ents where roots: "sub_roots g roots ([], {}) = Inr (ents, ?start)"
    and ents: "ents_part g ents" "fst ` set ents = ?start"
    using sub_roots_part [OF assms(1,3), of "[]" "{}"] by (auto simp: ents_part_def)
  let ?sub = "(new_graph (max_entities g) (max_relations g))\<lparr>g_entities := ents\<rparr>"
  have "part_of g ?sub" and "names ?sub = ?start"
    using ents by (auto simp: part_of_def ents_part_def new_graph_def wf_relations_def wf_index_def
        index_by_def names_def)
  from sub_rounds_part [OF assms(1,2) this, of ?n] obtain sub where
    rounds: "sub_rounds order g ?n ?start ?sub = Inr sub" and sub: "part_of g sub"
    and nm: "names sub = within_hops g ?start ?n"
    and rel: "set (g_relations sub) =
       {r \<in> set (g_relations g). \<exists>i < ?n. subject r \<in> within_hops g ?start i \<or> obj r \<in> within_hops g ?start i}"
    by (auto simp: new_graph_def)
  have "set (g_relations sub) =
       {r \<in> set (g_relations g). subject r \<in> within_hops g ?start (?n - 1) \<or> obj r \<in> within_hops g ?start (?n - 1)}"
  proof -
    have "?n - 1 < ?n" and "\<And>i. i < ?n \<Longrightarrow> i \<le> ?n - 1" by auto
    then show ?thesis unfolding rel using within_hops_mono [of _ "?n - 1" g ?start] by blast
  qed
  moreover have "get_subgraph order g roots depth max_depth =
      (if ?start = {} then Inr ?sub else sub_rounds order g ?n ?start ?sub)"
    by (simp add: get_subgraph_def roots clamp_depth_def Let_def del: Collect_empty_eq)
  moreover have "within_hops g {} k = {}" for k by (induction k) (auto simp: adjacent_def)
  moreover have "wf_graph sub" and "wf_graph ?sub"
    using part_of_wf [OF assms(1)] sub \<open>part_of g ?sub\<close> by blast+
  moreover have "set (g_entities sub) \<subseteq> set (g_entities g)" using sub by (simp add: part_of_def)
  ultimately show ?thesis
    using nm rounds ents by (cases "?start = {}") (auto simp: Let_def new_graph_def names_def simp del: Collect_empty_eq)
qed

theorem get_subgraph_correct_witness:
  "\<exists>sub. get_subgraph sorted_list_of_set nine_paths_graph ['' e'', ''zz''] 1 3 = Inr sub \<and> wf_graph sub"
proof -
  have "\<forall>name \<in> set ['' e'', ''zz'']. ok (clean_name name)" by code_simp
  from get_subgraph_correct [OF wf_nine_paths_graph visits_sorted this, of 1 3] show ?thesis
    by blast
qed

section \<open>Properties of the mutations and of the persisted form\<close>

text \<open>
  Every graph that is built from an empty one by successful calls of \<open>add_entity\<close> and
  \<open>add_relation\<close> has the invariant: names are clean and map to their own records, both ends of
  a relation are entities, no triple occurs twice, the two indexes list for every name exactly
  the positions of its relations, and neither cap is exceeded.
\<close>

theorem built_graph_invariant:
  assumes "built g"
  shows "(\<forall>r \<in> set (g_relations g). subject r \<in> names g \<and> obj r \<in> names g \<and> predicate r \<noteq> []) \<and>
     distinct (map triple (g_relations g)) \<and>
     (\<forall>k \<in> names g. clean_name k = Inr k \<and> (\<exists>e. get_entity g k = Inr (Some e) \<and> ent_name e = k)) \<and>
     (\<forall>k. dict_get (by_subject g) k [] =
            filter (\<lambda>i. subject (g_relations g ! i) = k) [0..<length (g_relations g)]) \<and>
     (\<forall>k. dict_get (by_object g) k [] =
            filter (\<lambda>i. obj (g_relations g ! i) = k) [0..<length (g_relations g)]) \<and>
     int (length (g_entities g)) \<le> max 0 (max_entities g) \<and>
     int (length (g_relations g)) \<le> max 0 (max_relations g)"
proof -
  from assms have wf: "wf_graph g" by (rule built_wf)
  have "clean_name k = Inr k \<and> (\<exists>e. get_entity g k = Inr (Some e) \<and> ent_name e = k)"
    if k: "k \<in> names g" for k
  proof -
    have "clean k" using wf k by (auto simp: wf_graph_defs names_def)
    with entity_record [OF _ k] wf show ?thesis by (auto simp: get_entity_def wf_graph_def)
  qed
  moreover have "dict_get (by_subject g) k [] =
      filter (\<lambda>i. subject (g_relations g ! i) = k) [0..<length (g_relations g)]" for k
    using wf by (simp add: wf_graph_def wf_index_def dict_get_index_by)
  moreover have "dict_get (by_object g) k [] =
      filter (\<lambda>i. obj (g_relations g ! i) = k) [0..<length (g_relations g)]" for k
    using wf by (simp add: wf_graph_def wf_index_def dict_get_index_by)
  ultimately show ?thesis
    using wf unfolding wf_graph_def wf_relations_def within_caps_def by blast
qed

definition loop_graph :: graph where
  "loop_graph =
     \<lparr>max_entities = 1, max_relations = 1,
      g_entities = [(''a'', \<lparr>ent_name = ''a'', ent_type = ''unknown'', attributes = []\<rparr>)],
      g_relations = [\<lparr>subject = ''a'', predicate = ''p'', obj = ''a'', weight = 1, metadata = []\<rparr>],
      by_subject = [(''a'', [0])], by_object = [(''a'', [0])]\<rparr>"

lemma built_loop_graph: "built loop_graph"
proof -
  let ?g = "loop_graph\<lparr>g_relations := [], by_subject := [], by_object := []\<rparr>"
  have "add_entity \<lparr>ent_name = '' a '', ent_type = [], attributes = []\<rparr> (new_graph 1 1) = Inr ?g"
    by code_simp
  then have "built ?g" by (rule built_entity [OF built_new])
  moreover have "add_relation
      \<lparr>subject = ''a'', predicate = ''p'', obj = ''a '', weight = 1, metadata = []\<rparr> ?g = Inr loop_graph"
    by code_simp
  ultimately show ?thesis by (rule built_relation)
qed

theorem built_graph_invariant_witness:
  "dict_get (by_subject loop_graph) ''a'' [] =
     filter (\<lambda>i. subject (g_relations loop_graph ! i) = ''a'') [0..<length (g_relations loop_graph)] \<and>
   int (length (g_relations loop_graph)) \<le> max 0 1"
  using built_graph_invariant [OF built_loop_graph] by (simp add: loop_graph_def)

text \<open>
  \<open>add_relation\<close> on every branch. On a graph with the invariant the call fails exactly
  for an invalid name, an unknown subject, an unknown object, a blank predicate or a full graph,
  checked in that order; a triple that is there already leaves the graph as it is, even a full
  one; otherwise exactly the cleaned relation is added at the end and nothing else changes.
\<close>

theorem add_relation_branches:
  assumes "wf_graph g"
  shows "add_relation r g =
     (case clean_name (subject r) of
        Inl e \<Rightarrow> Inl e
      | Inr s \<Rightarrow>
          (case clean_name (obj r) of
             Inl e \<Rightarrow> Inl e
           | Inr ob \<Rightarrow>
               if s \<notin> names g then Inl UnknownSubject
               else if ob \<notin> names g then Inl UnknownObject
               else if strip (predicate r) = [] then Inl EmptyPredicate
               else if (s, strip (predicate r), ob) \<in> triples g then Inr g
               else if max_relations g \<le> int (length (g_relations g)) then Inl RelationCap
               else Inr (g\<lparr>g_relations := g_relations g @
                        [\<lparr>subject = s, predicate = strip (predicate r), obj = ob, weight = weight r,
                          metadata = metadata r\<rparr>],
                      by_subject := dict_set s (dict_get (by_subject g) s [] @ [length (g_relations g)]) (by_subject g),
                      by_object := dict_set ob (dict_get (by_object g) ob [] @ [length (g_relations g)]) (by_object g)\<rparr>)))"
  unfolding add_relation_def resolve_relation_wf [OF assms]
  by (simp add: append_relation_def index_append_def Let_def split: sum.split)

theorem add_relation_branches_witness:
  "add_relation \<lparr>subject = ''a'', predicate = ''4'', obj = '' e'', weight = 2, metadata = []\<rparr> nine_paths_graph =
     Inr nine_paths_graph \<and>
   add_relation \<lparr>subject = ''a'', predicate = ''new'', obj = ''e'', weight = 2, metadata = []\<rparr> nine_paths_graph =
     Inl RelationCap"
  unfolding add_relation_branches [OF wf_nine_paths_graph] by code_simp

lemma dict_set_new: "k \<notin> fst ` set d \<Longrightarrow> dict_set k v d = d @ [(k, v)]"
  by (induction d) auto

lemma load_entity_json:
  assumes "clean (ent_name e)" and "strip (ent_type e) = ent_type e" and "ent_type e \<noteq> []"
    and "ent_name e \<notin> names g" and "int (length (g_entities g)) < max_entities g"
  shows "load_entity (entity_json e) g = Inr (g\<lparr>g_entities := g_entities g @ [(ent_name e, e)]\<rparr>)"
proof -
  have "ent_name e \<noteq> []" using assms(1) by (auto simp: clean_def clean_name_def Let_def strip_def lstrip_def)
  moreover have "\<lparr>ent_name = ent_name e, ent_type = ent_type e, attributes = attributes e\<rparr> = e" by simp
  ultimately show ?thesis
    using assms
    by (simp add: load_entity_def entity_json_def fields_def required_def json_text_def json_dict_def
        dict_get_def add_entity_def dict_set_new names_def)
qed

lemma load_entities_json:
  assumes "\<forall>(k, e) \<in> set ps. ent_name e = k \<and> clean k \<and> strip (ent_type e) = ent_type e \<and> ent_type e \<noteq> []"
    and "distinct (map fst (g_entities g @ ps))"
    and "int (length (g_entities g @ ps)) \<le> max_entities g"
  shows "load_items load_entity (map (\<lambda>(_, e). entity_json e) ps) g = (g\<lparr>g_entities := g_entities g @ ps\<rparr>, True)"
  using assms
proof (induction ps arbitrary: g)
  case Nil
  then show ?case by simp
next
  case (Cons p ps)
  obtain k e where p: "p = (k, e)" by (cases p)
  have "load_entity (entity_json e) g = Inr (g\<lparr>g_entities := g_entities g @ [p]\<rparr>)"
    using Cons.prems load_entity_json [of e g] by (auto simp: p names_def)
  with Cons.IH [of "g\<lparr>g_entities := g_entities g @ [p]\<rparr>"] Cons.prems show ?case
    by (simp add: p)
qed

lemma load_relation_json:
  assumes "wf_graph g" and "subject r \<in> names g" and "obj r \<in> names g" and "predicate r \<noteq> []"
    and "strip (predicate r) = predicate r" and "triple r \<notin> triples g"
    and "int (length (g_relations g)) < max_relations g"
  shows "load_relation fs (relation_json r) g = Inr (append_relation r g)"
proof -
  have cl: "clean (subject r)" "clean (obj r)" using assms(1-3) by (auto simp: wf_graph_defs names_def)
  then have "subject r \<noteq> []" "obj r \<noteq> []"
    by (auto simp: clean_def clean_name_def Let_def strip_def lstrip_def)
  moreover have same: "\<lparr>subject = subject r, predicate = predicate r, obj = obj r, weight = weight r,
        metadata = metadata r\<rparr> = r" by simp
  ultimately show ?thesis
    using assms cl
    by (simp add: same load_relation_def relation_json_def fields_def required_def json_text_def json_dict_def
        json_float_def dict_get_def resolve_relation_wf [OF assms(1)] add_relation_def triple_def)
qed

lemma load_relations_json:
  assumes "wf_graph g" and "distinct (map triple (g_relations g @ rs))"
    and "\<forall>r \<in> set rs. subject r \<in> names g \<and> obj r \<in> names g \<and> predicate r \<noteq> [] \<and>
           strip (predicate r) = predicate r"
    and "int (length (g_relations g @ rs)) \<le> max_relations g"
  shows "load_items (load_relation fs) (map relation_json rs) g = (fold append_relation rs g, True)"
  using assms
proof (induction rs arbitrary: g)
  case Nil
  then show ?case by simp
next
  case (Cons r rs)
  have new: "triple r \<notin> triples g" using Cons.prems(2) by (auto simp: triples_def)
  have room: "int (length (g_relations g)) < max_relations g" using Cons.prems(4) by simp
  have "load_relation fs (relation_json r) g = Inr (append_relation r g)"
    using Cons.prems(3) new room by (intro load_relation_json [OF Cons.prems(1)]) auto
  moreover have "wf_graph (append_relation r g)"
    using Cons.prems(3) new room by (intro append_relation_wf [OF Cons.prems(1)]) auto
  ultimately show ?case
    using Cons.IH [of "append_relation r g"] Cons.prems
    by (simp add: append_relation_def Let_def names_def)
qed

lemma fold_append_relation [simp]:
  "g_relations (fold append_relation rs g) = g_relations g @ rs"
  "g_entities (fold append_relation rs g) = g_entities g"
  "max_entities (fold append_relation rs g) = max_entities g"
  "max_relations (fold append_relation rs g) = max_relations g"
  by (induction rs arbitrary: g) (auto simp: append_relation_def Let_def)

lemma wf_index_fold: "wf_index g \<Longrightarrow> wf_index (fold append_relation rs g)"
  by (induction rs arbitrary: g) (auto simp: wf_index_def append_relation_def Let_def index_by_snoc)

text \<open>
  Round trip: loading what \<open>save\<close> wrote gives the same graph (entities and relations in
  the same order with the same records, and the same indexes), provided that the caps given to
  \<open>load\<close> admit it and no entity has a blank type. (A type of white space only is stored as the
  empty string, which \<open>load\<close> reads back as \<open>unknown\<close>.)
\<close>

theorem save_load_roundtrip:
  assumes "wf_graph g" and "int (length (g_entities g)) \<le> me" and "int (length (g_relations g)) \<le> mr"
    and "\<forall>(_, e) \<in> set (g_entities g). ent_type e \<noteq> []"
  shows "load fs me mr (save g) = g\<lparr>max_entities := me, max_relations := mr\<rparr>"
proof -
  let ?g0 = "(new_graph me mr)\<lparr>g_entities := g_entities g\<rparr>"
  let ?g1 = "fold append_relation (g_relations g) ?g0"
  have "load_items load_entity (map (\<lambda>(_, e). entity_json e) (g_entities g)) (new_graph me mr) = (?g0, True)"
    using assms load_entities_json [of "g_entities g" "new_graph me mr"]
    by (auto simp: wf_graph_defs wf_dict_def new_graph_def)
  moreover have wf0: "wf_graph ?g0"
    using assms by (auto simp: wf_graph_defs new_graph_def index_by_def)
  have "load_items (load_relation fs) (map relation_json (g_relations g)) ?g0 = (?g1, True)"
    using assms by (intro load_relations_json [OF wf0]) (auto simp: wf_graph_defs new_graph_def names_def)
  ultimately have "load fs me mr (save g) = ?g1"
    by (simp add: load_def load_from_def save_def dict_get_def)
  moreover have "wf_index ?g1" using wf0 by (simp add: wf_graph_def wf_index_fold)
  then have "?g1 = g\<lparr>max_entities := me, max_relations := mr\<rparr>"
    using assms(1) by (intro graph.equality) (simp_all add: wf_graph_def wf_index_def new_graph_def)
  ultimately show ?thesis by simp
qed

theorem save_load_roundtrip_witness:
  "load (\<lambda>_. None) 10000 50000 (save nine_paths_graph) =
     nine_paths_graph\<lparr>max_entities := 10000, max_relations := 50000\<rparr>"
proof (rule save_load_roundtrip [OF wf_nine_paths_graph])
  show "int (length (g_entities nine_paths_graph)) \<le> 10000"
    and "int (length (g_relations nine_paths_graph)) \<le> 50000"
    and "\<forall>(_, e) \<in> set (g_entities nine_paths_graph). ent_type e \<noteq> []"
    by code_simp+
qed

subsection \<open>Loading any document\<close>

lemma load_items_wf:
  assumes "\<And>raw g g'. wf_graph g \<Longrightarrow> step raw g = Inr g' \<Longrightarrow> wf_graph g'" and "wf_graph g"
  shows "wf_graph (fst (load_items step raws g))"
  using assms(2) by (induction raws arbitrary: g) (auto split: sum.split intro: assms(1))

lemma load_from_wf:
  assumes "\<And>raw g g'. wf_graph g \<Longrightarrow> step raw g = Inr g' \<Longrightarrow> wf_graph g'" and "wf_graph g"
  shows "wf_graph (fst (load_from step j g))"
  using assms load_items_wf [of step] by (auto simp: load_from_def split: sum.split)

lemma load_entity_wf: "wf_graph g \<Longrightarrow> load_entity raw g = Inr g' \<Longrightarrow> wf_graph g'"
  by (auto simp: load_entity_def bind_res_eq_Inr intro: add_entity_wf)

lemma load_relation_wf: "wf_graph g \<Longrightarrow> load_relation fs raw g = Inr g' \<Longrightarrow> wf_graph g'"
  by (auto simp: load_relation_def bind_res_eq_Inr split: option.splits intro: add_relation_wf)

text \<open>
  \<open>load\<close> accepts any JSON document: whatever the file holds, the result is a graph with
  the invariant and the caps given to it, and a document that is not an object gives the empty
  graph.
\<close>

theorem load_any_document:
  "wf_graph (load fs me mr data) \<and> max_entities (load fs me mr data) = me \<and>
   max_relations (load fs me mr data) = mr \<and>
   ((\<exists>d. data = JDict d) \<or> load fs me mr data = new_graph me mr)"
proof -
  have caps_items: "max_entities (fst (load_items step raws g)) = max_entities g \<and>
      max_relations (fst (load_items step raws g)) = max_relations g"
    if "\<And>raw g g'. step raw g = Inr g' \<Longrightarrow> max_entities g' = max_entities g \<and> max_relations g' = max_relations g"
    for step raws g
    using that by (induction raws arbitrary: g) (auto split: sum.split)
  have ce: "load_entity raw g = Inr g' \<Longrightarrow> max_entities g' = max_entities g \<and> max_relations g' = max_relations g" for raw g g'
    by (auto simp: load_entity_def bind_res_eq_Inr add_entity_def split: if_splits)
  have cr: "load_relation fs raw g = Inr g' \<Longrightarrow> max_entities g' = max_entities g \<and> max_relations g' = max_relations g" for raw g g'
    by (auto simp: load_relation_def bind_res_eq_Inr add_relation_def map_res_eq_Inr append_relation_def
          Let_def split: option.splits)
  have caps: "max_entities (fst (load_from step j g)) = max_entities g \<and>
      max_relations (fst (load_from step j g)) = max_relations g"
    if "step = load_entity \<or> step = load_relation fs" for step j g
    using that caps_items [of step] ce cr by (auto simp: load_from_def split: sum.split)
  show ?thesis
  proof (cases data)
    case (JDict d)
    obtain g fine where le: "load_from load_entity (dict_get d ''entities'' (JList [])) (new_graph me mr) = (g, fine)"
      by (cases "load_from load_entity (dict_get d ''entities'' (JList [])) (new_graph me mr)")
    have "wf_graph (fst (load_from load_entity (dict_get d ''entities'' (JList [])) (new_graph me mr)))"
      by (rule load_from_wf) (auto intro: load_entity_wf wf_new_graph)
    then have wf: "wf_graph g" by (simp add: le)
    then have wf': "wf_graph (fst (load_from (load_relation fs) j g))" for j
      by (rule load_from_wf [rotated]) (auto intro: load_relation_wf)
    have "max_entities g = me" "max_relations g = mr"
      using caps [of load_entity "dict_get d ''entities'' (JList [])" "new_graph me mr"] le
      by (auto simp: new_graph_def)
    with wf wf' caps [of "load_relation fs" _ g] show ?thesis
      by (simp add: load_def JDict le)
  qed (simp_all add: load_def wf_new_graph, simp_all add: new_graph_def)
qed

end
