(* ===== verification/Ontology_Cycle.thy ===== *)
theory Ontology_Cycle
  imports Ontology_Graph
begin

text \<open>
  \<open>OntologyGraph.has_cycle\<close>: the iterative depth-first search with three colours and an
  explicit stack, whose entries carry the flag \<open>expanded\<close>. The loop is a total function (its
  termination does not depend on the invariant of the graph), and on a graph with the invariant
  it decides whether the directed relation is acyclic.
\<close>

section \<open>The search\<close>

datatype color = White | Gray | Black

type_synonym colors = "(string, color) dict"
type_synonym stack = "(string \<times> bool) list"

text \<open>
  The stack of the code grows at the end of a list; here its top is the head. \<open>push_all\<close> is the
  loop over the outgoing relations of the node that is being expanded.
\<close>

fun push_all :: "graph \<Rightarrow> colors \<Rightarrow> nat list \<Rightarrow> stack \<Rightarrow> onto_error + stack" where
  "push_all g color [] stack = Inr stack"
| "push_all g color (idx # rest) stack =
     bind_res (relation_at g idx) (\<lambda>r.
     bind_res (py_exn (dict_index color (obj r))) (\<lambda>c.
       push_all g color rest
         (if c = White \<or> c = Gray then (obj r, False) # stack else stack)))"

lemma push_all_shape:
  "push_all g color idxs stack = Inr stack' \<Longrightarrow>
   \<exists>ps. stack' = map (\<lambda>n. (n, False)) ps @ stack \<and>
        (\<forall>n \<in> set ps. map_of color n \<in> {Some White, Some Gray})"
proof (induction idxs arbitrary: stack)
  case Nil
  then show ?case by (intro exI [of _ "[]"]) simp
next
  case (Cons i idxs)
  from Cons.prems obtain r :: relation and c where c: "map_of color (obj r) = Some c"
    and rec: "push_all g color idxs (if c = White \<or> c = Gray then (obj r, False) # stack else stack) = Inr stack'"
    by (auto simp: bind_res_eq_Inr dict_index_def split: option.splits)
  from Cons.IH [OF rec] obtain ps where
    ps: "stack' = map (\<lambda>n. (n, False)) ps @ (if c = White \<or> c = Gray then (obj r, False) # stack else stack)"
    and col: "\<forall>n \<in> set ps. map_of color n \<in> {Some White, Some Gray}" by blast
  show ?case
  proof (cases "c = White \<or> c = Gray")
    case True
    with ps col c show ?thesis by (intro exI [of _ "ps @ [obj r]"]) auto
  next
    case False
    with ps col show ?thesis by (intro exI [of _ ps]) auto
  qed
qed

text \<open>
  Termination: with \<open>w\<close> white nodes, a step either makes a white node gray, or re-expands a black
  node (then the next step meets a white or a gray node, or one entry that is not expanded is
  gone), or pops an expanded entry.
\<close>

definition whites :: "colors \<Rightarrow> nat" where
  "whites color = card {k. map_of color k = Some White}"

fun rank :: "colors \<Rightarrow> stack \<Rightarrow> nat \<times> nat \<times> nat" where
  "rank color ((n, False) # st) =
     (case map_of color n of
        Some Gray \<Rightarrow> (0, 0, 0)
      | Some White \<Rightarrow> (2 * whites color - 1, Suc (length (filter (Not \<circ> snd) st)), Suc (length st))
      | _ \<Rightarrow> (2 * whites color, Suc (length (filter (Not \<circ> snd) st)), Suc (length st)))"
| "rank color st = (2 * whites color, length (filter (Not \<circ> snd) st), length st)"

lemma finite_colored: "finite {k. map_of color k = Some c}"
  by (rule finite_subset [OF _ finite_dom_map_of [of color]]) auto

lemma whites_set_le: "c \<noteq> White \<Longrightarrow> whites (dict_set n c color) \<le> whites color"
  unfolding whites_def by (rule card_mono [OF finite_colored]) auto

lemma whites_set_less:
  assumes "map_of color n = Some White" and "c \<noteq> White"
  shows "whites (dict_set n c color) < whites color"
proof -
  have "{k. map_of (dict_set n c color) k = Some White} \<subset> {k. map_of color k = Some White}"
    using assms by auto
  then show ?thesis unfolding whites_def by (rule psubset_card_mono [OF finite_colored])
qed

lemma whites_pos: "map_of color n = Some White \<Longrightarrow> 0 < whites color"
  unfolding whites_def using finite_colored [of color White] by (auto simp: card_gt_0_iff)

abbreviation lex3 :: "((nat \<times> nat \<times> nat) \<times> (nat \<times> nat \<times> nat)) set" where
  "lex3 \<equiv> less_than <*lex*> (less_than <*lex*> less_than)"

lemma rank_fst_le: "fst (rank color st) \<le> 2 * whites color"
  by (cases "(color, st)" rule: rank.cases) (auto split: option.split color.split)

lemma rank_cases:
  "rank color st = (0, 0, 0) \<or>
   snd (rank color st) = (length (filter (Not \<circ> snd) st), length st) "
  by (cases "(color, st)" rule: rank.cases) (auto split: option.split color.split)

lemma rank_pop:
  "(rank (dict_set n Black color) st, rank color ((n, True) # st)) \<in> lex3"
proof -
  have "fst (rank (dict_set n Black color) st) \<le> 2 * whites color"
    using rank_fst_le [of "dict_set n Black color" st] whites_set_le [of Black n color] by simp
  then show ?thesis
    using rank_cases [of "dict_set n Black color" st]
    by (cases "rank (dict_set n Black color) st") auto
qed

lemma rank_expand:
  assumes "map_of color n = Some c" and "c \<noteq> Gray"
    and "push_all g (dict_set n Gray color) idxs ((n, True) # st) = Inr st'"
  shows "(rank (dict_set n Gray color) st', rank color ((n, False) # st)) \<in> lex3"
proof -
  let ?color = "dict_set n Gray color"
  from push_all_shape [OF assms(3)] obtain ps where
    ps: "st' = map (\<lambda>n. (n, False)) ps @ (n, True) # st"
    "\<forall>m \<in> set ps. map_of ?color m \<in> {Some White, Some Gray}" by blast
  show ?thesis
  proof (cases "c = White")
    case True
    then have "whites ?color < whites color" using assms(1) by (intro whites_set_less) auto
    then have "fst (rank ?color st') < 2 * whites color - 1"
      using rank_fst_le [of ?color st'] by linarith
    with True assms(1) show ?thesis by (cases "rank ?color st'") simp
  next
    case False
    with assms have c: "map_of color n = Some Black" by (cases c) auto
    have le: "whites ?color \<le> whites color" by (intro whites_set_le) simp
    show ?thesis
    proof (cases ps)
      case Nil
      with ps c le show ?thesis by (auto simp: le_less)
    next
      case (Cons m ms)
      with ps(2) consider "map_of ?color m = Some Gray" | "map_of ?color m = Some White" by auto
      then show ?thesis
      proof cases
        case 1
        then have "rank ?color st' = (0, 0, 0)" using ps(1) Cons by simp
        with c show ?thesis by auto
      next
        case 2
        then have "fst (rank ?color st') = 2 * whites ?color - 1" using ps(1) Cons by simp
        with whites_pos [OF 2] le have "fst (rank ?color st') < 2 * whites color" by linarith
        with c show ?thesis by (cases "rank ?color st'") simp
      qed
    qed
  qed
qed

function visit :: "graph \<Rightarrow> colors \<Rightarrow> stack \<Rightarrow> onto_error + (bool \<times> colors)" where
  "visit g color [] = Inr (False, color)"
| "visit g color ((node, expanded) # stack) =
     (if expanded then visit g (dict_set node Black color) stack
      else
        bind_res (py_exn (dict_index color node)) (\<lambda>c.
          if c = Gray then Inr (True, color)
          else
            bind_res (push_all g (dict_set node Gray color) (dict_get (by_subject g) node [])
                        ((node, True) # stack))
              (\<lambda>stack'. visit g (dict_set node Gray color) stack')))"
  by pat_completeness auto
termination
proof (relation "inv_image lex3 (\<lambda>(g, color, st). rank color st)", goal_cases)
  case 1
  then show ?case by (intro wf_inv_image wf_lex_prod wf_less_than)
next
  case (2 g color node expanded stack)
  then show ?case using rank_pop by simp
next
  case (3 g color node expanded stack c stack')
  then have "map_of color node = Some c"
    by (auto simp: dict_index_def split: option.splits)
  with 3 show ?case using rank_expand by simp
qed

fun cycle_from :: "graph \<Rightarrow> string list \<Rightarrow> colors \<Rightarrow> onto_error + bool" where
  "cycle_from g [] color = Inr False"
| "cycle_from g (start # starts) color =
     bind_res (py_exn (dict_index color start)) (\<lambda>c.
       if c \<noteq> White then cycle_from g starts color
       else
         bind_res (visit g color [(start, False)]) (\<lambda>(cyclic, color').
           if cyclic then Inr True else cycle_from g starts color'))"

definition has_cycle :: "graph \<Rightarrow> onto_error + bool" where
  "has_cycle g =
     cycle_from g (map fst (g_entities g)) (map (\<lambda>(k, _). (k, White)) (g_entities g))"

section \<open>Correctness\<close>

subsection \<open>The invariant of the search\<close>

text \<open>
  \<open>path_ok\<close>: every entry of the stack is a successor of the nearest expanded entry below it.
  \<open>acc_ok\<close>: every successor of an expanded entry is black or lies above it on the stack.
\<close>

fun below :: "stack \<Rightarrow> string option" where
  "below [] = None"
| "below ((n, b) # st) = (if b then Some n else below st)"

fun path_ok :: "(string \<times> string) set \<Rightarrow> stack \<Rightarrow> bool" where
  "path_ok E [] = True"
| "path_ok E ((n, b) # st) = (path_ok E st \<and> (case below st of None \<Rightarrow> True | Some t \<Rightarrow> (t, n) \<in> E))"

fun acc_ok :: "(string \<times> string) set \<Rightarrow> string set \<Rightarrow> string set \<Rightarrow> stack \<Rightarrow> bool" where
  "acc_ok E B up [] = True"
| "acc_ok E B up ((n, b) # st) =
     ((b \<longrightarrow> E `` {n} \<subseteq> B \<union> up) \<and> acc_ok E B (insert n up) st)"

definition colored :: "(string \<rightharpoonup> color) \<Rightarrow> color \<Rightarrow> string set" where
  "colored col c = {v. col v = Some c}"

definition search_inv :: "graph \<Rightarrow> (string \<rightharpoonup> color) \<Rightarrow> stack \<Rightarrow> bool" where
  "search_inv g col st =
     (dom col = names g \<and> fst ` set st \<subseteq> names g \<and>
      colored col Gray = {n. (n, True) \<in> set st} \<and> distinct (map fst (filter snd st)) \<and>
      path_ok (edges g) st \<and> acc_ok (edges g) (colored col Black) {} st \<and>
      edges g `` colored col Black \<subseteq> colored col Black \<and>
      acyclic (edges g \<inter> colored col Black \<times> colored col Black))"

lemma path_reach:
  "path_ok E ((n, b) # st) \<Longrightarrow> (m, True) \<in> set st \<Longrightarrow> (m, n) \<in> E\<^sup>+"
proof (induction st arbitrary: n b)
  case Nil
  then show ?case by simp
next
  case (Cons p st)
  obtain k c where p: "p = (k, c)" by (cases p)
  show ?case
  proof (cases c)
    case True
    with Cons.prems have "(k, n) \<in> E" and "path_ok E ((k, True) # st)" by (auto simp: p)
    with Cons.IH [of k True] Cons.prems(2) show ?thesis
      by (auto simp: p intro: trancl_into_trancl)
  next
    case False
    with Cons.prems have "path_ok E ((n, b) # st)" and "(m, True) \<in> set st" by (auto simp: p)
    then show ?thesis by (rule Cons.IH)
  qed
qed

lemma acc_ok_mono: "acc_ok E B up st \<Longrightarrow> B \<union> up \<subseteq> B' \<union> up' \<Longrightarrow> acc_ok E B' up' st"
proof (induction st arbitrary: up up')
  case (Cons p st)
  obtain k c where p: "p = (k, c)" by (cases p)
  have "B \<union> insert k up \<subseteq> B' \<union> insert k up'" using Cons.prems(2) by blast
  with Cons show ?case by (auto simp: p)
qed simp

lemma path_ok_push:
  "path_ok E ((n, True) # st) \<Longrightarrow> set ps \<subseteq> E `` {n} \<Longrightarrow>
   path_ok E (map (\<lambda>m. (m, False)) ps @ (n, True) # st) \<and>
   below (map (\<lambda>m. (m, False)) ps @ (n, True) # st) = Some n"
  by (induction ps) auto

lemma acc_ok_push:
  "acc_ok E B (up \<union> set ps) st \<Longrightarrow> acc_ok E B up (map (\<lambda>m. (m, False)) ps @ st)"
  by (induction ps arbitrary: up) auto

lemma acyclic_insert_sink:
  assumes "E `` B \<subseteq> B" and "E `` {n} \<subseteq> B" and "n \<notin> B" and "acyclic (E \<inter> B \<times> B)"
  shows "acyclic (E \<inter> insert n B \<times> insert n B)"
proof -
  let ?R = "E \<inter> insert n B \<times> insert n B"
  have inB: "?R\<^sup>+ \<subseteq> insert n B \<times> B"
  proof (rule subrelI)
    fix a b assume "(a, b) \<in> ?R\<^sup>+"
    then show "(a, b) \<in> insert n B \<times> B"
    proof (induction rule: trancl_induct)
      case (base y)
      with assms(1,2) show ?case by blast
    next
      case (step y z)
      with assms(1,2) show ?case by blast
    qed
  qed
  have "(a, b) \<in> (E \<inter> B \<times> B)\<^sup>+" if "(a, b) \<in> ?R\<^sup>+" and "a \<in> B" for a b
    using that
  proof (induction rule: trancl_induct)
    case (base y)
    with assms(1) show ?case by blast
  next
    case (step y z)
    then have "y \<in> B" using inB by blast
    with step assms(1) have "(y, z) \<in> E \<inter> B \<times> B" by blast
    with step show ?case by (meson trancl.trancl_into_trancl)
  qed
  with inB assms(3,4) show ?thesis unfolding acyclic_def by blast
qed

subsection \<open>The three kinds of step\<close>

lemma colored_upd: "colored (col(n \<mapsto> c)) c' = (if c = c' then insert n (colored col c') else colored col c' - {n})"
  by (auto simp: colored_def)

lemma inv_pop:
  assumes "search_inv g col ((n, True) # st)"
  shows "search_inv g (col(n \<mapsto> Black)) st"
proof -
  let ?B = "colored col Black"
  from assms have gray: "col n = Some Gray" and n: "n \<in> names g" "n \<notin> fst ` set (filter snd st)"
    and succ: "edges g `` {n} \<subseteq> ?B" and acc: "acc_ok (edges g) ?B {n} st"
    and closed: "edges g `` ?B \<subseteq> ?B" and acy: "acyclic (edges g \<inter> ?B \<times> ?B)"
    and rest: "dom col = names g" "fst ` set st \<subseteq> names g" "path_ok (edges g) st"
      "distinct (map fst (filter snd st))" "colored col Gray = {m. (m, True) \<in> set ((n, True) # st)}"
    by (auto simp: search_inv_def colored_def)
  have "colored (col(n \<mapsto> Black)) Gray = {m. (m, True) \<in> set st}"
    using n(2) rest(5) by (auto simp: colored_upd image_iff)
  moreover have "acc_ok (edges g) (insert n ?B) {} st"
    using acc by (rule acc_ok_mono) auto
  moreover have "n \<notin> ?B" using gray by (simp add: colored_def)
  with acyclic_insert_sink [OF closed succ _ acy]
  have "acyclic (edges g \<inter> insert n ?B \<times> insert n ?B)" by simp
  ultimately show ?thesis
    using n rest closed succ unfolding search_inv_def
    by (auto simp: colored_upd)
qed

lemma inv_gray_cycle:
  assumes "search_inv g col ((n, False) # st)" and "col n = Some Gray"
  shows "\<not> acyclic (edges g)"
proof -
  have "(n, True) \<in> set st" using assms by (auto simp: search_inv_def colored_def)
  moreover have "path_ok (edges g) ((n, False) # st)" using assms(1) by (simp add: search_inv_def)
  ultimately have "(n, n) \<in> (edges g)\<^sup>+" by (intro path_reach)
  then show ?thesis by (auto simp: acyclic_def)
qed

lemma inv_expand:
  assumes "search_inv g col ((n, False) # st)" and "col n = Some White"
    and ps: "set ps = edges g `` {n} - colored col Black" and "set ps \<subseteq> names g"
  shows "search_inv g (col(n \<mapsto> Gray)) (map (\<lambda>m. (m, False)) ps @ (n, True) # st)"
proof -
  let ?B = "colored col Black"
  from assms have path: "path_ok (edges g) ((n, True) # st)" and acc: "acc_ok (edges g) ?B {n} st"
    and n1: "n \<in> names g" "n \<notin> ?B" and gray: "colored col Gray = {m. (m, True) \<in> set st}"
    by (auto simp: search_inv_def colored_def)
  have "n \<notin> colored col Gray" using assms(2) by (simp add: colored_def)
  then have "(n, True) \<notin> set st" unfolding gray by simp
  with n1 have n: "n \<in> names g" "n \<notin> fst ` set (filter snd st)" "n \<notin> ?B" by auto
  have B: "colored (col(n \<mapsto> Gray)) Black = ?B" using n(3) by (simp add: colored_upd)
  have "acc_ok (edges g) ?B {} (map (\<lambda>m. (m, False)) ps @ (n, True) # st)"
    using ps acc_ok_mono [OF acc, of ?B "insert n (set ps)"] by (intro acc_ok_push) auto
  moreover have "path_ok (edges g) (map (\<lambda>m. (m, False)) ps @ (n, True) # st)"
    using path_ok_push [OF path] ps by blast
  moreover have "filter snd (map (\<lambda>m. (m, False)) ps) = []" by (simp add: filter_empty_conv)
  moreover have "colored (col(n \<mapsto> Gray)) Gray =
      {m. (m, True) \<in> set (map (\<lambda>m. (m, False)) ps @ (n, True) # st)}"
    using assms(1) by (auto simp: search_inv_def colored_upd)
  ultimately show ?thesis
    using assms n unfolding search_inv_def B by auto
qed

lemma inv_black:
  assumes "search_inv g col ((n, False) # st)" and "col n = Some Black"
  shows "search_inv g col st \<and> edges g `` {n} \<subseteq> colored col Black - {n}"
proof -
  let ?B = "colored col Black"
  have n: "n \<in> ?B" using assms(2) by (simp add: colored_def)
  have closed: "edges g `` {n} \<subseteq> ?B" and acy: "acyclic (edges g \<inter> ?B \<times> ?B)"
    using assms(1) n by (auto simp: search_inv_def)
  have "(n, n) \<notin> edges g" using n acy unfolding acyclic_def by blast
  moreover have "acc_ok (edges g) ?B {n} st" using assms(1) by (simp add: search_inv_def)
  then have "acc_ok (edges g) ?B {} st" by (rule acc_ok_mono) (use n in blast)
  ultimately show ?thesis using assms(1) closed by (auto simp: search_inv_def)
qed

subsection \<open>The search decides acyclicity\<close>

lemma push_all_wf:
  assumes "\<forall>i \<in> set idxs. i < length (g_relations g) \<and> obj (g_relations g ! i) \<in> dom (map_of color)"
  shows "\<exists>ps. push_all g color idxs st = Inr (map (\<lambda>n. (n, False)) ps @ st) \<and>
     set ps = {m \<in> (\<lambda>i. obj (g_relations g ! i)) ` set idxs. map_of color m \<noteq> Some Black}"
  using assms
proof (induction idxs arbitrary: st)
  case Nil
  then show ?case by (intro exI [of _ "[]"]) simp
next
  case (Cons i idxs)
  let ?m = "obj (g_relations g ! i)"
  from Cons.prems obtain c where i: "i < length (g_relations g)" and c: "map_of color ?m = Some c"
    by auto
  then have step: "push_all g color (i # idxs) st =
      push_all g color idxs (if c = White \<or> c = Gray then (?m, False) # st else st)"
    by (simp add: dict_index_def)
  show ?case
  proof (cases "c = Black")
    case True
    then show ?thesis unfolding step using Cons.IH [of st] Cons.prems c by auto
  next
    case False
    then have "c = White \<or> c = Gray" by (cases c) auto
    moreover obtain ps where "push_all g color idxs ((?m, False) # st) =
        Inr (map (\<lambda>n. (n, False)) ps @ (?m, False) # st)"
      "set ps = {m \<in> (\<lambda>i. obj (g_relations g ! i)) ` set idxs. map_of color m \<noteq> Some Black}"
      using Cons.IH [of "(?m, False) # st"] Cons.prems by auto
    ultimately show ?thesis
      unfolding step using c by (intro exI [of _ "ps @ [?m]"]) auto
  qed
qed

lemma push_successors:
  assumes "wf_graph g" and "dom (map_of color) = names g"
  shows "\<exists>ps. push_all g color (dict_get (by_subject g) n []) st = Inr (map (\<lambda>n. (n, False)) ps @ st) \<and>
     set ps = edges g `` {n} - colored (map_of color) Black"
proof -
  let ?is = "dict_get (by_subject g) n []"
  have idx: "set ?is = {i. i < length (g_relations g) \<and> subject (g_relations g ! i) = n}"
    using assms(1) by (auto simp: wf_graph_def wf_index_def dict_get_index_by)
  then have "(\<lambda>i. obj (g_relations g ! i)) ` set ?is = edges g `` {n}"
    by (auto simp: edges_def Image_def image_iff set_conv_nth)
  moreover have "\<forall>i \<in> set ?is. i < length (g_relations g) \<and> obj (g_relations g ! i) \<in> dom (map_of color)"
    using assms by (auto simp: wf_graph_def wf_relations_def idx)
  from push_all_wf [OF this, of st] obtain ps where
    "push_all g color ?is st = Inr (map (\<lambda>n. (n, False)) ps @ st)"
    "set ps = {m \<in> (\<lambda>i. obj (g_relations g ! i)) ` set ?is. map_of color m \<noteq> Some Black}" by blast
  ultimately show ?thesis by (auto simp: colored_def)
qed

definition nonwhite :: "(string \<rightharpoonup> color) \<Rightarrow> string set" where
  "nonwhite col = {v. col v = Some Gray \<or> col v = Some Black}"

definition visit_result :: "graph \<Rightarrow> colors \<Rightarrow> stack \<Rightarrow> onto_error + (bool \<times> colors) \<Rightarrow> bool" where
  "visit_result g color st res =
     (\<exists>cyclic color'. res = Inr (cyclic, color') \<and>
        (if cyclic then \<not> acyclic (edges g)
         else search_inv g (map_of color') [] \<and>
              nonwhite (map_of color) \<union> fst ` set st \<subseteq> nonwhite (map_of color')))"

lemma visit_result_mono:
  assumes "visit_result g color st res"
    and sub: "nonwhite (map_of color0) \<union> fst ` set st0 \<subseteq> nonwhite (map_of color) \<union> fst ` set st"
  shows "visit_result g color0 st0 res"
proof -
  from assms(1) obtain cyclic color' where res: "res = Inr (cyclic, color')"
    and cond: "if cyclic then \<not> acyclic (edges g)
         else search_inv g (map_of color') [] \<and>
              nonwhite (map_of color) \<union> fst ` set st \<subseteq> nonwhite (map_of color')"
    unfolding visit_result_def by blast
  show ?thesis
  proof (cases cyclic)
    case True
    with res cond show ?thesis by (auto simp: visit_result_def)
  next
    case False
    with cond have "nonwhite (map_of color0) \<union> fst ` set st0 \<subseteq> nonwhite (map_of color')"
      by (intro subset_trans [OF sub]) simp
    with False res cond show ?thesis unfolding visit_result_def by (intro exI [of _ False] exI [of _ color']) simp
  qed
qed

lemma visit_correct:
  assumes "wf_graph g"
    and "search_inv g (map_of color) st \<or>
         (\<exists>n st'. st = (n, True) # st' \<and> search_inv g ((map_of color)(n \<mapsto> Black)) st')"
  shows "visit_result g color st (visit g color st)"
  using assms
proof (induction g color st rule: visit.induct)
  case (1 g color)
  then show ?case by (auto simp: visit_result_def)
next
  case (2 g color n expanded st)
  show ?case
  proof (cases expanded)
    case True
    have "search_inv g (map_of (dict_set n Black color)) st"
      using 2(4) True inv_pop [of g "map_of color" n st] by (auto simp: fun_upd_def)
    with 2(1) [OF True 2(3)] have "visit_result g (dict_set n Black color) st (visit g (dict_set n Black color) st)"
      by blast
    then have "visit_result g color ((n, expanded) # st) (visit g (dict_set n Black color) st)"
      by (rule visit_result_mono) (auto simp: nonwhite_def image_iff)
    with True show ?thesis by simp
  next
    case False
    with 2(4) have inv: "search_inv g (map_of color) ((n, False) # st)" by simp
    then have dom: "dom (map_of color) = names g" and "n \<in> names g" by (auto simp: search_inv_def)
    then obtain c where c: "map_of color n = Some c" by auto
    then have look: "py_exn (dict_index color n) = Inr c" by (simp add: dict_index_def)
    let ?color = "dict_set n Gray color"
    have "dom (map_of ?color) = names g" using dom \<open>n \<in> names g\<close> by auto
    from push_successors [OF 2(3) this, of n "(n, True) # st"] obtain ps where
      push: "push_all g ?color (dict_get (by_subject g) n []) ((n, True) # st) =
             Inr (map (\<lambda>n. (n, False)) ps @ (n, True) # st)"
      and ps: "set ps = edges g `` {n} - colored (map_of ?color) Black" by blast
    let ?st = "map (\<lambda>n. (n, False)) ps @ (n, True) # st"
    have visit: "visit g color ((n, expanded) # st) =
        (if c = Gray then Inr (True, color) else visit g ?color ?st)"
      using False look push by simp
    have up: "nonwhite (map_of color) \<union> fst ` set ((n, expanded) # st) \<subseteq>
        nonwhite (map_of ?color) \<union> fst ` set ?st"
      by (auto simp: nonwhite_def)
    show ?thesis
    proof (cases c)
      case Gray
      with inv_gray_cycle [OF inv] c visit show ?thesis by (auto simp: visit_result_def)
    next
      case White
      have "set ps \<subseteq> names g" using ps 2(3) by (auto simp: edges_def wf_graph_def wf_relations_def)
      moreover have "set ps = edges g `` {n} - colored (map_of color) Black"
        using ps c White by (simp add: colored_upd) (auto simp: colored_def)
      ultimately have "search_inv g (map_of ?color) ?st"
        using inv_expand [OF inv, of ps] c White by simp
      then have "visit_result g ?color ?st (visit g ?color ?st)"
        using 2(2) [OF False look _ push 2(3)] White by (simp add: fun_upd_def)
      then have "visit_result g color ((n, expanded) # st) (visit g ?color ?st)"
        using up by (rule visit_result_mono)
      with visit White show ?thesis by (simp only: color.distinct if_False)
    next
      case Black
      have inv': "search_inv g (map_of color) st" "edges g `` {n} \<subseteq> colored (map_of color) Black - {n}"
        using inv_black [OF inv] c Black by auto
      then have "set ps = {}" using ps by (simp add: colored_upd)
      then have "ps = []" by simp
      moreover have "(map_of ?color)(n \<mapsto> Black) = map_of color" using c Black by auto
      ultimately have "visit_result g ?color ?st (visit g ?color ?st)"
        using 2(2) [OF False look _ push 2(3)] Black inv'(1) by (simp add: fun_upd_def)
      then have "visit_result g color ((n, expanded) # st) (visit g ?color ?st)"
        using up by (rule visit_result_mono)
      with visit Black show ?thesis by (simp only: color.distinct if_False)
    qed
  qed
qed

lemma cycle_from_correct:
  assumes "wf_graph g" and "search_inv g (map_of color) []" and "set starts \<subseteq> names g"
    and "names g \<subseteq> nonwhite (map_of color) \<union> set starts"
  shows "cycle_from g starts color = Inr (\<not> acyclic (edges g))"
  using assms(2-)
proof (induction starts arbitrary: color)
  case Nil
  have gray: "colored (map_of color) Gray = {}" using Nil(1) by (simp add: search_inv_def)
  then have "names g \<subseteq> colored (map_of color) Black"
    using Nil(3) unfolding nonwhite_def colored_def by auto
  moreover have "edges g \<subseteq> names g \<times> names g"
    using assms(1) by (auto simp: edges_def wf_graph_def wf_relations_def)
  ultimately have "edges g \<inter> colored (map_of color) Black \<times> colored (map_of color) Black = edges g"
    by blast
  with Nil(1) show ?case by (simp add: search_inv_def)
next
  case (Cons s starts)
  then have "s \<in> dom (map_of color)" by (simp add: search_inv_def)
  then obtain c where c: "map_of color s = Some c" by blast
  show ?case
  proof (cases "c = White")
    case False
    then have "s \<in> nonwhite (map_of color)" using c by (cases c) (auto simp: nonwhite_def)
    then have "cycle_from g starts color = Inr (\<not> acyclic (edges g))"
      using Cons.prems by (intro Cons.IH) auto
    with False c show ?thesis by (simp add: dict_index_def)
  next
    case True
    have "search_inv g (map_of color) [(s, False)]"
      using Cons.prems by (auto simp: search_inv_def)
    with visit_correct [OF assms(1)] have "visit_result g color [(s, False)] (visit g color [(s, False)])"
      by blast
    then obtain cyclic color' where v: "visit g color [(s, False)] = Inr (cyclic, color')"
      and cond: "if cyclic then \<not> acyclic (edges g) else search_inv g (map_of color') [] \<and>
              nonwhite (map_of color) \<union> fst ` set [(s, False)] \<subseteq> nonwhite (map_of color')"
      unfolding visit_result_def by blast
    show ?thesis
    proof (cases cyclic)
      case True
      with cond v c \<open>c = White\<close> show ?thesis by (simp add: dict_index_def)
    next
      case False
      then have "cycle_from g starts color' = Inr (\<not> acyclic (edges g))"
        using cond Cons.prems by (intro Cons.IH) auto
      with False v c \<open>c = White\<close> show ?thesis by (simp add: dict_index_def)
    qed
  qed
qed

lemma has_cycle_wf: "wf_graph g \<Longrightarrow> has_cycle g = Inr (\<not> acyclic (edges g))"
proof -
  assume wf: "wf_graph g"
  let ?color = "map (\<lambda>(k, _). (k, White)) (g_entities g)"
  have dom: "dom (map_of ?color) = names g" 
    by (simp add: dom_map_of_conv_image_fst names_def image_image split_def)
  have white: "map_of ?color v = Some c \<Longrightarrow> c = White" for v c
    by (auto dest: map_of_SomeD)
  have "colored (map_of ?color) c = {}" if "c \<noteq> White" for c
    using that white by (auto simp: colored_def)
  then have "search_inv g (map_of ?color) []" by (simp add: search_inv_def dom acyclic_def)
  with cycle_from_correct [OF wf this, of "map fst (g_entities g)"] show ?thesis
    by (simp add: has_cycle_def names_def)
qed

text \<open>
  (C37) \<open>has_cycle\<close> is correct: on every graph with the invariant the iterative search returns,
  without a failing lookup, and answers \<open>True\<close> exactly when the directed relations contain a
  cycle (a relation from an entity to itself included).
\<close>

theorem has_cycle_correct:
  assumes "wf_graph g"
  shows "has_cycle g = Inr (\<exists>v \<in> names g. (v, v) \<in> (edges g)\<^sup>+)"
proof -
  have "v \<in> names g" if "(v, v) \<in> (edges g)\<^sup>+" for v
    using that assms by (auto dest!: tranclD simp: edges_def wf_graph_def wf_relations_def)
  then have "(\<not> acyclic (edges g)) = (\<exists>v \<in> names g. (v, v) \<in> (edges g)\<^sup>+)"
    by (auto simp: acyclic_def)
  with has_cycle_wf [OF assms] show ?thesis by simp
qed

theorem has_cycle_correct_witness:
  "has_cycle nine_paths_graph = Inr (\<exists>v \<in> names nine_paths_graph. (v, v) \<in> (edges nine_paths_graph)\<^sup>+) \<and>
   has_cycle nine_paths_graph = Inr False \<and> has_cycle loop_graph = Inr True"
proof (intro conjI)
  show "has_cycle nine_paths_graph = Inr (\<exists>v \<in> names nine_paths_graph. (v, v) \<in> (edges nine_paths_graph)\<^sup>+)"
    by (rule has_cycle_correct [OF wf_nine_paths_graph])
  show "has_cycle nine_paths_graph = Inr False" by code_simp
  show "has_cycle loop_graph = Inr True" by code_simp
qed

end
