(* ===== verification/Ontology_Validator.thy ===== *)
theory Ontology_Validator
  imports Ontology_Cycle
begin

text \<open>
  The gate in front of the ontology: candidate axioms (\<open>ontology/hypothesis.py\<close>), the
  deterministic checks of \<open>EpistemicValidator\<close> (\<open>ontology/validator.py\<close>) and the pipeline
  \<open>crystallize_axiom\<close> (\<open>ontology/orl.py\<close>) that proposes, validates, mutates and persists.

  The language model and the JSON extraction are parameters of the pipeline, and so is the
  construction of the \<open>pydantic\<close> model \<open>OntologicalHypothesis\<close>, of which the code relies on the
  field constraints it declares (\<open>build_checks_fields\<close>).
\<close>

section \<open>Hypotheses and verdicts\<close>

record hypothesis =
  h_subject :: string
  h_predicate :: string
  h_object :: string
  rationale :: string
  confidence :: py_float
  h_source :: string
  h_trigger :: string

datatype reason =
    LowConfidence
  | UnknownSubjectEntity
  | UnknownObjectEntity
  | AlreadyPresent
  | ContradictsAxiom
  | InvalidSubjectType
  | InvalidObjectType
  | CycleCheckUnavailable
  | CreatesCycle

datatype verdict = Accept | Reject reason

record validator =
  min_confidence :: py_float
  type_rules :: "(string, string list \<times> string list) dict"

definition opposites :: "(string, string) dict" where
  "opposites = [(''requires'', ''forbids''), (''forbids'', ''requires'')]"

section \<open>The checks\<close>

fun conflict_check :: "hypothesis \<Rightarrow> relation list \<Rightarrow> onto_error + reason option" where
  "conflict_check h [] = Inr None"
| "conflict_check h (r # rs) =
     (if subject r = h_subject h \<and> obj r = h_object h then
        if predicate r = h_predicate h then Inr (Some AlreadyPresent)
        else
          bind_res (py_exn (dict_index opposites (h_predicate h))) (\<lambda>opp.
            if predicate r = opp then Inr (Some ContradictsAxiom) else conflict_check h rs)
      else conflict_check h rs)"

definition type_check :: "validator \<Rightarrow> hypothesis \<Rightarrow> entity \<Rightarrow> entity \<Rightarrow> reason option" where
  "type_check v h se oe =
     (case map_of (type_rules v) (h_predicate h) of
        None \<Rightarrow> None
      | Some (allowed_subjects, allowed_objects) \<Rightarrow>
          if ent_type se \<notin> set allowed_subjects then Some InvalidSubjectType
          else if ent_type oe \<notin> set allowed_objects then Some InvalidObjectType
          else None)"

fun add_entities :: "entity list \<Rightarrow> graph \<Rightarrow> onto_error + graph" where
  "add_entities [] g = Inr g"
| "add_entities (e # es) g = bind_res (add_entity e g) (add_entities es)"

definition would_create_cycle :: "hypothesis \<Rightarrow> graph \<Rightarrow> onto_error + bool" where
  "would_create_cycle h g =
     bind_res (add_entities (entities g None) (new_graph (max_entities g) (max_relations g))) (\<lambda>c1.
     bind_res (add_relations (g_relations g) c1) (\<lambda>c2.
     bind_res (add_relation
         \<lparr>subject = h_subject h, predicate = h_predicate h, obj = h_object h,
          weight = confidence h, metadata = []\<rparr> c2) has_cycle))"

definition validate :: "validator \<Rightarrow> hypothesis \<Rightarrow> graph \<Rightarrow> onto_error + verdict" where
  "validate v h g =
     (if confidence h < min_confidence v then Inr (Reject LowConfidence)
      else
        bind_res (get_entity g (h_subject h)) (\<lambda>se.
          case se of
            None \<Rightarrow> Inr (Reject UnknownSubjectEntity)
          | Some se \<Rightarrow>
              bind_res (get_entity g (h_object h)) (\<lambda>oe.
                case oe of
                  None \<Rightarrow> Inr (Reject UnknownObjectEntity)
                | Some oe \<Rightarrow>
                    bind_res (conflict_check h (g_relations g)) (\<lambda>conflict.
                      case conflict of
                        Some why \<Rightarrow> Inr (Reject why)
                      | None \<Rightarrow>
                          (case type_check v h se oe of
                             Some why \<Rightarrow> Inr (Reject why)
                           | None \<Rightarrow>
                               (case would_create_cycle h g of
                                  Inl _ \<Rightarrow> Inr (Reject CycleCheckUnavailable)
                                | Inr True \<Rightarrow> Inr (Reject CreatesCycle)
                                | Inr False \<Rightarrow> Inr Accept))))))"

section \<open>The pipeline\<close>

datatype outcome_reason =
    LLMUnavailable
  | OntologyEmpty
  | LLMError
  | Unparsable
  | InvalidHypothesis
  | ValidatorError
  | Rejected reason
  | MutationFailed
  | Accepted

record crystallization =
  accepted :: bool
  why :: outcome_reason
  about :: "hypothesis option"

definition skip :: "outcome_reason \<Rightarrow> hypothesis option \<Rightarrow> crystallization" where
  "skip r h = \<lparr>accepted = False, why = r, about = h\<rparr>"

definition axiom_of :: "hypothesis \<Rightarrow> relation" where
  "axiom_of h =
     \<lparr>subject = h_subject h, predicate = h_predicate h, obj = h_object h, weight = confidence h,
      metadata = [(''source'', JStr (h_source h)), (''trigger'', JStr (h_trigger h)),
                  (''rationale'', JStr (take 500 (rationale h))),
                  (''confidence'', JStr (fmt_fixed 2 (confidence h)))]\<rparr>"

definition model_fields :: "string list" where
  "model_fields = [''subject'', ''predicate'', ''object'', ''rationale'', ''confidence'', ''source'', ''trigger'']"

text \<open>
  \<open>build\<close> is the constructor of the \<open>pydantic\<close> model applied to the fields of the reply, with
  \<open>source\<close> and \<open>trigger\<close> given as keyword arguments beside them: a reply that has one of these
  keys repeats a keyword argument, which is a \<open>TypeError\<close>. \<open>reply\<close> is what the model replied
  (nothing if the call raised), \<open>extract\<close> the JSON in it and \<open>saved\<close> whether \<open>save\<close> succeeds
  (nothing without a \<open>persist_path\<close>).
\<close>

type_synonym builder = "(string, json) dict \<Rightarrow> string \<Rightarrow> string \<Rightarrow> hypothesis option"

definition build_hypothesis :: "builder \<Rightarrow> (string, json) dict \<Rightarrow> string \<Rightarrow> hypothesis option" where
  "build_hypothesis build parsed task_id =
     (let kept = filter (\<lambda>(k, _). k \<in> set model_fields) parsed
      in if dict_has kept ''source'' \<or> dict_has kept ''trigger'' then None
         else build kept ''healer_orl'' task_id)"

definition crystallize_axiom ::
  "builder \<Rightarrow> (string \<Rightarrow> json) \<Rightarrow> bool \<Rightarrow> string option \<Rightarrow> validator \<Rightarrow> bool option \<Rightarrow> string \<Rightarrow> graph
   \<Rightarrow> crystallization \<times> graph" where
  "crystallize_axiom build extract available reply v saved task_id g =
     (if \<not> available then (skip LLMUnavailable None, g)
      else if g_entities g = [] then (skip OntologyEmpty None, g)
      else
        (case reply of
           None \<Rightarrow> (skip LLMError None, g)
         | Some content \<Rightarrow>
             (case extract content of
                JDict parsed \<Rightarrow>
                  (case build_hypothesis build parsed task_id of
                     None \<Rightarrow> (skip InvalidHypothesis None, g)
                   | Some h \<Rightarrow>
                       (case validate v h g of
                          Inl _ \<Rightarrow> (skip ValidatorError (Some h), g)
                        | Inr (Reject r) \<Rightarrow> (skip (Rejected r) (Some h), g)
                        | Inr Accept \<Rightarrow>
                            (case add_relation (axiom_of h) g of
                               Inl _ \<Rightarrow> (skip MutationFailed (Some h), g)
                             | Inr g' \<Rightarrow>
                                 if saved = Some False then (skip MutationFailed (Some h), g')
                                 else (\<lparr>accepted = True, why = Accepted, about = Some h\<rparr>, g'))))
              | _ \<Rightarrow> (skip Unparsable None, g))))"

section \<open>The copy on which the cycle check runs\<close>

lemma add_entities_copy:
  assumes "wf_graph c" and "\<forall>e \<in> set es. clean (ent_name e)"
    and "es \<noteq> [] \<longrightarrow> int (length (g_entities c) + length es) \<le> max_entities c"
  shows "\<exists>c'. add_entities es c = Inr c' \<and> wf_graph c' \<and> names c' = names c \<union> ent_name ` set es \<and>
     g_relations c' = g_relations c \<and> max_relations c' = max_relations c"
  using assms
proof (induction es arbitrary: c)
  case Nil
  then show ?case by simp
next
  case (Cons e es)
  let ?e = "\<lparr>ent_name = ent_name e, ent_type = strip (if ent_type e = [] then ''unknown'' else ent_type e),
              attributes = attributes e\<rparr>"
  let ?c = "c\<lparr>g_entities := dict_set (ent_name e) ?e (g_entities c)\<rparr>"
  have add: "add_entity e c = Inr ?c"
    using Cons.prems(2,3) by (simp add: add_entity_def)
  then have "wf_graph ?c" using Cons.prems(1) add_entity_wf by blast
  moreover have "length (g_entities ?c) \<le> Suc (length (g_entities c))"
    by (simp add: length_dict_set)
  moreover have "names ?c = insert (ent_name e) (names c)"
    by (simp add: names_def fst_set_dict_set)
  ultimately show ?case
    using Cons.IH [of ?c] Cons.prems add by auto
qed

lemma add_relation_new:
  assumes "wf_graph g" and "subject r \<in> names g" and "obj r \<in> names g" and "predicate r \<noteq> []"
    and "strip (predicate r) = predicate r" and "triple r \<notin> triples g"
    and "int (length (g_relations g)) < max_relations g"
  shows "add_relation r g = Inr (append_relation r g)"
proof -
  have "clean (subject r)" "clean (obj r)" using assms(1-3) by (auto simp: wf_graph_defs names_def)
  moreover have same: "\<lparr>subject = subject r, predicate = predicate r, obj = obj r, weight = weight r,
        metadata = metadata r\<rparr> = r" by simp
  ultimately show ?thesis
    using assms by (simp add: same resolve_relation_wf [OF assms(1)] add_relation_def triple_def)
qed

lemma add_relations_copy:
  assumes "wf_graph c" and "distinct (map triple (g_relations c @ rs))"
    and "\<forall>r \<in> set rs. subject r \<in> names c \<and> obj r \<in> names c \<and> predicate r \<noteq> [] \<and>
           strip (predicate r) = predicate r"
    and "rs \<noteq> [] \<longrightarrow> int (length (g_relations c @ rs)) \<le> max_relations c"
  shows "add_relations rs c = Inr (fold append_relation rs c) \<and> wf_graph (fold append_relation rs c)"
  using assms
proof (induction rs arbitrary: c)
  case Nil
  then show ?case by simp
next
  case (Cons r rs)
  have new: "triple r \<notin> triples c" using Cons.prems(2) by (auto simp: triples_def)
  have room: "int (length (g_relations c)) < max_relations c" using Cons.prems(4) by simp
  have "add_relation r c = Inr (append_relation r c)"
    using Cons.prems(3) new room by (intro add_relation_new [OF Cons.prems(1)]) auto
  moreover have "wf_graph (append_relation r c)"
    using Cons.prems(3) new room by (intro append_relation_wf [OF Cons.prems(1)]) auto
  ultimately show ?case
    using Cons.IH [of "append_relation r c"] Cons.prems
    by (simp add: append_relation_def Let_def names_def)
qed

lemma copy_graph:
  assumes wf: "wf_graph g"
  shows "\<exists>c1 c2. add_entities (entities g None) (new_graph (max_entities g) (max_relations g)) = Inr c1 \<and>
     add_relations (g_relations g) c1 = Inr c2 \<and> wf_graph c2 \<and> names c2 = names g \<and>
     g_relations c2 = g_relations g \<and> max_relations c2 = max_relations g"
proof -
  let ?new = "new_graph (max_entities g) (max_relations g)"
  have set: "set (entities g None) = snd ` set (g_entities g)" by (simp add: entities_def)
  have len: "length (entities g None) = length (g_entities g)" by (simp add: entities_def)
  have nm: "ent_name ` snd ` set (g_entities g) = names g"
    using wf by (force simp: wf_graph_def wf_entities_def names_def image_image)
  have "\<forall>e \<in> set (entities g None). clean (ent_name e)"
    using wf by (auto simp: set wf_graph_def wf_entities_def)
  moreover have "entities g None \<noteq> [] \<longrightarrow>
      int (length (g_entities ?new) + length (entities g None)) \<le> max_entities ?new"
    using wf len by (auto simp: new_graph_def wf_graph_def within_caps_def max_def split: if_splits)
  ultimately obtain c1 where "add_entities (entities g None) ?new = Inr c1" "wf_graph c1"
      "names c1 = names ?new \<union> ent_name ` set (entities g None)"
      "g_relations c1 = g_relations ?new" "max_relations c1 = max_relations ?new"
    using add_entities_copy [OF wf_new_graph, of "entities g None" "max_entities g" "max_relations g"]
    by blast
  moreover have "names ?new = {}" by (simp add: new_graph_def names_def)
  ultimately have c1: "add_entities (entities g None) ?new = Inr c1" "wf_graph c1"
      "names c1 = names g" "g_relations c1 = []" "max_relations c1 = max_relations g"
    by (simp_all add: set nm new_graph_def)
  have rel: "add_relations (g_relations g) c1 = Inr (fold append_relation (g_relations g) c1) \<and>
      wf_graph (fold append_relation (g_relations g) c1)"
  proof (rule add_relations_copy [OF c1(2)])
    show "distinct (map triple (g_relations c1 @ g_relations g))"
      using wf c1(4) by (simp add: wf_graph_def wf_relations_def)
    show "\<forall>r \<in> set (g_relations g). subject r \<in> names c1 \<and> obj r \<in> names c1 \<and> predicate r \<noteq> [] \<and>
           strip (predicate r) = predicate r"
      using wf c1(3) by (simp add: wf_graph_def wf_relations_def)
    show "g_relations g \<noteq> [] \<longrightarrow> int (length (g_relations c1 @ g_relations g)) \<le> max_relations c1"
      using wf c1(4,5) by (auto simp: wf_graph_def within_caps_def max_def split: if_splits)
  qed
  have "names (fold append_relation (g_relations g) c1) = names g"
    using c1(3) by (simp add: names_def)
  with c1 rel show ?thesis by fastforce
qed

section \<open>The contract of the cycle check\<close>

text \<open>
  What the validator needs of \<open>has_cycle\<close>, and what follows for a candidate relation: on an
  acyclic graph it is refused exactly when its subject is reachable from its object.
\<close>

locale cycle_check =
  fixes check :: "graph \<Rightarrow> onto_error + bool"
  assumes decides: "wf_graph g \<Longrightarrow> check g = Inr (\<not> acyclic (edges g))"
begin

lemma after_add:
  assumes "wf_graph g" and "add_relation r g = Inr g'"
    and "clean_name (subject r) = Inr s" and "clean_name (obj r) = Inr ob"
  shows "edges g' = insert (s, ob) (edges g) \<and> check g' = Inr (\<not> acyclic (insert (s, ob) (edges g)))"
proof -
  have "edges g' = insert (s, ob) (edges g)"
    using assms(3,4)
    by (rule_tac add_relation_cases [OF assms(1,2)])
       (auto simp: edges_def triples_def triple_def append_relation_def Let_def image_iff)
  moreover have "check g' = Inr (\<not> acyclic (edges g'))"
    using add_relation_wf [OF assms(1,2)] by (rule decides)
  ultimately show ?thesis by simp
qed

lemma refused_iff_path:
  assumes "wf_graph g" and "add_relation r g = Inr g'"
    and "clean_name (subject r) = Inr s" and "clean_name (obj r) = Inr ob" and "acyclic (edges g)"
  shows "check g' = Inr ((ob, s) \<in> (edges g)\<^sup>*)"
  using after_add [OF assms(1-4)] assms(5) by (simp add: acyclic_insert)

end

interpretation onto_cycle: cycle_check has_cycle
  by unfold_locales (rule has_cycle_wf)

lemma would_create_cycle_wf:
  assumes "wf_graph g" and "clean_name (h_subject h) = Inr s" and "clean_name (h_object h) = Inr ob"
    and "s \<in> names g" and "ob \<in> names g" and "strip (h_predicate h) \<noteq> []"
  shows "would_create_cycle h g =
     (if (s, strip (h_predicate h), ob) \<notin> triples g \<and> max_relations g \<le> int (length (g_relations g))
      then Inl RelationCap else Inr (\<not> acyclic (insert (s, ob) (edges g))))"
proof -
  let ?r = "\<lparr>subject = h_subject h, predicate = h_predicate h, obj = h_object h,
          weight = confidence h, metadata = []\<rparr>"
  obtain c1 c2 where copy: "add_entities (entities g None) (new_graph (max_entities g) (max_relations g)) = Inr c1"
      "add_relations (g_relations g) c1 = Inr c2"
    and c2: "wf_graph c2" "names c2 = names g" "g_relations c2 = g_relations g" "max_relations c2 = max_relations g"
    using copy_graph [OF assms(1)] by blast
  have same: "triples c2 = triples g" "edges c2 = edges g"
    by (simp_all add: triples_def edges_def c2(3))
  have eq: "would_create_cycle h g = bind_res (add_relation ?r c2) has_cycle"
    by (simp add: would_create_cycle_def copy)
  have res: "resolve_relation (subject ?r) (predicate ?r) (obj ?r) c2 =
     (if (s, strip (h_predicate h), ob) \<in> triples g then Inr None
      else if max_relations g \<le> int (length (g_relations g)) then Inl RelationCap
      else Inr (Some (s, strip (h_predicate h), ob)))"
    using assms by (simp add: resolve_relation_wf [OF c2(1)] c2 same)
  show ?thesis
  proof (cases "(s, strip (h_predicate h), ob) \<notin> triples g \<and> max_relations g \<le> int (length (g_relations g))")
    case True
    then show ?thesis unfolding eq add_relation_def res by simp
  next
    case False
    then have "\<exists>c3. add_relation ?r c2 = Inr c3"
      unfolding add_relation_def res by (cases "(s, strip (h_predicate h), ob) \<in> triples g") auto
    then obtain c3 where c3: "add_relation ?r c2 = Inr c3" by blast
    with onto_cycle.after_add [OF c2(1) c3, of s ob] assms(2,3) same(2) False show ?thesis
      unfolding eq by auto
  qed
qed

section \<open>What acceptance means\<close>

definition hyp_ok :: "hypothesis \<Rightarrow> bool" where
  "hyp_ok h =
     (h_subject h \<noteq> [] \<and> h_object h \<noteq> [] \<and> h_predicate h \<in> {''requires'', ''forbids''} \<and>
      0 \<le> confidence h \<and> confidence h \<le> 1)"

definition build_checks_fields :: "builder \<Rightarrow> bool" where
  "build_checks_fields build = (\<forall>d src trg h. build d src trg = Some h \<longrightarrow> hyp_ok h)"

lemma strip_predicate: "hyp_ok h \<Longrightarrow> strip (h_predicate h) = h_predicate h \<and> h_predicate h \<noteq> []"
proof -
  have "strip ''requires'' = ''requires''" "strip ''forbids'' = ''forbids''" by code_simp+
  then show "hyp_ok h \<Longrightarrow> ?thesis" by (auto simp: hyp_ok_def)
qed

lemma conflict_check_None:
  "hyp_ok h \<Longrightarrow> \<exists>c. conflict_check h rs = Inr c \<and>
     (c = None \<longleftrightarrow> (\<forall>r \<in> set rs. subject r = h_subject h \<and> obj r = h_object h \<longrightarrow>
                      predicate r \<notin> {''requires'', ''forbids''}))"
proof (induction rs)
  case Nil
  then show ?case by simp
next
  case (Cons r rs)
  from Cons obtain c where "conflict_check h rs = Inr c"
    "c = None \<longleftrightarrow> (\<forall>r \<in> set rs. subject r = h_subject h \<and> obj r = h_object h \<longrightarrow>
                      predicate r \<notin> {''requires'', ''forbids''})" by blast
  with Cons.prems show ?case by (auto simp: hyp_ok_def opposites_def dict_index_def)
qed

lemma validate_accept:
  assumes "wf_graph g" and "hyp_ok h"
    and "clean_name (h_subject h) = Inr s" and "clean_name (h_object h) = Inr ob"
  shows "validate v h g = Inr Accept \<longleftrightarrow>
     min_confidence v \<le> confidence h \<and> s \<in> names g \<and> ob \<in> names g \<and>
     (\<forall>r \<in> set (g_relations g). subject r = h_subject h \<and> obj r = h_object h \<longrightarrow>
        predicate r \<notin> {''requires'', ''forbids''}) \<and>
     type_check v h (the (map_of (g_entities g) s)) (the (map_of (g_entities g) ob)) = None \<and>
     ((s, h_predicate h, ob) \<in> triples g \<or> int (length (g_relations g)) < max_relations g) \<and>
     acyclic (insert (s, ob) (edges g))"
proof -
  have look: "map_of (g_entities g) k = None \<longleftrightarrow> k \<notin> names g" for k
    by (simp add: map_of_eq_None_iff names_def)
  have get: "get_entity g (h_subject h) = Inr (map_of (g_entities g) s)"
    "get_entity g (h_object h) = Inr (map_of (g_entities g) ob)"
    using assms(3,4) by (simp_all add: get_entity_def)
  obtain c where c: "conflict_check h (g_relations g) = Inr c"
    "c = None \<longleftrightarrow> (\<forall>r \<in> set (g_relations g). subject r = h_subject h \<and> obj r = h_object h \<longrightarrow>
                      predicate r \<notin> {''requires'', ''forbids''})"
    using conflict_check_None [OF assms(2)] by blast
  show ?thesis
  proof (cases "s \<in> names g \<and> ob \<in> names g")
    case False
    with look [of s] look [of ob] show ?thesis
      by (auto simp: validate_def get split: option.split)
  next
    case True
    then obtain se oe where e: "map_of (g_entities g) s = Some se" "map_of (g_entities g) ob = Some oe"
      using look [of s] look [of ob] by auto
    have w: "would_create_cycle h g =
     (if (s, h_predicate h, ob) \<notin> triples g \<and> max_relations g \<le> int (length (g_relations g))
      then Inl RelationCap else Inr (\<not> acyclic (insert (s, ob) (edges g))))"
      using would_create_cycle_wf [OF assms(1,3,4)] True strip_predicate [OF assms(2)] by simp
    show ?thesis
    proof (cases c)
      case None
      with c have "\<forall>r \<in> set (g_relations g). subject r = h_subject h \<and> obj r = h_object h \<longrightarrow>
                      predicate r \<notin> {''requires'', ''forbids''}" by simp
      then show ?thesis
        using True c(1) None e w
        by (cases "acyclic (insert (s, ob) (edges g))")
           (auto simp: validate_def get simp del: acyclic_insert split: option.split)
    next
      case (Some why)
      with c(2) have "\<not> (\<forall>r \<in> set (g_relations g). subject r = h_subject h \<and> obj r = h_object h \<longrightarrow>
                      predicate r \<notin> {''requires'', ''forbids''})" by simp
      then show ?thesis
        using c(1) Some e by (simp only: validate_def get) simp
    qed
  qed
qed

text \<open>
  The validator accepts a hypothesis exactly when its confidence reaches the threshold, both
  entities exist, no relation recorded under the very names of the hypothesis requires or
  forbids its object, the type rule of its predicate admits the two entity types, the graph has
  room for it, and the graph with the new edge is acyclic.
\<close>

theorem validate_accepts_iff:
  assumes "wf_graph g" and "hyp_ok h"
    and "clean_name (h_subject h) = Inr s" and "clean_name (h_object h) = Inr ob"
  shows "validate v h g = Inr Accept \<longleftrightarrow>
     min_confidence v \<le> confidence h \<and> s \<in> names g \<and> ob \<in> names g \<and>
     (\<forall>r \<in> set (g_relations g). subject r = h_subject h \<and> obj r = h_object h \<longrightarrow>
        predicate r \<notin> {''requires'', ''forbids''}) \<and>
     type_check v h (the (map_of (g_entities g) s)) (the (map_of (g_entities g) ob)) = None \<and>
     ((s, h_predicate h, ob) \<in> triples g \<or> int (length (g_relations g)) < max_relations g) \<and>
     acyclic (insert (s, ob) (edges g))"
  using assms by (rule validate_accept)

section \<open>The pipeline keeps the ontology acyclic\<close>

lemma crystallize_cases:
  assumes "crystallize_axiom build extract available reply v saved t g = (res, g')"
  shows "g' = g \<and> \<not> accepted res \<or>
     (\<exists>h d src trg. build d src trg = Some h \<and> validate v h g = Inr Accept \<and>
        add_relation (axiom_of h) g = Inr g' \<and> about res = Some h \<and>
        (accepted res \<longleftrightarrow> saved \<noteq> Some False))"
  using assms unfolding crystallize_axiom_def
  by (auto simp: build_hypothesis_def skip_def Let_def
      split: if_splits option.splits json.splits sum.splits verdict.splits)

lemma accepted_names:
  assumes "validate v h g = Inr Accept"
  obtains s ob where "clean_name (h_subject h) = Inr s" and "clean_name (h_object h) = Inr ob"
proof -
  obtain s where "clean_name (h_subject h) = Inr s"
    using assms by (cases "clean_name (h_subject h)") (auto simp: validate_def get_entity_def split: if_splits)
  moreover obtain ob where "clean_name (h_object h) = Inr ob"
    using assms by (cases "clean_name (h_object h)")
      (auto simp: validate_def get_entity_def bind_res_eq_Inr split: if_splits option.splits)
  ultimately show thesis by (rule that)
qed

lemma accepted_mutation:
  assumes wf: "wf_graph g" and h: "hyp_ok h" and acc: "validate v h g = Inr Accept"
    and add: "add_relation (axiom_of h) g = Inr g'"
  obtains s ob where "clean_name (h_subject h) = Inr s" and "clean_name (h_object h) = Inr ob"
    and "wf_graph g'" and "triples g' = insert (s, h_predicate h, ob) (triples g)"
    and "acyclic (edges g')"
proof -
  obtain s ob where n: "clean_name (h_subject h) = Inr s" "clean_name (h_object h) = Inr ob"
    using acc by (rule accepted_names)
  have "acyclic (insert (s, ob) (edges g))" using validate_accept [OF wf h n] acc by blast
  moreover have "edges g' = insert (s, ob) (edges g)"
    using onto_cycle.after_add [OF wf add, of s ob] n by (simp add: axiom_of_def)
  moreover have "triples g' = insert (s, h_predicate h, ob) (triples g)"
    using n strip_predicate [OF h]
    by (rule_tac add_relation_cases [OF wf add])
       (auto simp: axiom_of_def triples_def triple_def append_relation_def Let_def)
  ultimately show thesis using n add_relation_wf [OF wf add] that by simp
qed

text \<open>
  (C36) The pipeline is safe. Whatever the language model replies, \<open>crystallize_axiom\<close> on a graph
  with the invariant leaves a graph with the invariant; the graph is changed only by a
  hypothesis that the validator accepted, then exactly by its triple, and the changed graph is
  acyclic; a result that says accepted means that the triple is in the graph.
\<close>

theorem crystallize_safe:
  assumes "wf_graph g" and "build_checks_fields build"
    and "crystallize_axiom build extract available reply v saved task_id g = (res, g')"
  shows "wf_graph g' \<and> (acyclic (edges g) \<longrightarrow> acyclic (edges g')) \<and>
     (g' \<noteq> g \<or> accepted res \<longrightarrow>
        (\<exists>h s ob. about res = Some h \<and> validate v h g = Inr Accept \<and>
           clean_name (h_subject h) = Inr s \<and> clean_name (h_object h) = Inr ob \<and>
           triples g' = insert (s, h_predicate h, ob) (triples g) \<and> acyclic (edges g')))"
  using crystallize_cases [OF assms(3)]
proof
  assume "g' = g \<and> \<not> accepted res"
  with assms(1) show ?thesis by simp
next
  assume "\<exists>h d src trg. build d src trg = Some h \<and> validate v h g = Inr Accept \<and>
        add_relation (axiom_of h) g = Inr g' \<and> about res = Some h \<and>
        (accepted res \<longleftrightarrow> saved \<noteq> Some False)"
  then obtain h where h: "hyp_ok h" "validate v h g = Inr Accept"
      "add_relation (axiom_of h) g = Inr g'" "about res = Some h"
    using assms(2) unfolding build_checks_fields_def by blast
  then obtain s ob where "clean_name (h_subject h) = Inr s" "clean_name (h_object h) = Inr ob"
      "wf_graph g'" "triples g' = insert (s, h_predicate h, ob) (triples g)" "acyclic (edges g')"
    using accepted_mutation [OF assms(1)] by metis
  with h show ?thesis by blast
qed

definition consistent :: "graph \<Rightarrow> bool" where
  "consistent g = (\<forall>(s, p, ob) \<in> triples g. p = ''requires'' \<longrightarrow> (s, ''forbids'', ob) \<notin> triples g)"

text \<open>
  No contradiction, for clean names: when every hypothesis the model proposes has names
  without surrounding white space, a graph in which no pair is both required and forbidden stays
  so through \<open>crystallize_axiom\<close>.
\<close>

theorem crystallize_consistent:
  assumes "wf_graph g" and "build_checks_fields build" and "consistent g"
    and "\<forall>d src trg h. build d src trg = Some h \<longrightarrow>
           clean_name (h_subject h) = Inr (h_subject h) \<and> clean_name (h_object h) = Inr (h_object h)"
  shows "consistent (snd (crystallize_axiom build extract available reply v saved task_id g))"
proof -
  obtain res g' where run: "crystallize_axiom build extract available reply v saved task_id g = (res, g')"
    by fastforce
  consider "g' = g" | h where "hyp_ok h" "validate v h g = Inr Accept" "add_relation (axiom_of h) g = Inr g'"
      "clean_name (h_subject h) = Inr (h_subject h)" "clean_name (h_object h) = Inr (h_object h)"
    using crystallize_cases [OF run] assms(2,4) unfolding build_checks_fields_def by blast
  then show ?thesis
  proof cases
    case 1
    with run assms(3) show ?thesis by simp
  next
    case (2 h)
    have free: "(h_subject h, p, h_object h) \<notin> triples g" if "p \<in> {''requires'', ''forbids''}" for p
      using 2(2) that unfolding validate_accept [OF assms(1) 2(1,4,5)]
      by (auto simp: triples_def triple_def)
    have "triples g' = insert (h_subject h, h_predicate h, h_object h) (triples g)"
      by (rule accepted_mutation [OF assms(1) 2(1-3)]) (use 2(4,5) in simp)
    with free [of "''requires''"] free [of "''forbids''"] assms(3) 2(1) run show ?thesis
      by (auto simp: consistent_def hyp_ok_def)
  qed
qed

section \<open>Two behaviours against the documentation\<close>

definition forbidding_graph :: graph where
  "forbidding_graph =
     \<lparr>max_entities = 10, max_relations = 10,
      g_entities = [(''A'', \<lparr>ent_name = ''A'', ent_type = ''t'', attributes = []\<rparr>),
                    (''B'', \<lparr>ent_name = ''B'', ent_type = ''t'', attributes = []\<rparr>)],
      g_relations = [\<lparr>subject = ''A'', predicate = ''forbids'', obj = ''B'', weight = 1, metadata = []\<rparr>],
      by_subject = [(''A'', [0])], by_object = [(''B'', [0])]\<rparr>"

definition requires_hypothesis :: "string \<Rightarrow> hypothesis" where
  "requires_hypothesis s =
     \<lparr>h_subject = s, h_predicate = ''requires'', h_object = ''B'', rationale = [],
      confidence = 9 / 10, h_source = ''healer_orl'', h_trigger = []\<rparr>"

definition default_validator :: validator where
  "default_validator = \<lparr>min_confidence = 1 / 2, type_rules = []\<rparr>"

lemma wf_forbidding_graph: "wf_graph forbidding_graph"
  by code_simp

lemma requires_build_ok: "s \<noteq> [] \<Longrightarrow> build_checks_fields (\<lambda>_ _ _. Some (requires_hypothesis s))"
  by (auto simp: build_checks_fields_def hyp_ok_def requires_hypothesis_def)

text \<open>
  The contradiction check compares raw names: on a graph that forbids B for A, the
  hypothesis that A requires B is rejected as a contradiction, but with a space in front of the
  name it is accepted and the graph asserts both laws.
\<close>

theorem contradiction_bypass:
  "validate default_validator (requires_hypothesis ''A'') forbidding_graph = Inr (Reject ContradictsAxiom) \<and>
   validate default_validator (requires_hypothesis '' A'') forbidding_graph = Inr Accept \<and>
   consistent forbidding_graph \<and>
   \<not> consistent (snd (crystallize_axiom (\<lambda>_ _ _. Some (requires_hypothesis '' A'')) (\<lambda>_. JDict [])
       True (Some []) default_validator None [] forbidding_graph))"
proof (intro conjI)
  show "validate default_validator (requires_hypothesis ''A'') forbidding_graph = Inr (Reject ContradictsAxiom)"
    by code_simp
  show "validate default_validator (requires_hypothesis '' A'') forbidding_graph = Inr Accept"
    by code_simp
  show "consistent forbidding_graph" by code_simp
  show "\<not> consistent (snd (crystallize_axiom (\<lambda>_ _ _. Some (requires_hypothesis '' A'')) (\<lambda>_. JDict [])
       True (Some []) default_validator None [] forbidding_graph))"
    by code_simp
qed

text \<open>The validator raises on a name of white space only, although it is documented never to.\<close>

lemma validator_raises:
  "validate default_validator (requires_hypothesis '' '') forbidding_graph = Inl EmptyName"
  by code_simp

text \<open>When saving fails, the attempt is reported as not accepted but the axiom stays in the graph.\<close>

lemma unsaved_axiom_stays:
  "let (res, g') = crystallize_axiom (\<lambda>_ _ _. Some (requires_hypothesis '' A'')) (\<lambda>_. JDict [])
       True (Some []) default_validator (Some False) [] forbidding_graph
   in \<not> accepted res \<and> (''A'', ''requires'', ''B'') \<in> triples g'"
  by code_simp

theorem validate_accepts_iff_witness:
  "validate default_validator (requires_hypothesis '' A'') forbidding_graph = Inr Accept \<and>
   acyclic (insert (''A'', ''B'') (edges forbidding_graph))"
proof -
  have h: "hyp_ok (requires_hypothesis '' A'')" by (simp add: hyp_ok_def requires_hypothesis_def)
  have n: "clean_name (h_subject (requires_hypothesis '' A'')) = Inr ''A''"
    "clean_name (h_object (requires_hypothesis '' A'')) = Inr ''B''" by code_simp+
  have "validate default_validator (requires_hypothesis '' A'') forbidding_graph = Inr Accept"
    by code_simp
  with validate_accepts_iff [OF wf_forbidding_graph h n, of default_validator] show ?thesis by blast
qed

theorem crystallize_safe_witness:
  "let (res, g') = crystallize_axiom (\<lambda>_ _ _. Some (requires_hypothesis '' A'')) (\<lambda>_. JDict [])
       True (Some []) default_validator None [] forbidding_graph
   in wf_graph g' \<and> accepted res \<and> acyclic (edges g')"
proof -
  obtain res g' where run: "crystallize_axiom (\<lambda>_ _ _. Some (requires_hypothesis '' A'')) (\<lambda>_. JDict [])
       True (Some []) default_validator None [] forbidding_graph = (res, g')" by fastforce
  have "accepted (fst (crystallize_axiom (\<lambda>_ _ _. Some (requires_hypothesis '' A'')) (\<lambda>_. JDict [])
       True (Some []) default_validator None [] forbidding_graph))" by code_simp
  then have "accepted res" by (simp add: run)
  moreover have "build_checks_fields (\<lambda>_ _ _. Some (requires_hypothesis '' A''))"
    by (rule requires_build_ok) simp
  ultimately show ?thesis
    using crystallize_safe [OF wf_forbidding_graph _ run] unfolding run by auto
qed

theorem crystallize_consistent_witness:
  "consistent (snd (crystallize_axiom (\<lambda>_ _ _. Some (requires_hypothesis ''A'')) (\<lambda>_. JDict [])
       True (Some []) default_validator None [] forbidding_graph))"
proof (rule crystallize_consistent [OF wf_forbidding_graph])
  show "build_checks_fields (\<lambda>_ _ _. Some (requires_hypothesis ''A''))"
    by (rule requires_build_ok) simp
  show "consistent forbidding_graph" by code_simp
  have "clean_name ''A'' = Inr ''A''" "clean_name ''B'' = Inr ''B''" by code_simp+
  then show "\<forall>d src trg h. Some (requires_hypothesis ''A'') = Some h \<longrightarrow>
           clean_name (h_subject h) = Inr (h_subject h) \<and> clean_name (h_object h) = Inr (h_object h)"
    by (auto simp: requires_hypothesis_def)
qed

end
