(* ===== verification/Bounded_Log.thy ===== *)
theory Bounded_Log
  imports Prelude
begin

text \<open>
  The logs of bounded length that several components keep (the contribution ledger, the event
  history, the dead letters): an entry is appended and, over the cap, the oldest ones are
  dropped with a slice \<open>xs[-n:]\<close>. The locale \<open>bounded_log\<close> is their contract; what it gives is that
  the log always holds exactly the most recent entries, in order.
\<close>

definition keep_last :: "nat \<Rightarrow> 'a list \<Rightarrow> 'a list" where
  "keep_last n xs = drop (length xs - n) xs"

lemma length_keep_last [simp]: "length (keep_last n xs) = min n (length xs)"
  by (simp add: keep_last_def)

lemma keep_last_id [simp]: "length xs \<le> n \<Longrightarrow> keep_last n xs = xs"
  by (simp add: keep_last_def)

lemma keep_last_append:
  "keep_last n (keep_last n xs @ ys) = keep_last n (xs @ ys)"
proof (cases "length xs \<le> n")
  case True
  then show ?thesis by simp
next
  case False
  then have "keep_last n xs @ ys = drop (length xs - n) (xs @ ys)" by (simp add: keep_last_def)
  then show ?thesis using False by (simp add: keep_last_def drop_drop add.commute)
qed

lemma keep_last_snoc: "0 < n \<Longrightarrow> keep_last n (xs @ [x]) \<noteq> [] \<and> last (keep_last n (xs @ [x])) = x"
  by (auto simp: keep_last_def last_drop)

lemma set_keep_last: "set (keep_last n xs) \<subseteq> set xs"
  by (simp add: keep_last_def set_drop_subset)

locale bounded_log =
  fixes push :: "'a \<Rightarrow> 's \<Rightarrow> 's"
    and entry_of :: "'a \<Rightarrow> 'e"
    and log_of :: "'s \<Rightarrow> 'e list"
    and cap_of :: "'s \<Rightarrow> nat"
  assumes push_log: "log_of (push a s) = keep_last (cap_of s) (log_of s @ [entry_of a])"
    and push_cap: "cap_of (push a s) = cap_of s"
begin

lemma fold_cap: "cap_of (fold push xs s) = cap_of s"
  by (induction xs arbitrary: s) (simp_all add: push_cap)

lemma fold_log:
  "length (log_of s) \<le> cap_of s \<Longrightarrow>
   log_of (fold push xs s) = keep_last (cap_of s) (log_of s @ map entry_of xs)"
proof (induction xs arbitrary: s)
  case (Cons a xs)
  have "log_of (fold push xs (push a s)) =
      keep_last (cap_of s) (keep_last (cap_of s) (log_of s @ [entry_of a]) @ map entry_of xs)"
    using Cons.IH [of "push a s"] by (simp add: push_cap push_log)
  then show ?case by (simp add: keep_last_append)
qed simp

lemma bounded: "length (log_of s) \<le> cap_of s \<Longrightarrow> length (log_of (fold push xs s)) \<le> cap_of s"
  by (simp add: fold_log)

end

section \<open>Grouping\<close>

text \<open>
  \<open>d[k] = d.get(k, 0) + v\<close> in a loop: what every key gets, and that the groups add up to the
  whole.
\<close>

definition add_to :: "'k \<Rightarrow> 'v \<Rightarrow> ('k, 'v::comm_monoid_add) dict \<Rightarrow> ('k, 'v) dict" where
  "add_to k v d = dict_set k (dict_get d k 0 + v) d"

definition group_sum :: "('a \<Rightarrow> 'k) \<Rightarrow> ('a \<Rightarrow> 'v::comm_monoid_add) \<Rightarrow> 'a list \<Rightarrow> ('k, 'v) dict" where
  "group_sum key val xs = foldl (\<lambda>d x. add_to (key x) (val x) d) [] xs"

lemma sum_list_dict_set:
  fixes d :: "('k, 'v::comm_monoid_add) dict"
  assumes "wf_dict d"
  shows "sum_list (map snd (add_to k v d)) = sum_list (map snd d) + v"
  using assms
proof (induction d)
  case Nil
  then show ?case by (simp add: add_to_def dict_get_def)
next
  case (Cons p d)
  show ?case
  proof (cases "fst p = k")
    case True
    then show ?thesis by (cases p) (simp add: add_to_def dict_get_def ac_simps)
  next
    case False
    with Cons have "sum_list (map snd (add_to k v d)) = sum_list (map snd d) + v"
      by (simp add: wf_dict_def)
    with False show ?thesis by (cases p) (simp add: add_to_def dict_get_def ac_simps)
  qed
qed

lemma group_sum_snoc: "group_sum key val (xs @ [x]) = add_to (key x) (val x) (group_sum key val xs)"
  by (simp add: group_sum_def)

lemma wf_group_sum [simp]: "wf_dict (group_sum key val xs)"
  by (induction xs rule: rev_induct) (auto simp: group_sum_snoc add_to_def, simp add: group_sum_def)

lemma group_sum_get:
  "dict_get (group_sum key val xs) k 0 = sum_list (map val (filter (\<lambda>x. key x = k) xs))"
  by (induction xs rule: rev_induct)
     (auto simp: group_sum_snoc add_to_def dict_get_def, simp_all add: group_sum_def)

lemma group_sum_total: "sum_list (map snd (group_sum key val xs)) = sum_list (map val xs)"
  by (induction xs rule: rev_induct)
     (simp add: group_sum_def, simp add: group_sum_snoc sum_list_dict_set)

lemma group_sum_keys: "fst ` set (group_sum key val xs) = key ` set xs"
  by (induction xs rule: rev_induct)
     (simp add: group_sum_def, simp add: group_sum_snoc add_to_def fst_set_dict_set)

end
