(* ===== verification/Billing.thy ===== *)
theory Billing
  imports Bounded_Log "HOL-Library.Char_ord" "HOL-Library.Multiset"
begin

text \<open>
  Cost and limit control: the token budget of a task (\<open>budget/token_budget.py\<close>), the cost
  tracker (\<open>billing/cost_tracker.py\<close>), the contribution ledger (\<open>billing/ledger.py\<close>) and the
  tenant quotas (\<open>billing/quotas.py\<close>).

  PostgreSQL and Redis are parameters: every read takes what the backend returned (nothing when
  it is not configured or the call raised), every write whether it succeeded. The clock is a
  parameter too. Metrics and logging are left out.
\<close>

section \<open>Token budget\<close>

datatype budget_action = ALLOW | DEGRADE | SKIP | REJECT

record budget =
  max_tokens :: int
  warn_at :: py_float
  hard_cap_at :: py_float
  used :: int
  skipped_steps :: "string list"
  degraded :: bool

definition new_budget :: "int \<Rightarrow> py_float \<Rightarrow> py_float \<Rightarrow> budget" where
  "new_budget m w c =
     \<lparr>max_tokens = m, warn_at = w, hard_cap_at = c, used = 0, skipped_steps = [], degraded = False\<rparr>"

definition remaining :: "budget \<Rightarrow> int" where
  "remaining b = max 0 (max_tokens b - used b)"

definition fraction_used :: "budget \<Rightarrow> py_float" where
  "fraction_used b = of_int (used b) / of_int (max (max_tokens b) 1)"

definition record_tokens :: "int \<Rightarrow> budget \<Rightarrow> budget" where
  "record_tokens tokens b = b\<lparr>used := used b + tokens\<rparr>"

definition check :: "int \<Rightarrow> string \<Rightarrow> budget \<Rightarrow> budget_action \<times> budget" where
  "check estimated_cost step_name b =
     (let projected = used b + estimated_cost;
          frac = of_int projected / of_int (max (max_tokens b) 1)
      in if hard_cap_at b \<le> frac then (REJECT, b\<lparr>skipped_steps := skipped_steps b @ [step_name]\<rparr>)
         else if warn_at b \<le> frac then (DEGRADE, b\<lparr>degraded := True\<rparr>)
         else (ALLOW, b))"

definition should_degrade :: "budget \<Rightarrow> bool \<times> budget" where
  "should_degrade b =
     (if degraded b then (True, b)
      else (let (result, b') = check 1000 [] b in (result \<in> {DEGRADE, SKIP, REJECT}, b')))"

definition reset_budget :: "budget \<Rightarrow> budget" where
  "reset_budget b = b\<lparr>used := 0, skipped_steps := [], degraded := False\<rparr>"

text \<open>
  The budget check: it changes no count of tokens, it answers \<open>REJECT\<close> exactly when the
  projected use reaches the hard cap and \<open>ALLOW\<close> exactly when it stays below both limits, and it
  never answers \<open>SKIP\<close>.
\<close>

theorem budget_check_answers:
  "let (action, b') = check est name b; frac = of_int (used b + est) / of_int (max (max_tokens b) 1)
   in action \<noteq> SKIP \<and> used b' = used b \<and>
      (action = REJECT) = (hard_cap_at b \<le> frac) \<and>
      (action = ALLOW) = (frac < min (warn_at b) (hard_cap_at b)) \<and>
      (degraded b' = (degraded b \<or> action = DEGRADE)) \<and>
      skipped_steps b' = skipped_steps b @ (if action = REJECT then [name] else [])"
  by (auto simp: check_def Let_def)

section \<open>Cost tracker\<close>

definition pricing :: "(string, py_float \<times> py_float) dict" where
  "pricing =
     [(''gpt-4o-mini'', (15 / 100, 60 / 100)), (''gpt-4o'', (25 / 10, 10)),
      (''claude-sonnet-4-5-20250929'', (3, 15)), (''claude-sonnet-4-20250514'', (3, 15)),
      (''o3'', (10, 40)), (''fallback'', (0, 0))]"

definition calculate_cost :: "string \<Rightarrow> int \<Rightarrow> int \<Rightarrow> py_float" where
  "calculate_cost model input_tokens output_tokens =
     (let (i, out) = dict_get pricing model (25 / 10, 10)
      in (of_int input_tokens * i + of_int output_tokens * out) / 1000000)"

record cost_record =
  c_tenant :: string
  c_task :: string
  c_provider :: string
  c_model :: string
  c_input :: int
  c_output :: int
  c_cost :: py_float
  c_time :: py_float
  c_step :: string

record file_cost =
  fc_path :: string
  fc_lines :: nat
  fc_cost :: py_float
  fc_model :: string
  fc_task :: string
  fc_repo :: string
  fc_pr :: string

definition calculate_line_costs :: "py_float \<Rightarrow> (string, int) dict \<Rightarrow> (string, py_float) dict" where
  "calculate_line_costs total_cost lines_by_file =
     (let total_lines = sum_list (map (\<lambda>(_, lines). max lines 0) lines_by_file)
      in if total_lines \<le> 0 \<or> total_cost \<le> 0 then map (\<lambda>(p, _). (p, 0)) lines_by_file
         else map (\<lambda>(p, lines). (p, py_round 6 (total_cost * of_int (max lines 0) / of_int total_lines)))
                lines_by_file)"

record tracker =
  records :: "cost_record list"
  daily :: "(string, py_float) dict"
  monthly :: "(string, py_float) dict"
  file_costs :: "file_cost list"
  redis :: "(string, int) dict"

text \<open>
  \<open>redis\<close> holds the counters of the Redis server, in units of 1/10000 USD; \<open>redis_ok\<close> says
  whether the two increments of a call reached it. \<open>day_key\<close> and \<open>month_key\<close> are what
  \<open>_day_key\<close> and \<open>_month_key\<close> gave for the tenant at the time of the call.
\<close>

definition record_cost ::
  "string \<Rightarrow> string \<Rightarrow> bool \<Rightarrow> py_float \<Rightarrow> string \<Rightarrow> string \<Rightarrow> string \<Rightarrow> string \<Rightarrow> int \<Rightarrow> int \<Rightarrow> string
   \<Rightarrow> tracker \<Rightarrow> cost_record \<times> tracker" where
  "record_cost day_key month_key redis_ok now tenant task provider model inp out step tr =
     (let i = max inp 0; out' = max out 0;
          cost = calculate_cost model i out';
          r = \<lparr>c_tenant = tenant, c_task = task, c_provider = provider, c_model = model,
               c_input = i, c_output = out', c_cost = cost, c_time = now, c_step = step\<rparr>;
          cost_int = py_trunc (cost * 10000)
      in (r, tr\<lparr>records := records tr @ [r],
              redis := (if redis_ok then add_to month_key cost_int (add_to day_key cost_int (redis tr))
                        else redis tr),
              daily := add_to day_key cost (daily tr),
              monthly := add_to month_key cost (monthly tr)\<rparr>))"

definition get_tenant_cost :: "string \<Rightarrow> string \<Rightarrow> bool \<Rightarrow> tracker \<Rightarrow> py_float \<times> py_float" where
  "get_tenant_cost day_key month_key redis_ok tr =
     (let d = dict_get (daily tr) day_key 0; m = dict_get (monthly tr) month_key 0;
          d' = (if redis_ok then max d (of_int (dict_get (redis tr) day_key 0) / 10000) else d);
          m' = (if redis_ok then max m (of_int (dict_get (redis tr) month_key 0) / 10000) else m)
      in (py_round 6 d', py_round 6 m'))"

definition get_task_cost :: "tracker \<Rightarrow> string \<Rightarrow> py_float" where
  "get_task_cost tr task =
     py_round 6 (sum_list (map c_cost (filter (\<lambda>r. c_task r = task) (records tr))))"

text \<open>
  \<open>len(content.splitlines())\<close>: the line boundaries below code point 256 are 10 to 13, 28 to 30
  and 133, and a carriage return with a line feed after it is one.
\<close>

definition line_end :: "char \<Rightarrow> bool" where
  "line_end c = (let n = (of_char c :: nat) in 10 \<le> n \<and> n \<le> 13 \<or> 28 \<le> n \<and> n \<le> 30 \<or> n = 133)"

fun count_lines :: "string \<Rightarrow> nat" where
  "count_lines [] = 0"
| "count_lines [c] = 1"
| "count_lines (c # d # s) =
     (if line_end c \<and> \<not> (c = CHR 0x0D \<and> d = CHR 0x0A) then Suc (count_lines (d # s))
      else count_lines (d # s))"

definition attribute_pr_cost ::
  "string \<Rightarrow> int \<Rightarrow> string \<Rightarrow> (string \<times> string) list \<Rightarrow> string \<Rightarrow> tracker \<Rightarrow> file_cost list \<times> tracker" where
  "attribute_pr_cost repo pr task files model tr =
     (if files = [] then ([], tr)
      else
        (let lines_by_file = foldl (\<lambda>d (p, content). dict_set p (int (count_lines content)) d) [] files;
             costs = calculate_line_costs (get_task_cost tr task) lines_by_file;
             attributed = map (\<lambda>(p, content).
               \<lparr>fc_path = p, fc_lines = count_lines content, fc_cost = dict_get costs p 0,
                fc_model = model, fc_task = task, fc_repo = repo, fc_pr = show_int pr\<rparr>) files
         in (attributed, tr\<lparr>file_costs := file_costs tr @ attributed\<rparr>)))"

definition get_pr_cost :: "tracker \<Rightarrow> string \<Rightarrow> int \<Rightarrow> py_float \<times> (string, py_float) dict" where
  "get_pr_cost tr repo pr =
     (let recs = filter (\<lambda>f. fc_repo f = repo \<and> fc_pr f = show_int pr) (file_costs tr);
          modules = foldl (\<lambda>d f. dict_set (fc_path f) (py_round 6 (fc_cost f)) d) [] recs
      in (py_round 6 (sum_list (map snd modules)), modules))"

definition round_values :: "(string, py_float) dict \<Rightarrow> (string, py_float) dict" where
  "round_values d = map (\<lambda>(k, v). (k, py_round 6 v)) d"

definition module_cost_stats :: "tracker \<Rightarrow> string \<Rightarrow> (string, py_float) dict \<times> py_float" where
  "module_cost_stats tr repo =
     (let recs = (if repo = [] then file_costs tr else filter (\<lambda>f. fc_repo f = repo) (file_costs tr));
          modules = group_sum fc_path fc_cost recs
      in (round_values modules, py_round 6 (sum_list (map snd modules))))"

record breakdown =
  bd_total :: py_float
  by_provider :: "(string, py_float) dict"
  by_model :: "(string, py_float) dict"
  by_step :: "(string, py_float) dict"

definition step_label :: "cost_record \<Rightarrow> string" where
  "step_label r = (if c_step r = [] then ''unknown'' else c_step r)"

definition get_breakdown :: "tracker \<Rightarrow> string \<Rightarrow> breakdown" where
  "get_breakdown tr tenant =
     (let recs = (if tenant = [] then records tr else filter (\<lambda>r. c_tenant r = tenant) (records tr))
      in if recs = [] then \<lparr>bd_total = 0, by_provider = [], by_model = [], by_step = []\<rparr>
         else \<lparr>bd_total = py_round 6 (sum_list (map c_cost recs)),
               by_provider = round_values (group_sum c_provider c_cost recs),
               by_model = round_values (group_sum c_model c_cost recs),
               by_step = round_values (group_sum step_label c_cost recs)\<rparr>)"

text \<open>
  Attribution of a cost to files: for a positive cost and at least one line, every file gets
  its share by lines up to the rounding to six places (a file without lines gets nothing), so the
  attributed costs add up to the total only up to half a millionth per file.
\<close>

theorem line_costs_shares:
  assumes "0 < whole" and "0 < sum_list (map (\<lambda>(_, lines). max lines 0) files)"
  shows "let n = sum_list (map (\<lambda>(_, lines). max lines 0) files);
             costs = calculate_line_costs whole files
         in map fst costs = map fst files \<and>
            list_all2 (\<lambda>(_, lines) (_, c). \<bar>c - whole * of_int (max lines 0) / of_int n\<bar> \<le> 1 / 2000000 \<and>
                         (lines \<le> 0 \<longrightarrow> c = 0)) files costs \<and>
            \<bar>sum_list (map snd costs) - whole\<bar> \<le> of_nat (length files) / 2000000"
proof -
  define n where "n = sum_list (map (\<lambda>(_, lines). max lines 0) files)"
  define share where "share = (\<lambda>(_ :: string, lines :: int). whole * of_int (max lines 0) / of_int n)"
  have n: "0 < n" using assms(2) by (simp add: n_def)
  have costs: "calculate_line_costs whole files = map (\<lambda>f. (fst f, py_round 6 (share f))) files"
    using assms n by (auto simp: calculate_line_costs_def n_def [symmetric] share_def Let_def)
  have "sum_list (map share files) = whole * of_int (sum_list (map (\<lambda>(_, lines). max lines 0) files)) / of_int n"
    by (induction files) (auto simp: share_def distrib_left add_divide_distrib)
  then have whole: "sum_list (map share files) = whole" using n by (simp add: n_def [symmetric])
  have "list_all2 (\<lambda>(_, lines) (_, c). \<bar>c - whole * of_int (max lines 0) / of_int n\<bar> \<le> 1 / 2000000 \<and>
                         (lines \<le> 0 \<longrightarrow> c = 0)) files (calculate_line_costs whole files)"
    unfolding costs list_all2_map2
    using py_round_error [of 6 "share _"]
    by (auto simp: list_all2_same share_def max_def)
  moreover have "\<bar>sum_list (map snd (calculate_line_costs whole files)) - whole\<bar> \<le> of_nat (length files) / 2000000"
    using sum_round_error [of 6 share files] unfolding costs whole by (simp add: o_def)
  ultimately show ?thesis
    by (simp add: Let_def n_def [symmetric] costs o_def)
qed

text \<open>The documented equality (the weights always sum back to the total) fails for three files of one line.\<close>

lemma line_costs_do_not_sum_back:
  "sum_list (map snd (calculate_line_costs 1 [(''a'', 1), (''b'', 1), (''c'', 1)])) = 999999 / 1000000"
  by code_simp

theorem line_costs_shares_witness:
  "\<bar>sum_list (map snd (calculate_line_costs 1 [(''a'', 1), (''b'', 1), (''c'', 1)])) - 1\<bar> \<le> 3 / 2000000"
  using line_costs_shares [of 1 "[(''a'', 1), (''b'', 1), (''c'', 1)]"] by (simp add: Let_def)

subsection \<open>Counters\<close>

record cost_call =
  k_day :: string
  k_month :: string
  k_redis :: bool
  k_time :: py_float
  k_tenant :: string
  k_task :: string
  k_provider :: string
  k_model :: string
  k_input :: int
  k_output :: int
  k_step :: string

definition apply_call :: "cost_call \<Rightarrow> tracker \<Rightarrow> tracker" where
  "apply_call k tr =
     snd (record_cost (k_day k) (k_month k) (k_redis k) (k_time k) (k_tenant k) (k_task k)
            (k_provider k) (k_model k) (k_input k) (k_output k) (k_step k) tr)"

definition call_cost :: "cost_call \<Rightarrow> py_float" where
  "call_cost k = calculate_cost (k_model k) (max (k_input k) 0) (max (k_output k) 0)"

definition new_tracker :: tracker where
  "new_tracker = \<lparr>records = [], daily = [], monthly = [], file_costs = [], redis = []\<rparr>"

lemma calculate_cost_nonneg: "0 \<le> i \<Longrightarrow> 0 \<le> ot \<Longrightarrow> 0 \<le> calculate_cost m i ot"
proof -
  have "0 \<le> fst (dict_get pricing m (25 / 10, 10)) \<and> 0 \<le> snd (dict_get pricing m (25 / 10, 10))"
    by (auto simp: pricing_def dict_get_def)
  then show "0 \<le> i \<Longrightarrow> 0 \<le> ot \<Longrightarrow> ?thesis"
    by (cases "dict_get pricing m (25 / 10, 10)") (simp add: calculate_cost_def)
qed

lemma call_cost_nonneg: "0 \<le> call_cost k"
  by (simp add: call_cost_def calculate_cost_nonneg)

lemma dict_get_add_to: "dict_get (add_to k v d) k' 0 = (if k = k' then dict_get d k 0 + v else dict_get d k' 0)"
  by (simp add: add_to_def dict_get_def)

lemma apply_call_month:
  "dict_get (monthly (apply_call k tr)) m 0 =
     dict_get (monthly tr) m 0 + (if k_month k = m then call_cost k else 0)"
  by (simp add: apply_call_def record_cost_def Let_def dict_get_add_to call_cost_def)

lemma apply_call_redis:
  "k_redis k \<Longrightarrow> k_day k \<noteq> m \<Longrightarrow>
   dict_get (redis (apply_call k tr)) m 0 =
     dict_get (redis tr) m 0 + (if k_month k = m then \<lfloor>call_cost k * 10000\<rfloor> else 0)"
  using call_cost_nonneg [of k]
  by (auto simp: apply_call_def record_cost_def Let_def dict_get_add_to call_cost_def py_trunc_def)

lemma month_total:
  "dict_get (monthly (fold apply_call ks tr)) m 0 =
     dict_get (monthly tr) m 0 + sum_list (map call_cost (filter (\<lambda>k. k_month k = m) ks))"
  by (induction ks arbitrary: tr) (simp_all add: apply_call_month)

lemma redis_total:
  "\<forall>k \<in> set ks. k_redis k \<and> k_day k \<noteq> m \<Longrightarrow>
   dict_get (redis (fold apply_call ks tr)) m 0 =
     dict_get (redis tr) m 0 + sum_list (map (\<lambda>k. \<lfloor>call_cost k * 10000\<rfloor>) (filter (\<lambda>k. k_month k = m) ks))"
  by (induction ks arbitrary: tr) (simp_all add: apply_call_redis)

lemma floor_sum_bounds:
  "of_int (sum_list (map (\<lambda>k. \<lfloor>f k * 10000\<rfloor>) ks)) \<le> sum_list (map f ks) * (10000 :: rat) \<and>
   sum_list (map f ks) * 10000 \<le> of_int (sum_list (map (\<lambda>k. \<lfloor>f k * 10000\<rfloor>) ks)) + of_nat (length ks)"
proof (induction ks)
  case (Cons k ks)
  have "of_int \<lfloor>f k * 10000\<rfloor> \<le> f k * 10000" "f k * 10000 \<le> of_int \<lfloor>f k * 10000\<rfloor> + 1" by linarith+
  with Cons show ?case by (simp add: algebra_simps) linarith
qed simp

text \<open>
  The two monthly counters of a tenant after any sequence of calls that all reach Redis: the
  local one is the exact sum of the costs of the month, the one in Redis never exceeds it and
  falls behind by at most 1/10000 USD per call; when every call of the month costs less than
  that, the counter in Redis stays at zero, whatever their number.
\<close>

theorem month_counters:
  assumes "\<forall>k \<in> set ks. k_redis k \<and> k_day k \<noteq> m"
  shows "let tr = fold apply_call ks new_tracker; cs = filter (\<lambda>k. k_month k = m) ks;
             whole = sum_list (map call_cost cs); counter = dict_get (redis tr) m 0
         in dict_get (monthly tr) m 0 = whole \<and>
            of_int counter / 10000 \<le> whole \<and> whole \<le> of_int counter / 10000 + of_nat (length cs) / 10000 \<and>
            ((\<forall>k \<in> set cs. call_cost k < 1 / 10000) \<longrightarrow> counter = 0)"
proof -
  define cs where "cs = filter (\<lambda>k. k_month k = m) ks"
  have base: "dict_get (monthly new_tracker) m 0 = 0" "dict_get (redis new_tracker) m 0 = 0"
    by (simp_all add: new_tracker_def dict_get_def)
  have mon: "dict_get (monthly (fold apply_call ks new_tracker)) m 0 = sum_list (map call_cost cs)"
    by (simp add: month_total cs_def base)
  have red: "dict_get (redis (fold apply_call ks new_tracker)) m 0 =
      sum_list (map (\<lambda>k. \<lfloor>call_cost k * 10000\<rfloor>) cs)"
    using redis_total [OF assms] by (simp add: cs_def base)
  have "sum_list (map (\<lambda>k. \<lfloor>call_cost k * 10000\<rfloor>) cs) = 0" if "\<forall>k \<in> set cs. call_cost k < 1 / 10000"
  proof -
    have "\<lfloor>call_cost k * 10000\<rfloor> = 0" if "k \<in> set cs" for k
      using \<open>\<forall>k \<in> set cs. _\<close> that call_cost_nonneg [of k] by (auto simp: floor_eq_iff)
    then show ?thesis by (induction cs) auto
  qed
  then show ?thesis
    using floor_sum_bounds [of call_cost cs] unfolding Let_def cs_def [symmetric] mon red
    by (auto simp: field_simps)
qed

definition tiny_call :: cost_call where
  "tiny_call =
     \<lparr>k_day = ''cost:d:t:20260101'', k_month = ''cost:m:t:202601'', k_redis = True, k_time = 0,
      k_tenant = ''t'', k_task = [], k_provider = ''openai'', k_model = ''gpt-4o-mini'',
      k_input = 600, k_output = 0, k_step = []\<rparr>"

lemma tiny_call_cost: "call_cost tiny_call = 9 / 100000"
  by code_simp

theorem month_counters_witness:
  "dict_get (redis (fold apply_call (replicate 3 tiny_call) new_tracker)) ''cost:m:t:202601'' 0 = 0 \<and>
   dict_get (monthly (fold apply_call (replicate 3 tiny_call) new_tracker)) ''cost:m:t:202601'' 0 = 27 / 100000"
proof -
  have "\<forall>k \<in> set (replicate 3 tiny_call). k_redis k \<and> k_day k \<noteq> ''cost:m:t:202601''"
    by (simp add: tiny_call_def)
  moreover have "filter (\<lambda>k. k_month k = ''cost:m:t:202601'') (replicate 3 tiny_call) = replicate 3 tiny_call"
    by (simp add: tiny_call_def)
  ultimately show ?thesis
    using month_counters [of "replicate 3 tiny_call" "''cost:m:t:202601''"] tiny_call_cost
    by (simp add: Let_def numeral_3_eq_3)
qed

lemma round_values_get: "dict_get (round_values d) k 0 = py_round 6 (dict_get d k 0)"
  by (induction d) (auto simp: round_values_def dict_get_def)

lemma sum_round_values:
  "\<bar>sum_list (map snd (round_values d)) - sum_list (map snd d)\<bar> \<le> of_nat (length d) / 2000000"
  using sum_round_error [of 6 snd d] by (simp add: round_values_def o_def split_def)

lemma grouped_total:
  "\<bar>sum_list (map snd (round_values (group_sum key c_cost recs))) - py_round 6 (sum_list (map c_cost recs))\<bar>
     \<le> of_nat (Suc (length (group_sum key c_cost recs))) / 2000000"
proof -
  have "\<bar>py_round 6 (sum_list (map c_cost recs)) - sum_list (map c_cost recs)\<bar> \<le> 1 / 2000000"
    using py_round_error [of 6 "sum_list (map c_cost recs)"] by simp
  with sum_round_values [of "group_sum key c_cost recs"] show ?thesis
    unfolding group_sum_total of_nat_Suc add_divide_distrib by linarith
qed

text \<open>
  The cost breakdown of a tenant: in each of the three groupings every key has the rounded
  sum of the costs of its records, and the groups add up to the reported total up to the rounding
  of the groups and of the total.
\<close>

theorem breakdown_adds_up:
  "let recs = (if tenant = [] then records tr else filter (\<lambda>r. c_tenant r = tenant) (records tr));
       bd = get_breakdown tr tenant
   in \<forall>(key, d) \<in> {(c_provider, by_provider bd), (c_model, by_model bd), (step_label, by_step bd)}.
        (\<forall>k. dict_get d k 0 = py_round 6 (sum_list (map c_cost (filter (\<lambda>r. key r = k) recs)))) \<and>
        fst ` set d = key ` set recs \<and>
        \<bar>sum_list (map snd d) - bd_total bd\<bar> \<le> of_nat (Suc (length d)) / 2000000"
proof -
  define recs where "recs = (if tenant = [] then records tr else filter (\<lambda>r. c_tenant r = tenant) (records tr))"
  have group: "dict_get (round_values (group_sum key c_cost recs)) k 0 =
      py_round 6 (sum_list (map c_cost (filter (\<lambda>r. key r = k) recs)))" for key :: "cost_record \<Rightarrow> string" and k
    by (simp add: round_values_get group_sum_get)
  have keys: "fst ` set (round_values (group_sum key c_cost recs)) = key ` set recs" for key :: "cost_record \<Rightarrow> string"
    using group_sum_keys [of key c_cost recs] by (simp add: round_values_def image_image split_def)
  have len: "length (round_values d) = length d" for d by (simp add: round_values_def)
  show ?thesis
  proof (cases "recs = []")
    case True
    then have "get_breakdown tr tenant = \<lparr>bd_total = 0, by_provider = [], by_model = [], by_step = []\<rparr>"
      by (simp add: get_breakdown_def recs_def [symmetric] Let_def)
    with True show ?thesis by (simp add: Let_def recs_def [symmetric] dict_get_def)
  next
    case False
    then have bd: "get_breakdown tr tenant =
        \<lparr>bd_total = py_round 6 (sum_list (map c_cost recs)),
         by_provider = round_values (group_sum c_provider c_cost recs),
         by_model = round_values (group_sum c_model c_cost recs),
         by_step = round_values (group_sum step_label c_cost recs)\<rparr>"
      by (simp add: get_breakdown_def recs_def [symmetric] Let_def)
    show ?thesis
      unfolding Let_def recs_def [symmetric] bd
      using grouped_total [of c_provider recs] grouped_total [of c_model recs] grouped_total [of step_label recs]
      by (simp add: group keys len)
  qed
qed

theorem breakdown_adds_up_witness:
  "let tr = fold apply_call [tiny_call, tiny_call] new_tracker
   in dict_get (by_provider (get_breakdown tr [])) ''openai'' 0 =
        py_round 6 (sum_list (map c_cost (filter (\<lambda>r. c_provider r = ''openai'') (records tr))))"
  using breakdown_adds_up [of "[]" "fold apply_call [tiny_call, tiny_call] new_tracker"]
  by (simp add: Let_def)

section \<open>Contribution ledger\<close>

record ledger_entry =
  l_id :: string
  l_time :: py_float
  l_node :: string
  l_task :: string
  l_subtask :: string
  l_kind :: string
  l_provider :: string
  l_model :: string
  l_input :: int
  l_output :: int
  l_total :: int
  l_cost :: py_float
  l_peer :: string
  l_artifact :: string
  l_meta :: "(string, json) dict"

text \<open>
  A line of the JSONL file is an entry, blank, not JSON, or a JSON object whose keys are not
  those of an entry. \<open>l_file\<close> is the contents of \<open>path\<close>, nothing when no file is there.
\<close>

datatype ledger_line = EntryLine ledger_entry | BlankLine | CorruptLine | WrongFields

record ledger =
  has_path :: bool
  max_entries :: nat
  l_entries :: "ledger_entry list"
  l_file :: "ledger_line list option"

definition new_ledger :: "bool \<Rightarrow> int \<Rightarrow> ledger_line list option \<Rightarrow> ledger" where
  "new_ledger path m f = \<lparr>has_path = path, max_entries = nat (max 1 m), l_entries = [], l_file = f\<rparr>"

definition append_to_file :: "bool \<Rightarrow> ledger_entry \<Rightarrow> ledger \<Rightarrow> ledger" where
  "append_to_file write_ok e l =
     (if \<not> has_path l \<or> \<not> write_ok then l
      else l\<lparr>l_file := Some ((case l_file l of None \<Rightarrow> [] | Some ls \<Rightarrow> ls) @ [EntryLine e])\<rparr>)"

definition make_entry :: "ledger_entry \<Rightarrow> ledger_entry" where
  "make_entry e =
     e\<lparr>l_input := max (l_input e) 0, l_output := max (l_output e) 0,
       l_total := max (l_input e) 0 + max (l_output e) 0, l_cost := max (l_cost e) 0\<rparr>"

text \<open>The argument of \<open>record_entry\<close> carries the arguments of \<open>record\<close>, the new id and the time.\<close>

definition record_entry :: "bool \<Rightarrow> ledger_entry \<Rightarrow> ledger \<Rightarrow> ledger" where
  "record_entry write_ok args l =
     (let entry = make_entry args;
          es = l_entries l @ [entry];
          es' = (if max_entries l < length es then keep_last (max_entries l) es else es)
      in append_to_file write_ok entry (l\<lparr>l_entries := es'\<rparr>))"

record node_totals =
  n_entries :: int
  n_input :: int
  n_output :: int
  n_total :: int
  n_cost :: py_float
  n_delegated :: int

definition zero_totals :: node_totals where
  "zero_totals = \<lparr>n_entries = 0, n_input = 0, n_output = 0, n_total = 0, n_cost = 0, n_delegated = 0\<rparr>"

definition add_entry :: "ledger_entry \<Rightarrow> node_totals \<Rightarrow> node_totals" where
  "add_entry e a =
     \<lparr>n_entries = n_entries a + 1, n_input = n_input a + l_input e, n_output = n_output a + l_output e,
      n_total = n_total a + l_total e, n_cost = n_cost a + l_cost e,
      n_delegated = n_delegated a + (if l_peer e \<noteq> [] then 1 else 0)\<rparr>"

definition node_groups :: "ledger_entry list \<Rightarrow> (string, node_totals) dict" where
  "node_groups es =
     foldl (\<lambda>d e. dict_set (l_node e) (add_entry e (dict_get d (l_node e) zero_totals)) d) [] es"

definition per_node :: "ledger \<Rightarrow> string \<Rightarrow> (string, node_totals) dict \<times> py_float \<times> int" where
  "per_node l task_id =
     (let es = filter (\<lambda>e. task_id = [] \<or> l_task e = task_id) (l_entries l)
      in (map (\<lambda>(node, a). (node, a\<lparr>n_cost := py_round 6 (n_cost a)\<rparr>)) (sort_key fst (node_groups es)),
          py_round 6 (sum_list (map l_cost es)), sum_list (map l_total es)))"

definition entries_for :: "ledger \<Rightarrow> string \<Rightarrow> ledger_entry list" where
  "entries_for l task_id = filter (\<lambda>e. l_task e = task_id) (l_entries l)"

fun load_lines :: "ledger_line list \<Rightarrow> ledger_entry list \<Rightarrow> ledger_entry list result" where
  "load_lines [] es = Inr es"
| "load_lines (EntryLine e # ls) es = load_lines ls (es @ [e])"
| "load_lines (BlankLine # ls) es = load_lines ls es"
| "load_lines (CorruptLine # ls) es = load_lines ls es"
| "load_lines (WrongFields # ls) es = Inl TypeError"

definition load_ledger :: "ledger \<Rightarrow> (nat \<times> ledger) result" where
  "load_ledger l =
     (case (if has_path l then l_file l else None) of
        None \<Rightarrow> Inr (0, l\<lparr>l_entries := []\<rparr>)
      | Some ls \<Rightarrow> map_res (\<lambda>es. (length es, l\<lparr>l_entries := es\<rparr>)) (load_lines ls []))"

lemma record_entry_log:
  "l_entries (record_entry w args l) = keep_last (max_entries l) (l_entries l @ [make_entry args])"
  "max_entries (record_entry w args l) = max_entries l"
  by (simp_all add: record_entry_def append_to_file_def Let_def not_less)

interpretation ledger_log: bounded_log "\<lambda>(w, args). record_entry w args"
  "\<lambda>(w, args). make_entry args" l_entries max_entries
  by unfold_locales (auto simp: record_entry_log)

lemma record_entry_file:
  "has_path (record_entry w args l) = has_path l"
  "l_file (record_entry w args l) =
     (if has_path l \<and> w then Some ((case l_file l of None \<Rightarrow> [] | Some ls \<Rightarrow> ls) @ [EntryLine (make_entry args)])
      else l_file l)"
  by (simp_all add: record_entry_def append_to_file_def Let_def)

lemma fold_record_path: "has_path (fold (\<lambda>(w, args). record_entry w args) calls l) = has_path l"
proof (induction calls arbitrary: l)
  case (Cons c calls)
  then show ?case by (cases c) (simp add: record_entry_file)
qed simp

lemma fold_record_file:
  assumes "has_path l"
  shows "(case l_file (fold (\<lambda>(w, args). record_entry w args) calls l) of None \<Rightarrow> [] | Some ls \<Rightarrow> ls) =
     (case l_file l of None \<Rightarrow> [] | Some ls \<Rightarrow> ls) @
       map (\<lambda>(w, args). EntryLine (make_entry args)) (filter fst calls)"
  using assms
proof (induction calls arbitrary: l)
  case (Cons c calls)
  obtain w args where c: "c = (w, args)" by (cases c)
  have "has_path (record_entry w args l)" using Cons.prems by (simp add: record_entry_file)
  from Cons.IH [OF this] Cons.prems show ?case by (auto simp: c record_entry_file)
qed simp

lemma load_lines_entries: "load_lines (map EntryLine es) acc = Inr (acc @ es)"
  by (induction es arbitrary: acc) simp_all

text \<open>
  The ledger: after any sequence of calls of \<open>record\<close> the memory holds exactly the most
  recent entries up to the cap, in order, whether the writes succeed or not, with no negative
  count; the file of a ledger with a path has every entry whose write succeeded, and when it
  started without a file and all writes succeeded, \<open>load\<close> gives back the complete trail.
\<close>

theorem ledger_trail:
  "let l = fold (\<lambda>(w, args). record_entry w args) calls (new_ledger path m None);
       es = map (\<lambda>(w, args). make_entry args) calls
   in l_entries l = keep_last (nat (max 1 m)) es \<and>
      (\<forall>e \<in> set (l_entries l). 0 \<le> l_input e \<and> 0 \<le> l_output e \<and> 0 \<le> l_cost e \<and> l_total e = l_input e + l_output e) \<and>
      (path \<and> calls \<noteq> [] \<and> list_all fst calls \<longrightarrow>
         load_ledger l = Inr (length es, l\<lparr>l_entries := es\<rparr>))"
proof -
  let ?new = "new_ledger path m None"
  let ?l = "fold (\<lambda>(w, args). record_entry w args) calls ?new"
  let ?es = "map (\<lambda>(w, args). make_entry args) calls"
  have mem: "l_entries ?l = keep_last (nat (max 1 m)) ?es"
    using ledger_log.fold_log [of ?new calls] by (simp add: new_ledger_def)
  have "0 \<le> l_input e \<and> 0 \<le> l_output e \<and> 0 \<le> l_cost e \<and> l_total e = l_input e + l_output e"
    if "e \<in> set (l_entries ?l)" for e
  proof -
    have "e \<in> set ?es" using that set_keep_last [of "nat (max 1 m)" ?es] unfolding mem by blast
    then obtain a where "e = make_entry a" by auto
    then show ?thesis by (simp add: make_entry_def)
  qed
  moreover have "load_ledger ?l = Inr (length ?es, ?l\<lparr>l_entries := ?es\<rparr>)"
    if "path" "calls \<noteq> []" "list_all fst calls"
  proof -
    have "filter fst calls = calls" using that(3) by (simp add: list_all_iff)
    then have "(case l_file ?l of None \<Rightarrow> [] | Some ls \<Rightarrow> ls) = map EntryLine ?es"
      using fold_record_file [of ?new calls] that(1)
      by (simp add: new_ledger_def o_def split_def)
    moreover have "?es \<noteq> []" using that(2) by simp
    ultimately have "l_file ?l = Some (map EntryLine ?es)" by (auto split: option.splits)
    moreover have "has_path ?l" using that(1) by (simp add: fold_record_path new_ledger_def)
    ultimately show ?thesis
      unfolding load_ledger_def using load_lines_entries [of ?es "[]"] by simp
  qed
  ultimately show ?thesis using mem by (simp add: Let_def)
qed

definition sample_entry :: "string \<Rightarrow> int \<Rightarrow> ledger_entry" where
  "sample_entry node tokens =
     \<lparr>l_id = ''e'', l_time = 0, l_node = node, l_task = ''t'', l_subtask = [], l_kind = ''solution'',
      l_provider = [], l_model = [], l_input = tokens, l_output = 1, l_total = 0, l_cost = 1,
      l_peer = [], l_artifact = [], l_meta = []\<rparr>"

theorem ledger_trail_witness:
  "\<exists>l'. load_ledger (fold (\<lambda>(w, args). record_entry w args)
      [(True, sample_entry ''n'' 5), (True, sample_entry ''n'' (- 5))] (new_ledger True 1 None)) = Inr (2, l')"
  using ledger_trail [where calls = "[(True, sample_entry ''n'' 5), (True, sample_entry ''n'' (- 5))]"
      and path = True and m = 1]
  by (simp add: Let_def)

text \<open>After a reload the memory is not bounded by the cap.\<close>

lemma load_exceeds_cap:
  assumes "has_path l" and "l_file l = Some (map EntryLine es)" and "max_entries l < length es"
  shows "\<exists>n l'. load_ledger l = Inr (n, l') \<and> max_entries l' < length (l_entries l')"
  using assms by (simp add: load_ledger_def load_lines_entries)

lemma node_groups_snoc:
  "node_groups (es @ [e]) =
     dict_set (l_node e) (add_entry e (dict_get (node_groups es) (l_node e) zero_totals)) (node_groups es)"
  by (simp add: node_groups_def)

lemma node_groups_get:
  "dict_get (node_groups es) k zero_totals =
     (let own = filter (\<lambda>e. l_node e = k) es
      in \<lparr>n_entries = int (length own), n_input = sum_list (map l_input own),
          n_output = sum_list (map l_output own), n_total = sum_list (map l_total own),
          n_cost = sum_list (map l_cost own), n_delegated = int (length (filter (\<lambda>e. l_peer e \<noteq> []) own))\<rparr>)"
proof (induction es rule: rev_induct)
  case Nil
  then show ?case by (simp add: node_groups_def dict_get_def zero_totals_def)
next
  case (snoc e es)
  then show ?case
    by (auto simp: node_groups_snoc Let_def dict_get_def add_entry_def)
qed

lemma wf_node_groups: "wf_dict (node_groups es) \<and> fst ` set (node_groups es) = l_node ` set es"
proof (induction es rule: rev_induct)
  case Nil
  then show ?case by (simp add: node_groups_def)
next
  case (snoc e es)
  then show ?case by (simp add: node_groups_snoc fst_set_dict_set)
qed

lemma sum_list_node_groups:
  "sum_list (map (\<lambda>(_, a). n_total a) (node_groups es)) = sum_list (map l_total es)"
proof (induction es rule: rev_induct)
  case Nil
  then show ?case by (simp add: node_groups_def)
next
  case (snoc e es)
  have step: "sum_list (map (\<lambda>(_, a). n_total a) (dict_set k (add_entry e (dict_get d k zero_totals)) d)) =
      sum_list (map (\<lambda>(_, a). n_total a) d) + l_total e" for k and d :: "(string, node_totals) dict"
    by (induction d) (auto simp: dict_get_def add_entry_def zero_totals_def)
  show ?case by (simp add: node_groups_snoc step snoc)
qed

text \<open>
  The aggregation by node: every node of the selected entries has one row, sorted by name,
  with the number of its entries, the sums of their tokens, the rounded sum of their costs and
  the number of delegated ones, and the tokens of the rows add up to the reported total.
\<close>

theorem per_node_sums:
  "let es = filter (\<lambda>e. task_id = [] \<or> l_task e = task_id) (l_entries l);
       (rows, cost, tokens) = per_node l task_id
   in map fst rows = sorted_list_of_set (l_node ` set es) \<and>
      sum_list (map (\<lambda>(_, a). n_total a) rows) = tokens \<and> tokens = sum_list (map l_total es) \<and>
      cost = py_round 6 (sum_list (map l_cost es)) \<and>
      (\<forall>(k, a) \<in> set rows.
         let own = filter (\<lambda>e. l_node e = k) es
         in a = \<lparr>n_entries = int (length own), n_input = sum_list (map l_input own),
              n_output = sum_list (map l_output own), n_total = sum_list (map l_total own),
              n_cost = py_round 6 (sum_list (map l_cost own)),
              n_delegated = int (length (filter (\<lambda>e. l_peer e \<noteq> []) own))\<rparr>)"
proof -
  define es where "es = filter (\<lambda>e. task_id = [] \<or> l_task e = task_id) (l_entries l)"
  define rows where "rows = map (\<lambda>(node, a). (node, a\<lparr>n_cost := py_round 6 (n_cost a)\<rparr>)) (sort_key fst (node_groups es))"
  have run: "per_node l task_id = (rows, py_round 6 (sum_list (map l_cost es)), sum_list (map l_total es))"
    by (simp add: per_node_def es_def rows_def Let_def)
  have wf: "wf_dict (node_groups es)" "fst ` set (node_groups es) = l_node ` set es"
    using wf_node_groups by blast+
  have fst_rows: "map fst rows = map fst (sort_key fst (node_groups es))"
    by (simp add: rows_def split_def)
  have "map fst rows = sorted_list_of_set (l_node ` set es)"
  proof (rule sorted_distinct_set_unique)
    have "mset (map fst (sort_key fst (node_groups es))) = mset (map fst (node_groups es))" by simp
    then show "distinct (map fst rows)"
      using wf(1) unfolding fst_rows wf_dict_def by (metis mset_eq_imp_distinct_iff)
    show "set (map fst rows) = set (sorted_list_of_set (l_node ` set es))"
      using wf(2) by (simp add: fst_rows)
  qed (simp_all add: fst_rows)
  moreover have "sum_list (map (\<lambda>(_, a). n_total a) rows) = sum_list (map l_total es)"
  proof -
    have "map (\<lambda>(_, a). n_total a) rows = map (\<lambda>(_, a). n_total a) (sort_key fst (node_groups es))"
      by (simp add: rows_def split_def)
    also have "sum_list \<dots> = sum_list (map (\<lambda>(_, a). n_total a) (node_groups es))"
      by (metis mset_map mset_sort sum_mset_sum_list)
    finally show ?thesis by (simp add: sum_list_node_groups)
  qed
  moreover have "\<forall>(k, a) \<in> set rows.
         let own = filter (\<lambda>e. l_node e = k) es
         in a = \<lparr>n_entries = int (length own), n_input = sum_list (map l_input own),
              n_output = sum_list (map l_output own), n_total = sum_list (map l_total own),
              n_cost = py_round 6 (sum_list (map l_cost own)),
              n_delegated = int (length (filter (\<lambda>e. l_peer e \<noteq> []) own))\<rparr>"
  proof clarify
    fix k a assume "(k, a) \<in> set rows"
    then obtain a0 where "(k, a0) \<in> set (node_groups es)" and a: "a = a0\<lparr>n_cost := py_round 6 (n_cost a0)\<rparr>"
      by (auto simp: rows_def)
    then have "dict_get (node_groups es) k zero_totals = a0"
      using wf(1) by (simp add: dict_get_def wf_dict_def)
    then show "let own = filter (\<lambda>e. l_node e = k) es
         in a = \<lparr>n_entries = int (length own), n_input = sum_list (map l_input own),
              n_output = sum_list (map l_output own), n_total = sum_list (map l_total own),
              n_cost = py_round 6 (sum_list (map l_cost own)),
              n_delegated = int (length (filter (\<lambda>e. l_peer e \<noteq> []) own))\<rparr>"
      unfolding a by (auto simp: node_groups_get Let_def)
  qed
  ultimately show ?thesis unfolding run es_def [symmetric] by (simp add: Let_def)
qed

theorem per_node_sums_witness:
  "map fst (fst (per_node ((new_ledger False 5 None)\<lparr>l_entries := [sample_entry ''b'' 5, sample_entry ''a'' 6]\<rparr>) [])) =
     [''a'', ''b'']"
proof -
  let ?l = "(new_ledger False 5 None)\<lparr>l_entries := [sample_entry ''b'' 5, sample_entry ''a'' 6]\<rparr>"
  have "l_node ` set (l_entries ?l) = {''a'', ''b''}" by (auto simp: sample_entry_def)
  moreover have "map fst (fst (per_node ?l [])) = sorted_list_of_set (l_node ` set (l_entries ?l))"
    using per_node_sums [of "[]" ?l] by (cases "per_node ?l []") (simp add: Let_def)
  moreover have "sorted_list_of_set {''a'', ''b''} = [''a'', ''b'']" by code_simp
  ultimately show ?thesis by simp
qed

section \<open>Tenant quotas\<close>

record quota =
  q_tenant :: string
  monthly_budget_usd :: py_float
  max_concurrent_tasks :: int
  max_tasks_per_hour :: int
  max_input_tokens_per_task :: int
  enabled_features :: "string list"

definition default_quota :: "string \<Rightarrow> quota" where
  "default_quota tenant =
     \<lparr>q_tenant = tenant, monthly_budget_usd = 100, max_concurrent_tasks = 5, max_tasks_per_hour = 100,
      max_input_tokens_per_task = 100000, enabled_features = [''basic'']\<rparr>"

record quotas =
  defaults_cache :: "(string, quota) dict"
  active_tasks :: "(string, string set) dict"
  task_starts :: "(string, py_float list) dict"

datatype quota_error = MonthlyBudget | InputTokens | HourlyLimit | ConcurrentLimit

definition get_quota :: "quota option \<Rightarrow> string \<Rightarrow> quotas \<Rightarrow> quota" where
  "get_quota pg_row tenant qs =
     (case pg_row of Some q \<Rightarrow> q | None \<Rightarrow> dict_get (defaults_cache qs) tenant (default_quota tenant))"

definition set_quota :: "string \<Rightarrow> quota \<Rightarrow> quotas \<Rightarrow> quotas" where
  "set_quota tenant q qs = qs\<lparr>defaults_cache := dict_set tenant q (defaults_cache qs)\<rparr>"

definition get_monthly_cost :: "py_float option \<Rightarrow> int option \<Rightarrow> py_float" where
  "get_monthly_cost pg rd =
     (case pg of Some c \<Rightarrow> c | None \<Rightarrow> (case rd of Some v \<Rightarrow> of_int v / 10000 | None \<Rightarrow> 0))"

definition get_hourly_task_count :: "int option \<Rightarrow> py_float \<Rightarrow> string \<Rightarrow> quotas \<Rightarrow> int" where
  "get_hourly_task_count pg now tenant qs =
     (case pg of Some n \<Rightarrow> n
      | None \<Rightarrow> int (length (filter (\<lambda>t. now - 3600 \<le> t) (dict_get (task_starts qs) tenant []))))"

definition get_active_task_count :: "int option \<Rightarrow> string \<Rightarrow> quotas \<Rightarrow> int" where
  "get_active_task_count rd tenant qs =
     (case rd of Some n \<Rightarrow> n | None \<Rightarrow> int (card (dict_get (active_tasks qs) tenant {})))"

record readings =
  pg_quota :: "quota option"
  pg_monthly :: "py_float option"
  redis_monthly :: "int option"
  pg_hourly :: "int option"
  redis_active :: "int option"

definition check_quota ::
  "readings \<Rightarrow> py_float \<Rightarrow> string \<Rightarrow> py_float \<Rightarrow> int \<Rightarrow> quotas \<Rightarrow> quota_error + bool" where
  "check_quota rd now tenant est_cost est_tokens qs =
     (let q = get_quota (pg_quota rd) tenant qs
      in if 0 < est_cost \<and> monthly_budget_usd q < get_monthly_cost (pg_monthly rd) (redis_monthly rd) + est_cost
         then Inl MonthlyBudget
         else if 0 < est_tokens \<and> 0 < max_input_tokens_per_task q \<and> max_input_tokens_per_task q < est_tokens
         then Inl InputTokens
         else if max_tasks_per_hour q \<le> get_hourly_task_count (pg_hourly rd) now tenant qs
         then Inl HourlyLimit
         else if max_concurrent_tasks q \<le> get_active_task_count (redis_active rd) tenant qs
         then Inl ConcurrentLimit
         else Inr True)"

definition track_active_task :: "bool \<Rightarrow> py_float \<Rightarrow> string \<Rightarrow> string \<Rightarrow> quotas \<Rightarrow> quotas" where
  "track_active_task redis_ok now tenant task qs =
     (let starts = filter (\<lambda>t. now - 7200 \<le> t) (dict_get (task_starts qs) tenant [] @ [now]);
          qs' = qs\<lparr>task_starts := dict_set tenant starts (task_starts qs)\<rparr>
      in if redis_ok then qs'
         else qs'\<lparr>active_tasks :=
                dict_set tenant (insert task (dict_get (active_tasks qs') tenant {})) (active_tasks qs')\<rparr>)"

definition untrack_active_task :: "bool \<Rightarrow> string \<Rightarrow> string \<Rightarrow> quotas \<Rightarrow> quotas" where
  "untrack_active_task redis_ok tenant task qs =
     (if redis_ok \<or> \<not> dict_has (active_tasks qs) tenant then qs
      else qs\<lparr>active_tasks :=
             dict_set tenant (dict_get (active_tasks qs) tenant {} - {task}) (active_tasks qs)\<rparr>)"

text \<open>
  A single process without backends: an admitted task is one that passed \<open>check_quota\<close> and is then
  tracked with no other task of the tenant admitted between the two calls; time does not run
  backwards. The first component of the state is the time of the last step.
\<close>

definition no_backends :: readings where
  "no_backends = \<lparr>pg_quota = None, pg_monthly = None, redis_monthly = None, pg_hourly = None, redis_active = None\<rparr>"

definition new_quotas :: quotas where
  "new_quotas = \<lparr>defaults_cache = [], active_tasks = [], task_starts = []\<rparr>"

inductive quota_run :: "py_float \<Rightarrow> quotas \<Rightarrow> bool" where
  start: "quota_run now new_quotas"
| admit: "quota_run t qs \<Longrightarrow> t \<le> now \<Longrightarrow> check_quota no_backends now tenant cost tokens qs = Inr True \<Longrightarrow>
     quota_run now (track_active_task False now tenant task qs)"
| finish: "quota_run t qs \<Longrightarrow> t \<le> now \<Longrightarrow> quota_run now (untrack_active_task False tenant task qs)"

lemma defaults_kept [simp]:
  "defaults_cache (track_active_task r now tenant task qs) = defaults_cache qs"
  "defaults_cache (untrack_active_task r tenant task qs) = defaults_cache qs"
  by (simp_all add: track_active_task_def untrack_active_task_def Let_def)

definition hour_count :: "py_float \<Rightarrow> string \<Rightarrow> quotas \<Rightarrow> nat" where
  "hour_count now tenant qs = length (filter (\<lambda>t. now - 3600 \<le> t) (dict_get (task_starts qs) tenant []))"

definition quota_inv :: "py_float \<Rightarrow> quotas \<Rightarrow> bool" where
  "quota_inv now qs =
     (defaults_cache qs = [] \<and>
      (\<forall>tenant. finite (dict_get (active_tasks qs) tenant {}) \<and>
         card (dict_get (active_tasks qs) tenant {}) \<le> 5 \<and> hour_count now tenant qs \<le> 100))"

lemma hour_count_mono: "t \<le> now \<Longrightarrow> hour_count now tenant qs \<le> hour_count t tenant qs"
proof -
  assume "t \<le> now"
  then have "filter (\<lambda>s. now - 3600 \<le> s) xs = filter (\<lambda>s. now - 3600 \<le> s) (filter (\<lambda>s. t - 3600 \<le> s) xs)" for xs
    by (auto simp: filter_filter intro!: filter_cong)
  then show ?thesis unfolding hour_count_def by (metis length_filter_le)
qed

lemma hour_count_track:
  "hour_count now tenant' (track_active_task r now tenant task qs) =
     hour_count now tenant' qs + (if tenant' = tenant then 1 else 0)"
proof -
  have "filter (\<lambda>s. now - 3600 \<le> s) (filter (\<lambda>s. now - 7200 \<le> s) xs) = filter (\<lambda>s. now - 3600 \<le> s) xs" for xs
    by (auto simp: filter_filter intro!: filter_cong)
  then show ?thesis
    by (simp add: hour_count_def track_active_task_def Let_def dict_get_def)
qed

lemma active_track:
  "dict_get (active_tasks (track_active_task False now tenant task qs)) tenant' {} =
     (if tenant' = tenant then insert task (dict_get (active_tasks qs) tenant {})
      else dict_get (active_tasks qs) tenant' {})"
  by (simp add: track_active_task_def Let_def dict_get_def)

lemma untrack_subset:
  "dict_get (active_tasks (untrack_active_task r tenant task qs)) tenant' {} \<subseteq>
     dict_get (active_tasks qs) tenant' {} \<and>
   hour_count now tenant' (untrack_active_task r tenant task qs) = hour_count now tenant' qs"
  by (auto simp: untrack_active_task_def dict_get_def hour_count_def)

lemma quota_run_inv: "quota_run now qs \<Longrightarrow> quota_inv now qs"
proof (induction rule: quota_run.induct)
  case (start now)
  then show ?case by (simp add: quota_inv_def new_quotas_def dict_get_def hour_count_def)
next
  case (admit t qs now tenant cost tokens task)
  have "hour_count now tenant qs < 100" and "card (dict_get (active_tasks qs) tenant {}) < 5"
    using admit(3,4)
    by (auto simp: check_quota_def no_backends_def get_quota_def dict_get_def default_quota_def quota_inv_def
        get_hourly_task_count_def get_active_task_count_def hour_count_def Let_def split: if_splits)
  moreover have "hour_count now k qs \<le> 100" for k
    using admit(4) hour_count_mono [OF admit(2), of k qs] by (auto simp: quota_inv_def intro: order_trans)
  ultimately show ?case
    using admit(4) by (auto simp: quota_inv_def hour_count_track active_track card_insert_if Suc_le_eq)
next
  case (finish t qs now tenant task)
  have "hour_count now k qs \<le> 100" for k
    using finish(3) hour_count_mono [OF finish(2), of k qs] by (auto simp: quota_inv_def intro: order_trans)
  moreover have "finite (dict_get (active_tasks (untrack_active_task False tenant task qs)) k {}) \<and>
      card (dict_get (active_tasks (untrack_active_task False tenant task qs)) k {}) \<le> 5" for k
    using finish(3) untrack_subset [of False tenant task qs k now] 
    by (auto simp: quota_inv_def intro: finite_subset order_trans [OF card_mono])
  ultimately show ?case
    using finish(3) untrack_subset [of False tenant task qs _ now] by (auto simp: quota_inv_def)
qed

text \<open>
  Admission control in a single process: as long as every admission is a check followed by
  the tracking of the task, no tenant on the default quota has more than five tasks in flight or
  more than one hundred starts within any last hour.
\<close>

theorem quota_limits:
  assumes "quota_run now qs"
  shows "card (dict_get (active_tasks qs) tenant {}) \<le> 5 \<and>
         length (filter (\<lambda>t. now - 3600 \<le> t) (dict_get (task_starts qs) tenant [])) \<le> 100"
  using quota_run_inv [OF assms] by (auto simp: quota_inv_def hour_count_def)

theorem quota_limits_witness:
  "card (dict_get (active_tasks (track_active_task False 1 ''t'' ''a'' new_quotas)) ''t'' {}) \<le> 5"
proof -
  have "check_quota no_backends 1 ''t'' 0 0 new_quotas = Inr True" by code_simp
  then have "quota_run 1 (track_active_task False 1 ''t'' ''a'' new_quotas)"
    by (intro quota_run.admit [OF quota_run.start [of 1]]) auto
  from quota_limits [OF this, of "''t''"] show ?thesis by simp
qed

end
