(* ===== verification/Chain_Of_Thought.thy ===== *)
theory Chain_Of_Thought
  imports Billing
begin

text \<open>
  The reasoning engine of \<open>core/chain_of_thought.py\<close>: the planner, the step graph, its partition
  into topological levels, the execution of the levels with the token budget and restored steps,
  and the Reflexion loop around it.

  The texts of the prompts are a parameter (\<open>user_prompt\<close> builds the prompt of a step from the
  results of the earlier ones, \<open>system_prompt\<close> is the fixed text of a step), and so are the
  language model (an error or a reply for every call) and the order in which the calls of a
  level complete. The streaming callbacks, the durations and the log are left out.
\<close>

section \<open>Planner\<close>

definition ALL_STEPS :: "string list" where
  "ALL_STEPS =
     [''repair'', ''analysis'', ''architecture'', ''stack'', ''components'', ''data_model'', ''api_design'',
      ''codegen'', ''testing'', ''security'', ''optimization'', ''deployment'', ''review'']"

definition MINIMAL_STEPS :: "string list" where
  "MINIMAL_STEPS = [''analysis'', ''architecture'', ''stack'', ''codegen'', ''review'']"

definition insert_at :: "nat \<Rightarrow> 'a \<Rightarrow> 'a list \<Rightarrow> 'a list" where
  "insert_at i x xs = take i xs @ x # drop i xs"

definition plan :: "string list \<Rightarrow> string \<Rightarrow> string \<Rightarrow> string list \<Rightarrow> string list" where
  "plan task_tags complexity error_context past_attempts =
     (let tags = lower ` set task_tags
      in if lower complexity = ''trivial'' \<or> lower complexity = ''simple'' then MINIMAL_STEPS
         else
           (let steps =
              [''analysis'', ''architecture'', ''stack'', ''components'']
              @ (if ''data'' \<in> tags \<or> ''database'' \<in> tags then [''data_model''] else [])
              @ (if ''api'' \<in> tags \<or> ''web'' \<in> tags \<or> ''rest'' \<in> tags then [''api_design''] else [])
              @ [''codegen'']
              @ (if ''test'' \<in> tags \<or> ''qa'' \<in> tags then [''testing''] else [])
              @ (if ''security'' \<in> tags \<or> ''auth'' \<in> tags then [''security''] else [])
              @ (if ''performance'' \<in> tags \<or> ''high-load'' \<in> tags then [''optimization''] else [])
              @ [''deployment'', ''review'']
            in if error_context \<noteq> [] \<and> past_attempts \<noteq> []
               then insert_at (if ''analysis'' \<in> set steps then 1 else 0) ''repair'' steps
               else steps))"

section \<open>Step graph\<close>

datatype step_status = PENDING | RUNNING | COMPLETED | SKIPPED | FAILED

record cot_step =
  s_name :: string
  s_role :: string
  depends_on :: "string list"
  s_result :: string
  s_confidence :: py_float
  s_status :: step_status
  s_tokens :: int

definition step_defs :: "(string, string \<times> string list) dict" where
  "step_defs =
     [(''analysis'', (''analyst'', [])),
      (''architecture'', (''architect'', [''analysis''])),
      (''stack'', (''architect'', [''architecture''])),
      (''components'', (''architect'', [''architecture'', ''stack''])),
      (''data_model'', (''developer'', [''components'', ''stack''])),
      (''api_design'', (''developer'', [''components'', ''stack''])),
      (''codegen'', (''developer'', [''stack'', ''api_design'', ''data_model'', ''components''])),
      (''testing'', (''developer'', [''codegen'', ''stack'', ''api_design'', ''components''])),
      (''security'', (''reviewer'', [''codegen'', ''stack'', ''api_design'', ''components''])),
      (''optimization'', (''optimizer'', [''codegen'', ''stack'', ''components'', ''architecture''])),
      (''deployment'', (''devops'', [''stack'', ''components''])),
      (''review'', (''reviewer'', [''analysis'', ''architecture'', ''stack'', ''components'', ''data_model'',
         ''api_design'', ''codegen'', ''testing'', ''security'', ''optimization'', ''deployment''])),
      (''repair'', (''debugger'', [''analysis'']))]"

definition make_step :: "string list \<Rightarrow> string \<Rightarrow> cot_step" where
  "make_step planned name =
     (let (role, deps) = the (map_of step_defs name)
      in \<lparr>s_name = name, s_role = role, depends_on = filter (\<lambda>d. d \<in> set planned) deps,
          s_result = [], s_confidence = 0, s_status = PENDING, s_tokens = 0\<rparr>)"

definition build_dag :: "string list \<Rightarrow> cot_step list" where
  "build_dag planned = map (make_step planned) (filter (\<lambda>n. n \<in> set planned) ALL_STEPS)"

definition ready :: "string set \<Rightarrow> cot_step \<Rightarrow> bool" where
  "ready added step = (\<forall>dep \<in> set (depends_on step). dep \<in> added)"

function levels_from :: "string set \<Rightarrow> cot_step list \<Rightarrow> cot_step list list" where
  "levels_from added todo =
     (let level = filter (ready added) todo
      in if level = [] then []
         else level # levels_from (added \<union> s_name ` set level) (filter (\<lambda>s. \<not> ready added s) todo))"
  by pat_completeness auto
termination
proof (relation "measure (\<lambda>(_, todo). length todo)", simp, clarsimp)
  fix added and todo :: "cot_step list"
  assume "filter (ready added) todo \<noteq> []"
  moreover have "length (filter (ready added) todo) + length (filter (\<lambda>s. \<not> ready added s) todo) = length todo"
    by (rule sum_length_filter_compl)
  ultimately show "length (filter (\<lambda>s. \<not> ready added s) todo) < length todo"
    by (metis add.commute less_add_same_cancel1 length_greater_0_conv)
qed

declare levels_from.simps [simp del]

definition topological_levels :: "cot_step list \<Rightarrow> cot_step list list" where
  "topological_levels steps = levels_from {} steps"

section \<open>Execution\<close>

record llm_reply =
  content :: string
  finish_reason :: string
  reply_tokens :: "int option"

record thought =
  t_step :: nat
  t_role :: string
  t_prompt :: string
  t_response :: string
  t_name :: string
  t_confidence :: py_float

record env =
  system_prompt :: "string \<Rightarrow> string"
  user_prompt :: "string \<Rightarrow> (string, string) dict \<Rightarrow> string"
  llm :: "string \<Rightarrow> string \<Rightarrow> bool \<Rightarrow> string + llm_reply"
  has_router :: bool
  completion_order :: "string list \<Rightarrow> string list"

datatype decision = NoPrompt | BudgetSkip | Call string bool

text \<open>
  The part of \<open>_execute_step\<close> before the call: the prompt is resolved, the budget is consulted
  (only the answer \<open>SKIP\<close> is acted on) and the model is chosen (the flag of \<open>Call\<close> says that the
  router's cheaper model is used).
\<close>

definition start_step :: "env \<Rightarrow> (string, string) dict \<Rightarrow> cot_step \<Rightarrow> budget option \<Rightarrow> decision \<times> budget option" where
  "start_step e ctx step b =
     (let prompt = user_prompt e (s_name step) ctx
      in if prompt = [] then (NoPrompt, b)
         else
           (case b of
              None \<Rightarrow> (Call prompt False, None)
            | Some bud \<Rightarrow>
                (let est = int ((length (system_prompt e (s_name step)) + length prompt) div 2);
                     (action, bud') = check est (s_name step) bud
                 in if action = SKIP then (BudgetSkip, Some bud')
                    else if has_router e
                    then (let (deg, bud'') = should_degrade bud' in (Call prompt deg, Some bud''))
                    else (Call prompt False, Some bud'))))"

definition reply_confidence :: "llm_reply \<Rightarrow> py_float" where
  "reply_confidence r =
     (if content r = [] then 0
      else if finish_reason r = ''length'' then 4 / 10
      else if finish_reason r = ''stop'' then 7 / 10
      else 5 / 10)"

record cot =
  ctx_of :: "(string, string) dict"
  cot_steps :: "cot_step list"
  chain :: "thought list"
  cot_budget :: "budget option"
  calls :: "(string \<times> string) list"

text \<open>
  The part of \<open>_execute_step\<close> after the call, for a call that returned: the tokens are charged
  and the thought is appended. \<open>calls\<close> is a log of the calls and their prompts.
\<close>

definition finish_call :: "cot_step \<Rightarrow> string \<Rightarrow> llm_reply \<Rightarrow> cot \<Rightarrow> cot" where
  "finish_call step prompt r c =
     c\<lparr>chain := chain c @
          [\<lparr>t_step = Suc (length (chain c)), t_role = s_role step, t_prompt = take 500 prompt,
            t_response = content r, t_name = s_name step, t_confidence = reply_confidence r\<rparr>],
       cot_budget :=
         (case (cot_budget c, reply_tokens r) of
            (Some b, Some n) \<Rightarrow> Some (if n \<noteq> 0 then record_tokens n b else b)
          | (b, _) \<Rightarrow> b)\<rparr>"

definition update_step :: "string \<Rightarrow> (cot_step \<Rightarrow> cot_step) \<Rightarrow> cot_step list \<Rightarrow> cot_step list" where
  "update_step n f steps = map (\<lambda>s. if s_name s = n then f s else s) steps"

fun start_level :: "env \<Rightarrow> cot_step list \<Rightarrow> cot \<Rightarrow> (string, decision) dict \<times> cot" where
  "start_level e [] c = ([], c)"
| "start_level e (step # steps) c =
     (let (d, b) = start_step e (ctx_of c) step (cot_budget c);
          c' = c\<lparr>cot_budget := b,
                 calls := calls c @ (case d of Call p _ \<Rightarrow> [(s_name step, p)] | _ \<Rightarrow> [])\<rparr>;
          (ds, c'') = start_level e steps c'
      in ((s_name step, d) # ds, c''))"

definition complete_call :: "env \<Rightarrow> (string, decision) dict \<Rightarrow> cot_step list \<Rightarrow> string \<Rightarrow> cot \<Rightarrow> cot" where
  "complete_call e ds level n c =
     (case (map_of ds n, find (\<lambda>s. s_name s = n) level) of
        (Some (Call p deg), Some step) \<Rightarrow>
          (case llm e n p deg of Inl _ \<Rightarrow> c | Inr r \<Rightarrow> finish_call step p r c)
      | _ \<Rightarrow> c)"

text \<open>After the level has been gathered: the loop over the tasks that sets status and context.\<close>

definition settle_step :: "env \<Rightarrow> string \<times> decision \<Rightarrow> cot \<Rightarrow> cot" where
  "settle_step e nd c =
     (case nd of
        (n, NoPrompt) \<Rightarrow> c\<lparr>cot_steps := update_step n (\<lambda>s. s\<lparr>s_status := SKIPPED\<rparr>) (cot_steps c)\<rparr>
      | (n, BudgetSkip) \<Rightarrow>
          c\<lparr>cot_steps := update_step n (\<lambda>s. s\<lparr>s_status := SKIPPED,
               s_result := ''[Budget skipped] Token budget exhausted for: '' @ n\<rparr>) (cot_steps c)\<rparr>
      | (n, Call p deg) \<Rightarrow>
          (case llm e n p deg of
             Inl err \<Rightarrow>
               c\<lparr>cot_steps := update_step n (\<lambda>s. s\<lparr>s_status := FAILED, s_result := ''Error: '' @ err\<rparr>) (cot_steps c)\<rparr>
           | Inr r \<Rightarrow>
               c\<lparr>cot_steps := update_step n (\<lambda>s. s\<lparr>s_status := COMPLETED, s_result := content r,
                    s_confidence := reply_confidence r,
                    s_tokens := (case reply_tokens r of None \<Rightarrow> 0 | Some k \<Rightarrow> k)\<rparr>) (cot_steps c),
                  ctx_of := dict_set n (content r) (ctx_of c)\<rparr>))"

definition status_of :: "string \<Rightarrow> cot_step list \<Rightarrow> step_status" where
  "status_of n steps = (case find (\<lambda>s. s_name s = n) steps of None \<Rightarrow> PENDING | Some s \<Rightarrow> s_status s)"

definition run_level :: "env \<Rightarrow> cot_step list \<Rightarrow> cot \<Rightarrow> cot" where
  "run_level e level c =
     (let todo = filter (\<lambda>s. status_of (s_name s) (cot_steps c) \<notin> {SKIPPED, COMPLETED}) level;
          (ds, c1) = start_level e todo c;
          c2 = fold (complete_call e ds todo) (completion_order e (map fst ds)) c1
      in fold (settle_step e) ds c2)"

definition restore :: "(string, string) dict \<Rightarrow> cot_step list \<Rightarrow> cot_step list \<times> (string, string) dict" where
  "restore resume steps =
     (map (\<lambda>s. case map_of resume (s_name s) of
                 None \<Rightarrow> s | Some r \<Rightarrow> s\<lparr>s_status := COMPLETED, s_result := r\<rparr>) steps,
      foldl (\<lambda>d s. case map_of resume (s_name s) of None \<Rightarrow> d | Some r \<Rightarrow> dict_set (s_name s) r d) [] steps)"

definition reason_run ::
  "env \<Rightarrow> string list \<Rightarrow> string \<Rightarrow> string list \<Rightarrow> (string, string) dict \<Rightarrow> budget option \<Rightarrow> cot" where
  "reason_run e tags complexity reflexion_errors resume b =
     (let errs = py_join [CHR 0x0A] (keep_last 3 reflexion_errors);
          planned = plan tags complexity (if reflexion_errors = [] then [] else errs) reflexion_errors;
          (steps, ctx) = restore resume (build_dag planned);
          c0 = \<lparr>ctx_of = ctx, cot_steps = steps, chain = [], cot_budget = b, calls = []\<rparr>
      in fold (run_level e) (topological_levels steps) c0)"

section \<open>Levels\<close>

lemma levels_from_deps:
  "i < length (levels_from added todo) \<Longrightarrow> s \<in> set (levels_from added todo ! i) \<Longrightarrow>
   s \<in> set todo \<and> (\<forall>d \<in> set (depends_on s).
      d \<in> added \<or> (\<exists>j < i. d \<in> s_name ` set (levels_from added todo ! j)))"
proof (induction added todo arbitrary: i rule: levels_from.induct)
  case (1 added todo)
  let ?level = "filter (ready added) todo"
  let ?rest = "levels_from (added \<union> s_name ` set ?level) (filter (\<lambda>s. \<not> ready added s) todo)"
  show ?case
  proof (cases "?level = []")
    case True
    with 1(2) show ?thesis by (simp add: levels_from.simps [of added todo])
  next
    case False
    then have eq: "levels_from added todo = ?level # ?rest"
      by (subst levels_from.simps) (simp only: Let_def if_False)
    show ?thesis
    proof (cases i)
      case 0
      with 1(3) show ?thesis by (auto simp: eq ready_def)
    next
      case (Suc k)
      have IH: "s \<in> set (filter (\<lambda>s. \<not> ready added s) todo) \<and>
          (\<forall>d \<in> set (depends_on s). d \<in> added \<union> s_name ` set ?level \<or> (\<exists>j < k. d \<in> s_name ` set (?rest ! j)))"
        using 1(1) [OF refl False, of k] 1(2,3) by (simp add: eq Suc)
      have "d \<in> added \<or> (\<exists>j < Suc k. d \<in> s_name ` set ((?level # ?rest) ! j))"
        if "d \<in> set (depends_on s)" for d
      proof -
        from IH that consider "d \<in> added" | "d \<in> s_name ` set ?level"
          | j where "j < k" "d \<in> s_name ` set (?rest ! j)" by blast
        then show ?thesis
        proof cases
          case 2
          then show ?thesis by (intro disjI2 exI [of _ 0]) simp
        next
          case 3
          then show ?thesis by (intro disjI2 exI [of _ "Suc j"]) simp
        qed simp
      qed
      with IH show ?thesis unfolding eq Suc by simp
    qed
  qed
qed

lemma levels_from_distinct:
  "distinct todo \<Longrightarrow> distinct (concat (levels_from added todo)) \<and>
     set (concat (levels_from added todo)) \<subseteq> set todo \<and> [] \<notin> set (levels_from added todo)"
proof (induction added todo rule: levels_from.induct)
  case (1 added todo)
  let ?level = "filter (ready added) todo"
  show ?case
  proof (cases "?level = []")
    case True
    then show ?thesis by (simp add: levels_from.simps [of added todo])
  next
    case False
    then have eq: "levels_from added todo =
        ?level # levels_from (added \<union> s_name ` set ?level) (filter (\<lambda>s. \<not> ready added s) todo)"
      by (subst levels_from.simps) (simp only: Let_def if_False)
    have "distinct (filter (\<lambda>s. \<not> ready added s) todo)" using 1(2) by simp
    from 1(1) [OF refl False this] 1(2) False show ?thesis
      unfolding eq by auto
  qed
qed

lemma levels_from_complete:
  assumes "\<forall>s \<in> set todo. \<forall>d \<in> set (depends_on s).
      d \<in> added \<or> d \<in> s_name ` set todo \<and> rank d < (rank (s_name s) :: nat)"
  shows "set todo \<subseteq> set (concat (levels_from added todo))"
  using assms
proof (induction added todo rule: levels_from.induct)
  case (1 added todo)
  let ?level = "filter (ready added) todo"
  show ?case
  proof (cases "todo = []")
    case True
    then show ?thesis by simp
  next
    case False
    then obtain s where s: "s \<in> set todo" "\<forall>s' \<in> set todo. rank (s_name s) \<le> rank (s_name s')"
      using ex_has_least_nat [of "\<lambda>s. s \<in> set todo" _ "\<lambda>s. rank (s_name s)"]
      by (metis list.set_intros(1) neq_Nil_conv)
    have "ready added s" unfolding ready_def
    proof
      fix d assume "d \<in> set (depends_on s)"
      with 1(2) s(1) have "d \<in> added \<or> d \<in> s_name ` set todo \<and> rank d < rank (s_name s)" by blast
      with s(2) show "d \<in> added" by (auto simp: not_le [symmetric])
    qed
    with s(1) have ne: "?level \<noteq> []" by (auto simp: filter_empty_conv)
    have "\<forall>s \<in> set (filter (\<lambda>s. \<not> ready added s) todo). \<forall>d \<in> set (depends_on s).
        d \<in> added \<union> s_name ` set ?level \<or>
        d \<in> s_name ` set (filter (\<lambda>s. \<not> ready added s) todo) \<and> rank d < rank (s_name s)"
      using 1(2) by fastforce
    from 1(1) [OF refl ne this] ne show ?thesis
      by (subst levels_from.simps) (auto simp: Let_def)
  qed
qed

definition step_order :: "string list" where
  "step_order =
     [''analysis'', ''repair'', ''architecture'', ''stack'', ''components'', ''data_model'', ''api_design'',
      ''codegen'', ''testing'', ''security'', ''optimization'', ''deployment'', ''review'']"

definition step_rank :: "string \<Rightarrow> nat" where
  "step_rank n = length (takeWhile (\<lambda>m. m \<noteq> n) step_order)"

lemma step_defs_ranked:
  "\<forall>n \<in> set ALL_STEPS. \<forall>d \<in> set (snd (the (map_of step_defs n))). d \<in> set ALL_STEPS \<and> step_rank d < step_rank n"
  by code_simp

lemma distinct_ALL_STEPS: "distinct ALL_STEPS"
  by code_simp

lemma build_dag_names: "map s_name (build_dag planned) = filter (\<lambda>n. n \<in> set planned) ALL_STEPS"
  by (simp add: build_dag_def make_step_def o_def split_def Let_def)

lemma build_dag_deps:
  assumes "s \<in> set (build_dag planned)" and "d \<in> set (depends_on s)"
  shows "d \<in> set planned \<and> d \<in> set ALL_STEPS \<and> step_rank d < step_rank (s_name s)"
proof -
  from assms(1) obtain n where n: "n \<in> set ALL_STEPS" and s: "s = make_step planned n"
    by (auto simp: build_dag_def)
  from assms(2) have "d \<in> set (snd (the (map_of step_defs n)))" and "d \<in> set planned"
    by (auto simp: s make_step_def Let_def split_def)
  with step_defs_ranked n show ?thesis by (auto simp: s make_step_def Let_def split_def)
qed

lemma plan_known: "set (plan tags complexity err past) \<subseteq> set ALL_STEPS"
  by (auto simp: plan_def Let_def MINIMAL_STEPS_def ALL_STEPS_def insert_at_def)

lemma dag_levels_all:
  "set (concat (topological_levels (build_dag planned))) = set (build_dag planned)"
proof
  have d: "distinct (build_dag planned)"
  proof (rule distinct_map [THEN iffD1, THEN conjunct1])
    show "distinct (map s_name (build_dag planned))"
      by (simp add: build_dag_names distinct_ALL_STEPS)
  qed
  then show "set (concat (topological_levels (build_dag planned))) \<subseteq> set (build_dag planned)"
    using levels_from_distinct [of "build_dag planned" "{}"] by (simp add: topological_levels_def)
  have names: "s_name ` set (build_dag planned) = {n \<in> set ALL_STEPS. n \<in> set planned}"
    using arg_cong [OF build_dag_names, of set planned] by simp
  have "\<forall>s \<in> set (build_dag planned). \<forall>d \<in> set (depends_on s).
      d \<in> {} \<or> d \<in> s_name ` set (build_dag planned) \<and> step_rank d < step_rank (s_name s)"
    using build_dag_deps unfolding names by blast
  then show "set (build_dag planned) \<subseteq> set (concat (topological_levels (build_dag planned)))"
    unfolding topological_levels_def by (rule levels_from_complete)
qed

text \<open>
  Scheduling: for every task the planned steps are partitioned into levels. Every planned
  step is in exactly one level, no level is empty, and every dependency of a step that is planned
  lies in a strictly earlier level.
\<close>

theorem planned_levels:
  "let planned = plan tags complexity error_context past_attempts;
       lv = topological_levels (build_dag planned)
   in distinct (map s_name (concat lv)) \<and> s_name ` set (concat lv) = set planned \<and> [] \<notin> set lv \<and>
      (\<forall>i < length lv. \<forall>s \<in> set (lv ! i).
         set (depends_on s) = set (snd (the (map_of step_defs (s_name s)))) \<inter> set planned \<and>
         (\<forall>d \<in> set (depends_on s). \<exists>j < i. d \<in> s_name ` set (lv ! j)))"
proof -
  define planned where "planned = plan tags complexity error_context past_attempts"
  define lv where "lv = topological_levels (build_dag planned)"
  have all: "set (concat lv) = set (build_dag planned)"
    unfolding lv_def by (rule dag_levels_all)
  have dn: "distinct (map s_name (build_dag planned))"
    by (simp add: build_dag_names distinct_ALL_STEPS)
  then have "distinct (build_dag planned)" by (simp add: distinct_map)
  then have "distinct (concat lv)" and ne: "[] \<notin> set lv"
    using levels_from_distinct [of "build_dag planned" "{}"] by (simp_all add: lv_def topological_levels_def)
  then have "distinct (map s_name (concat lv))" using dn unfolding distinct_map all by simp
  moreover have "s_name ` set (concat lv) = set planned"
    using arg_cong [OF build_dag_names, of set planned] plan_known [of tags complexity error_context past_attempts]
    unfolding all planned_def by auto
  moreover have "set (depends_on s) = set (snd (the (map_of step_defs (s_name s)))) \<inter> set planned \<and>
         (\<forall>d \<in> set (depends_on s). \<exists>j < i. d \<in> s_name ` set (lv ! j))"
    if "i < length lv" "s \<in> set (lv ! i)" for i s
  proof -
    from levels_from_deps [of i "{}" "build_dag planned" s] that
    have "s \<in> set (build_dag planned)" "\<forall>d \<in> set (depends_on s). \<exists>j < i. d \<in> s_name ` set (lv ! j)"
      by (auto simp: lv_def topological_levels_def)
    then show ?thesis by (auto simp: build_dag_def make_step_def Let_def split_def)
  qed
  ultimately show ?thesis
    using ne unfolding planned_def [symmetric] lv_def [symmetric] Let_def by blast
qed

theorem planned_levels_witness:
  "let lv = topological_levels (build_dag (plan [] ''moderate'' [] []))
   in \<forall>s \<in> set (lv ! 0). \<forall>d \<in> set (depends_on s). \<exists>j < 0. d \<in> s_name ` set (lv ! j)"
proof -
  have "0 < length (topological_levels (build_dag (plan [] ''moderate'' [] [])))" by code_simp
  with planned_levels [of "[]" "''moderate''" "[]" "[]"] show ?thesis
    unfolding Let_def by blast
qed

text \<open>
  The repair step is meant to come before the architecture decisions but shares their level, and
  no step depends on it.
\<close>

lemma repair_runs_beside_architecture:
  "map (map s_name) (take 2 (topological_levels (build_dag (plan [] ''moderate'' ''err'' [''err''])))) =
     [[''analysis''], [''repair'', ''architecture'']] \<and>
   (\<forall>(_, _, deps) \<in> set step_defs. ''repair'' \<notin> set deps)"
  by code_simp

section \<open>Runs\<close>

abbreviation step_of :: "string \<Rightarrow> cot_step list \<Rightarrow> cot_step option" where
  "step_of n steps \<equiv> find (\<lambda>s. s_name s = n) steps"

lemma step_of_update:
  "(\<And>s. s_name (f s) = s_name s) \<Longrightarrow>
   step_of m (update_step n f steps) = (if m = n then map_option f (step_of n steps) else step_of m steps)"
  by (induction steps) (auto simp: update_step_def)

definition ended :: "cot_step \<Rightarrow> bool" where
  "ended s = (s_status s \<in> {COMPLETED, SKIPPED, FAILED})"

text \<open>
  \<open>coherent\<close>: the context has exactly the results of the completed steps.
\<close>

definition coherent :: "cot \<Rightarrow> bool" where
  "coherent c =
     (\<forall>n s. step_of n (cot_steps c) = Some s \<longrightarrow>
        map_of (ctx_of c) n = (if s_status s = COMPLETED then Some (s_result s) else None))"

lemma start_level_frame:
  "start_level e todo c = (ds, c') \<Longrightarrow>
   ctx_of c' = ctx_of c \<and> cot_steps c' = cot_steps c \<and> map fst ds = map s_name todo \<and>
   (\<forall>(n, d) \<in> set ds. d = NoPrompt \<or> (\<exists>deg. d = Call (user_prompt e n (ctx_of c)) deg)) \<and>
   calls c' = calls c @ concat (map (\<lambda>(n, d). case d of Call p _ \<Rightarrow> [(n, p)] | _ \<Rightarrow> []) ds)"
proof (induction todo arbitrary: c ds c')
  case Nil
  then show ?case by simp
next
  case (Cons step todo)
  obtain d b where d: "start_step e (ctx_of c) step (cot_budget c) = (d, b)" by fastforce
  let ?c = "c\<lparr>cot_budget := b, calls := calls c @ (case d of Call p _ \<Rightarrow> [(s_name step, p)] | _ \<Rightarrow> [])\<rparr>"
  obtain ds2 c2 where rest: "start_level e todo ?c = (ds2, c2)" by fastforce
  have "d = NoPrompt \<or> (\<exists>deg. d = Call (user_prompt e (s_name step) (ctx_of c)) deg)"
    using d by (auto simp: start_step_def check_def should_degrade_def Let_def split: option.splits if_splits)
  moreover have "ds = (s_name step, d) # ds2" "c' = c2"
    using Cons.prems by (simp_all add: d rest)
  ultimately show ?case using Cons.IH [OF rest] by auto
qed

lemma complete_call_frame:
  "ctx_of (complete_call e ds level n c) = ctx_of c"
  "cot_steps (complete_call e ds level n c) = cot_steps c"
  "calls (complete_call e ds level n c) = calls c"
  by (simp_all add: complete_call_def finish_call_def split: option.split decision.split sum.split)

lemma fold_complete_frame:
  "ctx_of (fold (complete_call e ds level) ns c) = ctx_of c"
  "cot_steps (fold (complete_call e ds level) ns c) = cot_steps c"
  "calls (fold (complete_call e ds level) ns c) = calls c"
  by (induction ns arbitrary: c) (simp_all add: complete_call_frame)

lemma settle_step_effect:
  assumes "coherent c" and "map_of (ctx_of c) n = None"
    and "step_of n (cot_steps c) = Some s"
  shows "coherent (settle_step e (n, d) c) \<and> calls (settle_step e (n, d) c) = calls c \<and>
     (\<exists>s'. step_of n (cot_steps (settle_step e (n, d) c)) = Some s' \<and> ended s') \<and>
     (\<forall>m. m \<noteq> n \<longrightarrow> step_of m (cot_steps (settle_step e (n, d) c)) = step_of m (cot_steps c) \<and>
          map_of (ctx_of (settle_step e (n, d) c)) m = map_of (ctx_of c) m)"
  using assms
  by (auto simp: settle_step_def coherent_def ended_def step_of_update split: decision.split sum.split)

lemma fold_settle_effect:
  assumes "coherent c" and "distinct (map fst ds)"
    and "\<forall>n \<in> fst ` set ds. map_of (ctx_of c) n = None \<and> step_of n (cot_steps c) \<noteq> None"
  shows "coherent (fold (settle_step e) ds c) \<and> calls (fold (settle_step e) ds c) = calls c \<and>
     (\<forall>n \<in> fst ` set ds. \<exists>s'. step_of n (cot_steps (fold (settle_step e) ds c)) = Some s' \<and> ended s') \<and>
     (\<forall>m. m \<notin> fst ` set ds \<longrightarrow> step_of m (cot_steps (fold (settle_step e) ds c)) = step_of m (cot_steps c) \<and>
          map_of (ctx_of (fold (settle_step e) ds c)) m = map_of (ctx_of c) m)"
  using assms
proof (induction ds arbitrary: c)
  case Nil
  then show ?case by simp
next
  case (Cons p ds)
  obtain n d where p: "p = (n, d)" by (cases p)
  from Cons.prems(3) obtain s where s: "map_of (ctx_of c) n = None" "step_of n (cot_steps c) = Some s"
    by (auto simp: p)
  let ?c = "settle_step e (n, d) c"
  note eff0 = settle_step_effect [OF Cons.prems(1) s, of e d]
  have eff: "coherent ?c" "calls ?c = calls c" "\<exists>s'. step_of n (cot_steps ?c) = Some s' \<and> ended s'"
    using eff0 by simp_all
  have eff4: "step_of m (cot_steps ?c) = step_of m (cot_steps c) \<and> map_of (ctx_of ?c) m = map_of (ctx_of c) m"
    if "m \<noteq> n" for m
    using eff0 that by simp
  have nin: "n \<notin> fst ` set ds" using Cons.prems(2) by (simp add: p)
  have fresh: "\<forall>m \<in> fst ` set ds. map_of (ctx_of ?c) m = None \<and> step_of m (cot_steps ?c) \<noteq> None"
  proof (rule ballI)
    fix m assume m: "m \<in> fst ` set ds"
    have "m \<noteq> n" using m nin by blast
    moreover have "map_of (ctx_of c) m = None \<and> step_of m (cot_steps c) \<noteq> None"
      by (rule bspec [OF Cons.prems(3)]) (use m in simp)
    ultimately show "map_of (ctx_of ?c) m = None \<and> step_of m (cot_steps ?c) \<noteq> None"
      using eff4 [of m] by simp
  qed
  from Cons.IH [OF eff(1) _ fresh] Cons.prems(2) have
    rec: "coherent (fold (settle_step e) ds ?c)" "calls (fold (settle_step e) ds ?c) = calls ?c"
     "\<forall>n \<in> fst ` set ds. \<exists>s'. step_of n (cot_steps (fold (settle_step e) ds ?c)) = Some s' \<and> ended s'"
     "\<And>m. m \<notin> fst ` set ds \<Longrightarrow> step_of m (cot_steps (fold (settle_step e) ds ?c)) = step_of m (cot_steps ?c) \<and>
          map_of (ctx_of (fold (settle_step e) ds ?c)) m = map_of (ctx_of ?c) m"
    by (simp_all add: p)
  have "\<exists>s'. step_of n (cot_steps (fold (settle_step e) ds ?c)) = Some s' \<and> ended s'"
    using rec(4) [OF nin] eff(3) by simp
  moreover have "step_of m (cot_steps (fold (settle_step e) ds ?c)) = step_of m (cot_steps c) \<and>
      map_of (ctx_of (fold (settle_step e) ds ?c)) m = map_of (ctx_of c) m"
    if "m \<noteq> n" "m \<notin> fst ` set ds" for m
    using rec(4) [OF that(2)] eff4 [OF that(1)] by simp
  ultimately show ?case using rec(1-3) eff(2) by (simp add: p)
qed

definition good_call :: "env \<Rightarrow> (string \<Rightarrow> string set) \<Rightarrow> cot \<Rightarrow> string \<times> string \<Rightarrow> bool" where
  "good_call e D c np =
     (\<exists>ctx. snd np = user_prompt e (fst np) ctx \<and>
        (\<forall>d \<in> D (fst np). \<forall>s. step_of d (cot_steps c) = Some s \<and> s_status s = COMPLETED \<longrightarrow>
           map_of ctx d = Some (s_result s)))"

definition run_inv :: "env \<Rightarrow> (string \<Rightarrow> string set) \<Rightarrow> cot_step list \<Rightarrow> string set \<Rightarrow> cot \<Rightarrow> bool" where
  "run_inv e D steps0 finished c =
     (coherent c \<and> (\<forall>n. (step_of n (cot_steps c) = None) = (step_of n steps0 = None)) \<and>
      (\<forall>n. n \<notin> finished \<longrightarrow> step_of n (cot_steps c) = step_of n steps0) \<and>
      (\<forall>n \<in> finished. D n \<subseteq> finished \<and> (\<exists>s. step_of n (cot_steps c) = Some s \<and> ended s)) \<and>
      distinct (map fst (calls c)) \<and>
      (\<forall>np \<in> set (calls c). fst np \<in> finished \<and> status_of (fst np) steps0 \<notin> {SKIPPED, COMPLETED} \<and>
          good_call e D c np))"

lemma status_of_some: "step_of n steps = Some s \<Longrightarrow> status_of n steps = s_status s"
  by (simp add: status_of_def)

lemma new_calls_names:
  "map fst (concat (map (\<lambda>(n, d). case d of Call p _ \<Rightarrow> [(n, p)] | _ \<Rightarrow> []) ds)) =
     map fst (filter (\<lambda>(n, d). \<exists>p deg. d = Call p deg) ds)"
  by (induction ds) (auto split: decision.split)

lemma new_calls_in:
  "(n, p) \<in> set (concat (map (\<lambda>(n, d). case d of Call p _ \<Rightarrow> [(n, p)] | _ \<Rightarrow> []) ds)) \<Longrightarrow>
   \<exists>deg. (n, Call p deg) \<in> set ds"
  by (auto split: decision.splits)

lemma run_level_inv:
  assumes inv: "run_inv e D steps0 finished c"
    and lv: "distinct (map s_name level)" "s_name ` set level \<inter> finished = {}"
      "\<forall>s \<in> set level. step_of (s_name s) steps0 \<noteq> None \<and> D (s_name s) \<subseteq> finished"
  shows "run_inv e D steps0 (finished \<union> s_name ` set level) (run_level e level c)"
proof -
  define todo where "todo = filter (\<lambda>s. status_of (s_name s) (cot_steps c) \<notin> {SKIPPED, COMPLETED}) level"
  obtain ds c1 where start: "start_level e todo c = (ds, c1)" by fastforce
  define c2 where "c2 = fold (complete_call e ds todo) (completion_order e (map fst ds)) c1"
  let ?c = "fold (settle_step e) ds c2"
  have run: "run_level e level c = ?c"
    unfolding run_level_def Let_def todo_def [symmetric] start c2_def by simp
  note fr = start_level_frame [OF start]
  have c2: "ctx_of c2 = ctx_of c" "cot_steps c2 = cot_steps c"
    "calls c2 = calls c @ concat (map (\<lambda>(n, d). case d of Call p _ \<Rightarrow> [(n, p)] | _ \<Rightarrow> []) ds)"
    using fr by (simp_all add: c2_def fold_complete_frame)
  have nds: "fst ` set ds = s_name ` set todo" using fr by (metis list.set_map)
  have todo_new: "n \<notin> finished" "status_of n steps0 \<notin> {SKIPPED, COMPLETED}" "D n \<subseteq> finished"
    "\<exists>s. step_of n (cot_steps c) = Some s \<and> s_status s \<noteq> COMPLETED" if "n \<in> s_name ` set todo" for n
  proof -
    from that obtain s where s: "s \<in> set level" "n = s_name s" "status_of n (cot_steps c) \<notin> {SKIPPED, COMPLETED}"
      by (auto simp: todo_def)
    then show "n \<notin> finished" and "D n \<subseteq> finished" using lv(2,3) by auto
    then have same: "step_of n (cot_steps c) = step_of n steps0" using inv by (simp add: run_inv_def)
    then show "status_of n steps0 \<notin> {SKIPPED, COMPLETED}" using s(3) by (simp add: status_of_def)
    obtain s' where "step_of n steps0 = Some s'" using lv(3) s by blast
    with same s(3) show "\<exists>s. step_of n (cot_steps c) = Some s \<and> s_status s \<noteq> COMPLETED"
      by (auto simp: status_of_def)
  qed
  have pre: "coherent c2" "distinct (map fst ds)"
    "\<forall>n \<in> fst ` set ds. map_of (ctx_of c2) n = None \<and> step_of n (cot_steps c2) \<noteq> None"
  proof -
    show "coherent c2" using inv by (simp add: run_inv_def coherent_def c2)
    have "distinct (map s_name todo)" using lv(1) by (auto simp: todo_def intro: distinct_map_filter)
    then show "distinct (map fst ds)" using fr by simp
    show "\<forall>n \<in> fst ` set ds. map_of (ctx_of c2) n = None \<and> step_of n (cot_steps c2) \<noteq> None"
    proof
      fix n assume "n \<in> fst ` set ds"
      then obtain s where s: "step_of n (cot_steps c) = Some s" "s_status s \<noteq> COMPLETED"
        using todo_new(4) unfolding nds by blast
      moreover have "coherent c" using inv by (simp add: run_inv_def)
      ultimately have "map_of (ctx_of c) n = None" by (simp add: coherent_def)
      with s show "map_of (ctx_of c2) n = None \<and> step_of n (cot_steps c2) \<noteq> None" by (simp add: c2)
    qed
  qed
  note eff = fold_settle_effect [OF pre, of e]
  have same: "step_of m (cot_steps ?c) = step_of m (cot_steps c)" if "m \<notin> s_name ` set todo" for m
    using eff that unfolding nds by (simp add: c2)
  have fin: "step_of m (cot_steps ?c) = step_of m (cot_steps c)" if "m \<in> finished" for m
    using same [of m] todo_new(1) that by blast
  have ended: "\<exists>s. step_of n (cot_steps ?c) = Some s \<and> ended s" if "n \<in> finished \<union> s_name ` set level" for n
  proof (cases "n \<in> finished")
    case True
    with inv fin show ?thesis by (simp add: run_inv_def)
  next
    case False
    with that obtain s where s: "s \<in> set level" "n = s_name s" by auto
    show ?thesis
    proof (cases "n \<in> s_name ` set todo")
      case True
      then show ?thesis using eff unfolding nds by blast
    next
      case nin: False
      then have "status_of n (cot_steps c) \<in> {SKIPPED, COMPLETED}" using s by (auto simp: todo_def)
      moreover obtain s' where "step_of n (cot_steps c) = Some s'"
        using lv(3) s False inv by (auto simp: run_inv_def)
      ultimately show ?thesis using same [OF nin] by (auto simp: status_of_def ended_def)
    qed
  qed
  have D: "D n \<subseteq> finished \<union> s_name ` set level" if "n \<in> finished \<union> s_name ` set level" for n
    using that inv lv(3) by (auto simp: run_inv_def)
  have calls: "calls ?c = calls c @ concat (map (\<lambda>(n, d). case d of Call p _ \<Rightarrow> [(n, p)] | _ \<Rightarrow> []) ds)"
    using eff by (simp add: c2)
  let ?new = "concat (map (\<lambda>(n, d). case d of Call p _ \<Rightarrow> [(n, p)] | _ \<Rightarrow> []) ds)"
  have new: "n \<in> s_name ` set todo \<and> p = user_prompt e n (ctx_of c)" if np: "(n, p) \<in> set ?new" for n p
  proof -
    obtain deg where "(n, Call p deg) \<in> set ds" using new_calls_in [OF np] by blast
    moreover have "\<forall>(n, d) \<in> set ds. d = NoPrompt \<or> (\<exists>deg. d = Call (user_prompt e n (ctx_of c)) deg)"
      using fr by simp
    ultimately show ?thesis unfolding nds [symmetric] by force
  qed
  have "distinct (map fst ?new)"
    unfolding new_calls_names using pre(2) by (rule distinct_map_filter)
  moreover have "fst ` set ?new \<inter> fst ` set (calls c) = {}"
  proof -
    have "x \<notin> finished" if "x \<in> fst ` set ?new" for x
    proof -
      from that obtain p where "(x, p) \<in> set ?new" by force
      from new [OF this] show ?thesis using todo_new(1) by blast
    qed
    moreover have "fst ` set (calls c) \<subseteq> finished" using inv by (auto simp: run_inv_def)
    ultimately show ?thesis by blast
  qed
  ultimately have dist: "distinct (map fst (calls ?c))"
    using inv unfolding calls map_append distinct_append by (simp add: run_inv_def Int_commute)
  have old: "good_call e D ?c np" if "np \<in> set (calls c)" for np
  proof -
    have "good_call e D c np" and "D (fst np) \<subseteq> finished" using inv that by (auto simp: run_inv_def)
    then obtain ctx where ctx: "snd np = user_prompt e (fst np) ctx"
      "\<forall>d \<in> D (fst np). \<forall>s. step_of d (cot_steps c) = Some s \<and> s_status s = COMPLETED \<longrightarrow>
         map_of ctx d = Some (s_result s)" unfolding good_call_def by blast
    have "step_of d (cot_steps ?c) = step_of d (cot_steps c)" if "d \<in> D (fst np)" for d
      using fin [of d] \<open>D (fst np) \<subseteq> finished\<close> that by (simp add: subset_iff)
    with ctx show ?thesis unfolding good_call_def by (intro exI [of _ ctx]) simp
  qed
  have fresh: "good_call e D ?c (n, p)" if "(n, p) \<in> set ?new" for n p
  proof -
    have "D n \<subseteq> finished" "p = user_prompt e n (ctx_of c)" using new [OF that] todo_new(3) by blast+
    moreover have "map_of (ctx_of c) d = Some (s_result s)"
      if "d \<in> finished" "step_of d (cot_steps ?c) = Some s" "s_status s = COMPLETED" for d s
      using that fin [OF that(1)] inv by (simp add: run_inv_def coherent_def)
    ultimately show ?thesis unfolding good_call_def by (intro exI [of _ "ctx_of c"]) auto
  qed
  have p1: "fst np \<in> finished \<union> s_name ` set level \<and> status_of (fst np) steps0 \<notin> {SKIPPED, COMPLETED} \<and>
      good_call e D ?c np" if "np \<in> set (calls ?c)" for np
  proof (cases "np \<in> set (calls c)")
    case True
    with inv old show ?thesis by (simp add: run_inv_def)
  next
    case False
    obtain n p where np: "np = (n, p)" by (cases np)
    with False that have "(n, p) \<in> set ?new" by (simp add: calls)
    with new [OF this] fresh [OF this] todo_new(2) [of n] show ?thesis by (auto simp: np todo_def)
  qed
  have p2: "(step_of n (cot_steps ?c) = None) = (step_of n steps0 = None)" for n
  proof (cases "n \<in> s_name ` set todo")
    case True
    then show ?thesis using ended [of n] lv(3) by (auto simp: todo_def)
  next
    case False
    with same inv show ?thesis by (simp add: run_inv_def)
  qed
  have p3: "step_of n (cot_steps ?c) = step_of n steps0" if "n \<notin> finished \<union> s_name ` set level" for n
  proof -
    have "n \<notin> s_name ` set todo" using that by (auto simp: todo_def)
    with same inv that show ?thesis by (simp add: run_inv_def)
  qed
  have p0: "coherent ?c" using eff by simp
  show ?thesis
    unfolding run run_inv_def
    by (intro conjI allI ballI impI p0 p2 p3 D ended dist) (use p1 in \<open>simp_all\<close>)
qed

lemma run_levels_inv:
  assumes "run_inv e D steps0 added c" and "distinct (map s_name todo)" and "s_name ` set todo \<inter> added = {}"
    and "\<forall>s \<in> set todo. step_of (s_name s) steps0 \<noteq> None \<and> D (s_name s) = set (depends_on s)"
  shows "run_inv e D steps0 (added \<union> s_name ` set (concat (levels_from added todo)))
           (fold (run_level e) (levels_from added todo) c)"
  using assms
proof (induction added todo arbitrary: c rule: levels_from.induct)
  case (1 added todo)
  let ?level = "filter (ready added) todo" and ?rest = "filter (\<lambda>s. \<not> ready added s) todo"
  show ?case
  proof (cases "?level = []")
    case True
    then have "levels_from added todo = []" by (simp add: levels_from.simps [of added todo])
    with 1(2) show ?thesis by simp
  next
    case False
    let ?added = "added \<union> s_name ` set ?level"
    from False have eq: "levels_from added todo = ?level # levels_from ?added ?rest"
      by (subst levels_from.simps) (simp only: Let_def if_False)
    have inv: "run_inv e D steps0 ?added (run_level e ?level c)"
    proof (rule run_level_inv [OF 1(2)])
      show "distinct (map s_name ?level)" using 1(3) by (rule distinct_map_filter)
      show "s_name ` set ?level \<inter> added = {}" using 1(4) by auto
      show "\<forall>s \<in> set ?level. step_of (s_name s) steps0 \<noteq> None \<and> D (s_name s) \<subseteq> added"
        using 1(5) by (auto simp: ready_def)
    qed
    have "distinct (map s_name ?rest)" using 1(3) by (rule distinct_map_filter)
    moreover have "s_name ` set ?rest \<inter> ?added = {}"
      using 1(3,4) by (auto simp: distinct_map inj_on_def)
    ultimately have "run_inv e D steps0 (?added \<union> s_name ` set (concat (levels_from ?added ?rest)))
        (fold (run_level e) (levels_from ?added ?rest) (run_level e ?level c))"
      using 1(1) [OF refl False inv] 1(5) by simp
    then show ?thesis unfolding eq by (simp add: image_Un Un_assoc)
  qed
qed

lemma restore_steps:
  "map s_name (fst (restore resume steps)) = map s_name steps"
  "map depends_on (fst (restore resume steps)) = map depends_on steps"
  by (auto simp: restore_def split: option.split)

lemma restore_ctx:
  "map_of (snd (restore resume steps)) n = (if n \<in> s_name ` set steps then map_of resume n else None)"
proof (induction steps rule: rev_induct)
  case Nil
  then show ?case by (simp add: restore_def)
next
  case (snoc s steps)
  then show ?case by (auto simp: restore_def split: option.splits)
qed

lemma step_of_self:
  "distinct (map s_name steps) \<Longrightarrow> s \<in> set steps \<Longrightarrow> step_of (s_name s) steps = Some s"
  by (induction steps) auto

lemma step_of_SomeD: "step_of n steps = Some s \<Longrightarrow> s \<in> set steps \<and> s_name s = n"
  by (metis (mono_tags, lifting) find_Some_iff nth_mem)

lemma restored_step:
  assumes "s \<in> set (fst (restore resume (build_dag planned)))"
  shows "set (depends_on s) = set (snd (the (map_of step_defs (s_name s)))) \<inter> set planned \<and>
     s_name s \<in> set planned \<and>
     (if s_name s \<in> dom (map_of resume) then s_status s = COMPLETED \<and> map_of resume (s_name s) = Some (s_result s)
      else s_status s = PENDING)"
  using assms by (auto simp: restore_def build_dag_def make_step_def Let_def split_def split: option.splits)

definition planned_for :: "string list \<Rightarrow> string \<Rightarrow> string list \<Rightarrow> string list" where
  "planned_for tags complexity errs =
     plan tags complexity (if errs = [] then [] else py_join [CHR 0x0A] (keep_last 3 errs)) errs"

definition needs :: "string \<Rightarrow> string set" where
  "needs n = set (snd (the (map_of step_defs n)))"

lemma reason_run_inv:
  fixes planned resume
  defines "steps \<equiv> fst (restore resume (build_dag planned))"
  defines "ctx \<equiv> snd (restore resume (build_dag planned))"
  defines "D \<equiv> \<lambda>n. if n \<in> set planned then needs n \<inter> set planned else {}"
  assumes sub: "set planned \<subseteq> set ALL_STEPS"
  shows "run_inv e D steps (set planned)
           (fold (run_level e) (topological_levels steps)
              \<lparr>ctx_of = ctx, cot_steps = steps, chain = [], cot_budget = b, calls = []\<rparr>)"
proof -
  let ?c0 = "\<lparr>ctx_of = ctx, cot_steps = steps, chain = [], cot_budget = b, calls = []\<rparr>"
  have names: "map s_name steps = filter (\<lambda>n. n \<in> set planned) ALL_STEPS"
    by (simp add: steps_def restore_steps build_dag_names)
  then have dist: "distinct (map s_name steps)" by (simp add: distinct_ALL_STEPS)
  have nset: "s_name ` set steps = set planned"
    using arg_cong [OF names, of set] sub by auto
  note st = restored_step [of _ resume planned, folded steps_def]
  have "coherent ?c0"
    unfolding coherent_def
  proof (intro allI impI)
    fix n s assume "step_of n (cot_steps ?c0) = Some s"
    then have s: "s \<in> set steps" "s_name s = n" using step_of_SomeD [of n steps s] by simp_all
    then have "n \<in> s_name ` set (build_dag planned)"
      using arg_cong [OF restore_steps(1) [of resume "build_dag planned"], of set] by (auto simp: steps_def)
    then have "map_of ctx n = map_of resume n" by (simp add: ctx_def restore_ctx)
    with st [OF s(1)] s(2) show "map_of (ctx_of ?c0) n = (if s_status s = COMPLETED then Some (s_result s) else None)"
      by (auto split: if_splits)
  qed
  then have inv0: "run_inv e D steps {} ?c0" by (simp add: run_inv_def)
  have D: "\<forall>s \<in> set steps. step_of (s_name s) steps \<noteq> None \<and> D (s_name s) = set (depends_on s)"
    using st step_of_self [OF dist] by (auto simp: D_def needs_def)
  have rank: "\<forall>s \<in> set steps. \<forall>d \<in> set (depends_on s).
      d \<in> {} \<or> d \<in> s_name ` set steps \<and> step_rank d < step_rank (s_name s)"
  proof (intro ballI)
    fix s d assume "s \<in> set steps" "d \<in> set (depends_on s)"
    then have "d \<in> set (snd (the (map_of step_defs (s_name s))))" "d \<in> set planned" "s_name s \<in> set ALL_STEPS"
      using st [of s] sub by auto
    then show "d \<in> {} \<or> d \<in> s_name ` set steps \<and> step_rank d < step_rank (s_name s)"
      using step_defs_ranked nset by blast
  qed
  have "set (concat (levels_from {} steps)) = set steps"
    using levels_from_complete [OF rank] levels_from_distinct [of steps "{}"] dist
    by (auto simp: distinct_map)
  then have "s_name ` set (concat (levels_from {} steps)) = set planned" using nset by simp
  with run_levels_inv [OF inv0 dist _ D] show ?thesis
    by (simp add: topological_levels_def)
qed

lemma restored_not_open:
  assumes "set planned \<subseteq> set ALL_STEPS" and "n \<in> set planned"
    and "status_of n (fst (restore resume (build_dag planned))) \<notin> {SKIPPED, COMPLETED}"
  shows "n \<notin> dom (map_of resume)"
proof -
  define steps where "steps = fst (restore resume (build_dag planned))"
  have "s_name ` set steps = set planned"
    using arg_cong [OF restore_steps(1) [of resume "build_dag planned"], of set]
      arg_cong [OF build_dag_names, of set planned] assms(1) by (auto simp: steps_def)
  then obtain s where s: "s \<in> set steps" "s_name s = n" using assms(2) by (metis imageE)
  have "distinct (map s_name steps)" by (simp add: steps_def restore_steps build_dag_names distinct_ALL_STEPS)
  from step_of_self [OF this s(1)] s have "status_of n steps = s_status s" by (simp add: status_of_def)
  then have "s_status s \<notin> {SKIPPED, COMPLETED}" using assms(3) by (simp add: steps_def)
  then show ?thesis using restored_step [OF s(1) [unfolded steps_def]] unfolding s(2) by (auto split: if_splits)
qed


definition echo_env :: env where
  "echo_env =
     \<lparr>system_prompt = (\<lambda>_. []), user_prompt = (\<lambda>n ctx. n @ concat (map snd ctx)),
      llm = (\<lambda>n p _. if n = ''stack'' then Inl ''down''
                      else Inr \<lparr>content = n, finish_reason = ''stop'', reply_tokens = Some 10\<rparr>),
      has_router = False, completion_order = rev\<rparr>"


text \<open>
  The hard cap of the token budget is not enforced: even when the budget answers \<open>REJECT\<close> for
  a step, a step with a prompt is sent to the language model, because only the answer \<open>SKIP\<close>, which
  the budget never gives, makes the engine skip a step.
\<close>

theorem hard_cap_not_enforced:
  assumes "user_prompt e (s_name step) ctx \<noteq> []"
  shows "\<exists>deg b'. start_step e ctx step (Some b) = (Call (user_prompt e (s_name step) ctx) deg, Some b') \<and>
           used b' = used b"
  using assms
  by (auto simp: start_step_def check_def should_degrade_def Let_def)

theorem hard_cap_not_enforced_witness:
  "fst (check 0 ''codegen'' ((new_budget 100 (7 / 10) (95 / 100))\<lparr>used := 200\<rparr>)) = REJECT \<and>
   (\<exists>deg b'. start_step echo_env [] (make_step [] ''codegen'')
      (Some ((new_budget 100 (7 / 10) (95 / 100))\<lparr>used := 200\<rparr>)) = (Call ''codegen'' deg, Some b'))"
proof (rule conjI)
  show "fst (check 0 ''codegen'' ((new_budget 100 (7 / 10) (95 / 100))\<lparr>used := 200\<rparr>)) = REJECT"
    by code_simp
  have p: "user_prompt echo_env (s_name (make_step [] ''codegen'')) [] = ''codegen''" by code_simp
  then have "user_prompt echo_env (s_name (make_step [] ''codegen'')) [] \<noteq> []" by simp
  from hard_cap_not_enforced [OF this] show "\<exists>deg b'. start_step echo_env [] (make_step [] ''codegen'')
      (Some ((new_budget 100 (7 / 10) (95 / 100))\<lparr>used := 200\<rparr>)) = (Call ''codegen'' deg, Some b')"
    unfolding p by blast
qed

section \<open>Reflexion\<close>

record reflexion =
  attempt :: nat
  last_errors :: "string list"
  max_attempts :: nat

text \<open>
  The retry loop around \<open>reason\<close>. The budget object is shared by the attempts; the third component
  of the result lists the runs.
\<close>

function reflexion_loop ::
  "(string list \<Rightarrow> budget option \<Rightarrow> cot) \<Rightarrow> string \<Rightarrow> reflexion \<Rightarrow> budget option \<Rightarrow> (string, string) dict \<Rightarrow> cot list
   \<Rightarrow> (string, string) dict \<times> reflexion option \<times> cot list" where
  "reflexion_loop run judge_feedback st b last_context runs =
     (if attempt st \<le> max_attempts st then
        (let c = run (if 1 < attempt st then last_errors st else []) b;
             st' = st\<lparr>attempt := attempt st + 1\<rparr>
         in if judge_feedback = [] \<or> max_attempts st' < attempt st'
            then (ctx_of c, (if 2 < attempt st' then Some st' else None), runs @ [c])
            else
              reflexion_loop run judge_feedback
                (st'\<lparr>last_errors := last_errors st' @
                   [''Attempt '' @ show_nat (attempt st' - 1) @ '' judge: '' @ take 200 judge_feedback]\<rparr>)
                (cot_budget c) (ctx_of c) (runs @ [c]))
      else (last_context, Some st, runs))"
  by pat_completeness auto
termination
  by (relation "measure (\<lambda>(run, j, st, b, ctx, runs). Suc (max_attempts st) - attempt st)") auto

declare reflexion_loop.simps [simp del]

definition reason_with_reflexion ::
  "env \<Rightarrow> string list \<Rightarrow> string \<Rightarrow> string \<Rightarrow> budget option \<Rightarrow> (string, string) dict \<times> reflexion option \<times> cot list" where
  "reason_with_reflexion e tags complexity judge_feedback b =
     reflexion_loop (\<lambda>errs b. reason_run e tags complexity errs [] b) judge_feedback
       \<lparr>attempt = 1, last_errors = [], max_attempts = 3\<rparr> b [] []"

text \<open>
  The number of attempts does not depend on their outcome: without judge feedback there is
  exactly one run and no Reflexion state is returned; with feedback there are exactly three runs,
  even if all steps of the first one completed, each with the errors of the earlier ones, and the
  context of the last one is returned.
\<close>

theorem reflexion_attempts:
  "let (ctx, st, runs) = reason_with_reflexion e tags complexity feedback b
   in runs \<noteq> [] \<and> ctx = ctx_of (last runs) \<and>
      length runs = (if feedback = [] then 1 else 3) \<and>
      (st = None \<longleftrightarrow> feedback = []) \<and>
      (\<forall>s. st = Some s \<longrightarrow> attempt s = 4 \<and> length (last_errors s) = 2)"
  unfolding reason_with_reflexion_def
  by (subst reflexion_loop.simps, subst reflexion_loop.simps, subst reflexion_loop.simps)
     (simp add: Let_def)

theorem reflexion_attempts_witness:
  "length (snd (snd (reason_with_reflexion echo_env [] ''simple'' ''bad'' None))) = 3"
  using reflexion_attempts [of echo_env "[]" "''simple''" "''bad''" None] by (simp add: Let_def split_def)

end
