(* ===== verification/Http_Guard.thy ===== *)
theory Http_Guard
  imports Prelude "HOL-Library.Char_ord"
begin

text \<open>
  The guards in front of the HTTP API: the API key check (\<open>api/auth.py\<close>) and the sliding-window
  rate limiter (\<open>api/rate_limit.py\<close>), composed as the server does it, with the key check outside
  the limiter (the middleware that is added last is applied first).

  The IP-range test of trusted proxies, the SHA-256 hex digest of a key and the answers of the
  Redis server are parameters; the clock readings are arguments. Strings of headers are lists of
  code points below 256, as the server decodes them.
\<close>

section \<open>Sliding window\<close>

record limiter =
  window :: int
  max_requests :: int
  hits :: "(string, py_float list) dict"

record headers =
  h_limit :: int
  h_remaining :: int
  h_reset :: int
  h_retry_after :: "int option"

definition new_limiter :: "int \<Rightarrow> int \<Rightarrow> limiter" where
  "new_limiter w m = \<lparr>window = w, max_requests = m, hits = []\<rparr>"

definition prune :: "string \<Rightarrow> py_float \<Rightarrow> limiter \<Rightarrow> limiter" where
  "prune key now l =
     (let cutoff = now - of_int (window l); old = dict_get (hits l) key []
      in if old = [] then l
         else
           (let kept = filter (\<lambda>t. cutoff < t) old
            in if kept = [] then l\<lparr>hits := dict_del key (hits l)\<rparr>
               else l\<lparr>hits := dict_set key kept (hits l)\<rparr>))"

text \<open>
  \<open>allow\<close> gives the answer with its headers and the new state. For a limit of zero (or less) the
  code reads the oldest of no hits, which raises \<open>IndexError\<close> (and leaves an empty list behind).
\<close>

definition allow :: "py_float \<Rightarrow> string \<Rightarrow> limiter \<Rightarrow> (bool \<times> headers) result \<times> limiter" where
  "allow now key l0 =
     (let l = prune key now l0;
          mine = dict_get (hits l) key [];
          current = int (length mine);
          reset_at = py_trunc (now + of_int (window l))
      in if max_requests l \<le> current then
           (case mine of
              [] \<Rightarrow> (Inl IndexError, l\<lparr>hits := dict_set key [] (hits l)\<rparr>)
            | t # _ \<Rightarrow>
                (Inr (False, \<lparr>h_limit = max_requests l, h_remaining = 0, h_reset = reset_at,
                       h_retry_after = Some (py_trunc (of_int (window l) - (now - t)) + 1)\<rparr>), l))
         else
           (Inr (True, \<lparr>h_limit = max_requests l, h_remaining = max 0 (max_requests l - current) - 1,
                  h_reset = reset_at, h_retry_after = None\<rparr>),
            l\<lparr>hits := dict_set key (mine @ [now]) (hits l)\<rparr>))"

definition cleanup :: "py_float \<Rightarrow> limiter \<Rightarrow> limiter" where
  "cleanup now l =
     (let cutoff = now - of_int (window l) * 2
      in l\<lparr>hits := filter (\<lambda>(_, v). \<not> (v = [] \<or> Max (set v) < cutoff)) (hits l)\<rparr>)"

section \<open>Redis variant\<close>

text \<open>
  What the Redis commands of one call returned: the number of members left after the removal of
  the old ones, and the score of the oldest one. Nothing when Redis is not reachable or a command
  raised: then the in-memory limiter answers.
\<close>

record redis_answers =
  zcard :: int
  oldest_score :: "py_float option"

definition redis_allow ::
  "redis_answers option \<Rightarrow> py_float \<Rightarrow> py_float \<Rightarrow> string \<Rightarrow> limiter \<Rightarrow> (bool \<times> headers) result \<times> limiter" where
  "redis_allow answers now tick key fallback =
     (case answers of
        None \<Rightarrow> allow tick key fallback
      | Some r \<Rightarrow>
          (let reset_at = py_trunc (now + of_int (window fallback))
           in if max_requests fallback \<le> zcard r then
                (let retry_after = (case oldest_score r of
                       Some t \<Rightarrow> of_int (window fallback) - (now - t) | None \<Rightarrow> of_int (window fallback))
                 in (Inr (False, \<lparr>h_limit = max_requests fallback, h_remaining = 0, h_reset = reset_at,
                        h_retry_after = Some (py_trunc retry_after + 1)\<rparr>), fallback))
              else
                (Inr (True, \<lparr>h_limit = max_requests fallback,
                       h_remaining = max 0 (max_requests fallback - zcard r - 1),
                       h_reset = reset_at, h_retry_after = None\<rparr>), fallback)))"

section \<open>Requests\<close>

record request =
  path :: string
  key_header :: string
  peer :: "string option"
  forwarded_for :: string

definition PUBLIC_PATHS :: "string list" where
  "PUBLIC_PATHS = [''/'', ''/health'', ''/ready'', ''/docs'', ''/openapi.json'', ''/redoc'']"

definition first_field :: "string \<Rightarrow> string" where
  "first_field s = takeWhile (\<lambda>c. c \<noteq> CHR '','') s"

definition client_key :: "(string \<Rightarrow> bool) \<Rightarrow> (string \<Rightarrow> string) \<Rightarrow> request \<Rightarrow> string" where
  "client_key trusted sha256_hex req =
     (if key_header req \<noteq> [] then ''k:'' @ sha256_hex (key_header req)
      else
        (let peer_host = (case peer req of None \<Rightarrow> [] | Some h \<Rightarrow> h)
         in if forwarded_for req \<noteq> [] \<and> peer_host \<noteq> [] \<and> trusted peer_host
            then ''ip:'' @ strip (first_field (forwarded_for req))
            else ''ip:'' @ (if peer_host = [] then ''unknown'' else peer_host)))"

datatype limited = LimitPass "headers option" | Limited headers

definition dispatch_limit ::
  "bool \<Rightarrow> (string \<Rightarrow> bool) \<Rightarrow> (string \<Rightarrow> string) \<Rightarrow> py_float \<Rightarrow> request \<Rightarrow> limiter \<Rightarrow> limited result \<times> limiter" where
  "dispatch_limit enabled trusted sha256_hex now req l =
     (if \<not> enabled \<or> path req \<in> set PUBLIC_PATHS then (Inr (LimitPass None), l)
      else
        (let (answer, l') = allow now (client_key trusted sha256_hex req) l
         in (map_res (\<lambda>(allowed, hs). if allowed then LimitPass (Some hs) else Limited hs) answer, l')))"

section \<open>Authentication\<close>

record auth_settings =
  api_keys :: "(string \<times> string) list"
  master_key :: string

datatype auth_answer = MissingKey | InvalidKey | AuthPass "string option"

text \<open>\<open>secrets.compare_digest\<close> of two strings raises \<open>TypeError\<close> unless both are ASCII.\<close>

definition is_ascii :: "string \<Rightarrow> bool" where
  "is_ascii s = (\<forall>c \<in> set s. of_char c < (128 :: nat))"

definition compare_digest :: "string \<Rightarrow> string \<Rightarrow> bool result" where
  "compare_digest a b = (if is_ascii a \<and> is_ascii b then Inr (a = b) else Inl TypeError)"

fun find_binding :: "string \<Rightarrow> (string \<times> string) list \<Rightarrow> string option result" where
  "find_binding provided [] = Inr None"
| "find_binding provided ((expected, tenant) # bindings) =
     (if expected = [] then find_binding provided bindings
      else
        bind_res (compare_digest provided expected) (\<lambda>same.
          if same then Inr (Some tenant) else find_binding provided bindings))"

definition authenticate :: "auth_settings \<Rightarrow> request \<Rightarrow> auth_answer result" where
  "authenticate s req =
     (if path req \<in> set PUBLIC_PATHS then Inr (AuthPass None)
      else if api_keys s \<noteq> [] then
        if key_header req = [] then Inr MissingKey
        else
          map_res (\<lambda>t. case t of None \<Rightarrow> InvalidKey | Some tenant \<Rightarrow> AuthPass (Some tenant))
            (find_binding (key_header req) (api_keys s))
      else if master_key s \<noteq> [] then
        if key_header req = [] then Inr MissingKey
        else
          map_res (\<lambda>same. if same then AuthPass (Some ''default'') else InvalidKey)
            (compare_digest (key_header req) (master_key s))
      else Inr (AuthPass None))"

datatype response = Response401 | Response403 | Response429 headers | Handled "string option"

definition guard ::
  "auth_settings \<Rightarrow> bool \<Rightarrow> (string \<Rightarrow> bool) \<Rightarrow> (string \<Rightarrow> string) \<Rightarrow> py_float \<Rightarrow> request \<Rightarrow> limiter
   \<Rightarrow> response result \<times> limiter" where
  "guard s enabled trusted sha256_hex now req l =
     (case authenticate s req of
        Inl e \<Rightarrow> (Inl e, l)
      | Inr MissingKey \<Rightarrow> (Inr Response401, l)
      | Inr InvalidKey \<Rightarrow> (Inr Response403, l)
      | Inr (AuthPass tenant) \<Rightarrow>
          (let (answer, l') = dispatch_limit enabled trusted sha256_hex now req l
           in (map_res (\<lambda>a. case a of LimitPass _ \<Rightarrow> Handled tenant | Limited hs \<Rightarrow> Response429 hs) answer, l')))"

section \<open>The limiter implements the sliding window\<close>

text \<open>
  The abstract limiter keeps the whole history of the requests it admitted; a request is admitted
  when fewer than the limit were admitted in the window before it.
\<close>

type_synonym history = "(string \<times> py_float) list"

definition in_window :: "int \<Rightarrow> py_float \<Rightarrow> string \<Rightarrow> history \<Rightarrow> py_float list" where
  "in_window w now key h = map snd (filter (\<lambda>(k, t). k = key \<and> now - of_int w < t) h)"

datatype limiter_event = Request string | Cleanup

fun limiter_step :: "py_float \<times> limiter_event \<Rightarrow> limiter \<times> history \<Rightarrow> limiter \<times> history" where
  "limiter_step (now, Request key) (l, h) =
     (case allow now key l of
        (Inr (True, _), l') \<Rightarrow> (l', h @ [(key, now)])
      | (_, l') \<Rightarrow> (l', h))"
| "limiter_step (now, Cleanup) (l, h) = (cleanup now l, h)"

definition refines :: "py_float \<Rightarrow> limiter \<times> history \<Rightarrow> bool" where
  "refines now lh =
     (let (l, h) = lh
      in wf_dict (hits l) \<and> (\<forall>(_, t) \<in> set h. t \<le> now) \<and>
         (\<forall>key. filter (\<lambda>t. now - of_int (window l) < t) (dict_get (hits l) key []) =
                in_window (window l) now key h))"

lemma filter_later:
  "t0 \<le> t \<Longrightarrow> filter (\<lambda>x. t - w < x) (filter (\<lambda>x. t0 - w < x) xs) = filter (\<lambda>x. t - (w :: rat) < x) xs"
  by (auto simp: filter_filter intro!: filter_cong)

lemma in_window_later:
  "t0 \<le> t \<Longrightarrow> filter (\<lambda>x. t - of_int w < x) (in_window w t0 key h) = in_window w t key h"
  unfolding in_window_def by (induction h) (auto split: prod.splits)

lemma refines_later: "refines t0 lh \<Longrightarrow> t0 \<le> t \<Longrightarrow> refines t lh"
proof -
  assume r: "refines t0 lh" and le: "t0 \<le> t"
  obtain l h where lh: "lh = (l, h)" by (cases lh)
  have "filter (\<lambda>x. t - of_int (window l) < x) (dict_get (hits l) key []) = in_window (window l) t key h" for key
  proof -
    have "filter (\<lambda>x. t - of_int (window l) < x) (dict_get (hits l) key []) =
        filter (\<lambda>x. t - of_int (window l) < x) (filter (\<lambda>x. t0 - of_int (window l) < x) (dict_get (hits l) key []))"
      using le by (simp only: filter_later)
    also have "\<dots> = filter (\<lambda>x. t - of_int (window l) < x) (in_window (window l) t0 key h)"
      using r by (simp add: refines_def lh)
    finally show ?thesis using le by (simp only: in_window_later)
  qed
  then show ?thesis using r le by (fastforce simp: refines_def lh)
qed

lemma prune_effect:
  assumes "wf_dict (hits l)"
  shows "wf_dict (hits (prune key now l)) \<and> window (prune key now l) = window l \<and>
     max_requests (prune key now l) = max_requests l \<and>
     dict_get (hits (prune key now l)) key [] = filter (\<lambda>t. now - of_int (window l) < t) (dict_get (hits l) key []) \<and>
     (\<forall>k. k \<noteq> key \<longrightarrow> dict_get (hits (prune key now l)) k [] = dict_get (hits l) k [])"
  using assms by (auto simp: prune_def Let_def dict_get_def)

lemma refines_set:
  assumes "wf_dict (hits p)" and "\<forall>(_, t) \<in> set h. t \<le> now"
    and "\<And>k. k \<noteq> key \<Longrightarrow> filter (\<lambda>t. now - of_int (window p) < t) (dict_get (hits p) k []) = in_window (window p) now k h"
    and "filter (\<lambda>t. now - of_int (window p) < t) xs = in_window (window p) now key h"
  shows "refines now (p\<lparr>hits := dict_set key xs (hits p)\<rparr>, h)"
proof -
  have "dict_get (dict_set key xs (hits p)) k [] = (if k = key then xs else dict_get (hits p) k [])" for k
    by (simp add: dict_get_def)
  with assms show ?thesis by (simp add: refines_def)
qed

lemma in_window_snoc:
  "in_window w now k (h @ [(key, now)]) =
     in_window w now k h @ (if k = key \<and> now - of_int w < now then [now] else [])"
  by (simp add: in_window_def)

lemma in_window_filter:
  "filter (\<lambda>t. now - of_int w < t) (in_window w now k h) = in_window w now k h"
  using in_window_later [of now now w k h] by simp

lemma allow_refines:
  assumes "refines now (l, h)"
  shows "let (answer, l') = allow now key l; n = int (length (in_window (window l) now key h))
         in window l' = window l \<and> max_requests l' = max_requests l \<and>
            (\<forall>allowed hs. answer = Inr (allowed, hs) \<longrightarrow> allowed = (n < max_requests l) \<and>
               (allowed \<longrightarrow> h_remaining hs = max_requests l - n - 1) \<and>
               refines now (l', if allowed then h @ [(key, now)] else h)) \<and>
            (\<forall>e. answer = Inl e \<longrightarrow> n = 0 \<and> max_requests l \<le> 0 \<and> refines now (l', h))"
proof -
  define p where "p = prune key now l"
  define mine where "mine = dict_get (hits p) key []"
  have wf: "wf_dict (hits l)" and old: "\<forall>(_, t) \<in> set h. t \<le> now"
    and win: "\<And>k. filter (\<lambda>t. now - of_int (window l) < t) (dict_get (hits l) k []) = in_window (window l) now k h"
    using assms by (auto simp: refines_def)
  note pe = prune_effect [OF wf, of key now, folded p_def]
  have mine: "mine = in_window (window l) now key h" using pe win by (simp add: mine_def)
  have other: "filter (\<lambda>t. now - of_int (window l) < t) (dict_get (hits p) k []) = in_window (window l) now k h"
    for k
  proof (cases "k = key")
    case True
    then show ?thesis using mine by (simp add: mine_def in_window_def filter_map o_def split_def)
  next
    case False
    then show ?thesis using pe win by simp
  qed
  have rp: "refines now (p, h)"
    using pe old other by (auto simp: refines_def)
  have win_p: "window p = window l" "max_requests p = max_requests l" "wf_dict (hits p)" using pe by simp_all
  have rd: "refines now (p\<lparr>hits := dict_set key [] (hits p)\<rparr>, h)" if "mine = []"
    using that mine other win_p old by (intro refines_set) simp_all
  have ra: "refines now (p\<lparr>hits := dict_set key (mine @ [now]) (hits p)\<rparr>, h @ [(key, now)])"
    using other win_p old mine
    by (intro refines_set) (auto simp: in_window_snoc in_window_filter)
  show ?thesis
  proof (cases "max_requests l \<le> int (length mine)")
    case full: True
    show ?thesis
    proof (cases mine)
      case Nil
      then have "allow now key l = (Inl IndexError, p\<lparr>hits := dict_set key [] (hits p)\<rparr>)"
        using full by (simp add: allow_def p_def [symmetric] mine_def [symmetric] win_p Let_def)
      with Nil full rd win_p mine show ?thesis by simp
    next
      case (Cons t ts)
      then have "fst (allow now key l) = Inr (False, \<lparr>h_limit = max_requests p, h_remaining = 0,
          h_reset = py_trunc (now + of_int (window p)),
          h_retry_after = Some (py_trunc (of_int (window p) - (now - t)) + 1)\<rparr>)" "snd (allow now key l) = p"
        using full by (simp_all add: allow_def p_def [symmetric] mine_def [symmetric] win_p Let_def)
      with full rp win_p mine show ?thesis by (cases "allow now key l") simp
    qed
  next
    case False
    then have "fst (allow now key l) = Inr (True, \<lparr>h_limit = max_requests p,
        h_remaining = max 0 (max_requests p - int (length mine)) - 1,
        h_reset = py_trunc (now + of_int (window p)), h_retry_after = None\<rparr>)"
      "snd (allow now key l) = p\<lparr>hits := dict_set key (mine @ [now]) (hits p)\<rparr>"
      by (simp_all add: allow_def p_def [symmetric] mine_def [symmetric] win_p Let_def)
    with False ra win_p mine show ?thesis by (cases "allow now key l") simp
  qed
qed

lemma map_of_filter_values:
  assumes "wf_dict d"
  shows "map_of (filter (\<lambda>(_, v). P v) d) k = (case map_of d k of None \<Rightarrow> None | Some v \<Rightarrow> if P v then Some v else None)"
  using assms
proof (induction d)
  case (Cons p d)
  obtain k' v where p: "p = (k', v)" by (cases p)
  have "k' \<notin> fst ` set d" and IH: "map_of (filter (\<lambda>(_, v). P v) d) k =
      (case map_of d k of None \<Rightarrow> None | Some v \<Rightarrow> if P v then Some v else None)"
    using Cons by (auto simp: p wf_dict_def)
  moreover have "map_of d k' = None" using calculation(1) by (simp add: map_of_eq_None_iff)
  ultimately show ?case by (auto simp: p)
qed simp

lemma cleanup_refines:
  assumes "refines now (l, h)" and "0 \<le> window l"
  shows "refines now (cleanup now l, h) \<and> window (cleanup now l) = window l \<and>
         max_requests (cleanup now l) = max_requests l"
proof -
  define stale where "stale = (\<lambda>v :: py_float list. v = [] \<or> Max (set v) < now - of_int (window l) * 2)"
  have hits: "hits (cleanup now l) = filter (\<lambda>(_, v). \<not> stale v) (hits l)"
    by (simp add: cleanup_def stale_def Let_def)
  have wf: "wf_dict (hits l)" using assms(1) by (simp add: refines_def)
  have get: "dict_get (filter (\<lambda>(_, v). \<not> stale v) d) k [] =
      (if stale (dict_get d k []) then [] else dict_get d k [])" if "wf_dict d" for d k
    unfolding dict_get_def map_of_filter_values [OF that] by (auto simp: stale_def split: option.split)
  have "filter (\<lambda>t. now - of_int (window l) < t) v = []" if "stale v" for v
  proof -
    have "t \<le> now - of_int (window l)" if "t \<in> set v" for t
    proof -
      have "v \<noteq> []" using that by auto
      with \<open>stale v\<close> have "Max (set v) < now - of_int (window l) * 2" by (simp add: stale_def)
      moreover have "t \<le> Max (set v)" using that by simp
      moreover have "(0 :: rat) \<le> of_int (window l)" using assms(2) by simp
      ultimately show ?thesis by linarith
    qed
    then show ?thesis by (auto simp: filter_empty_conv not_less)
  qed
  then have "filter (\<lambda>t. now - of_int (window l) < t) (dict_get (hits (cleanup now l)) k []) =
      filter (\<lambda>t. now - of_int (window l) < t) (dict_get (hits l) k [])" for k
    unfolding hits get [OF wf] by simp
  moreover have "wf_dict (hits (cleanup now l))"
    using wf unfolding hits wf_dict_def by (rule distinct_map_filter)
  ultimately show ?thesis
    using assms(1) by (simp add: refines_def cleanup_def Let_def)
qed

lemma limiter_step_refines:
  assumes "refines t0 (l, h)" and "t0 \<le> now" and "0 \<le> window l"
  shows "let (l', h') = limiter_step (now, ev) (l, h)
         in refines now (l', h') \<and> window l' = window l \<and> max_requests l' = max_requests l \<and>
            (h' = h \<or> (\<exists>key. ev = Request key \<and> h' = h @ [(key, now)] \<and>
               int (length (in_window (window l) now key h)) < max_requests l))"
proof (cases ev)
  case Cleanup
  with cleanup_refines [OF refines_later [OF assms(1,2)] assms(3)] show ?thesis by simp
next
  case (Request key)
  obtain answer l' where a: "allow now key l = (answer, l')" by fastforce
  note ar = allow_refines [OF refines_later [OF assms(1,2)], of key, unfolded a Let_def split_conv]
  show ?thesis
  proof (cases answer)
    case (Inl e)
    then have "limiter_step (now, ev) (l, h) = (l', h)" by (simp add: Request a)
    with ar Inl show ?thesis by simp
  next
    case (Inr r)
    obtain allowed hs where r: "r = (allowed, hs)" by (cases r)
    have "limiter_step (now, ev) (l, h) = (l', if allowed then h @ [(key, now)] else h)"
      by (cases allowed) (simp_all add: Request a Inr r)
    with ar Inr r Request show ?thesis by (cases allowed) auto
  qed
qed

definition limiter_run :: "(py_float \<times> limiter_event) list \<Rightarrow> limiter \<Rightarrow> limiter \<times> history" where
  "limiter_run evs l = foldl (\<lambda>s ev. limiter_step ev s) (l, []) evs"

lemma limiter_run_inv:
  assumes "sorted (map fst evs)" and "0 \<le> w" and "evs \<noteq> []"
  shows "let (l, h) = limiter_run evs (new_limiter w m)
         in refines (fst (last evs)) (l, h) \<and> window l = w \<and> max_requests l = m \<and> sorted (map snd h) \<and>
            (\<forall>i < length h. int (length (in_window w (snd (h ! i)) (fst (h ! i)) (take i h))) < m)"
  using assms
proof (induction evs rule: rev_induct)
  case Nil
  then show ?case by simp
next
  case (snoc ev evs)
  obtain now e where ev: "ev = (now, e)" by (cases ev)
  obtain l h where run: "limiter_run evs (new_limiter w m) = (l, h)" by fastforce
  have prev: "\<exists>t0 \<le> now. refines t0 (l, h) \<and> window l = w \<and> max_requests l = m \<and> sorted (map snd h) \<and>
      (\<forall>(_, t) \<in> set h. t \<le> t0) \<and>
      (\<forall>i < length h. int (length (in_window w (snd (h ! i)) (fst (h ! i)) (take i h))) < m)"
  proof (cases "evs = []")
    case True
    with run have "l = new_limiter w m" "h = []" by (simp_all add: limiter_run_def)
    then show ?thesis
      by (intro exI [of _ now]) (simp add: refines_def new_limiter_def in_window_def dict_get_def)
  next
    case False
    have "fst (last evs) \<le> now" using snoc.prems(1) False by (simp add: ev sorted_append)
    moreover have "sorted (map fst evs)" using snoc.prems(1) by (simp add: sorted_append)
    ultimately show ?thesis
      using snoc.IH [OF _ snoc.prems(2) False] run
      by (intro exI [of _ "fst (last evs)"]) (auto simp: refines_def)
  qed
  then obtain t0 where t0: "t0 \<le> now" "refines t0 (l, h)" "window l = w" "max_requests l = m"
    "sorted (map snd h)" "\<forall>(_, t) \<in> set h. t \<le> t0"
    "\<forall>i < length h. int (length (in_window w (snd (h ! i)) (fst (h ! i)) (take i h))) < m" by blast
  obtain l' h' where step: "limiter_step (now, e) (l, h) = (l', h')" by fastforce
  have run': "limiter_run (evs @ [ev]) (new_limiter w m) = (l', h')"
    using run step by (simp add: limiter_run_def ev)
  have res: "refines now (l', h')" "window l' = w" "max_requests l' = m"
    "h' = h \<or> (\<exists>key. h' = h @ [(key, now)] \<and> int (length (in_window w now key h)) < m)"
    using limiter_step_refines [OF t0(2,1), of e] snoc.prems(2) t0(3,4) by (auto simp: step Let_def)
  from res(4) show ?case
  proof
    assume "h' = h"
    with res(1-3) t0 show ?thesis unfolding run' Let_def split_conv by (simp add: ev)
  next
    assume "\<exists>key. h' = h @ [(key, now)] \<and> int (length (in_window w now key h)) < m"
    then obtain key where h': "h' = h @ [(key, now)]" "int (length (in_window w now key h)) < m" by blast
    have "sorted (map snd h')"
      using t0(1,5,6) by (fastforce simp: h'(1) sorted_append)
    moreover have "\<forall>i < length h'. int (length (in_window w (snd (h' ! i)) (fst (h' ! i)) (take i h'))) < m"
      using t0(7) h'(2) by (auto simp: h'(1) less_Suc_eq nth_append)
    ultimately show ?thesis using res(1-3) unfolding run' Let_def split_conv by (simp add: ev)
  qed
qed

lemma last_match_split:
  assumes "filter P h \<noteq> []"
  obtains i where "i < length h" and "P (h ! i)" and "filter P h = filter P (take i h) @ [h ! i]"
  using assms
proof (induction h arbitrary: thesis rule: rev_induct)
  case Nil
  then show ?case by simp
next
  case (snoc x h)
  show ?case
  proof (cases "P x")
    case True
    then show ?thesis by (intro snoc.prems(1) [of "length h"]) simp_all
  next
    case False
    then have "filter P h \<noteq> []" using snoc.prems(2) by simp
    from snoc.IH [OF _ this] obtain i where "i < length h" "P (h ! i)" "filter P h = filter P (take i h) @ [h ! i]"
      by blast
    then show ?thesis using False by (intro snoc.prems(1) [of i]) (simp_all add: nth_append)
  qed
qed

text \<open>
  (C31) The rate limit holds over every window: whatever requests and clean-ups arrive, in any span of
  \<open>window\<close> seconds, wherever it starts, at most \<open>max_requests\<close> requests of one client are admitted.
\<close>

theorem sliding_window_limit:
  assumes "sorted (map fst evs)" and "0 \<le> w" and "0 \<le> m"
  shows "int (length (filter (\<lambda>(k, t). k = key \<and> stop - of_int w < t \<and> t \<le> stop)
           (snd (limiter_run evs (new_limiter w m))))) \<le> m"
proof (cases "evs = []")
  case True
  then show ?thesis using assms(3) by (simp add: limiter_run_def)
next
  case False
  define h where "h = snd (limiter_run evs (new_limiter w m))"
  define P where "P = (\<lambda>(k, t). k = key \<and> stop - of_int w < t \<and> t \<le> (stop :: py_float))"
  have each: "\<forall>i < length h. int (length (in_window w (snd (h ! i)) (fst (h ! i)) (take i h))) < m"
    using limiter_run_inv [OF assms(1,2) False, of m] by (simp add: h_def Let_def split_def)
  show ?thesis
  proof (cases "filter P h = []")
    case True
    then show ?thesis using assms(3) by (simp add: h_def P_def)
  next
    case False
    then obtain i where i: "i < length h" "P (h ! i)" "filter P h = filter P (take i h) @ [h ! i]"
      by (rule last_match_split)
    have "length (filter P (take i h)) \<le> length (filter (\<lambda>(k, t). k = fst (h ! i) \<and> snd (h ! i) - of_int w < t) (take i h))"
    proof -
      have "filter P (take i h) = filter P (filter (\<lambda>(k, t). k = fst (h ! i) \<and> snd (h ! i) - of_int w < t) (take i h))"
        unfolding filter_filter using i(2) by (intro filter_cong) (auto simp: P_def)
      then show ?thesis by (metis length_filter_le)
    qed
    also have "\<dots> = length (in_window w (snd (h ! i)) (fst (h ! i)) (take i h))" by (simp add: in_window_def)
    finally have "int (length (filter P h)) \<le> m" using each i by fastforce
    then show ?thesis by (simp add: h_def P_def)
  qed
qed

theorem sliding_window_limit_witness:
  "int (length (filter (\<lambda>(k, t). k = ''a'' \<and> 70 - of_int 60 < t \<and> t \<le> 70)
     (snd (limiter_run [(1, Request ''a''), (2, Request ''a''), (3, Request ''a''), (65, Request ''a'')] (new_limiter 60 2))))) \<le> 2"
  using sliding_window_limit [of "[(1, Request ''a''), (2, Request ''a''), (3, Request ''a''), (65, Request ''a'')]" 60 2 "''a''" 70]
  by simp

text \<open>
  (C32) The counter implements the sliding-window specification: after any sequence of requests and
  clean-ups, a request is admitted exactly when fewer than \<open>max_requests\<close> requests of its client
  were admitted within the last \<open>window\<close> seconds; the header of remaining requests is the exact
  number left, and with a positive limit (which the settings require) the call never raises.
\<close>

theorem allow_decides_sliding_window:
  assumes "sorted (map fst evs)" and "\<forall>t \<in> fst ` set evs. t \<le> now" and "0 \<le> w" and "0 < m"
  shows "let (l, h) = limiter_run evs (new_limiter w m); n = int (length (in_window w now key h))
         in \<exists>hs. fst (allow now key l) = Inr (n < m, hs) \<and> (n < m \<longrightarrow> h_remaining hs = m - n - 1) \<and>
              (m \<le> n \<longrightarrow> h_retry_after hs \<noteq> None)"
proof -
  obtain l h where run: "limiter_run evs (new_limiter w m) = (l, h)" by fastforce
  have inv: "refines now (l, h) \<and> window l = w \<and> max_requests l = m"
  proof (cases "evs = []")
    case True
    with run have "l = new_limiter w m" "h = []" by (simp_all add: limiter_run_def)
    then show ?thesis by (simp add: refines_def new_limiter_def in_window_def dict_get_def)
  next
    case False
    then have "fst (last evs) \<le> now" using assms(2) by simp
    then show ?thesis
      using limiter_run_inv [OF assms(1,3) False, of m] refines_later [of "fst (last evs)" "(l, h)" now] by (simp add: run)
  qed
  obtain answer l' where a: "allow now key l = (answer, l')" by fastforce
  note ar = allow_refines [OF conjunct1 [OF inv], of key, unfolded a Let_def split_conv]
  obtain allowed hs where ans: "answer = Inr (allowed, hs)" using ar inv assms(4) by (cases answer) fastforce+
  have retry: "\<not> allowed \<Longrightarrow> h_retry_after hs \<noteq> None"
    using a ans by (auto simp: allow_def Let_def split: if_splits list.splits)
  show ?thesis using ar ans inv retry by (cases allowed) (auto simp: run a Let_def)
qed

theorem allow_decides_sliding_window_witness:
  "let (l, h) = limiter_run [(1, Request ''a''), (2, Request ''a'')] (new_limiter 60 2); n = int (length (in_window 60 5 ''a'' h))
   in \<exists>hs. fst (allow 5 ''a'' l) = Inr (n < 2, hs) \<and> (n < 2 \<longrightarrow> h_remaining hs = 2 - n - 1) \<and>
        (2 \<le> n \<longrightarrow> h_retry_after hs \<noteq> None)"
  by (rule allow_decides_sliding_window) simp_all

section \<open>Who gets through\<close>

lemma find_binding_result:
  "find_binding provided bs = Inr r \<Longrightarrow> provided \<noteq> [] \<Longrightarrow> r = map_of bs provided"
  by (induction provided bs rule: find_binding.induct) (auto simp: compare_digest_def split: if_splits)

lemma find_binding_ascii:
  "is_ascii provided \<Longrightarrow> \<forall>(k, _) \<in> set bs. is_ascii k \<Longrightarrow> \<exists>r. find_binding provided bs = Inr r"
  by (induction provided bs rule: find_binding.induct) (auto simp: compare_digest_def)

lemma guard_handled:
  assumes "guard s enabled trusted sha now req l = (Inr (Handled t), l')"
  shows "authenticate s req = Inr (AuthPass t)"
  using assms
  by (auto simp: guard_def dispatch_limit_def Let_def map_res_eq_Inr
      split: sum.splits auth_answer.splits prod.splits limited.splits if_splits)
    (metis limited.exhaust)+

lemma guard_rejected:
  "authenticate s req = Inr MissingKey \<or> authenticate s req = Inr InvalidKey \<Longrightarrow>
   snd (guard s enabled trusted sha now req l) = l"
  by (auto simp: guard_def)



text \<open>A request without valid credentials is answered without touching the limiter: it is not counted.\<close>

lemma rejected_not_counted:
  assumes "fst (guard s enabled trusted sha now req l) = Inr Response401 \<or>
           fst (guard s enabled trusted sha now req l) = Inr Response403"
  shows "snd (guard s enabled trusted sha now req l) = l"
  using assms
  by (auto simp: guard_def dispatch_limit_def Let_def map_res_eq_Inr
      split: sum.splits auth_answer.splits prod.splits limited.splits if_splits)
    (metis limited.exhaust)+

text \<open>
  A key that is not ASCII is not refused with 403: comparing it with the first configured key raises
  \<open>TypeError\<close>, which the server answers with 500.
\<close>

lemma non_ascii_key_raises:
  assumes "path req \<notin> set PUBLIC_PATHS" and "api_keys s = (expected, tenant) # bs" and "expected \<noteq> []"
    and "\<not> is_ascii (key_header req)"
  shows "guard s enabled trusted sha now req l = (Inl TypeError, l)"
proof -
  have "key_header req \<noteq> []" using assms(4) by (auto simp: is_ascii_def)
  then show ?thesis using assms by (simp add: guard_def authenticate_def compare_digest_def)
qed

lemma client_key_untrusted_peer:
  assumes "\<forall>p. peer req = Some p \<longrightarrow> \<not> trusted p"
  shows "client_key trusted sha (req\<lparr>forwarded_for := x\<rparr>) = client_key trusted sha req"
  using assms by (auto simp: client_key_def Let_def split: option.splits)

section \<open>Rotating keys without authentication\<close>

fun guard_all :: "auth_settings \<Rightarrow> (string \<Rightarrow> bool) \<Rightarrow> (string \<Rightarrow> string) \<Rightarrow> (py_float \<times> request) list \<Rightarrow> limiter
   \<Rightarrow> response result list" where
  "guard_all s trusted sha [] l = []"
| "guard_all s trusted sha ((now, req) # reqs) l =
     (let (r, l') = guard s True trusted sha now req l in r # guard_all s trusted sha reqs l')"

lemma dict_get_fresh: "k \<notin> fst ` set d \<Longrightarrow> dict_get d k v = v"
  by (simp add: dict_get_def map_of_eq_None_iff [symmetric])

lemma guard_fresh_key:
  assumes "api_keys s = []" "master_key s = []" "path req \<notin> set PUBLIC_PATHS" "key_header req \<noteq> []" "0 < max_requests l"
    and "''k:'' @ sha (key_header req) \<notin> fst ` set (hits l)"
  shows "guard s True trusted sha now req l =
    (Inr (Handled None), l\<lparr>hits := dict_set (''k:'' @ sha (key_header req)) [now] (hits l)\<rparr>)"
  using assms dict_get_fresh [OF assms(6)]
  by (simp add: guard_def authenticate_def dispatch_limit_def client_key_def allow_def prune_def Let_def)

text \<open>
  While no key is configured, the value of the key header is not checked but still names the
  client: requests that each carry a new value are all admitted, whatever the limit, from one peer
  and at one moment.
\<close>

theorem rotating_keys_evade_limit:
  assumes "api_keys s = []" "master_key s = []" "0 < max_requests l"
    and "\<forall>(_, req) \<in> set reqs. path req \<notin> set PUBLIC_PATHS \<and> key_header req \<noteq> []"
    and "distinct (map (\<lambda>(_, req). sha (key_header req)) reqs)"
    and "\<forall>(_, req) \<in> set reqs. ''k:'' @ sha (key_header req) \<notin> fst ` set (hits l)"
  shows "guard_all s trusted sha reqs l = replicate (length reqs) (Inr (Handled None))"
  using assms(3-)
proof (induction reqs arbitrary: l)
  case (Cons r reqs)
  obtain now req where r: "r = (now, req)" by (cases r)
  let ?k = "''k:'' @ sha (key_header req)"
  let ?l = "l\<lparr>hits := dict_set ?k [now] (hits l)\<rparr>"
  have g: "guard s True trusted sha now req l = (Inr (Handled None), ?l)"
    using Cons.prems assms(1,2) by (intro guard_fresh_key) (auto simp: r)
  have "guard_all s trusted sha reqs ?l = replicate (length reqs) (Inr (Handled None))"
  proof (rule Cons.IH)
    show "0 < max_requests ?l" using Cons.prems(1) by simp
    show "\<forall>(_, req) \<in> set reqs. path req \<notin> set PUBLIC_PATHS \<and> key_header req \<noteq> []" using Cons.prems(2) by simp
    show "distinct (map (\<lambda>(_, req). sha (key_header req)) reqs)" using Cons.prems(3) by simp
    have "sha (key_header q) \<noteq> sha (key_header req)" if "(t, q) \<in> set reqs" for t q
      using Cons.prems(3) that by (force simp: r)
    moreover have "''k:'' @ sha (key_header q) \<notin> fst ` set (hits l)" if "(t, q) \<in> set reqs" for t q
      using Cons.prems(4) that by (auto simp: r)
    ultimately show "\<forall>(_, req) \<in> set reqs. ''k:'' @ sha (key_header req) \<notin> fst ` set (hits ?l)"
      by (simp add: fst_set_dict_set split_beta) (metis prod.collapse)
  qed
  then show ?case by (simp add: r g)
qed simp

end
