(* ===== verification/Semantic_Cache.thy ===== *)
theory Semantic_Cache
  imports Prelude "HOL-Library.Sublist"
begin

text \<open>
  The cache of model responses (\<open>cache.py\<close>): exact hits by the hash of the prompt and the tenant,
  semantic hits by the similarity of the embeddings within the tenant and the model, eviction of the
  oldest entry, statistics.

  The hash of a prompt (JSON text, SHA-256, hexadecimal digits) and the embedder are parameters;
  the clock and the tenant of the surrounding context are arguments. A similarity is the exact dot
  product of the vectors.
\<close>

section \<open>Data\<close>

record cache_entry =
  prompt_hash :: string
  response :: string
  model :: string
  tokens_used :: int
  timestamp :: py_float
  hit_count :: int
  embedding :: "py_float list"

record cache =
  max_size :: int
  similarity_threshold :: py_float
  entries :: "(string, cache_entry) dict"
  hits :: int
  misses :: int
  evictions :: int

type_synonym message = "(string, string) dict"

text \<open>The two operations on a prompt that are not code of this program.\<close>

record prompt_ops =
  sha256_hex :: "message list \<Rightarrow> string"
  embed_one :: "string \<Rightarrow> py_float list"

definition new_cache :: "int \<Rightarrow> py_float \<Rightarrow> cache" where
  "new_cache capacity threshold =
     \<lparr>max_size = capacity, similarity_threshold = threshold, entries = [], hits = 0, misses = 0, evictions = 0\<rparr>"

definition hash_prompt :: "prompt_ops \<Rightarrow> message list \<Rightarrow> string" where
  "hash_prompt ops messages = take 32 (sha256_hex ops messages)"

definition prompt_text :: "message list \<Rightarrow> string" where
  "prompt_text messages = py_join '' '' (map (\<lambda>m. dict_get m ''content'' []) messages)"

definition effective_tenant :: "string \<Rightarrow> string \<Rightarrow> string" where
  "effective_tenant context_tenant tenant_id = (if tenant_id \<noteq> [] then tenant_id else context_tenant)"

definition tenant_suffix :: "string \<Rightarrow> string" where
  "tenant_suffix tenant = '':t='' @ tenant"

definition cache_key :: "prompt_ops \<Rightarrow> message list \<Rightarrow> string \<Rightarrow> string" where
  "cache_key ops messages tenant = hash_prompt ops messages @ tenant_suffix tenant"

section \<open>Lookup\<close>

fun dot :: "py_float list \<Rightarrow> py_float list \<Rightarrow> py_float" where
  "dot (x # xs) (y # ys) = x * y + dot xs ys"
| "dot _ _ = 0"

text \<open>
  The product of the matrix of the candidates and the query raises \<open>ValueError\<close> unless every row
  has the length of the query; the best row is the first one with the greatest similarity.
\<close>

definition similarities :: "py_float list list \<Rightarrow> py_float list \<Rightarrow> py_float list result" where
  "similarities vectors q =
     (if \<forall>v \<in> set vectors. length v = length q then Inr (map (\<lambda>v. dot v q) vectors) else Inl ValueError)"

fun best_match :: "(string \<times> py_float) list \<Rightarrow> (string \<times> py_float) option" where
  "best_match [] = None"
| "best_match ((k, s) # rest) =
     (case best_match rest of
        None \<Rightarrow> Some (k, s)
      | Some (k', s') \<Rightarrow> if s < s' then Some (k', s') else Some (k, s))"

definition candidates :: "string \<Rightarrow> string \<Rightarrow> (string, cache_entry) dict \<Rightarrow> (string \<times> py_float list) list" where
  "candidates tenant m es =
     [(k, embedding e). (k, e) \<leftarrow> es, suffix (tenant_suffix tenant) k \<and> embedding e \<noteq> [] \<and> model e = m]"

definition record_hit :: "string \<Rightarrow> cache_entry \<Rightarrow> cache \<Rightarrow> cache" where
  "record_hit k e c =
     c\<lparr>entries := dict_set k (e\<lparr>hit_count := hit_count e + 1\<rparr>) (entries c), hits := hits c + 1\<rparr>"

definition semantic_match :: "prompt_ops \<Rightarrow> message list \<Rightarrow> string \<Rightarrow> string \<Rightarrow> cache \<Rightarrow> string option result" where
  "semantic_match ops messages m tenant c =
     (if length (entries c) \<le> 10 then Inr None
      else
        (let q = embed_one ops (prompt_text messages); cs = candidates tenant m (entries c)
         in map_res (\<lambda>sims.
              case best_match (zip (map fst cs) sims) of
                None \<Rightarrow> None
              | Some (k, s) \<Rightarrow> if similarity_threshold c \<le> s then Some k else None)
            (similarities (map snd cs) q)))"

definition get :: "prompt_ops \<Rightarrow> message list \<Rightarrow> string \<Rightarrow> string \<Rightarrow> cache \<Rightarrow> string option result \<times> cache" where
  "get ops messages m tenant c =
     (let key = cache_key ops messages tenant
      in case map_of (entries c) key of
           Some e \<Rightarrow> (Inr (Some (response e)), record_hit key e c)
         | None \<Rightarrow>
             (case semantic_match ops messages m tenant c of
                Inl err \<Rightarrow> (Inl err, c)
              | Inr None \<Rightarrow> (Inr None, c\<lparr>misses := misses c + 1\<rparr>)
              | Inr (Some k) \<Rightarrow>
                  (case map_of (entries c) k of
                     None \<Rightarrow> (Inl KeyError, c)
                   | Some e \<Rightarrow> (Inr (Some (response e)), record_hit k e c))))"

section \<open>Storing\<close>

fun oldest :: "(string, cache_entry) dict \<Rightarrow> string result" where
  "oldest [] = Inl ValueError"
| "oldest [(k, e)] = Inr k"
| "oldest ((k, e) # (k', e') # rest) =
     (if timestamp e' < timestamp e then oldest ((k', e') # rest) else oldest ((k, e) # rest))"

definition evict :: "cache \<Rightarrow> cache result" where
  "evict c =
     (if int (length (entries c)) \<ge> max_size c then
        map_res (\<lambda>k. c\<lparr>entries := dict_del k (entries c), evictions := evictions c + 1\<rparr>) (oldest (entries c))
      else Inr c)"

definition set_entry ::
  "prompt_ops \<Rightarrow> message list \<Rightarrow> string \<Rightarrow> string \<Rightarrow> int \<Rightarrow> string \<Rightarrow> py_float \<Rightarrow> cache \<Rightarrow> cache result" where
  "set_entry ops messages resp m tokens tenant now c0 =
     map_res (\<lambda>c.
       let key = cache_key ops messages tenant
       in c\<lparr>entries := dict_set key
              \<lparr>prompt_hash = key, response = resp, model = m, tokens_used = tokens, timestamp = now,
               hit_count = 1, embedding = embed_one ops (prompt_text messages)\<rparr> (entries c)\<rparr>)
     (evict c0)"

definition clear :: "cache \<Rightarrow> cache" where
  "clear c = c\<lparr>entries := [], hits := 0, misses := 0, evictions := 0\<rparr>"

definition hit_rate :: "cache \<Rightarrow> py_float" where
  "hit_rate c =
     (let total = hits c + misses c
      in if 0 < total then py_round 3 (of_int (hits c) / of_int total) else 0)"

section \<open>Sequences of calls\<close>

text \<open>
  One call on the cache with the tenant of its context; a call that raises leaves the state it
  had reached.
\<close>

datatype cache_op =
    Get "message list" string string string
  | Set "message list" string string int string string py_float
  | Clear

fun cache_step :: "prompt_ops \<Rightarrow> cache_op \<Rightarrow> cache \<Rightarrow> cache" where
  "cache_step ops (Get ms m tenant ctx) c = snd (get ops ms m (effective_tenant ctx tenant) c)"
| "cache_step ops (Set ms r m tok tenant ctx now) c =
     (case set_entry ops ms r m tok (effective_tenant ctx tenant) now c of Inl _ \<Rightarrow> c | Inr c' \<Rightarrow> c')"
| "cache_step ops Clear c = clear c"

definition cache_run :: "prompt_ops \<Rightarrow> cache_op list \<Rightarrow> cache \<Rightarrow> cache" where
  "cache_run ops calls c = foldl (\<lambda>c call. cache_step ops call c) c calls"

section \<open>Invariant\<close>

lemma record_hit_simps [simp]:
  "max_size (record_hit k e c) = max_size c"
  "entries (record_hit k e c) = dict_set k (e\<lparr>hit_count := hit_count e + 1\<rparr>) (entries c)"
  "hits (record_hit k e c) = hits c + 1" "misses (record_hit k e c) = misses c"
  by (simp_all add: record_hit_def)

text \<open>Every answer of \<open>get\<close>, with the effect it has.\<close>

lemma get_cases:
  obtains
    (hit) k e where "map_of (entries c) k = Some e" and "get ops ms m t c = (Inr (Some (response e)), record_hit k e c)"
      and "k = cache_key ops ms t \<or> semantic_match ops ms m t c = Inr (Some k)"
  | (miss) "get ops ms m t c = (Inr None, c\<lparr>misses := misses c + 1\<rparr>)"
  | (raised) e where "get ops ms m t c = (Inl e, c)"
proof (cases "map_of (entries c) (cache_key ops ms t)")
  case (Some e)
  show ?thesis by (rule hit [OF Some]) (simp_all add: get_def Some Let_def)
next
  case None
  show ?thesis
  proof (cases "semantic_match ops ms m t c")
    case (Inl err)
    show ?thesis by (rule raised [of err]) (simp add: get_def None Inl Let_def)
  next
    case (Inr ko)
    show ?thesis
    proof (cases ko)
      case ko: None
      show ?thesis by (rule miss) (simp add: get_def None Inr ko Let_def)
    next
      case ko: (Some k)
      show ?thesis
      proof (cases "map_of (entries c) k")
        case no: None
        show ?thesis by (rule raised [of KeyError]) (simp add: get_def None Inr ko no Let_def)
      next
        case (Some e)
        show ?thesis by (rule hit [OF Some]) (simp_all add: get_def None Inr ko Some Let_def)
      qed
    qed
  qed
qed

lemma oldest_in: "oldest es = Inr k \<Longrightarrow> k \<in> fst ` set es"
  by (induction es rule: oldest.induct) (auto split: if_splits)

lemma oldest_total: "es \<noteq> [] \<Longrightarrow> \<exists>k. oldest es = Inr k"
  by (induction es rule: oldest.induct) auto

lemma oldest_min:
  "oldest es = Inr k \<Longrightarrow> \<exists>e. (k, e) \<in> set es \<and> (\<forall>(_, e') \<in> set es. timestamp e \<le> timestamp e')"
proof (induction es rule: oldest.induct)
  case (3 k1 e1 k2 e2 rest)
  show ?case
  proof (cases "timestamp e2 < timestamp e1")
    case True
    with 3 obtain e where "(k, e) \<in> set ((k2, e2) # rest)" "\<forall>(_, e') \<in> set ((k2, e2) # rest). timestamp e \<le> timestamp e'"
      by auto
    with True show ?thesis by (intro exI [of _ e]) auto
  next
    case False
    with 3 obtain e where "(k, e) \<in> set ((k1, e1) # rest)" "\<forall>(_, e') \<in> set ((k1, e1) # rest). timestamp e \<le> timestamp e'"
      by auto
    with False show ?thesis by (intro exI [of _ e]) auto
  qed
qed auto

text \<open>The call that stored an entry.\<close>

fun stored_by :: "prompt_ops \<Rightarrow> string \<Rightarrow> cache_entry \<Rightarrow> cache_op \<Rightarrow> bool" where
  "stored_by ops k e (Set ms r m tok tenant ctx now) =
     (k = cache_key ops ms (effective_tenant ctx tenant) \<and> response e = r \<and> model e = m \<and>
      embedding e = embed_one ops (prompt_text ms))"
| "stored_by ops k e _ = False"

definition cache_inv :: "prompt_ops \<Rightarrow> cache_op list \<Rightarrow> cache \<Rightarrow> bool" where
  "cache_inv ops calls c =
     (wf_dict (entries c) \<and> (0 < max_size c \<longrightarrow> int (length (entries c)) \<le> max_size c) \<and>
      (\<forall>k e. map_of (entries c) k = Some e \<longrightarrow> prompt_hash e = k \<and> (\<exists>call \<in> set calls. stored_by ops k e call)))"

lemma stored_by_hit [simp]: "stored_by ops k (e\<lparr>hit_count := n\<rparr>) call = stored_by ops k e call"
  by (cases call) simp_all

lemma evict_effect:
  assumes "evict c = Inr c'" and "wf_dict (entries c)" and "int (length (entries c)) \<le> max_size c \<or> max_size c \<le> 0"
  shows "wf_dict (entries c')" and "0 < max_size c \<Longrightarrow> int (length (entries c')) < max_size c" and "max_size c' = max_size c"
    and "map_of (entries c') k = Some e \<Longrightarrow> map_of (entries c) k = Some e"
    and "hits c' = hits c" and "misses c' = misses c"
proof -
  have "wf_dict (entries c') \<and> (0 < max_size c \<longrightarrow> int (length (entries c')) < max_size c) \<and> max_size c' = max_size c \<and>
     (map_of (entries c') k = Some e \<longrightarrow> map_of (entries c) k = Some e) \<and> hits c' = hits c \<and> misses c' = misses c"
  proof (cases "int (length (entries c)) \<ge> max_size c")
    case False
    then show ?thesis using assms by (simp add: evict_def)
  next
    case True
    then obtain o' where o: "oldest (entries c) = Inr o'" and
      c': "c' = c\<lparr>entries := dict_del o' (entries c), evictions := evictions c + 1\<rparr>"
      using assms(1) by (auto simp: evict_def map_res_eq_Inr)
    have "length (dict_del o' (entries c)) = length (entries c) - 1"
      using assms(2) oldest_in [OF o] by (intro length_dict_del) (auto simp: dict_has_def)
    moreover have "0 < length (entries c)" using oldest_in [OF o] by (cases "entries c") auto
    ultimately show ?thesis using assms(2,3) by (auto simp: c' split: if_splits)
  qed
  then show "wf_dict (entries c')" and "0 < max_size c \<Longrightarrow> int (length (entries c')) < max_size c" and "max_size c' = max_size c"
    and "map_of (entries c') k = Some e \<Longrightarrow> map_of (entries c) k = Some e" and "hits c' = hits c" and "misses c' = misses c"
    by simp_all
qed

lemma cache_inv_hit:
  assumes "cache_inv ops calls c" and "map_of (entries c) k = Some e"
  shows "cache_inv ops calls (record_hit k e c)"
  using assms by (auto simp: cache_inv_def length_dict_set dict_has_iff)

lemma cache_inv_mono: "cache_inv ops calls c \<Longrightarrow> cache_inv ops (calls @ later) c"
  by (fastforce simp: cache_inv_def)

lemma cache_inv_step:
  assumes "cache_inv ops calls c"
  shows "cache_inv ops (calls @ [call]) (cache_step ops call c) \<and> max_size (cache_step ops call c) = max_size c"
proof (cases call)
  case (Get ms m tenant ctx)
  show ?thesis
  proof (cases rule: get_cases [of c ops ms m "effective_tenant ctx tenant"])
    case (hit k e)
    then show ?thesis using cache_inv_mono [OF cache_inv_hit [OF assms hit(1)]] by (simp add: Get)
  next
    case miss
    have "cache_inv ops calls (c\<lparr>misses := misses c + 1\<rparr>)" using assms by (simp add: cache_inv_def)
    with miss show ?thesis using cache_inv_mono by (simp add: Get)
  next
    case (raised e)
    then show ?thesis using cache_inv_mono [OF assms] by (simp add: Get)
  qed
next
  case (Set ms r m tok tenant ctx now)
  show ?thesis
  proof (cases "evict c")
    case (Inl e)
    then show ?thesis using cache_inv_mono [OF assms] by (simp add: Set set_entry_def)
  next
    case (Inr c')
    have "int (length (entries c)) \<le> max_size c \<or> max_size c \<le> 0" "wf_dict (entries c)"
      using assms by (auto simp: cache_inv_def)
    note ev = evict_effect [OF Inr this(2,1)]
    have old: "prompt_hash e = k \<and> (\<exists>call \<in> set calls. stored_by ops k e call)" if "map_of (entries c') k = Some e" for k e
      using ev(4) [OF that] assms by (simp add: cache_inv_def)
    show ?thesis
      using ev(1-3) old by (auto simp: Set set_entry_def Inr Let_def cache_inv_def length_dict_set)
  qed
next
  case Clear
  then show ?thesis by (simp add: clear_def cache_inv_def)
qed

lemma cache_run_inv:
  "cache_inv ops calls (cache_run ops calls (new_cache n th)) \<and> max_size (cache_run ops calls (new_cache n th)) = n"
proof (induction calls rule: rev_induct)
  case Nil
  then show ?case by (simp add: cache_run_def new_cache_def cache_inv_def)
next
  case (snoc call calls)
  then show ?case
    using cache_inv_step [of ops calls "cache_run ops calls (new_cache n th)" call]
    by (simp add: cache_run_def)
qed


section \<open>Properties\<close>


definition sample_ops :: prompt_ops where
  "sample_ops = \<lparr>sha256_hex = (\<lambda>ms. prompt_text ms), embed_one = (\<lambda>s. [of_nat (length s)])\<rparr>"


lemma colon_split:
  "CHR '':'' \<notin> set h \<Longrightarrow> CHR '':'' \<notin> set u \<Longrightarrow> h @ CHR '':'' # u = p @ CHR '':'' # v \<Longrightarrow> u = v"
  by (auto simp: append_eq_append_conv2 Cons_eq_append_conv append_eq_Cons_conv)

lemma tenant_of_key:
  assumes "CHR '':'' \<notin> set (sha256_hex ops ms)" and "CHR '':'' \<notin> set t'"
    and "suffix (tenant_suffix t) (cache_key ops ms t')"
  shows "t = t'"
proof -
  obtain p where "hash_prompt ops ms @ CHR '':'' # (''t='' @ t') = p @ CHR '':'' # (''t='' @ t)"
    using assms(3) by (auto simp: suffix_def cache_key_def tenant_suffix_def)
  then have eq: "hash_prompt ops ms @ CHR '':'' # ''t='' @ t' = p @ CHR '':'' # ''t='' @ t" by simp
  have "CHR '':'' \<notin> set (hash_prompt ops ms)"
    using assms(1) by (auto simp: hash_prompt_def dest: in_set_takeD)
  moreover have "CHR '':'' \<notin> set (''t='' @ t')" using assms(2) by simp
  ultimately have "''t='' @ t' = ''t='' @ t" using eq by (rule colon_split)
  then show ?thesis by simp
qed

lemma best_match_in: "best_match xs = Some (k, s) \<Longrightarrow> (k, s) \<in> set xs"
  by (induction xs arbitrary: k s rule: best_match.induct) (auto split: option.splits if_splits)

lemma best_match_max: "best_match xs = Some (k, s) \<Longrightarrow> (k', s') \<in> set xs \<Longrightarrow> s' \<le> s"
proof (induction xs arbitrary: k s)
  case (Cons x xs)
  obtain k1 s1 where x: "x = (k1, s1)" by (cases x)
  show ?case
  proof (cases "best_match xs")
    case None
    then have "xs = []" by (cases xs) (auto split: option.splits if_splits)
    then show ?thesis using Cons.prems by (simp add: x)
  next
    case (Some p)
    obtain k2 s2 where p: "p = (k2, s2)" by (cases p)
    have "s' \<le> s2" if "(k', s') \<in> set xs" using Cons.IH Some that by (simp add: p)
    then show ?thesis using Cons.prems Some by (auto simp: x p split: if_splits)
  qed
qed simp

lemma semantic_match_candidate:
  assumes "semantic_match ops ms m t c = Inr (Some k)"
  shows "\<exists>e. (k, e) \<in> set (entries c) \<and> suffix (tenant_suffix t) k \<and> model e = m"
proof -
  obtain sims s where "best_match (zip (map fst (candidates t m (entries c))) sims) = Some (k, s)"
    using assms by (auto simp: semantic_match_def Let_def map_res_eq_Inr split: if_splits option.splits)
  from set_zip_leftD [OF best_match_in [OF this]]
  have "k \<in> fst ` set (candidates t m (entries c))" by simp
  then show ?thesis by (auto simp: candidates_def)
qed


fun tenant_plain :: "cache_op \<Rightarrow> bool" where
  "tenant_plain (Set ms r m tok tenant ctx now) = (CHR '':'' \<notin> set (effective_tenant ctx tenant))"
| "tenant_plain _ = True"

text \<open>
  (C33) Tenant isolation: when the names of tenants have no colon (and the digest, being hexadecimal,
  has none), an answer that a lookup gives to a tenant was stored for that tenant, and for the same
  prompt hash or the same model.
\<close>

theorem cache_tenant_isolation:
  assumes "fst (get ops ms m t (cache_run ops calls (new_cache n th))) = Inr (Some r)"
    and "\<forall>call \<in> set calls. tenant_plain call" and "\<forall>ms. CHR '':'' \<notin> set (sha256_hex ops ms)"
  shows "\<exists>ms' m' tok tenant ctx now. Set ms' r m' tok tenant ctx now \<in> set calls \<and> effective_tenant ctx tenant = t \<and>
           (hash_prompt ops ms' = hash_prompt ops ms \<or> m' = m)"
proof -
  define c where "c = cache_run ops calls (new_cache n th)"
  have inv: "cache_inv ops calls c" using cache_run_inv [of ops calls n th] by (simp add: c_def)
  obtain k e where e: "map_of (entries c) k = Some e" "response e = r"
    "k = cache_key ops ms t \<or> semantic_match ops ms m t c = Inr (Some k)"
    using assms(1) unfolding c_def [symmetric] by (cases rule: get_cases [of c ops ms m t]) auto
  have "suffix (tenant_suffix t) k \<and> (k = cache_key ops ms t \<or> model e = m)"
    using e(3)
  proof
    assume "semantic_match ops ms m t c = Inr (Some k)"
    then obtain e' where e': "(k, e') \<in> set (entries c)" "suffix (tenant_suffix t) k" "model e' = m"
      using semantic_match_candidate by blast
    have "map_of (entries c) k = Some e'" using e'(1) inv by (simp add: cache_inv_def wf_dict_def)
    with e' e(1) show ?thesis by simp
  qed (simp add: cache_key_def suffix_def)
  moreover obtain call where "call \<in> set calls" "stored_by ops k e call"
    using inv e(1) by (auto simp: cache_inv_def)
  then obtain ms' tok tenant ctx now where call: "Set ms' r (model e) tok tenant ctx now \<in> set calls"
    "k = cache_key ops ms' (effective_tenant ctx tenant)"
    using e(2) by (cases call rule: cache_op.exhaust) auto
  ultimately have "t = effective_tenant ctx tenant"
    using assms(2,3) by (intro tenant_of_key [of ops ms']) (auto dest: bspec)
  moreover from this have "hash_prompt ops ms' = hash_prompt ops ms" if "k = cache_key ops ms t"
    using call(2) that by (simp add: cache_key_def)
  ultimately show ?thesis
    using call \<open>suffix (tenant_suffix t) k \<and> (k = cache_key ops ms t \<or> model e = m)\<close> by blast
qed

theorem cache_tenant_isolation_witness:
  "\<exists>ms' m' tok tenant ctx now. Set ms' ''r'' m' tok tenant ctx now
     \<in> set [Set [[(''content'', ''a'')]] ''r'' ''m'' 0 ''t'' [] 1] \<and> effective_tenant ctx tenant = ''t'' \<and>
     (hash_prompt (sample_ops\<lparr>sha256_hex := \<lambda>_. ''0''\<rparr>) ms' = hash_prompt (sample_ops\<lparr>sha256_hex := \<lambda>_. ''0''\<rparr>) [[(''content'', ''a'')]] \<or> m' = ''m2'')"
  by (rule cache_tenant_isolation [where n = 2 and th = 0])
    (simp_all add: cache_run_def new_cache_def set_entry_def evict_def get_def cache_key_def hash_prompt_def
      tenant_suffix_def effective_tenant_def sample_ops_def Let_def)

text \<open>
  Without the restriction the scope of a semantic match can be left: the key of a tenant whose name
  is \<open>a:t=b\<close> ends like the keys of the tenant \<open>b\<close>.
\<close>

lemma tenant_suffix_ambiguous: "suffix (tenant_suffix ''b'') (cache_key ops ms ''a:t=b'')"
  by (simp add: suffix_def cache_key_def tenant_suffix_def)

text \<open>
  What was stored last for a prompt and a tenant is what a lookup answers, whichever model it
  names; a lookup for another model therefore gets the answer of the model that stored it.
\<close>

theorem cache_set_then_get:
  assumes "set_entry ops ms r m tok t now c = Inr c'"
  shows "fst (get ops ms m' t c') = Inr (Some r) \<and> hits (snd (get ops ms m' t c')) = hits c' + 1"
proof -
  obtain e where "map_of (entries c') (cache_key ops ms t) = Some e" "response e = r"
    using assms by (auto simp: set_entry_def map_res_eq_Inr Let_def)
  then show ?thesis by (simp add: get_def Let_def)
qed

theorem cache_set_then_get_witness:
  "fst (get sample_ops [[(''content'', ''a'')]] ''other'' ''t''
     (cache_run sample_ops [Set [[(''content'', ''a'')]] ''r'' ''m'' 0 ''t'' [] 1] (new_cache 2 0))) = Inr (Some ''r'')"
proof -
  have "set_entry sample_ops [[(''content'', ''a'')]] ''r'' ''m'' 0 ''t'' 1 (new_cache 2 0) =
      Inr (cache_run sample_ops [Set [[(''content'', ''a'')]] ''r'' ''m'' 0 ''t'' [] 1] (new_cache 2 0))"
    by (simp add: cache_run_def set_entry_def evict_def new_cache_def effective_tenant_def Let_def)
  from cache_set_then_get [OF this] show ?thesis by simp
qed

text \<open>The statistics: every lookup that returns is one hit or one miss, and the rate is a fraction.\<close>

lemma get_counts:
  "fst (get ops ms m t c) = Inr a \<Longrightarrow>
   hits (snd (get ops ms m t c)) + misses (snd (get ops ms m t c)) = hits c + misses c + 1 \<and>
   hits (snd (get ops ms m t c)) = hits c + (if a = None then 0 else 1)"
  by (cases rule: get_cases [of c ops ms m t]) auto

lemma hit_rate_bounds:
  assumes "0 \<le> hits c" and "0 \<le> misses c"
  shows "0 \<le> hit_rate c \<and> hit_rate c \<le> 1"
proof (cases "0 < hits c + misses c")
  case True
  then have "(of_int (hits c) :: rat) / of_int (hits c + misses c) \<le> 1" using assms by (simp add: divide_le_eq_1)
  from py_round_mono [OF this, of 3] assms True show ?thesis
    by (auto simp: hit_rate_def Let_def intro!: py_round_nonneg)
qed (simp add: hit_rate_def)

text \<open>
  A semantic hit is at or above the threshold and at least as similar as every other candidate.
\<close>

lemma semantic_match_best:
  assumes "semantic_match ops ms m t c = Inr (Some k)"
  shows "\<exists>v. (k, v) \<in> set (candidates t m (entries c)) \<and> similarity_threshold c \<le> dot v (embed_one ops (prompt_text ms)) \<and>
    (\<forall>(_, v') \<in> set (candidates t m (entries c)). dot v' (embed_one ops (prompt_text ms)) \<le> dot v (embed_one ops (prompt_text ms)))"
proof -
  let ?q = "embed_one ops (prompt_text ms)" and ?cs = "candidates t m (entries c)"
  obtain s where s: "best_match (zip (map fst ?cs) (map (\<lambda>v. dot v ?q) (map snd ?cs))) = Some (k, s)"
    and th: "similarity_threshold c \<le> s"
    using assms by (auto simp: semantic_match_def similarities_def Let_def split: if_splits option.splits)
  have z: "zip (map fst ?cs) (map (\<lambda>v. dot v ?q) (map snd ?cs)) = map (\<lambda>(k, v). (k, dot v ?q)) ?cs"
    by (simp add: zip_map_map zip_same_conv_map split_def o_def)
  obtain v where "(k, v) \<in> set ?cs" "s = dot v ?q" using best_match_in [OF s] unfolding z by auto
  moreover have "dot v' ?q \<le> s" if "(k', v') \<in> set ?cs" for k' v'
    using that by (intro best_match_max [OF s]) (unfold z, force)
  ultimately show ?thesis using th by blast
qed

end
