(* ===== verification/Llm_Provider.thy ===== *)
theory Llm_Provider
  imports Semantic_Cache Circuit_Breaker
begin

text \<open>
  The base class of the model providers (\<open>llm/providers.py\<close>): a completion goes through the semantic
  cache, then through the circuit breaker and the retry policy of the provider, is refused when the
  answer carries an error, is stored when it cost tokens, and is traced. Also the extraction of code
  from a fenced answer and the health check of the local provider.

  What a provider does on the network (\<open>_complete\<close>) is a function on a state of its own. The
  messages of exceptions are not modelled; latencies are left out of the trace.
\<close>

section \<open>Data\<close>

record llm_message =
  role :: string
  mcontent :: string

record llm_response =
  content :: string
  rmodel :: string
  rtokens :: int
  tokens_input :: int
  tokens_output :: int
  error :: string
  finish_reason :: string

record provider =
  name :: string
  model_name :: string
  circuit :: "breaker \<times> nat"
  retry :: policy

record trace_call =
  t_provider :: string
  t_model :: string
  t_messages :: "message list"
  t_response :: string
  t_tokens :: int
  t_error :: "exn option"

text \<open>The state a completion works on: the shared cache, the calls traced, and the outside.\<close>

record 'w llm_state =
  cache :: cache
  traced :: "trace_call list"
  outside :: 'w

definition LLMProviderError :: exn where
  "LLMProviderError = Failure ''LLMProviderError''"

definition exn_of :: "py_error \<Rightarrow> exn" where
  "exn_of e = (case e of ValueError \<Rightarrow> Failure ''ValueError'' | KeyError \<Rightarrow> Failure ''KeyError'' | _ \<Rightarrow> Failure ''Exception'')"

definition provider_policy :: "int \<Rightarrow> py_float \<Rightarrow> py_float \<Rightarrow> policy" where
  "provider_policy retry_max base maxd =
     \<lparr>max_retries = retry_max, base_delay = base, max_delay = maxd, jitter = 1 / 2,
      retryable = is_Exception, non_retryable = (\<lambda>e. e = LLMProviderError)\<rparr>"

definition new_provider :: "string \<Rightarrow> string \<Rightarrow> int \<Rightarrow> py_float \<Rightarrow> policy \<Rightarrow> provider" where
  "new_provider n m threshold recovery p =
     \<lparr>name = n, model_name = m, circuit = (new_breaker threshold recovery 1, 0), retry = p\<rparr>"

definition model_dump :: "llm_message \<Rightarrow> message" where
  "model_dump m = [(''role'', role m), (''content'', mcontent m)]"

section \<open>Completion\<close>

definition trace_llm_call :: "provider \<Rightarrow> message list \<Rightarrow> string \<Rightarrow> int \<Rightarrow> exn option \<Rightarrow> 'w llm_state \<Rightarrow> 'w llm_state" where
  "trace_llm_call p ms resp tokens err s =
     s\<lparr>traced := traced s @ [\<lparr>t_provider = name p, t_model = model_name p, t_messages = ms,
        t_response = resp, t_tokens = tokens, t_error = err\<rparr>]\<rparr>"

text \<open>
  \<open>call\<close> is \<open>self._complete\<close> with its arguments; \<open>now\<close> is the time that a stored entry gets. An
  exception that is caught is traced and raised again; a cancellation passes untraced.
\<close>

definition fail_traced :: "provider \<Rightarrow> message list \<Rightarrow> exn \<Rightarrow> 'w llm_state \<Rightarrow> llm_response outcome \<times> 'w llm_state" where
  "fail_traced p ms e s = (Inl e, if is_Exception e then trace_llm_call p ms [] 0 (Some e) s else s)"

definition after_call ::
  "prompt_ops \<Rightarrow> py_float \<Rightarrow> string \<Rightarrow> provider \<Rightarrow> message list \<Rightarrow> llm_response outcome \<Rightarrow> 'w llm_state
   \<Rightarrow> llm_response outcome \<times> 'w llm_state" where
  "after_call ops now tenant p ms r s =
     (case r of
        Inl e \<Rightarrow> fail_traced p ms e s
      | Inr resp \<Rightarrow>
          if error resp \<noteq> [] then fail_traced p ms LLMProviderError s
          else
            (let stored = (if 0 < rtokens resp
                   then set_entry ops ms (content resp) (model_name p) (rtokens resp) tenant now (cache s)
                   else Inr (cache s))
             in case stored of
                  Inl e \<Rightarrow> fail_traced p ms (exn_of e) s
                | Inr c \<Rightarrow> (Inr resp, trace_llm_call p ms (content resp) (rtokens resp) None (s\<lparr>cache := c\<rparr>))))"

definition cached_response :: "provider \<Rightarrow> string \<Rightarrow> llm_response" where
  "cached_response p text =
     \<lparr>content = text, rmodel = model_name p, rtokens = 0, tokens_input = 0, tokens_output = 0, error = [],
      finish_reason = []\<rparr>"

definition complete ::
  "prompt_ops \<Rightarrow> clock \<Rightarrow> (nat \<Rightarrow> py_float) \<Rightarrow> py_float \<Rightarrow> (llm_message list \<Rightarrow> 'w \<Rightarrow> llm_response outcome \<times> 'w)
   \<Rightarrow> string \<Rightarrow> string \<Rightarrow> llm_message list \<Rightarrow> provider \<Rightarrow> 'w llm_state
   \<Rightarrow> llm_response outcome \<times> provider \<times> 'w llm_state" where
  "complete ops clk rnd now call ctx tenant_id messages p s =
     (let tenant = effective_tenant ctx tenant_id;
          ms = map model_dump messages
      in case get ops ms (model_name p) tenant (cache s) of
           (Inl e, c) \<Rightarrow> (Inl (exn_of e), p, s\<lparr>cache := c\<rparr>)
         | (Inr (Some text), c) \<Rightarrow>
             (Inr (cached_response p text), p, trace_llm_call p ms text 0 None (s\<lparr>cache := c\<rparr>))
         | (Inr None, c) \<Rightarrow>
             (let (r, (circ, w), _) = resilient_execute clk (retry p) rnd (call messages) (circuit p) (outside s);
                  (r', s') = after_call ops now tenant p ms r (s\<lparr>cache := c, outside := w\<rparr>)
              in (r', p\<lparr>circuit := circ\<rparr>, s')))"

section \<open>Code in an answer\<close>

text \<open>\<open>text.find(pat, pos)\<close> as an option, for a position within the text or at its end.\<close>

fun find_at :: "string \<Rightarrow> string \<Rightarrow> nat option" where
  "find_at pat [] = (if pat = [] then Some 0 else None)"
| "find_at pat (c # cs) =
     (if take (length pat) (c # cs) = pat then Some 0 else map_option Suc (find_at pat cs))"

definition find_from :: "string \<Rightarrow> string \<Rightarrow> nat \<Rightarrow> nat option" where
  "find_from text pat pos = map_option (\<lambda>i. pos + i) (find_at pat (drop pos text))"

definition contains :: "string \<Rightarrow> string \<Rightarrow> bool" where
  "contains text pat = (find_at pat text \<noteq> None)"

definition FENCE :: string where
  "FENCE = ''```''"

definition between :: "string \<Rightarrow> string \<Rightarrow> nat \<Rightarrow> string option" where
  "between text open_fence from_pos =
     (case find_from text open_fence from_pos of
        None \<Rightarrow> None
      | Some i \<Rightarrow>
          (let start = i + length open_fence
           in case find_from text FENCE start of
                None \<Rightarrow> None
              | Some stop \<Rightarrow> Some (strip (take (stop - start) (drop start text)))))"

definition extract_code :: "string \<Rightarrow> string \<Rightarrow> string" where
  "extract_code text language =
     (case (if contains text (FENCE @ language) then between text (FENCE @ language) 0 else None) of
        Some code \<Rightarrow> code
      | None \<Rightarrow>
          (case (if contains text FENCE then between text FENCE 0 else None) of
             Some code \<Rightarrow> code
           | None \<Rightarrow> strip text))"

definition strip_fences :: "string \<Rightarrow> string" where
  "strip_fences text =
     (let t = strip text; json_fence = FENCE @ ''json''
      in case find_at json_fence t of
           Some i \<Rightarrow>
             (let start = i + length json_fence
              in case find_from t FENCE start of
                   None \<Rightarrow> strip (drop start t)
                 | Some stop \<Rightarrow> strip (take (stop - start) (drop start t)))
         | None \<Rightarrow>
             (case find_at FENCE t of
                Some i \<Rightarrow>
                  (let start = i + 3
                   in case find_from t FENCE start of
                        None \<Rightarrow> strip (drop start t)
                      | Some stop \<Rightarrow> strip (take (stop - start) (drop start t)))
              | None \<Rightarrow> t))"

section \<open>Health of the local provider\<close>

record ollama =
  health_checked :: bool
  health_ok :: bool
  health_failed_at :: py_float
  health_recovery :: py_float

definition new_ollama :: "py_float \<Rightarrow> ollama" where
  "new_ollama recovery =
     \<lparr>health_checked = False, health_ok = False, health_failed_at = 0, health_recovery = recovery\<rparr>"

text \<open>What a request to the server came to: an HTTP status, or no connection within the timeout.\<close>

datatype http_result = Status int | NoConnection

text \<open>
  The check with the times it reads: \<open>t1\<close> for the age of a failure, \<open>t2\<close> when it notes one. The
  second component tells whether the server was asked.
\<close>

definition health_check :: "py_float \<Rightarrow> py_float \<Rightarrow> http_result \<Rightarrow> ollama \<Rightarrow> exn option \<times> bool \<times> ollama" where
  "health_check t1 t2 probe o1 =
     (if health_ok o1 then (None, False, o1)
      else if health_checked o1 \<and> t1 - health_failed_at o1 < health_recovery o1
      then (Some LLMProviderError, False, o1)
      else
        (let o2 = o1\<lparr>health_checked := True, health_ok := False\<rparr>
         in if probe = Status 200 then (None, True, o2\<lparr>health_ok := True, health_failed_at := 0\<rparr>)
            else (Some LLMProviderError, True, o2\<lparr>health_failed_at := t2\<rparr>)))"

text \<open>A chat request with the decoded answer of the server, if the request succeeds.\<close>

definition ollama_complete ::
  "py_float \<Rightarrow> py_float \<Rightarrow> http_result \<Rightarrow> py_float \<Rightarrow> http_result \<Rightarrow> llm_response \<Rightarrow> ollama
   \<Rightarrow> llm_response outcome \<times> ollama" where
  "ollama_complete t1 t2 probe t3 chat answer o1 =
     (case health_check t1 t2 probe o1 of
        (Some e, _, o2) \<Rightarrow> (Inl e, o2)
      | (None, _, o2) \<Rightarrow>
          if chat = Status 200 then (Inr answer, o2)
          else (Inl LLMProviderError, o2\<lparr>health_ok := False, health_failed_at := t3\<rparr>))"

section \<open>Where an answer comes from\<close>

lemma retry_loop_result:
  "retry_loop p rnd f xs e w sl = (Inr v, w', sl') \<Longrightarrow> \<exists>w0. f w0 = (Inr v, w')"
  by (induction p rnd f xs e w sl rule: retry_loop.induct) (auto split: prod.splits sum.splits if_splits)

lemma resilient_result:
  assumes "resilient_execute clk p rnd f c w = (Inr v, (c', w'), sl)"
  shows "\<exists>w0. f w0 = (Inr v, w')"
proof -
  obtain c0 w0 where "protected_call clk f (c0, w0) = (Inr v, (c', w'))"
    using retry_loop_result assms unfolding resilient_execute_def retry_execute_def by (metis surj_pair)
  then have "execute clk f c0 w0 = (Inr v, c', w')"
    by (auto simp: protected_call_def split: prod.splits)
  then have "f w0 = (Inr v, w')" by (rule breaker_guard.result_from_call)
  then show ?thesis ..
qed

lemma fail_traced_simps [simp]:
  "fst (fail_traced p ms e s) = Inl e"
  "cache (snd (fail_traced p ms e s)) = cache s" "outside (snd (fail_traced p ms e s)) = outside s"
  by (simp_all add: fail_traced_def trace_llm_call_def)

lemma trace_simps [simp]:
  "cache (trace_llm_call p ms r n e s) = cache s" "outside (trace_llm_call p ms r n e s) = outside s"
  "traced (trace_llm_call p ms r n e s) = traced s @
     [\<lparr>t_provider = name p, t_model = model_name p, t_messages = ms, t_response = r, t_tokens = n, t_error = e\<rparr>]"
  by (simp_all add: trace_llm_call_def)

text \<open>Every way a completion can go, with what it leaves behind.\<close>

lemma complete_cases:
  obtains
    (cache_error) e c where "get ops (map model_dump msgs) (model_name p) (effective_tenant ctx t) (cache s) = (Inl e, c)"
      and "complete ops clk rnd now call ctx t msgs p s = (Inl (exn_of e), p, s\<lparr>cache := c\<rparr>)"
  | (cached) reply c where "get ops (map model_dump msgs) (model_name p) (effective_tenant ctx t) (cache s) = (Inr (Some reply), c)"
      and "complete ops clk rnd now call ctx t msgs p s =
        (Inr (cached_response p reply), p, trace_llm_call p (map model_dump msgs) reply 0 None (s\<lparr>cache := c\<rparr>))"
  | (called) r circ w sl c r' s' where
      "get ops (map model_dump msgs) (model_name p) (effective_tenant ctx t) (cache s) = (Inr None, c)"
      and "resilient_execute clk (retry p) rnd (call msgs) (circuit p) (outside s) = (r, (circ, w), sl)"
      and "after_call ops now (effective_tenant ctx t) p (map model_dump msgs) r (s\<lparr>cache := c, outside := w\<rparr>) = (r', s')"
      and "complete ops clk rnd now call ctx t msgs p s = (r', p\<lparr>circuit := circ\<rparr>, s')"
proof -
  obtain a c where g: "get ops (map model_dump msgs) (model_name p) (effective_tenant ctx t) (cache s) = (a, c)" by fastforce
  show ?thesis
  proof (cases a)
    case (Inl e)
    show ?thesis by (rule cache_error [of e c]) (simp_all add: complete_def g Inl Let_def)
  next
    case (Inr to)
    show ?thesis
    proof (cases to)
      case (Some reply)
      show ?thesis by (rule cached [of reply c]) (simp_all add: complete_def g Inr Some Let_def)
    next
      case None
      obtain r circ w sl where re: "resilient_execute clk (retry p) rnd (call msgs) (circuit p) (outside s) = (r, (circ, w), sl)"
        by (metis surj_pair)
      obtain r' s' where ac: "after_call ops now (effective_tenant ctx t) p (map model_dump msgs) r (s\<lparr>cache := c, outside := w\<rparr>) = (r', s')"
        by fastforce
      show ?thesis by (rule called [of c r circ w sl r' s']) (simp_all add: complete_def g Inr None re ac Let_def)
    qed
  qed
qed

lemma after_call_Inr:
  assumes "after_call ops now t p ms r s = (Inr resp, s')"
  shows "r = Inr resp \<and> error resp = [] \<and> outside s' = outside s \<and>
    traced s' = traced s @ [\<lparr>t_provider = name p, t_model = model_name p, t_messages = ms, t_response = content resp,
      t_tokens = rtokens resp, t_error = None\<rparr>]"
  using assms by (auto simp: after_call_def fail_traced_def Let_def split: sum.splits if_splits)

lemma after_call_cache:
  assumes "after_call ops now t p ms r s = (Inr resp, s')"
  shows "if 0 < rtokens resp then set_entry ops ms (content resp) (model_name p) (rtokens resp) t now (cache s) = Inr (cache s')
         else cache s' = cache s"
  using assms by (auto simp: after_call_def fail_traced_def Let_def split: sum.splits if_splits)

lemma after_call_Inl:
  assumes "after_call ops now t p ms r s = (Inl e, s')"
  shows "cache s' = cache s \<and> outside s' = outside s \<and>
    traced s' = traced s @ (if is_Exception e then [\<lparr>t_provider = name p, t_model = model_name p, t_messages = ms,
      t_response = [], t_tokens = 0, t_error = Some e\<rparr>] else [])"
  using assms by (auto simp: after_call_def fail_traced_def trace_llm_call_def Let_def split: sum.splits if_splits)

text \<open>
  (C24) A completion fails closed: what it returns carries no error and is either the cached answer
  (then neither the network nor the breaker was touched and no tokens are counted) or the answer of
  an actual call that succeeded; either way exactly this answer is traced, once.
\<close>

theorem completion_fails_closed:
  assumes "complete ops clk rnd now call ctx t msgs p s = (Inr resp, p', s')"
  shows "error resp = [] \<and>
    (fst (get ops (map model_dump msgs) (model_name p) (effective_tenant ctx t) (cache s)) = Inr (Some (content resp)) \<and>
       rtokens resp = 0 \<and> p' = p \<and> outside s' = outside s
     \<or> (\<exists>w0. call msgs w0 = (Inr resp, outside s'))) \<and>
    traced s' = traced s @ [\<lparr>t_provider = name p, t_model = model_name p, t_messages = map model_dump msgs,
      t_response = content resp, t_tokens = rtokens resp, t_error = None\<rparr>]"
proof (cases rule: complete_cases [of ops msgs p ctx t s clk rnd now call])
  case (cache_error e c)
  then show ?thesis using assms by simp
next
  case (cached reply c)
  with assms have "resp = cached_response p reply" "p' = p"
    "s' = trace_llm_call p (map model_dump msgs) reply 0 None (s\<lparr>cache := c\<rparr>)" by auto
  with cached(1) show ?thesis by (simp add: cached_response_def)
next
  case (called r circ w sl c r' s1)
  with assms have r: "r' = Inr resp" "s1 = s'" by simp_all
  note ac = after_call_Inr [OF called(3) [unfolded r]]
  then have "resilient_execute clk (retry p) rnd (call msgs) (circuit p) (outside s) = (Inr resp, (circ, w), sl)"
    using called(2) by simp
  from resilient_result [OF this] ac show ?thesis by auto
qed


theorem completion_fails_closed_witness:
  "let p = new_provider ''openai'' ''gpt-4o'' 5 30 (provider_policy 3 1 30);
       resp = \<lparr>content = ''hi'', rmodel = ''gpt-4o'', rtokens = 0, tokens_input = 3, tokens_output = 4, error = [], finish_reason = ''stop''\<rparr>;
       call = (\<lambda>_ w. (Inr resp, w + 1 :: nat));
       s = \<lparr>cache = new_cache 2 1, traced = [], outside = 0\<rparr>
   in fst (complete sample_ops (\<lambda>_. 0) (\<lambda>_. 0) 1 call ''t'' [] [\<lparr>role = ''user'', mcontent = ''x''\<rparr>] p s) = Inr resp \<and> error resp = []"
proof -
  define p where "p = new_provider ''openai'' ''gpt-4o'' 5 30 (provider_policy 3 1 30)"
  define resp where "resp = \<lparr>content = ''hi'', rmodel = ''gpt-4o'', rtokens = 0, tokens_input = 3, tokens_output = 4, error = [], finish_reason = ''stop''\<rparr>"
  define call where "call = (\<lambda>(_ :: llm_message list) w. (Inr resp :: llm_response outcome, w + 1 :: nat))"
  define s where "s = \<lparr>cache = new_cache 2 1, traced = [], outside = 0 :: nat\<rparr>"
  obtain p' s' where run: "complete sample_ops (\<lambda>_. 0) (\<lambda>_. 0) 1 call ''t'' [] [\<lparr>role = ''user'', mcontent = ''x''\<rparr>] p s = (Inr resp, p', s')"
    by (simp add: complete_def p_def new_provider_def provider_policy_def s_def new_cache_def get_def semantic_match_def
        resilient_execute_def retry_execute_def upt_conv_Cons protected_call_def execute_closed new_breaker_def call_def
        after_call_def resp_def Let_def split: prod.splits)
  from completion_fails_closed [OF this] run show ?thesis
    by (simp add: p_def resp_def call_def s_def Let_def)
qed

section \<open>What gets cached\<close>

text \<open>
  A fresh entry is one that differs from every entry of the old cache in its key or its answer;
  counting a hit does not make an entry fresh.
\<close>

definition fresh_answer :: "cache \<Rightarrow> cache \<Rightarrow> string \<Rightarrow> bool" where
  "fresh_answer c c' r = (\<exists>k e. map_of (entries c') k = Some e \<and> response e = r \<and>
     (\<forall>e0. map_of (entries c) k = Some e0 \<longrightarrow> response e0 \<noteq> r))"

lemma get_no_fresh: "get ops ms m t c = (a, c') \<Longrightarrow> \<not> fresh_answer c c' r"
  by (cases rule: get_cases [of c ops ms m t]) (auto simp: fresh_answer_def split: if_splits)

lemma evict_map: "evict c = Inr c' \<Longrightarrow> map_of (entries c') k = Some e \<Longrightarrow> map_of (entries c) k = Some e"
  by (auto simp: evict_def map_res_eq_Inr split: if_splits)

lemma set_entry_fresh:
  assumes "set_entry ops ms a m tok t now c = Inr c'" and "fresh_answer c c' r"
  shows "r = a"
proof -
  obtain c1 where c1: "evict c = Inr c1" and
    c': "entries c' = dict_set (cache_key ops ms t)
      \<lparr>prompt_hash = cache_key ops ms t, response = a, model = m, tokens_used = tok, timestamp = now,
       hit_count = 1, embedding = embed_one ops (prompt_text ms)\<rparr> (entries c1)"
    using assms(1) by (auto simp: set_entry_def map_res_eq_Inr Let_def)
  from assms(2) c' evict_map [OF c1] show ?thesis
    by (auto simp: fresh_answer_def split: if_splits)
qed

text \<open>
  (C25) Only answers that were paid for are cached: whatever a completion newly puts into the cache
  is the answer it returns, which a successful call gave, without error and with tokens counted. A
  failed call, an answer with an error and the free template answer leave nothing in the cache.
\<close>

theorem only_paid_answers_cached:
  assumes "complete ops clk rnd now call ctx t msgs p s = (r, p', s')" and "fresh_answer (cache s) (cache s') a"
  shows "\<exists>resp w0. r = Inr resp \<and> content resp = a \<and> error resp = [] \<and> 0 < rtokens resp \<and>
           call msgs w0 = (Inr resp, outside s')"
proof (cases rule: complete_cases [of ops msgs p ctx t s clk rnd now call])
  case (cache_error e c)
  then show ?thesis using assms get_no_fresh [OF cache_error(1)] by auto
next
  case (cached reply c)
  then show ?thesis using assms get_no_fresh [OF cached(1)] by auto
next
  case (called r0 circ w sl c r' s1)
  with assms have s1: "r' = r" "s1 = s'" by simp_all
  have same: "map_of (entries c) = map_of (entries (cache s))"
    using called(1) by (cases rule: get_cases [of "cache s" ops "map model_dump msgs" "model_name p" "effective_tenant ctx t"]) auto
  show ?thesis
  proof (cases r)
    case (Inl e)
    then have "cache s' = c" using after_call_Inl [OF called(3) [unfolded s1 Inl]] by simp
    then show ?thesis using assms(2) same by (auto simp: fresh_answer_def)
  next
    case (Inr resp)
    note ac = after_call_Inr [OF called(3) [unfolded s1 Inr]]
    have fr: "fresh_answer c (cache s') a" using assms(2) same by (simp add: fresh_answer_def)
    have "0 < rtokens resp \<and> a = content resp"
    proof (cases "0 < rtokens resp")
      case True
      then have "set_entry ops (map model_dump msgs) (content resp) (model_name p) (rtokens resp) (effective_tenant ctx t) now c = Inr (cache s')"
        using after_call_cache [OF called(3) [unfolded s1 Inr]] by simp
      from set_entry_fresh [OF this fr] True show ?thesis by simp
    next
      case False
      then have "cache s' = c" using after_call_cache [OF called(3) [unfolded s1 Inr]] by simp
      then show ?thesis using fr by (auto simp: fresh_answer_def)
    qed
    moreover obtain w0 where "call msgs w0 = (Inr resp, w)"
      using resilient_result [OF called(2) [unfolded conjunct1 [OF ac]]] by blast
    ultimately show ?thesis using ac Inr by auto
  qed
qed


definition paid_answer :: llm_response where
  "paid_answer = \<lparr>content = ''hi'', rmodel = ''gpt-4o'', rtokens = 7, tokens_input = 3, tokens_output = 4, error = [],
     finish_reason = ''stop''\<rparr>"

lemma paid_completion:
  assumes "complete sample_ops (\<lambda>_. 0) (\<lambda>_. 0) 1 (\<lambda>_ w. (Inr paid_answer, w + 1 :: nat)) ''t'' [] [\<lparr>role = ''user'', mcontent = ''x''\<rparr>]
       (new_provider ''openai'' ''gpt-4o'' 5 30 (provider_policy 3 1 30)) \<lparr>cache = new_cache 2 1, traced = [], outside = 0\<rparr> = (r, p', s')"
  shows "r = Inr paid_answer \<and> map_of (entries (cache s')) ''x:t=t'' = Some
    \<lparr>prompt_hash = ''x:t=t'', response = ''hi'', model = ''gpt-4o'', tokens_used = 7, timestamp = 1, hit_count = 1, embedding = [1]\<rparr>"
  using assms
  by (auto simp: complete_def new_provider_def provider_policy_def new_cache_def get_def semantic_match_def
      resilient_execute_def retry_execute_def upt_conv_Cons protected_call_def execute_closed new_breaker_def
      after_call_def paid_answer_def Let_def set_entry_def evict_def cache_key_def hash_prompt_def sample_ops_def
      prompt_text_def model_dump_def dict_get_def py_join_def effective_tenant_def tenant_suffix_def
      split: prod.splits)

theorem only_paid_answers_cached_witness:
  "case complete sample_ops (\<lambda>_. 0) (\<lambda>_. 0) 1 (\<lambda>_ w. (Inr paid_answer, w + 1 :: nat)) ''t'' [] [\<lparr>role = ''user'', mcontent = ''x''\<rparr>]
       (new_provider ''openai'' ''gpt-4o'' 5 30 (provider_policy 3 1 30)) \<lparr>cache = new_cache 2 1, traced = [], outside = 0\<rparr>
   of (r, p', s') \<Rightarrow> fresh_answer (new_cache 2 1) (cache s') ''hi'' \<and>
        (\<exists>resp. r = Inr resp \<and> content resp = ''hi'' \<and> error resp = [] \<and> 0 < rtokens resp)"
proof -
  obtain r p' s' where run: "complete sample_ops (\<lambda>_. 0) (\<lambda>_. 0) 1 (\<lambda>_ w. (Inr paid_answer, w + 1 :: nat)) ''t'' [] [\<lparr>role = ''user'', mcontent = ''x''\<rparr>]
       (new_provider ''openai'' ''gpt-4o'' 5 30 (provider_policy 3 1 30)) \<lparr>cache = new_cache 2 1, traced = [], outside = 0\<rparr> = (r, p', s')"
    by (metis surj_pair)
  have fr: "fresh_answer (cache \<lparr>cache = new_cache 2 1, traced = [], outside = 0 :: nat\<rparr>) (cache s') ''hi''"
    using paid_completion [OF run] unfolding fresh_answer_def
    by (intro exI [of _ "''x:t=t''"]) (simp add: new_cache_def)
  obtain resp where "r = Inr resp" "content resp = ''hi''" "error resp = []" "0 < rtokens resp"
    using only_paid_answers_cached [OF run fr] by blast
  with fr show ?thesis unfolding run by simp
qed

section \<open>Extraction of code\<close>

lemma find_at_first:
  assumes "pat \<noteq> []" and "hd pat \<notin> set pre"
  shows "find_at pat (pre @ pat @ post) = Some (length pre)"
  using assms(2)
proof (induction pre)
  case Nil
  then show ?case using assms(1) by (cases pat) simp_all
next
  case (Cons c pre)
  have "take (length pat) ((c # pre) @ pat @ post) \<noteq> pat"
  proof
    assume "take (length pat) ((c # pre) @ pat @ post) = pat"
    then have "hd pat = c" using assms(1) by (cases pat) auto
    then show False using Cons.prems by simp
  qed
  then show ?case using Cons by simp
qed

text \<open>
  Code comes back out of an answer: when the answer holds the code in a block fenced with the
  language, with no other back quotes before its end, exactly that code is extracted, without the
  white space around it.
\<close>

theorem extract_code_roundtrip:
  assumes "CHR 0x60 \<notin> set pre" and "CHR 0x60 \<notin> set code" and "CHR 0x60 \<notin> set language"
  shows "extract_code (pre @ FENCE @ language @ code @ FENCE @ post) language = strip code"
proof -
  let ?o = "FENCE @ language" and ?t = "pre @ FENCE @ language @ code @ FENCE @ post"
  have "find_at ?o (pre @ ?o @ code @ FENCE @ post) = Some (length pre)"
    by (rule find_at_first) (use assms(1) in \<open>simp_all add: FENCE_def\<close>)
  then have 1: "find_at ?o ?t = Some (length pre)" by simp
  have "find_at FENCE (code @ FENCE @ post) = Some (length code)"
    by (rule find_at_first) (use assms(2) in \<open>simp_all add: FENCE_def\<close>)
  then have 2: "find_from ?t FENCE (length pre + length ?o) = Some (length pre + length ?o + length code)"
    by (simp add: find_from_def)
  have "find_from ?t ?o 0 = Some (length pre)" using 1 by (simp add: find_from_def)
  then have "between ?t ?o 0 = Some (strip code)"
    using 2 by (simp add: between_def Let_def)
  then show ?thesis using 1 by (simp add: extract_code_def contains_def)
qed

theorem extract_code_roundtrip_witness:
  "extract_code (''Here: '' @ FENCE @ ''python'' @ '' x = 1 '' @ FENCE @ '' done'') ''python'' = strip '' x = 1 ''"
  by (rule extract_code_roundtrip) simp_all

text \<open>A block fenced with another language is returned with the name of that language in front of the code.\<close>

lemma extract_code_keeps_tag: "extract_code (FENCE @ ''js x=1'' @ FENCE) ''python'' = ''js x=1''"
  by (simp add: extract_code_def contains_def between_def find_from_def FENCE_def Let_def strip_def lstrip_def is_space_def of_char_def)

section \<open>Probing the local server\<close>

text \<open>A run of checks, each with its two clock readings and what the server would answer.\<close>

fun probe_times :: "(py_float \<times> py_float \<times> http_result) list \<Rightarrow> ollama \<Rightarrow> (py_float \<times> py_float) list" where
  "probe_times [] o1 = []"
| "probe_times ((t1, t2, probe) # rest) o1 =
     (let (_, asked, o2) = health_check t1 t2 probe o1
      in (if asked then [(t1, t2)] else []) @ probe_times rest o2)"

lemma probe_times_after_failure:
  assumes "health_ok o1 \<or> health_checked o1 \<and> health_failed_at o1 = t"
  shows "successively (\<lambda>a b. snd a + health_recovery o1 \<le> fst b) ((s, t) # probe_times checks o1) \<or> health_ok o1"
  using assms
proof (induction checks arbitrary: o1 s t)
  case (Cons c checks)
  obtain t1 t2 probe where c: "c = (t1, t2, probe)" by (metis surj_pair)
  show ?case
  proof (cases "health_ok o1")
    case False
    then have ch: "health_checked o1" "health_failed_at o1 = t" using Cons.prems by auto
    show ?thesis
    proof (cases "t1 - t < health_recovery o1")
      case True
      then have "health_check t1 t2 probe o1 = (Some LLMProviderError, False, o1)"
        using False ch by (simp add: health_check_def)
      then show ?thesis using Cons.IH [of o1 t s] ch False by (simp add: c)
    next
      case late: False
      show ?thesis
      proof (cases "probe = Status 200")
        case True
        then obtain o2 where "health_check t1 t2 probe o1 = (None, True, o2)" "health_ok o2"
          using False ch late by (simp add: health_check_def)
        moreover have "probe_times checks o2 = []" if "health_ok o2" for o2
          using that by (induction checks) (auto simp: health_check_def)
        ultimately show ?thesis using late by (simp add: c)
      next
        case down: False
        let ?o = "o1\<lparr>health_checked := True, health_ok := False, health_failed_at := t2\<rparr>"
        have "health_check t1 t2 probe o1 = (Some LLMProviderError, True, ?o)"
          using False ch late down by (simp add: health_check_def Let_def)
        then show ?thesis using Cons.IH [of ?o t2 t1] late by (simp add: c)
      qed
    qed
  qed simp
qed simp

text \<open>
  However often completions are asked for while the local server is down, it is probed at most
  once per recovery period: every probe comes at least \<open>health_recovery\<close> seconds after the failure
  before it was noted. Once that time has passed a check probes again, and it succeeds when the server
  answers: a failure does not poison the provider.
\<close>

theorem probes_spaced:
  shows "successively (\<lambda>a b. snd a + recovery \<le> fst b) (probe_times checks (new_ollama recovery)) \<and>
    (\<forall>o1 t1 t2. health_failed_at o1 + health_recovery o1 \<le> t1 \<longrightarrow> fst (health_check t1 t2 (Status 200) o1) = None)"
proof -
  have "successively (\<lambda>a b. snd a + recovery \<le> fst b) (probe_times checks (new_ollama recovery))"
  proof (cases checks)
    case (Cons c rest)
    obtain t1 t2 probe where c: "c = (t1, t2, probe)" by (metis surj_pair)
    show ?thesis
    proof (cases "probe = Status 200")
      case True
      have "probe_times rest o2 = []" if "health_ok o2" for o2
        using that by (induction rest) (auto simp: health_check_def)
      then show ?thesis by (simp add: Cons c True health_check_def new_ollama_def)
    next
      case False
      let ?o = "new_ollama recovery\<lparr>health_checked := True, health_ok := False, health_failed_at := t2\<rparr>"
      show ?thesis
        using probe_times_after_failure [of ?o t2 t1 rest] False
        by (simp add: Cons c health_check_def new_ollama_def)
    qed
  qed simp
  then show ?thesis by (auto simp: health_check_def)
qed

theorem probes_spaced_witness:
  "length (probe_times [(0, 1, NoConnection), (2, 3, NoConnection), (40, 41, NoConnection)] (new_ollama 30)) = 2 \<and>
   successively (\<lambda>a b. snd a + 30 \<le> fst b) (probe_times [(0, 1, NoConnection), (2, 3, NoConnection), (40, 41, NoConnection)] (new_ollama 30))"
  using probes_spaced [of 30 "[(0, 1, NoConnection), (2, 3, NoConnection), (40, 41, NoConnection)]"]
  by (simp add: new_ollama_def health_check_def)

end
