(* ===== verification/Model_Router.thy ===== *)
theory Model_Router
  imports Llm_Provider
begin

text \<open>
  The model router (\<open>routing/model_router.py\<close>) and the factory of providers: choice of a model by
  the complexity of a task, completion through a chain of providers with a circuit breaker each, the
  cost estimate, and the template provider that ends the chain (its classification of a request;
  the table of its template texts is a parameter).
\<close>

section \<open>Providers\<close>

record llm_settings =
  default_provider :: string
  ollama_model :: string
  breaker_threshold :: int
  breaker_recovery :: py_float
  llm_policy :: policy

definition make_provider :: "llm_settings \<Rightarrow> string \<Rightarrow> string \<Rightarrow> provider" where
  "make_provider cfg n m = new_provider n m (breaker_threshold cfg) (breaker_recovery cfg) (llm_policy cfg)"

definition or_else :: "string option \<Rightarrow> string \<Rightarrow> string" where
  "or_else m d = (case m of None \<Rightarrow> d | Some x \<Rightarrow> if x = [] then d else x)"

definition create_llm_provider :: "llm_settings \<Rightarrow> string \<Rightarrow> string option \<Rightarrow> provider result" where
  "create_llm_provider cfg prov m =
     (let provider = (if prov = [] then default_provider cfg else prov)
      in if provider = ''openai'' then Inr (make_provider cfg ''openai'' (or_else m ''gpt-4o''))
         else if provider = ''anthropic''
              then Inr (make_provider cfg ''anthropic'' (or_else m ''claude-sonnet-4-5-20250929''))
         else if provider = ''ollama'' then Inr (make_provider cfg ''ollama'' (or_else m (ollama_model cfg)))
         else Inr (make_provider cfg ''fallback'' ''template-based''))"

section \<open>The template provider\<close>

text \<open>A character that the pattern \<open>\w\<close> matches, among the code points below 256.\<close>

definition word_char :: "char \<Rightarrow> bool" where
  "word_char c =
     (let n = (of_char c :: nat)
      in 48 \<le> n \<and> n \<le> 57 \<or> 65 \<le> n \<and> n \<le> 90 \<or> n = 95 \<or> 97 \<le> n \<and> n \<le> 122 \<or>
         n \<in> {170, 178, 179, 181, 185, 186, 188, 189, 190} \<or> 192 \<le> n \<and> n \<noteq> 215 \<and> n \<noteq> 247)"

fun words_acc :: "string \<Rightarrow> string \<Rightarrow> string list" where
  "words_acc acc [] = (if acc = [] then [] else [rev acc])"
| "words_acc acc (c # cs) =
     (if word_char c then words_acc (c # acc) cs
      else if acc = [] then words_acc [] cs else rev acc # words_acc [] cs)"

definition word_tokens :: "string \<Rightarrow> string list" where
  "word_tokens s = words_acc [] s"

text \<open>The keyword as a run of whole words: \<open>before\<close> tells whether a word character precedes.\<close>

fun phrase_at :: "string \<Rightarrow> bool \<Rightarrow> string \<Rightarrow> bool" where
  "phrase_at kw before [] = False"
| "phrase_at kw before (c # cs) =
     (\<not> before \<and> take (length kw) (c # cs) = kw \<and>
        (case drop (length kw) (c # cs) of [] \<Rightarrow> True | d # _ \<Rightarrow> \<not> word_char d)
      \<or> phrase_at kw (word_char c) cs)"

definition keyword_hits :: "string \<Rightarrow> string \<Rightarrow> bool" where
  "keyword_hits t keyword =
     (if CHR '' '' \<in> set keyword then phrase_at keyword False t
      else if last keyword = CHR ''_'' then \<exists>w \<in> set (word_tokens t). take (length keyword) w = keyword
      else keyword \<in> set (word_tokens t))"

definition template_keywords :: "(string, string list) dict" where
  "template_keywords =
     [(''terraform'', [''terraform'', ''hcl'', ''infrastructure'', ''aws'', ''gcp'', ''azure'', ''iac'']),
      (''docker'', [''dockerfile'', ''container'', ''docker build'', ''image'']),
      (''database'', [''schema'', ''postgres'', ''mysql'', ''database'', ''sql'', ''migration'']),
      (''auth'', [''rbac'', ''auth'', ''login'', ''jwt'', ''permission'', ''role'']),
      (''pipeline'', [''pipeline'', ''etl'', ''airflow'', ''dataflow'', ''dags'']),
      (''api'', [''api'', ''endpoint'', ''rest'', ''fastapi'', ''flask'', ''backend'']),
      (''frontend'', [''react'', ''ui'', ''frontend'', ''component'', ''html'', ''css'']),
      (''security'', [''security'', ''vulnerability'', ''scan'', ''threat'', ''owasp'']),
      (''test'', [''unit test'', ''pytest'', ''test_'', ''testing'', ''assert''])]"

definition best_label :: "('a \<Rightarrow> nat) \<Rightarrow> (string \<times> 'a) list \<Rightarrow> string" where
  "best_label score kws =
     fst (foldl (\<lambda>(best, best_score) (label, ks).
            if best_score < score ks then (label, score ks) else (best, best_score)) (''general'', 0) kws)"

definition recent_text :: "llm_message list \<Rightarrow> string" where
  "recent_text messages = lower (py_join [CHR 0x0A] (map mcontent (drop (length messages - 3) messages)))"

definition classify :: "llm_message list \<Rightarrow> string" where
  "classify messages =
     best_label (\<lambda>ks. length (filter (keyword_hits (recent_text messages)) ks)) template_keywords"

definition fallback_complete ::
  "(string \<Rightarrow> string) \<Rightarrow> llm_message list \<Rightarrow> 'w \<Rightarrow> llm_response outcome \<times> 'w" where
  "fallback_complete template_json messages w =
     (let fenced = FENCE @ ''json'' @ [CHR 0x0A] @ template_json (classify messages) @ [CHR 0x0A] @ FENCE
      in (Inr \<lparr>content = fenced, rmodel = ''fallback/template-based'', rtokens = 0, tokens_input = 0,
               tokens_output = int (length fenced), error = [], finish_reason = ''stop''\<rparr>, w))"

section \<open>The router\<close>

record tier =
  tier_provider :: string
  tier_model :: string
  cost_in :: py_float
  cost_out :: py_float
  suitable_for :: "string list"

definition TIERS :: "tier list" where
  "TIERS =
     [\<lparr>tier_provider = ''openai'', tier_model = ''gpt-4o-mini'', cost_in = 15 / 100, cost_out = 60 / 100,
        suitable_for = [''trivial'', ''simple'']\<rparr>,
      \<lparr>tier_provider = ''openai'', tier_model = ''gpt-4o'', cost_in = 250 / 100, cost_out = 10,
        suitable_for = [''moderate'']\<rparr>,
      \<lparr>tier_provider = ''anthropic'', tier_model = ''claude-sonnet-4-5-20250929'', cost_in = 3, cost_out = 15,
        suitable_for = [''complex'']\<rparr>,
      \<lparr>tier_provider = ''openai'', tier_model = ''o3'', cost_in = 10, cost_out = 40,
        suitable_for = [''extreme'', ''security_critical'']\<rparr>]"

record router =
  breakers :: "(string, breaker \<times> nat) dict"
  providers :: "(string, provider) dict"

definition FALLBACK_CHAIN :: "string list" where
  "FALLBACK_CHAIN = [''openai'', ''anthropic'', ''ollama'', ''fallback'']"

definition default_breaker :: "breaker \<times> nat" where
  "default_breaker = (new_breaker 5 30 1, 0)"

definition add_provider :: "llm_settings \<Rightarrow> (string, provider) dict \<Rightarrow> string \<Rightarrow> (string, provider) dict" where
  "add_provider cfg d n = (case create_llm_provider cfg n None of Inl _ \<Rightarrow> d | Inr p \<Rightarrow> dict_set n p d)"

definition new_router :: "llm_settings \<Rightarrow> router" where
  "new_router cfg =
     \<lparr>breakers = map (\<lambda>n. (n, default_breaker)) FALLBACK_CHAIN,
      providers = foldl (add_provider cfg) [] FALLBACK_CHAIN\<rparr>"

text \<open>
  \<open>_get_provider\<close>: the provider of a name and a model is made on first use. Without a model the
  key is the name; when the provider for a model cannot be made, the one of the name is used.
\<close>

definition get_named :: "llm_settings \<Rightarrow> string \<Rightarrow> router \<Rightarrow> provider result \<times> router" where
  "get_named cfg n r =
     (case map_of (providers r) n of
        Some p \<Rightarrow> (Inr p, r)
      | None \<Rightarrow>
          (case create_llm_provider cfg n None of
             Inl e \<Rightarrow> (Inl e, r)
           | Inr p \<Rightarrow> (Inr p, r\<lparr>providers := dict_set n p (providers r)\<rparr>)))"

definition get_provider :: "llm_settings \<Rightarrow> string \<Rightarrow> string option \<Rightarrow> router \<Rightarrow> provider result \<times> router" where
  "get_provider cfg n m r =
     (if or_else m [] = [] then get_named cfg n r
      else
        (let key = n @ ''@'' @ or_else m []
         in case map_of (providers r) key of
              Some p \<Rightarrow> (Inr p, r)
            | None \<Rightarrow>
                (case create_llm_provider cfg n m of
                   Inl _ \<Rightarrow> get_named cfg n r
                 | Inr p \<Rightarrow>
                     (Inr p, r\<lparr>providers := dict_set key p (providers r),
                        breakers := (if dict_has (breakers r) n then breakers r
                                     else dict_set n default_breaker (breakers r))\<rparr>))))"

definition tier_name :: "string \<Rightarrow> string list \<Rightarrow> string" where
  "tier_name complexity tags =
     (if ''security'' \<in> lower ` set tags \<or> ''critical'' \<in> lower ` set tags then ''extreme'' else lower complexity)"

definition select ::
  "llm_settings \<Rightarrow> string \<Rightarrow> string list \<Rightarrow> bool \<Rightarrow> router \<Rightarrow> provider result \<times> router" where
  "select cfg complexity tags degraded r =
     (if degraded then get_provider cfg ''openai'' None r
      else
        (case find (\<lambda>t. tier_name complexity tags \<in> set (suitable_for t)) (rev TIERS) of
           Some t \<Rightarrow> get_provider cfg (tier_provider t) (Some (tier_model t)) r
         | None \<Rightarrow> get_provider cfg ''openai'' None r))"

definition estimated_cost :: "string \<Rightarrow> int \<Rightarrow> int \<Rightarrow> py_float" where
  "estimated_cost complexity input_tokens output_tokens =
     (case find (\<lambda>t. lower complexity \<in> set (suitable_for t)) TIERS of
        None \<Rightarrow> 0
      | Some t \<Rightarrow> py_round 6 (of_int input_tokens / 1000000 * cost_in t + of_int output_tokens / 1000000 * cost_out t))"

section \<open>Completion through the chain\<close>

text \<open>
  What a completion reads from outside: the prompt operations, the clock of every breaker, the
  random numbers, the time and the tenant of the context, and the network call of each provider.
\<close>

record 'w router_env =
  env_ops :: prompt_ops
  outer_clock :: "string \<Rightarrow> clock"
  inner_clock :: "string \<Rightarrow> clock"
  env_rnd :: "nat \<Rightarrow> py_float"
  env_now :: py_float
  env_ctx :: string
  net :: "string \<Rightarrow> llm_message list \<Rightarrow> 'w \<Rightarrow> llm_response outcome \<times> 'w"

definition provider_call ::
  "'w router_env \<Rightarrow> string \<Rightarrow> string \<Rightarrow> llm_message list \<Rightarrow> provider \<times> 'w llm_state
   \<Rightarrow> llm_response outcome \<times> (provider \<times> 'w llm_state)" where
  "provider_call env tenant n msgs ps =
     (let (r, p, s) = complete (env_ops env) (inner_clock env n) (env_rnd env) (env_now env) (net env n) (env_ctx env) tenant msgs (fst ps) (snd ps)
      in (r, (p, s)))"

fun try_chain ::
  "'w router_env \<Rightarrow> string \<Rightarrow> llm_message list \<Rightarrow> string list \<Rightarrow> router \<Rightarrow> 'w llm_state
   \<Rightarrow> (string \<times> string) outcome \<times> router \<times> 'w llm_state" where
  "try_chain env tenant msgs [] r s = (Inl (Failure ''AllProvidersFailedError''), r, s)"
| "try_chain env tenant msgs (n # ns) r s =
     (case map_of (providers r) n of
        None \<Rightarrow> try_chain env tenant msgs ns r s
      | Some p \<Rightarrow>
          (case map_of (breakers r) n of
             None \<Rightarrow> (Inl (Failure ''KeyError''), r, s)
           | Some b \<Rightarrow>
               (let (ans, b', p', s') = execute (outer_clock env n) (provider_call env tenant n msgs) b (p, s);
                    r' = r\<lparr>breakers := dict_set n b' (breakers r), providers := dict_set n p' (providers r)\<rparr>
                in case ans of
                     Inr resp \<Rightarrow> (Inr (content resp, n), r', s')
                   | Inl e \<Rightarrow> if is_Exception e then try_chain env tenant msgs ns r' s' else (Inl e, r', s'))))"

definition router_complete ::
  "'w router_env \<Rightarrow> string \<Rightarrow> llm_message list \<Rightarrow> router \<Rightarrow> 'w llm_state
   \<Rightarrow> (string \<times> string) outcome \<times> router \<times> 'w llm_state" where
  "router_complete env tenant msgs r s = try_chain env tenant msgs FALLBACK_CHAIN r s"

section \<open>Histories of the router\<close>

inductive router_run :: "('w router_env \<Rightarrow> bool) \<Rightarrow> llm_settings \<Rightarrow> router \<Rightarrow> 'w llm_state \<Rightarrow> bool" for good cfg where
  started: "router_run good cfg (new_router cfg) \<lparr>cache = new_cache size_limit th, traced = [], outside = w\<rparr>"
| selected: "router_run good cfg r s \<Longrightarrow> select cfg c tags degraded r = (p, r') \<Longrightarrow> router_run good cfg r' s"
| completed: "router_run good cfg r s \<Longrightarrow> good env \<Longrightarrow> router_complete env t msgs r s = (ans, r', s') \<Longrightarrow>
     router_run good cfg r' s'"

section \<open>Which model is selected\<close>

text \<open>The keys under which \<open>select\<close> looks providers up, and what it must find there.\<close>

definition expected_providers :: "(string \<times> (string \<times> string)) list" where
  "expected_providers =
     (''openai'', (''openai'', ''gpt-4o'')) #
     map (\<lambda>t. (tier_provider t @ ''@'' @ tier_model t, (tier_provider t, tier_model t))) TIERS"

definition providers_ok :: "router \<Rightarrow> bool" where
  "providers_ok r = (\<forall>(key, n, m) \<in> set expected_providers. \<forall>p. map_of (providers r) key = Some p \<longrightarrow> name p = n \<and> model_name p = m)"

lemma complete_keeps_names:
  "complete ops clk rnd now call ctx t msgs p s = (r, p', s') \<Longrightarrow> name p' = name p \<and> model_name p' = model_name p \<and> retry p' = retry p"
  by (cases rule: complete_cases [of ops msgs p ctx t s clk rnd now call]) auto

lemma provider_call_keeps_names:
  "provider_call env t n msgs (p, s) = (r, (p', s')) \<Longrightarrow> name p' = name p \<and> model_name p' = model_name p \<and> retry p' = retry p"
  by (auto simp: provider_call_def split: prod.splits dest: complete_keeps_names)

lemma execute_keeps_names:
  assumes "execute clk (provider_call env t n msgs) b (p, s) = (ans, b', p', s')"
  shows "name p' = name p \<and> model_name p' = model_name p \<and> retry p' = retry p"
proof -
  from breaker_guard.call_or_reject [OF assms]
  have "provider_call env t n msgs (p, s) = (ans, p', s') \<or> (p', s') = (p, s)" by blast
  then show ?thesis using provider_call_keeps_names [of env t n msgs p s ans p' s'] by auto
qed

lemma providers_ok_set:
  assumes "providers_ok r" and "map_of (providers r) n = Some p" and "name p' = name p" and "model_name p' = model_name p"
  shows "providers_ok (r\<lparr>breakers := bs, providers := dict_set n p' (providers r)\<rparr>)"
proof -
  have "name q = n' \<and> model_name q = m" if "(key, n', m) \<in> set expected_providers" "map_of (dict_set n p' (providers r)) key = Some q" for key n' m q
  proof (cases "key = n")
    case True
    then show ?thesis using that assms unfolding providers_ok_def by fastforce
  next
    case False
    then show ?thesis using that assms(1) unfolding providers_ok_def by fastforce
  qed
  then show ?thesis by (auto simp: providers_ok_def)
qed

lemma try_chain_providers_ok:
  "providers_ok r \<Longrightarrow> providers_ok (fst (snd (try_chain env t msgs ns r s)))"
proof (induction ns arbitrary: r s)
  case (Cons n ns)
  show ?case
  proof (cases "map_of (providers r) n")
    case None
    then show ?thesis using Cons by simp
  next
    case p: (Some p)
    show ?thesis
    proof (cases "map_of (breakers r) n")
      case None
      then show ?thesis using Cons.prems p by simp
    next
      case (Some b)
      obtain ans b' p' s' where ex: "execute (outer_clock env n) (provider_call env t n msgs) b (p, s) = (ans, b', p', s')"
        by (metis surj_pair)
      have "providers_ok (r\<lparr>breakers := dict_set n b' (breakers r), providers := dict_set n p' (providers r)\<rparr>)"
        using execute_keeps_names [OF ex] by (intro providers_ok_set [OF Cons.prems p]) simp_all
      then show ?thesis using Cons.IH by (simp add: p Some ex Let_def split: sum.split)
    qed
  qed
qed simp


lemma providers_ok_alt:
  "providers_ok r \<longleftrightarrow>
     (\<forall>p. map_of (providers r) ''openai'' = Some p \<longrightarrow> name p = ''openai'' \<and> model_name p = ''gpt-4o'') \<and>
     (\<forall>p. map_of (providers r) ''openai@gpt-4o-mini'' = Some p \<longrightarrow> name p = ''openai'' \<and> model_name p = ''gpt-4o-mini'') \<and>
     (\<forall>p. map_of (providers r) ''openai@gpt-4o'' = Some p \<longrightarrow> name p = ''openai'' \<and> model_name p = ''gpt-4o'') \<and>
     (\<forall>p. map_of (providers r) ''anthropic@claude-sonnet-4-5-20250929'' = Some p \<longrightarrow>
        name p = ''anthropic'' \<and> model_name p = ''claude-sonnet-4-5-20250929'') \<and>
     (\<forall>p. map_of (providers r) ''openai@o3'' = Some p \<longrightarrow> name p = ''openai'' \<and> model_name p = ''o3'')"
  by (simp add: providers_ok_def expected_providers_def TIERS_def)

text \<open>The choice that the tiers make, as a table.\<close>

definition tier_choice :: "string \<Rightarrow> string list \<Rightarrow> string \<times> string" where
  "tier_choice complexity tags =
     (let n = tier_name complexity tags
      in if n = ''extreme'' \<or> n = ''security_critical'' then (''openai'', ''o3'')
         else if n = ''complex'' then (''anthropic'', ''claude-sonnet-4-5-20250929'')
         else if n = ''trivial'' \<or> n = ''simple'' then (''openai'', ''gpt-4o-mini'')
         else (''openai'', ''gpt-4o''))"

lemma expected_distinct: "distinct (map fst expected_providers)"
  by (simp add: expected_providers_def TIERS_def)

lemma providers_ok_add:
  assumes "providers_ok r" and "(key, name p, model_name p) \<in> set expected_providers"
  shows "providers_ok (r\<lparr>providers := dict_set key p (providers r), breakers := bs\<rparr>)"
proof -
  have "name q = n \<and> model_name q = m" if "(k, n, m) \<in> set expected_providers" "map_of (dict_set key p (providers r)) k = Some q" for k n m q
  proof (cases "k = key")
    case True
    then have "(n, m) = (name p, model_name p)"
      using that(1) assms(2) expected_distinct by (metis eq_key_imp_eq_value)
    then show ?thesis using that True by simp
  next
    case False
    then show ?thesis using that assms(1) unfolding providers_ok_def by fastforce
  qed
  then show ?thesis by (auto simp: providers_ok_def)
qed

lemma create_tier_provider:
  "(key, n, m) \<in> set (tl expected_providers) \<Longrightarrow>
     create_llm_provider cfg n (Some m) = Inr (make_provider cfg n m) \<and> m \<noteq> [] \<and> key = n @ ''@'' @ m"
  by (auto simp: expected_providers_def TIERS_def create_llm_provider_def or_else_def Let_def)

lemma make_provider_names [simp]: "name (make_provider cfg n m) = n" "model_name (make_provider cfg n m) = m"
  by (simp_all add: make_provider_def new_provider_def)

lemma get_provider_result:
  assumes "providers_ok r" and "(key, n, m) \<in> set (tl expected_providers)"
  shows "\<exists>p. fst (get_provider cfg n (Some m) r) = Inr p \<and> name p = n \<and> model_name p = m \<and> providers_ok (snd (get_provider cfg n (Some m) r))"
proof -
  note c = create_tier_provider [OF assms(2), of cfg]
  have e: "(key, n, m) \<in> set expected_providers" using assms(2) by (simp add: expected_providers_def)
  show ?thesis
  proof (cases "map_of (providers r) key")
    case None
    have "providers_ok (r\<lparr>providers := dict_set key (make_provider cfg n m) (providers r), breakers := bs\<rparr>)" for bs
      using assms(1) e by (intro providers_ok_add) simp_all
    then show ?thesis using None c by (simp add: get_provider_def or_else_def Let_def)
  next
    case (Some p)
    then have "name p = n \<and> model_name p = m" using assms(1) e unfolding providers_ok_def by fastforce
    then show ?thesis using Some c assms(1) by (simp add: get_provider_def or_else_def Let_def)
  qed
qed

lemma get_openai_result:
  assumes "providers_ok r"
  shows "\<exists>p. fst (get_provider cfg ''openai'' None r) = Inr p \<and> name p = ''openai'' \<and> model_name p = ''gpt-4o'' \<and>
     providers_ok (snd (get_provider cfg ''openai'' None r))"
proof (cases "map_of (providers r) ''openai''")
  case None
  have "providers_ok (r\<lparr>providers := dict_set ''openai'' (make_provider cfg ''openai'' ''gpt-4o'') (providers r), breakers := breakers r\<rparr>)"
    using assms by (intro providers_ok_add) (simp_all add: expected_providers_def)
  then show ?thesis
    using None by (simp add: get_provider_def get_named_def or_else_def create_llm_provider_def Let_def)
next
  case (Some p)
  then have "name p = ''openai'' \<and> model_name p = ''gpt-4o''" using assms by (simp add: providers_ok_alt)
  then show ?thesis using Some assms by (simp add: get_provider_def get_named_def or_else_def)
qed

lemma select_result:
  assumes "providers_ok r"
  shows "\<exists>p. fst (select cfg c tags degraded r) = Inr p \<and> providers_ok (snd (select cfg c tags degraded r)) \<and>
     (name p, model_name p) = (if degraded then (''openai'', ''gpt-4o'') else tier_choice c tags)"
proof (cases "degraded \<or> find (\<lambda>t. tier_name c tags \<in> set (suitable_for t)) (rev TIERS) = None")
  case True
  then have "select cfg c tags degraded r = get_provider cfg ''openai'' None r" by (auto simp: select_def)
  moreover have "tier_choice c tags = (''openai'', ''gpt-4o'')" if "\<not> degraded"
    using True that by (auto simp: tier_choice_def TIERS_def Let_def split: if_splits)
  ultimately show ?thesis using get_openai_result [OF assms, of cfg] by auto
next
  case False
  then obtain t where t: "find (\<lambda>t. tier_name c tags \<in> set (suitable_for t)) (rev TIERS) = Some t" by auto
  then have "t \<in> set TIERS" by (metis find_Some_iff nth_mem set_rev)
  then have "(tier_provider t @ ''@'' @ tier_model t, tier_provider t, tier_model t) \<in> set (tl expected_providers)"
    by (simp add: expected_providers_def)
  from get_provider_result [OF assms this, of cfg] t False
  have "\<exists>p. fst (select cfg c tags degraded r) = Inr p \<and> name p = tier_provider t \<and> model_name p = tier_model t \<and>
      providers_ok (snd (select cfg c tags degraded r))"
    by (simp add: select_def)
  moreover have "tier_choice c tags = (tier_provider t, tier_model t)"
    using t by (auto simp: tier_choice_def TIERS_def Let_def split: if_splits)
  ultimately show ?thesis using False by auto
qed

lemma new_router_ok: "providers_ok (new_router cfg)"
  by (simp add: providers_ok_alt new_router_def FALLBACK_CHAIN_def add_provider_def create_llm_provider_def or_else_def
      make_provider_def new_provider_def)

lemma router_run_providers_ok: "router_run good cfg r s \<Longrightarrow> providers_ok r"
proof (induction rule: router_run.induct)
  case (started size_limit th w)
  show ?case by (rule new_router_ok)
next
  case (selected r s c tags degraded p r')
  then show ?case using select_result [of r cfg c tags degraded] by auto
next
  case (completed r s env t msgs ans r' s')
  then show ?case using try_chain_providers_ok [of r env t msgs FALLBACK_CHAIN s] by (simp add: router_complete_def)
qed

text \<open>
  After any history of selections and completions, the router answers with a provider for
  exactly the model that the tiers name for the complexity and the tags, never with another one that
  was cached for the same vendor; an unknown complexity and degraded mode give the default model.
\<close>

theorem select_gives_tier_model:
  assumes "router_run good cfg r s"
  shows "\<exists>p. fst (select cfg c tags degraded r) = Inr p \<and>
     (name p, model_name p) = (if degraded then (''openai'', ''gpt-4o'') else tier_choice c tags)"
  using select_result [OF router_run_providers_ok [OF assms]] by blast

definition sample_settings :: llm_settings where
  "sample_settings = \<lparr>default_provider = ''openai'', ollama_model = ''llama3'', breaker_threshold = 5,
     breaker_recovery = 30, llm_policy = provider_policy 3 1 30\<rparr>"

theorem select_gives_tier_model_witness:
  "\<exists>p. fst (select sample_settings ''trivial'' [''security''] False (new_router sample_settings)) = Inr p \<and>
     (name p, model_name p) = (''openai'', ''o3'')"
  using select_gives_tier_model [OF router_run.started [of "\<lambda>_ :: unit router_env. True" sample_settings 5 0 "()"], of "''trivial''" "[''security'']" False]
  by (simp add: tier_choice_def tier_name_def lower_def lower_char_def of_char_def)

text \<open>
  Degraded mode is meant to switch to a cheaper model, but the planner asks for it with a simple
  task, whose own tier costs less than the default model that degraded mode selects.
\<close>

lemma degraded_is_dearer:
  "tier_choice ''simple'' [] = (''openai'', ''gpt-4o-mini'') \<and>
   cost_in (TIERS ! 0) < cost_in (TIERS ! 1) \<and> tier_model (TIERS ! 0) = ''gpt-4o-mini'' \<and> tier_model (TIERS ! 1) = ''gpt-4o''"
  by (simp add: tier_choice_def tier_name_def TIERS_def lower_def lower_char_def of_char_def)

section \<open>A completion always answers\<close>

text \<open>
  What the surroundings are assumed to do: the embedder gives vectors of one length, no call is
  cancelled, and the last provider of the chain is the template provider.
\<close>

definition good_env :: "(string \<Rightarrow> string) \<Rightarrow> nat \<Rightarrow> 'w router_env \<Rightarrow> bool" where
  "good_env template_json d env \<longleftrightarrow>
     (\<forall>t. length (embed_one (env_ops env) t) = d) \<and>
     (\<forall>n msgs w. fst (net env n msgs w) \<noteq> Inl Cancelled) \<and>
     net env ''fallback'' = fallback_complete template_json"

definition cache_ok :: "nat \<Rightarrow> cache \<Rightarrow> bool" where
  "cache_ok d c \<longleftrightarrow> wf_dict (entries c) \<and> (\<forall>k e. map_of (entries c) k = Some e \<longrightarrow> length (embedding e) = d)"

lemma cache_ok_hit: "cache_ok d c \<Longrightarrow> map_of (entries c) k = Some e \<Longrightarrow> cache_ok d (record_hit k e c)"
  by (auto simp: cache_ok_def)

lemma get_cache_ok: "cache_ok d c \<Longrightarrow> cache_ok d (snd (get ops ms m t c))"
  by (cases rule: get_cases [of c ops ms m t]) (auto intro: cache_ok_hit simp: cache_ok_def)

lemma set_cache_ok:
  assumes "cache_ok d c" and "\<forall>t. length (embed_one ops t) = d" and "set_entry ops ms r m tok t now c = Inr c'"
  shows "cache_ok d c'"
proof -
  obtain c1 where c1: "evict c = Inr c1" and
    c': "entries c' = dict_set (cache_key ops ms t)
      \<lparr>prompt_hash = cache_key ops ms t, response = r, model = m, tokens_used = tok, timestamp = now,
       hit_count = 1, embedding = embed_one ops (prompt_text ms)\<rparr> (entries c1)"
    using assms(3) by (auto simp: set_entry_def map_res_eq_Inr Let_def)
  have "wf_dict (entries c1)" using c1 assms(1) by (auto simp: evict_def cache_ok_def map_res_eq_Inr split: if_splits)
  then show ?thesis using c' assms(1,2) evict_map [OF c1] by (auto simp: cache_ok_def) blast
qed

lemma get_never_raises:
  assumes "cache_ok d c" and "\<forall>t. length (embed_one ops t) = d"
  shows "\<exists>a. fst (get ops ms m t c) = Inr a"
proof -
  have len: "length v = d" if kv: "(k, v) \<in> set (candidates t m (entries c))" for k v
  proof -
    obtain e where "(k, e) \<in> set (entries c)" "v = embedding e" using kv by (auto simp: candidates_def)
    then show ?thesis using assms(1) by (auto simp: cache_ok_def wf_dict_def)
  qed
  have "\<exists>ko. semantic_match ops ms m t c = Inr ko"
  proof -
    have "\<forall>v \<in> set (map snd (candidates t m (entries c))). length v = length (embed_one ops (prompt_text ms))"
      using len assms(2) by auto
    then show ?thesis by (auto simp: semantic_match_def similarities_def Let_def)
  qed
  then obtain ko where sm: "semantic_match ops ms m t c = Inr ko" by blast
  have "map_of (entries c) k \<noteq> None" if "ko = Some k" for k
    using semantic_match_candidate [OF sm [unfolded that]] by (auto dest: weak_map_of_SomeI)
  then show ?thesis by (auto simp: get_def sm Let_def split: option.split)
qed

lemma retry_loop_error:
  "retry_loop p rnd f xs e0 w sl = (Inl e, w', sl') \<Longrightarrow> e = e0 \<or> (\<exists>w0 w1. f w0 = (Inl e, w1))"
  by (induction p rnd f xs e0 w sl rule: retry_loop.induct) (auto split: prod.splits sum.splits if_splits)

lemma resilient_not_cancelled:
  assumes "\<And>w. fst (f w) \<noteq> Inl Cancelled"
  shows "fst (resilient_execute clk p rnd f c w) \<noteq> Inl Cancelled"
proof
  assume "fst (resilient_execute clk p rnd f c w) = Inl Cancelled"
  then obtain s' sl where "retry_loop p rnd (protected_call clk f) [0..<nat (max_retries p + 1)] RaiseNone (c, w) [] = (Inl Cancelled, s', sl)"
    by (metis prod.collapse resilient_execute_def retry_execute_def)
  from retry_loop_error [OF this] obtain cw s1 where "protected_call clk f cw = (Inl Cancelled, s1)" by auto
  then obtain c1 w1 where "execute clk f (fst cw) (snd cw) = (Inl Cancelled, c1, w1)"
    by (cases s1) (auto simp: protected_call_def split: prod.splits)
  from breaker_guard.error_source [OF this] have "f (snd cw) = (Inl Cancelled, w1)" by (simp add: is_breaker_error_def)
  then show False using assms [of "snd cw"] by simp
qed

lemma complete_not_cancelled:
  assumes "\<And>w. fst (call msgs w) \<noteq> Inl Cancelled"
  shows "fst (complete ops clk rnd now call ctx t msgs p s) \<noteq> Inl Cancelled"
proof (cases rule: complete_cases [of ops msgs p ctx t s clk rnd now call])
  case (cache_error e c)
  then show ?thesis by (simp add: exn_of_def split: py_error.split)
next
  case (called r circ w sl c r' s')
  have "r \<noteq> Inl Cancelled" using resilient_not_cancelled [of "call msgs", OF assms] called(2) by (metis fst_conv)
  then have "r' \<noteq> Inl Cancelled"
    using called(3)
    by (auto simp: after_call_def fail_traced_def LLMProviderError_def exn_of_def Let_def
        split: sum.splits if_splits py_error.splits)
  then show ?thesis using called(4) by simp
qed simp

lemma complete_cache_ok:
  assumes "cache_ok d (cache s)" and "\<forall>t. length (embed_one ops t) = d"
  shows "cache_ok d (cache (snd (snd (complete ops clk rnd now call ctx t msgs p s))))"
proof (cases rule: complete_cases [of ops msgs p ctx t s clk rnd now call])
  case (cache_error e c)
  then show ?thesis using get_cache_ok [OF assms(1), of ops "map model_dump msgs" "model_name p" "effective_tenant ctx t"] by simp
next
  case (cached reply c)
  then show ?thesis using get_cache_ok [OF assms(1), of ops "map model_dump msgs" "model_name p" "effective_tenant ctx t"] by simp
next
  case (called r circ w sl c r' s')
  have c: "cache_ok d c"
    using called(1) get_cache_ok [OF assms(1), of ops "map model_dump msgs" "model_name p" "effective_tenant ctx t"] by simp
  have "cache_ok d (cache s')"
  proof (cases r')
    case (Inl e)
    then show ?thesis using after_call_Inl [OF called(3) [unfolded Inl]] c by simp
  next
    case (Inr resp)
    then show ?thesis
      using after_call_cache [OF called(3) [unfolded Inr]] c set_cache_ok [OF c assms(2)] by (auto split: if_splits)
  qed
  then show ?thesis using called(4) by simp
qed


definition live_inv :: "nat \<Rightarrow> router \<Rightarrow> 'w llm_state \<Rightarrow> bool" where
  "live_inv d r s \<longleftrightarrow>
     cache_ok d (cache s) \<and> (\<forall>n \<in> set FALLBACK_CHAIN. map_of (breakers r) n \<noteq> None) \<and>
     (\<exists>b t. map_of (breakers r) ''fallback'' = Some (b, t) \<and> cstate b = CLOSED) \<and>
     (\<exists>p. map_of (providers r) ''fallback'' = Some p \<and> cstate (fst (circuit p)) = CLOSED \<and> 0 \<le> max_retries (retry p))"

text \<open>The template provider behind closed breakers.\<close>

lemma fallback_completes:
  assumes "cache_ok d (cache s)" and "good_env tmpl d env" and "cstate (fst (circuit p)) = CLOSED" and "0 \<le> max_retries (retry p)"
  shows "\<exists>resp p' s'. provider_call env t ''fallback'' msgs (p, s) = (Inr resp, (p', s')) \<and>
     cstate (fst (circuit p')) = CLOSED \<and> retry p' = retry p"
proof (cases rule: complete_cases [of "env_ops env" msgs p "env_ctx env" t s "inner_clock env ''fallback''" "env_rnd env" "env_now env" "net env ''fallback''"])
  case (cache_error e c)
  moreover have "\<forall>t. length (embed_one (env_ops env) t) = d" using assms(2) by (simp add: good_env_def)
  ultimately show ?thesis
    using get_never_raises [OF assms(1), of "env_ops env" "map model_dump msgs" "model_name p" "effective_tenant (env_ctx env) t"] by simp
next
  case (cached reply c)
  then show ?thesis using assms(3) by (simp add: provider_call_def)
next
  case (called r circ w sl c r' s')
  obtain b k where bk: "circuit p = (b, k)" by (cases "circuit p")
  have net: "net env ''fallback'' = fallback_complete tmpl" using assms(2) by (simp add: good_env_def)
  have "[0..<nat (max_retries (retry p) + 1)] = 0 # [1..<nat (max_retries (retry p) + 1)]"
    using assms(4) by (simp add: upt_conv_Cons)
  then have "\<exists>resp. r = Inr resp \<and> error resp = [] \<and> rtokens resp = 0 \<and> circ = settle (inner_clock env ''fallback'') r b k"
    using called(2) assms(3)
    by (auto simp: resilient_execute_def retry_execute_def protected_call_def bk execute_closed net fallback_complete_def Let_def)
  then obtain resp where resp: "r = Inr resp" "error resp = []" "rtokens resp = 0" "cstate (fst circ) = CLOSED"
    using assms(3) by (auto simp: settle_def on_success_def bk Let_def)
  then have "r' = Inr resp" using called(3) by (auto simp: after_call_def Let_def)
  then show ?thesis using called(4) resp by (simp add: provider_call_def)
qed

lemma try_chain_live:
  assumes "good_env tmpl d env" and "''fallback'' \<in> set ns" and "set ns \<subseteq> set FALLBACK_CHAIN" and "live_inv d r s"
  shows "\<exists>ans r' s'. try_chain env t msgs ns r s = (Inr ans, r', s') \<and> live_inv d r' s'"
  using assms(2-)
proof (induction ns arbitrary: r s)
  case (Cons n ns)
  have emb: "\<forall>t. length (embed_one (env_ops env) t) = d" and nc: "\<And>n w. fst (net env n msgs w) \<noteq> Inl Cancelled"
    using assms(1) by (simp_all add: good_env_def)
  show ?case
  proof (cases "map_of (providers r) n")
    case None
    then have "n \<noteq> ''fallback''" using Cons.prems(3) by (auto simp: live_inv_def)
    then show ?thesis using Cons None by simp
  next
    case p: (Some p)
    obtain b k where b: "map_of (breakers r) n = Some (b, k)"
      using Cons.prems(2,3) by (fastforce simp: live_inv_def)
    obtain ans b' p' s' where ex: "execute (outer_clock env n) (provider_call env t n msgs) (b, k) (p, s) = (ans, b', p', s')"
      by (metis surj_pair)
    let ?r = "r\<lparr>breakers := dict_set n b' (breakers r), providers := dict_set n p' (providers r)\<rparr>"
    from breaker_guard.call_or_reject [OF ex]
    have src: "provider_call env t n msgs (p, s) = (ans, p', s') \<or> (\<exists>e. is_breaker_error e \<and> ans = Inl e) \<and> s' = s" by auto
    have cache': "cache_ok d (cache s')"
      using src complete_cache_ok [OF _ emb, of s] Cons.prems(3)
      by (auto simp: provider_call_def live_inv_def split: prod.splits) (metis snd_conv)+
    have step: "try_chain env t msgs (n # ns) r s =
        (case ans of Inr resp \<Rightarrow> (Inr (content resp, n), ?r, s')
         | Inl e \<Rightarrow> if is_Exception e then try_chain env t msgs ns ?r s' else (Inl e, ?r, s'))"
      by (simp add: p b ex Let_def)
    show ?thesis
    proof (cases "n = ''fallback''")
      case True
      have cl: "cstate b = CLOSED" "cstate (fst (circuit p)) = CLOSED" "0 \<le> max_retries (retry p)"
        using Cons.prems(3) p b True by (auto simp: live_inv_def)
      obtain resp q s1 where pc: "provider_call env t n msgs (p, s) = (Inr resp, (q, s1))" "cstate (fst (circuit q)) = CLOSED" "retry q = retry p"
        using fallback_completes [OF _ assms(1) cl(2,3), of s t msgs] Cons.prems(3) True by (auto simp: live_inv_def)
      have "ans = Inr resp" "p' = q" "cstate (fst b') = CLOSED"
        using ex pc(1) cl(1) by (auto simp: execute_closed settle_def on_success_def Let_def)
      then have "live_inv d ?r s'"
        using Cons.prems(3) cache' pc(2,3) cl(3) True by (cases b') (auto simp: live_inv_def)
      then show ?thesis using step \<open>ans = Inr resp\<close> by simp
    next
      case False
      have live: "live_inv d ?r s'" using Cons.prems(3) cache' False by (auto simp: live_inv_def)
      show ?thesis
      proof (cases ans)
        case (Inr resp)
        then show ?thesis using step live by simp
      next
        case (Inl e)
        have "is_Exception e"
        proof (rule ccontr)
          assume "\<not> is_Exception e"
          then have "ans = Inl Cancelled" using Inl by (simp add: is_Exception_def)
          with src have "provider_call env t n msgs (p, s) = (Inl Cancelled, p', s')" by (auto simp: is_breaker_error_def)
          then have "fst (complete (env_ops env) (inner_clock env n) (env_rnd env) (env_now env) (net env n) (env_ctx env) t msgs p s) = Inl Cancelled"
            by (auto simp: provider_call_def split: prod.splits)
          then show False using complete_not_cancelled [of "net env n" msgs, OF nc] by blast
        qed
        moreover have "\<exists>ans r' s''. try_chain env t msgs ns ?r s' = (Inr ans, r', s'') \<and> live_inv d r' s''"
          using Cons.prems False live by (intro Cons.IH) auto
        ultimately show ?thesis using step Inl by simp
      qed
    qed
  qed
qed simp


lemma select_keeps_live:
  assumes "live_inv d r s" and "select cfg c tags degraded r = (p, r')"
  shows "live_inv d r' s"
proof -
  have get: "live_inv d (snd (get_provider cfg n m r)) s" if "n \<noteq> ''fallback''" for n m
    using assms(1) that
    by (auto simp: get_provider_def get_named_def live_inv_def Let_def split: option.split sum.split)
  have "tier_provider t \<noteq> ''fallback''" if "t \<in> set TIERS" for t using that by (auto simp: TIERS_def)
  moreover have "t \<in> set TIERS" if "find P (rev TIERS) = Some t" for P t using that by (metis find_Some_iff nth_mem set_rev)
  ultimately have "live_inv d (snd (select cfg c tags degraded r)) s"
    by (auto simp: select_def intro!: get split: option.split)
  then show ?thesis using assms(2) by simp
qed

lemma new_router_live:
  "0 \<le> max_retries (llm_policy cfg) \<Longrightarrow> live_inv d (new_router cfg) \<lparr>cache = new_cache n th, traced = [], outside = w\<rparr>"
  by (simp add: live_inv_def cache_ok_def new_cache_def new_router_def FALLBACK_CHAIN_def default_breaker_def new_breaker_def
      add_provider_def create_llm_provider_def make_provider_def new_provider_def or_else_def)

lemma router_run_live:
  "router_run (good_env tmpl d) cfg r s \<Longrightarrow> 0 \<le> max_retries (llm_policy cfg) \<Longrightarrow> live_inv d r s"
proof (induction rule: router_run.induct)
  case (started size_limit th w)
  then show ?case by (rule new_router_live)
next
  case (selected r s c tags degraded p r')
  then show ?case by (blast intro: select_keeps_live)
next
  case (completed r s env t msgs ans r' s')
  then show ?case
    using try_chain_live [of tmpl d env FALLBACK_CHAIN r s t msgs]
    by (auto simp: router_complete_def FALLBACK_CHAIN_def)
qed

text \<open>
  (C23) A completion through the router always answers: after any history of selections and
  completions, however many calls of the remote providers failed and whichever of their circuits are
  open, the chain ends at the template provider, whose circuits never open, and its answer is
  returned; \<open>AllProvidersFailedError\<close> is not raised. This needs vectors of one length from the
  embedder, a retry count that is not negative, and no cancellation.
\<close>

theorem router_always_answers:
  assumes "router_run (good_env tmpl d) cfg r s" and "good_env tmpl d env" and "0 \<le> max_retries (llm_policy cfg)"
  shows "\<exists>reply n. fst (router_complete env t msgs r s) = Inr (reply, n) \<and> n \<in> set FALLBACK_CHAIN"
proof -
  obtain ans r' s' where run: "router_complete env t msgs r s = (Inr ans, r', s')"
    using try_chain_live [OF assms(2) _ _ router_run_live [OF assms(1,3)], of FALLBACK_CHAIN t msgs]
    by (auto simp: router_complete_def FALLBACK_CHAIN_def)
  moreover have "snd ans \<in> set ns" if "try_chain env t msgs ns r s = (Inr ans, r', s')" for ns r s
    using that
  proof (induction ns arbitrary: r s)
    case (Cons n ns)
    then show ?case by (auto simp: Let_def split: option.splits prod.splits sum.splits if_splits)
  qed simp
  ultimately show ?thesis by (cases ans) (fastforce simp: router_complete_def)
qed

definition down_env :: "unit router_env" where
  "down_env = \<lparr>env_ops = sample_ops\<lparr>embed_one := \<lambda>_. [1]\<rparr>, outer_clock = (\<lambda>_ _. 0), inner_clock = (\<lambda>_ _. 0), env_rnd = (\<lambda>_. 0),
     env_now = 0, env_ctx = ''t'',
     net = (\<lambda>n. if n = ''fallback'' then fallback_complete id else (\<lambda>_ w. (Inl (Failure ''ConnectionError''), w)))\<rparr>"

theorem router_always_answers_witness:
  "\<exists>reply n. fst (router_complete down_env [] [\<lparr>role = ''user'', mcontent = ''hi''\<rparr>] (new_router sample_settings)
      \<lparr>cache = new_cache 5 1, traced = [], outside = ()\<rparr>) = Inr (reply, n) \<and> n \<in> set FALLBACK_CHAIN"
proof (rule router_always_answers [of id 1 sample_settings])
  show "router_run (good_env id 1) sample_settings (new_router sample_settings) \<lparr>cache = new_cache 5 1, traced = [], outside = ()\<rparr>"
    by (rule router_run.started)
  show "good_env id 1 down_env" by (simp add: good_env_def down_env_def fallback_complete_def Let_def)
  show "0 \<le> max_retries (llm_policy sample_settings)" by (simp add: sample_settings_def provider_policy_def)
qed

end
