(* ===== verification/Federation.thy ===== *)
theory Federation
  imports Billing Circuit_Breaker "HOL-Library.Multiset"
begin

text \<open>
  The federation router (\<open>federation/router.py\<close>): peer addresses, the choice of a healthy peer in
  turn, delegation through the resilient executor, the fallback to the local executor, the ledger
  entry of every sub-task, and the join of the results.

  The sub-tasks of one \<open>execute\<close> run concurrently on the event loop; \<open>fed_step\<close> is the interleaved
  system, with one state per sub-task and one step for every stretch of code between two awaits.
  A circuit may move at any time (the calls of other sub-tasks use it). A response is the numbers
  and texts that the router reads from it.
\<close>

section \<open>Addresses\<close>

record peer_node =
  host :: string
  port :: nat

fun parse_digits :: "nat \<Rightarrow> string \<Rightarrow> nat option" where
  "parse_digits acc [] = Some acc"
| "parse_digits acc (c # cs) =
     (let n = (of_char c :: nat)
      in if 48 \<le> n \<and> n \<le> 57 then parse_digits (10 * acc + (n - 48)) cs else None)"

text \<open>
  \<open>address.rpartition(":")\<close>: the parts before and after the last colon, or two empty strings and
  the whole address. A port with a digit character that \<open>int\<close> does not read raises \<open>ValueError\<close> as
  well.
\<close>

definition rpartition :: "string \<Rightarrow> string \<times> string" where
  "rpartition s =
     (if CHR '':'' \<in> set s
      then (rev (tl (dropWhile (\<lambda>c. c \<noteq> CHR '':'') (rev s))), rev (takeWhile (\<lambda>c. c \<noteq> CHR '':'') (rev s)))
      else ([], s))"

definition parse_peer :: "string \<Rightarrow> peer_node result" where
  "parse_peer address =
     (let (h, p) = rpartition address
      in if h = [] \<or> p = [] then Inl ValueError
         else case parse_digits 0 p of None \<Rightarrow> Inl ValueError | Some n \<Rightarrow> Inr \<lparr>host = h, port = n\<rparr>)"

definition peer_address :: "peer_node \<Rightarrow> string" where
  "peer_address p = host p @ '':'' @ show_nat (port p)"

section \<open>State\<close>

datatype status = Delegated | Local | Failed

record response =
  r_input :: int
  r_output :: int
  r_cost :: py_float
  r_solution :: string
  r_quality :: string

definition no_response :: response where
  "no_response = \<lparr>r_input = 0, r_output = 0, r_cost = 0, r_solution = [], r_quality = []\<rparr>"

record delegation =
  subtask_id :: string
  description :: string
  d_peer :: string
  d_status :: status
  d_response :: response
  d_error :: string
  attempts :: nat

datatype task_state = Waiting | AtPeer string | AtLocal string | Finished delegation

record fed_config =
  task_id :: string
  subtasks :: "string list"
  node_id :: string
  has_local :: bool
  fed_policy :: policy

record fed_state =
  circuits :: "(string, breaker \<times> nat) dict"
  robin :: nat
  fed_ledger :: "ledger option"
  tasks :: "task_state list"

definition delegation_policy :: "int \<Rightarrow> py_float \<Rightarrow> py_float \<Rightarrow> policy" where
  "delegation_policy retries base maxd =
     \<lparr>max_retries = retries, base_delay = base, max_delay = maxd, jitter = 2 / 10, retryable = is_Exception,
      non_retryable = is_breaker_error\<rparr>"

definition new_circuits :: "int \<Rightarrow> py_float \<Rightarrow> peer_node list \<Rightarrow> (string, breaker \<times> nat) dict" where
  "new_circuits threshold recovery peers =
     foldl (\<lambda>d p. dict_set (peer_address p) (new_breaker threshold recovery 1, 0) d) [] peers"

definition new_fed :: "(string, breaker \<times> nat) dict \<Rightarrow> nat \<Rightarrow> ledger option \<Rightarrow> nat \<Rightarrow> fed_state" where
  "new_fed cs start l n = \<lparr>circuits = cs, robin = start, fed_ledger = l, tasks = replicate n Waiting\<rparr>"

definition id_of :: "fed_config \<Rightarrow> nat \<Rightarrow> string" where
  "id_of cfg i = (if task_id cfg \<noteq> [] then task_id cfg @ '':'' @ show_nat i else show_nat i)"

section \<open>One sub-task\<close>

text \<open>Reading the state of a circuit moves it from open to half-open when its time has come.\<close>

definition observe_all :: "(string \<Rightarrow> clock) \<Rightarrow> (string, breaker \<times> nat) dict \<Rightarrow> (string, breaker \<times> nat) dict" where
  "observe_all clk cs = map (\<lambda>(a, b, t). (a, observe (clk a) b t)) cs"

definition healthy_peers :: "(string, breaker \<times> nat) dict \<Rightarrow> string list" where
  "healthy_peers observed = map fst (filter (\<lambda>(a, b, t). cstate b \<noteq> OPEN) observed)"

definition begin_delegate :: "(string \<Rightarrow> clock) \<Rightarrow> nat \<Rightarrow> fed_state \<Rightarrow> fed_state" where
  "begin_delegate clk i s =
     (let cs = observe_all clk (circuits s); healthy = healthy_peers cs
      in if healthy = [] then s\<lparr>circuits := cs, tasks := (tasks s)[i := AtLocal ''no healthy peers'']\<rparr>
         else s\<lparr>circuits := cs, robin := robin s + 1,
                tasks := (tasks s)[i := AtPeer (healthy ! (robin s mod length healthy))]\<rparr>)"

definition kind_of :: "status \<Rightarrow> string" where
  "kind_of st = (case st of Delegated \<Rightarrow> ''subtask'' | Local \<Rightarrow> ''delegation-local'' | Failed \<Rightarrow> ''delegation-failed'')"

text \<open>The arguments of the ledger entry, with the id and the time that the ledger gives it.\<close>

definition ledger_args :: "fed_config \<Rightarrow> string \<Rightarrow> py_float \<Rightarrow> py_float \<Rightarrow> delegation \<Rightarrow> ledger_entry" where
  "ledger_args cfg eid now duration d =
     \<lparr>l_id = eid, l_time = now, l_node = node_id cfg, l_task = subtask_id d, l_subtask = [], l_kind = kind_of (d_status d),
      l_provider = [], l_model = [], l_input = r_input (d_response d), l_output = r_output (d_response d), l_total = 0,
      l_cost = r_cost (d_response d), l_peer = d_peer d, l_artifact = r_solution (d_response d),
      l_meta = [(''description'', JStr (take 200 (description d))),
                (''duration_ms'', JFloat (py_round 1 (duration * 1000))),
                (''quality'', JStr (r_quality (d_response d)))]\<rparr>"

definition record_result :: "bool \<Rightarrow> ledger_entry \<Rightarrow> ledger option \<Rightarrow> ledger option" where
  "record_result write_ok args l = map_option (record_entry write_ok args) l"

definition finish :: "fed_config \<Rightarrow> bool \<Rightarrow> string \<Rightarrow> py_float \<Rightarrow> py_float \<Rightarrow> nat \<Rightarrow> delegation \<Rightarrow> fed_state \<Rightarrow> fed_state" where
  "finish cfg write_ok eid now duration i d s =
     s\<lparr>tasks := (tasks s)[i := Finished d],
       fed_ledger := record_result write_ok (ledger_args cfg eid now duration d) (fed_ledger s)\<rparr>"

definition delegated_result :: "fed_config \<Rightarrow> nat \<Rightarrow> string \<Rightarrow> response \<Rightarrow> nat \<Rightarrow> delegation" where
  "delegated_result cfg i a resp n =
     \<lparr>subtask_id = id_of cfg i, description = subtasks cfg ! i, d_peer = a, d_status = Delegated, d_response = resp,
      d_error = [], attempts = n\<rparr>"

text \<open>\<open>_run_local\<close>: without a local executor the sub-task fails; otherwise its outcome decides.\<close>

definition local_result :: "fed_config \<Rightarrow> nat \<Rightarrow> string \<Rightarrow> response outcome \<Rightarrow> delegation" where
  "local_result cfg i reason r =
     (let base = \<lparr>subtask_id = id_of cfg i, description = subtasks cfg ! i, d_peer = [], d_status = Failed,
                  d_response = no_response, d_error = reason, attempts = 0\<rparr>
      in if \<not> has_local cfg then base
         else case r of
                Inr resp \<Rightarrow> base\<lparr>d_status := Local, d_response := resp\<rparr>
              | Inl _ \<Rightarrow> base\<lparr>d_error := reason @ ''; local''\<rparr>)"

section \<open>All sub-tasks\<close>

inductive fed_step :: "(string \<Rightarrow> clock) \<Rightarrow> fed_config \<Rightarrow> fed_state \<Rightarrow> fed_state \<Rightarrow> bool" for clk cfg where
  begins: "i < length (tasks s) \<Longrightarrow> tasks s ! i = Waiting \<Longrightarrow> fed_step clk cfg s (begin_delegate clk i s)"
| answered: "i < length (tasks s) \<Longrightarrow> tasks s ! i = AtPeer a \<Longrightarrow>
     resilient_execute (clk a) (fed_policy cfg) rnd (scripted replies) c 0 = (Inr resp, (c', n), sl) \<Longrightarrow>
     fed_step clk cfg s (finish cfg w eid now dur i (delegated_result cfg i a resp n) s)"
| gave_up: "i < length (tasks s) \<Longrightarrow> tasks s ! i = AtPeer a \<Longrightarrow>
     fed_step clk cfg s (s\<lparr>tasks := (tasks s)[i := AtLocal reason]\<rparr>)"
| ran_local: "i < length (tasks s) \<Longrightarrow> tasks s ! i = AtLocal reason \<Longrightarrow> r \<noteq> Inl Cancelled \<Longrightarrow>
     fed_step clk cfg s (finish cfg w eid now dur i (local_result cfg i reason r) s)"
| circuit_moved: "map_of (circuits s) a = Some b \<Longrightarrow> fed_step clk cfg s (s\<lparr>circuits := dict_set a b' (circuits s)\<rparr>)"

inductive fed_reachable :: "(string \<Rightarrow> clock) \<Rightarrow> fed_config \<Rightarrow> fed_state \<Rightarrow> fed_state \<Rightarrow> bool" for clk cfg s0 where
  fed_start: "fed_reachable clk cfg s0 s0"
| fed_more: "fed_reachable clk cfg s0 s \<Longrightarrow> fed_step clk cfg s s' \<Longrightarrow> fed_reachable clk cfg s0 s'"

inductive_cases fed_stepE: "fed_step clk cfg s s'"

section \<open>Joining\<close>

record summary =
  results :: "delegation list"
  total :: nat
  n_delegated_tasks :: nat
  n_local_tasks :: nat
  n_failed_tasks :: nat
  peers_used :: "string list"

fun result_of :: "task_state \<Rightarrow> delegation option" where
  "result_of (Finished d) = Some d"
| "result_of _ = None"

definition effective_subtasks :: "string \<Rightarrow> string list \<Rightarrow> string list" where
  "effective_subtasks title descs = (if descs = [] then [title] else descs)"

definition summarize :: "fed_state \<Rightarrow> summary option" where
  "summarize s =
     (if list_all (\<lambda>t. result_of t \<noteq> None) (tasks s)
      then (let rs = map (\<lambda>t. the (result_of t)) (tasks s)
            in Some \<lparr>results = rs, total = length rs,
                     n_delegated_tasks = length (filter (\<lambda>r. d_status r = Delegated) rs),
                     n_local_tasks = length (filter (\<lambda>r. d_status r = Local) rs),
                     n_failed_tasks = length (filter (\<lambda>r. d_status r = Failed) rs),
                     peers_used = sort (remdups (filter (\<lambda>p. p \<noteq> []) (map d_peer rs)))\<rparr>)
      else None)"

section \<open>Addresses round-trip\<close>

lemma parse_digits_append:
  "parse_digits acc (xs @ ys) = (case parse_digits acc xs of None \<Rightarrow> None | Some a \<Rightarrow> parse_digits a ys)"
  by (induction acc xs rule: parse_digits.induct) (auto simp: Let_def)

lemma parse_show_nat: "parse_digits 0 (show_nat n) = Some n"
proof (induction n rule: show_nat.induct)
  case (1 n)
  show ?case
  proof (cases "n < 10")
    case True
    then show ?thesis by (simp add: show_nat.simps [of n] show_nat_digit Let_def)
  next
    case False
    have "n mod 10 < 10" by simp
    then show ?thesis
      using False 1 by (simp add: show_nat.simps [of n] parse_digits_append show_nat_digit Let_def)
  qed
qed

lemma show_nat_no_colon: "CHR '':'' \<notin> set (show_nat n)"
  using show_nat_digits [of "CHR '':''" n] by auto

lemma rpartition_last:
  assumes "CHR '':'' \<notin> set b"
  shows "rpartition (a @ CHR '':'' # b) = (a, b)"
proof -
  have "takeWhile (\<lambda>c. c \<noteq> CHR '':'') (rev b @ CHR '':'' # rev a) = rev b"
    using assms by (subst takeWhile_append2) auto
  moreover have "dropWhile (\<lambda>c. c \<noteq> CHR '':'') (rev b @ CHR '':'' # rev a) = CHR '':'' # rev a"
    using assms by (subst dropWhile_append2) auto
  ultimately show ?thesis by (simp add: rpartition_def)
qed

text \<open>
  Peer addresses round-trip: the address of a peer parses back to it, for any host that is not
  empty (an IPv6 host with colons included); an address without a host or with a port that is not a
  number is refused.
\<close>

theorem peer_address_roundtrip:
  assumes "host p \<noteq> []"
  shows "parse_peer (peer_address p) = Inr p"
  using assms
  by (simp add: parse_peer_def peer_address_def rpartition_last [OF show_nat_no_colon] parse_show_nat)

theorem peer_address_roundtrip_witness:
  "parse_peer (peer_address \<lparr>host = ''::1'', port = 5005\<rparr>) = Inr \<lparr>host = ''::1'', port = 5005\<rparr>"
  by (rule peer_address_roundtrip) simp

lemma parse_peer_host: "parse_peer s = Inr p \<Longrightarrow> host p \<noteq> []"
  by (auto simp: parse_peer_def split: prod.splits if_splits option.splits)

section \<open>Choice of a peer\<close>

definition fan_out :: "(string \<Rightarrow> clock) \<Rightarrow> nat \<Rightarrow> fed_state \<Rightarrow> fed_state" where
  "fan_out clk n s = foldl (\<lambda>s i. begin_delegate clk i s) s [0..<n]"

lemma observe_closed: "\<forall>(a, b, t) \<in> set cs. cstate b = CLOSED \<Longrightarrow> observe_all clk cs = cs"
  by (induction cs) (auto simp: observe_all_def observe_def)

lemma healthy_closed: "\<forall>(a, b, t) \<in> set cs. cstate b = CLOSED \<Longrightarrow> healthy_peers cs = map fst cs"
  by (induction cs) (auto simp: healthy_peers_def)

text \<open>
  The fan-out goes round the peers: \<open>gather\<close> starts the sub-tasks in order, and while every
  circuit is closed the sub-task at position \<open>i\<close> is sent to the peer at position \<open>robin + i\<close>, modulo
  the number of peers, and the cursor is left behind the last one.
\<close>

theorem fan_out_round_robin:
  assumes "\<forall>(a, b, t) \<in> set (circuits s). cstate b = CLOSED" and "circuits s \<noteq> []" and "n \<le> length (tasks s)"
  shows "fan_out clk n s =
    s\<lparr>robin := robin s + n,
      tasks := map (\<lambda>i. AtPeer (fst (circuits s ! ((robin s + i) mod length (circuits s))))) [0..<n] @ drop n (tasks s)\<rparr>"
  using assms(3)
proof (induction n)
  case 0
  then show ?case by (simp add: fan_out_def)
next
  case (Suc n)
  let ?pick = "\<lambda>i. AtPeer (fst (circuits s ! ((robin s + i) mod length (circuits s))))"
  let ?s = "s\<lparr>robin := robin s + n, tasks := map ?pick [0..<n] @ drop n (tasks s)\<rparr>"
  have "fan_out clk (Suc n) s = begin_delegate clk n ?s"
    using Suc by (simp add: fan_out_def)
  also have "\<dots> = ?s\<lparr>robin := robin s + n + 1, tasks := (tasks ?s)[n := ?pick n]\<rparr>"
    using assms(1,2) by (simp add: begin_delegate_def observe_closed healthy_closed Let_def)
  also have "(tasks ?s)[n := ?pick n] = map ?pick [0..<Suc n] @ drop (Suc n) (tasks s)"
    using Suc.prems by (simp add: list_update_append Cons_nth_drop_Suc [symmetric])
  finally show ?case by simp
qed

theorem fan_out_round_robin_witness:
  "tasks (fan_out (\<lambda>_ _. 0) 3 (new_fed (new_circuits 3 30 [\<lparr>host = ''a'', port = 3\<rparr>, \<lparr>host = ''b'', port = 2\<rparr>]) 0 None 3)) =
     [AtPeer ''a:3'', AtPeer ''b:2'', AtPeer ''a:3'']"
proof -
  let ?s = "new_fed (new_circuits 3 30 [\<lparr>host = ''a'', port = 3\<rparr>, \<lparr>host = ''b'', port = 2\<rparr>]) 0 None 3"
  have shown: "show_nat 3 = ''3''" "show_nat 2 = ''2''" by code_simp+
  have cs: "circuits ?s = [(''a:3'', new_breaker 3 30 1, 0), (''b:2'', new_breaker 3 30 1, 0)]"
    by (simp add: new_fed_def new_circuits_def peer_address_def shown)
  have "fan_out (\<lambda>_ _. 0) 3 ?s = ?s\<lparr>robin := robin ?s + 3,
      tasks := map (\<lambda>i. AtPeer (fst (circuits ?s ! ((robin ?s + i) mod length (circuits ?s))))) [0..<3] @ drop 3 (tasks ?s)\<rparr>"
    by (rule fan_out_round_robin) (simp_all only: cs, simp_all add: new_breaker_def new_fed_def)
  then show ?thesis by (simp add: cs) (simp add: new_fed_def upt_conv_Cons)
qed

lemma begin_healthy:
  assumes "tasks (begin_delegate clk i s) ! i = AtPeer a" and "i < length (tasks s)"
  shows "\<exists>b t. (a, b, t) \<in> set (circuits (begin_delegate clk i s)) \<and> cstate b \<noteq> OPEN"
proof -
  let ?h = "healthy_peers (observe_all clk (circuits s))"
  have h: "?h \<noteq> []" and a: "a = ?h ! (robin s mod length ?h)"
    using assms by (auto simp: begin_delegate_def Let_def split: if_splits)
  then have "a \<in> set ?h" by (simp add: nth_mem)
  then have "\<exists>b t. (a, b, t) \<in> set (observe_all clk (circuits s)) \<and> cstate b \<noteq> OPEN"
    by (auto simp: healthy_peers_def) blast
  then show ?thesis using h by (simp add: begin_delegate_def Let_def)
qed


section \<open>Every sub-task is accounted for\<close>

text \<open>What a finished sub-task looks like, and what the ledger has seen.\<close>

definition result_ok :: "fed_config \<Rightarrow> nat \<Rightarrow> delegation \<Rightarrow> bool" where
  "result_ok cfg i d \<longleftrightarrow>
     subtask_id d = id_of cfg i \<and> description d = subtasks cfg ! i \<and>
     (d_status d = Delegated \<longleftrightarrow> attempts d \<noteq> 0) \<and> (d_peer d \<noteq> [] \<longrightarrow> d_status d = Delegated) \<and>
     int (attempts d) \<le> max 0 (max_retries (fed_policy cfg) + 1) \<and>
     (d_status d = Local \<longrightarrow> has_local cfg)"

definition finished_ids :: "fed_config \<Rightarrow> task_state list \<Rightarrow> string list" where
  "finished_ids cfg ts = map (id_of cfg) (filter (\<lambda>i. result_of (ts ! i) \<noteq> None) [0..<length ts])"

lemma retry_scripted_count:
  "retry_loop p rnd (protected_call clk (scripted outs)) xs e (c, n) sl = (Inr v, (c', m), sl') \<Longrightarrow>
   n < m \<and> m \<le> n + length xs"
proof (induction xs arbitrary: e c n sl)
  case (Cons x xs)
  obtain r c1 n1 where pc: "protected_call clk (scripted outs) (c, n) = (r, (c1, n1))" by (metis surj_pair)
  have n1: "r = Inr u \<Longrightarrow> n1 = Suc n" "n1 = n \<or> n1 = Suc n" for u
  proof -
    have ex: "execute clk (scripted outs) c n = (r, c1, n1)" using pc by (auto simp: protected_call_def split: prod.splits)
    from breaker_guard.call_or_reject [OF this] show "r = Inr u \<Longrightarrow> n1 = Suc n" "n1 = n \<or> n1 = Suc n"
      by (auto simp: scripted_def)
  qed
  show ?case
  proof (cases r)
    case (Inr u)
    then show ?thesis using Cons.prems pc n1(1) [OF Inr] by simp
  next
    case (Inl e1)
    then obtain sl1 where "retry_loop p rnd (protected_call clk (scripted outs)) xs e1 (c1, n1) sl1 = (Inr v, (c', m), sl')"
      using Cons.prems pc by (auto split: if_splits)
    from Cons.IH [OF this] n1(2) show ?thesis by auto
  qed
qed simp

lemma executor_attempts:
  assumes "resilient_execute clk p rnd (scripted outs) c 0 = (Inr v, (c', n), sl)"
  shows "0 < n \<and> int n \<le> max_retries p + 1"
  using retry_scripted_count [of p rnd clk outs "[0..<nat (max_retries p + 1)]" RaiseNone c 0 "[]" v c' n sl] assms
  by (auto simp: resilient_execute_def retry_execute_def)

definition fed_inv :: "fed_config \<Rightarrow> nat \<Rightarrow> fed_state \<Rightarrow> bool" where
  "fed_inv cfg n s \<longleftrightarrow> length (tasks s) = n \<and> (\<forall>i d. i < n \<longrightarrow> tasks s ! i = Finished d \<longrightarrow> result_ok cfg i d)"

lemma fed_step_inv: "fed_step clk cfg s s' \<Longrightarrow> fed_inv cfg n s \<Longrightarrow> fed_inv cfg n s'"
proof (induction rule: fed_step.induct)
  case (begins i s)
  then show ?case by (auto simp: fed_inv_def begin_delegate_def Let_def nth_list_update)
next
  case (answered i s a rnd replies c resp c' m sl w eid now dur)
  have "result_ok cfg i (delegated_result cfg i a resp m)"
    using executor_attempts [OF answered(3)] by (auto simp: result_ok_def delegated_result_def)
  then show ?case using answered by (auto simp: fed_inv_def finish_def nth_list_update)
next
  case (gave_up i s a reason)
  then show ?case by (auto simp: fed_inv_def nth_list_update)
next
  case (ran_local i s reason r w eid now dur)
  have "result_ok cfg i (local_result cfg i reason r)"
    by (auto simp: result_ok_def local_result_def Let_def split: sum.split)
  then show ?case using ran_local by (auto simp: fed_inv_def finish_def nth_list_update)
next
  case (circuit_moved s a b b')
  then show ?case by (simp add: fed_inv_def)
qed

definition finished :: "task_state list \<Rightarrow> delegation list" where
  "finished ts = List.map_filter result_of ts"

lemma finished_simps [simp]:
  "finished [] = []" "finished (t # ts) = (case result_of t of None \<Rightarrow> finished ts | Some d \<Rightarrow> d # finished ts)"
  "finished (ts @ us) = finished ts @ finished us"
  by (simp_all add: finished_def map_filter_def split: option.split)

lemma finished_update:
  assumes "i < length ts" and "result_of (ts ! i) = None"
  shows "mset (finished (ts[i := t])) = (case result_of t of None \<Rightarrow> {#} | Some d \<Rightarrow> {#d#}) + mset (finished ts)"
proof -
  have "finished ts = finished (take i ts @ ts ! i # drop (Suc i) ts)" using assms(1) by (simp add: id_take_nth_drop [symmetric])
  then show ?thesis using assms by (simp add: upd_conv_take_nth_drop split: option.split)
qed

lemma finished_all: "list_all (\<lambda>t. result_of t \<noteq> None) ts \<Longrightarrow> finished ts = map (\<lambda>t. the (result_of t)) ts"
  by (induction ts) auto

lemma length_finished_le: "length (finished ts) \<le> length ts"
  by (induction ts) (auto split: option.split)

definition entry_key :: "ledger_entry \<Rightarrow> string \<times> string \<times> string \<times> py_float" where
  "entry_key e = (l_task e, l_kind e, l_peer e, l_cost e)"

definition result_key :: "delegation \<Rightarrow> string \<times> string \<times> string \<times> py_float" where
  "result_key d = (subtask_id d, kind_of (d_status d), d_peer d, max (r_cost (d_response d)) 0)"

text \<open>The ledger has grown by one entry for every finished sub-task, as long as it has room.\<close>

definition ledger_inv :: "ledger \<Rightarrow> fed_state \<Rightarrow> bool" where
  "ledger_inv l0 s \<longleftrightarrow> (\<exists>l new. fed_ledger s = Some l \<and> max_entries l = max_entries l0 \<and> l_entries l = l_entries l0 @ new \<and>
     mset (map entry_key new) = mset (map result_key (finished (tasks s))))"

lemma record_entry_room:
  assumes "length (l_entries l) < max_entries l"
  shows "l_entries (record_entry w args l) = l_entries l @ [make_entry args] \<and> max_entries (record_entry w args l) = max_entries l"
  using assms by (auto simp: record_entry_def append_to_file_def Let_def)

lemma make_entry_key: "entry_key (make_entry (ledger_args cfg eid now dur d)) = result_key d"
  by (simp add: entry_key_def result_key_def make_entry_def ledger_args_def)

lemma ledger_inv_keep:
  assumes "ledger_inv l0 s" and "i < length (tasks s)" and "result_of (tasks s ! i) = None" and "result_of t = None"
    and "fed_ledger s' = fed_ledger s" and "tasks s' = (tasks s)[i := t]"
  shows "ledger_inv l0 s'"
  using assms finished_update [OF assms(2,3), of t] unfolding ledger_inv_def by (auto simp: mset_map)

lemma ledger_inv_finish:
  assumes "ledger_inv l0 s" and "i < length (tasks s)" and "result_of (tasks s ! i) = None"
    and "length (l_entries l0) + length (tasks s) \<le> max_entries l0"
  shows "ledger_inv l0 (finish cfg w eid now dur i d s)"
proof -
  obtain l new where l: "fed_ledger s = Some l" "max_entries l = max_entries l0" "l_entries l = l_entries l0 @ new"
    "mset (map entry_key new) = mset (map result_key (finished (tasks s)))"
    using assms(1) by (auto simp: ledger_inv_def)
  have fin: "mset (finished ((tasks s)[i := Finished d])) = add_mset d (mset (finished (tasks s)))"
    using finished_update [OF assms(2,3), of "Finished d"] by simp
  have "length new = length (finished (tasks s))" using l(4) by (metis length_map mset_eq_length)
  also have "\<dots> < length (tasks s)"
    using fin length_finished_le [of "(tasks s)[i := Finished d]"]
    by (metis Suc_le_eq length_list_update size_add_mset size_mset)
  finally have room: "length (l_entries l) < max_entries l" using assms(4) l(2,3) by simp
  let ?l = "record_entry w (ledger_args cfg eid now dur d) l"
  have "mset (map entry_key (new @ [make_entry (ledger_args cfg eid now dur d)])) = mset (map result_key (finished ((tasks s)[i := Finished d])))"
    using l(4) fin by (simp add: make_entry_key)
  then show ?thesis
    using l record_entry_room [OF room, of w "ledger_args cfg eid now dur d"]
    by (auto simp: ledger_inv_def finish_def record_result_def)
qed

lemma length_tasks_finish: "length (tasks (finish cfg w eid now dur i d s)) = length (tasks s)"
  by (simp add: finish_def)

lemma fed_step_ledger:
  assumes "fed_step clk cfg s s'" and "ledger_inv l0 s" and "length (l_entries l0) + length (tasks s) \<le> max_entries l0"
  shows "ledger_inv l0 s' \<and> length (tasks s') = length (tasks s)"
  using assms
proof (induction rule: fed_step.induct)
  case (begins i s)
  then show ?case
    by (auto intro!: ledger_inv_keep [of l0 s i] simp: begin_delegate_def Let_def)
next
  case (answered i s a rnd replies c resp c' m sl w eid now dur)
  then show ?case using ledger_inv_finish [of l0 s i cfg w eid now dur] by (simp add: length_tasks_finish)
next
  case (gave_up i s a reason)
  then show ?case by (auto intro!: ledger_inv_keep [of l0 s i])
next
  case (ran_local i s reason r w eid now dur)
  then show ?case using ledger_inv_finish [of l0 s i cfg w eid now dur] by (simp add: length_tasks_finish)
next
  case (circuit_moved s a b b')
  then show ?case by (simp add: ledger_inv_def)
qed


lemma fed_reachable_inv:
  assumes "fed_reachable clk cfg s0 s" and "s0 = new_fed cs k (Some l0) n" and "length (l_entries l0) + n \<le> max_entries l0"
  shows "fed_inv cfg n s \<and> ledger_inv l0 s"
  using assms(1)
proof (induction rule: fed_reachable.induct)
  case fed_start
  have "finished (replicate n Waiting) = []" by (induction n) simp_all
  then show ?case using assms(2) by (simp add: new_fed_def fed_inv_def ledger_inv_def)
next
  case (fed_more s s')
  then have "length (tasks s) = n" by (simp add: fed_inv_def)
  then show ?case using fed_more fed_step_inv fed_step_ledger [of clk cfg s s' l0] assms(3) by auto
qed


section \<open>A federated run ends\<close>

fun steps_left :: "task_state \<Rightarrow> nat" where
  "steps_left Waiting = 3"
| "steps_left (AtPeer _) = 2"
| "steps_left (AtLocal _) = 1"
| "steps_left (Finished _) = 0"

definition todo :: "fed_state \<Rightarrow> nat" where
  "todo s = sum_list (map steps_left (tasks s))"

lemma todo_update:
  assumes "i < length ts" and "steps_left t < steps_left (ts ! i)"
  shows "sum_list (map steps_left (ts[i := t])) < sum_list (map steps_left ts)"
proof -
  have "sum_list (map steps_left ts) = sum_list (map steps_left (take i ts @ ts ! i # drop (Suc i) ts))"
    using assms(1) by (simp add: id_take_nth_drop [symmetric])
  then show ?thesis using assms by (simp add: upd_conv_take_nth_drop)
qed

lemma fed_step_todo: "fed_step clk cfg s s' \<Longrightarrow> todo s' < todo s \<or> tasks s' = tasks s"
  by (induction rule: fed_step.induct)
    (auto simp: todo_def finish_def begin_delegate_def Let_def intro!: todo_update)

text \<open>
  A federated run never gets stuck: as long as a sub-task has not finished, some step is possible
  that brings the run nearer to its end, whatever the circuits do; every step of a sub-task lowers the
  number of steps left, of which there are at most three per sub-task, so the run ends with a summary.
\<close>

theorem federated_run_ends:
  shows "(summarize s = None \<longrightarrow> (\<exists>s'. fed_step clk cfg s s' \<and> todo s' < todo s)) \<and>
    (\<forall>s'. fed_step clk cfg s s' \<longrightarrow> todo s' < todo s \<or> tasks s' = tasks s) \<and>
    todo (new_fed cs k l n) = 3 * n \<and> (todo s = 0 \<longrightarrow> summarize s \<noteq> None)"
proof -
  have "\<exists>s'. fed_step clk cfg s s' \<and> todo s' < todo s" if unfinished: "summarize s = None"
  proof -
    obtain i where i: "i < length (tasks s)" "result_of (tasks s ! i) = None"
      using unfinished by (auto simp: summarize_def list_all_length Let_def split: if_splits)
    show ?thesis
    proof (cases "tasks s ! i")
      case Waiting
      have "todo (begin_delegate clk i s) < todo s"
        using Waiting i by (auto simp: todo_def begin_delegate_def Let_def intro!: todo_update)
      then show ?thesis using fed_step.begins [OF i(1) Waiting] by blast
    next
      case (AtPeer a)
      have "todo (s\<lparr>tasks := (tasks s)[i := AtLocal []]\<rparr>) < todo s"
        using AtPeer i by (auto simp: todo_def intro!: todo_update)
      then show ?thesis using fed_step.gave_up [OF i(1) AtPeer] by blast
    next
      case (AtLocal reason)
      have "todo (finish cfg True [] 0 0 i (local_result cfg i reason (Inr no_response)) s) < todo s"
        using AtLocal i by (auto simp: todo_def finish_def intro!: todo_update)
      then show ?thesis using fed_step.ran_local [OF i(1) AtLocal, of "Inr no_response"] by blast
    next
      case (Finished d)
      then show ?thesis using i by simp
    qed
  qed
  moreover have "todo (new_fed cs k l n) = 3 * n" by (simp add: todo_def new_fed_def sum_list_replicate)
  moreover have "summarize s \<noteq> None" if "todo s = 0"
  proof -
    have "steps_left t = 0" if "t \<in> set (tasks s)" for t
      using that \<open>todo s = 0\<close> by (simp add: todo_def)
    moreover have "steps_left t = 0 \<Longrightarrow> result_of t \<noteq> None" for t by (cases t) simp_all
    ultimately have "result_of t \<noteq> None" if "t \<in> set (tasks s)" for t using that by blast
    then show ?thesis by (simp add: summarize_def list_all_iff Let_def)
  qed
  ultimately show ?thesis using fed_step_todo by blast
qed


theorem federated_run_ends_witness:
  "\<exists>s'. fed_step (\<lambda>_ _. 0) \<lparr>task_id = [], subtasks = [''x''], node_id = ''n'', has_local = False, fed_policy = delegation_policy 2 1 1\<rparr>
     (new_fed [] 0 None 1) s' \<and> todo s' < todo (new_fed [] 0 None 1)"
proof -
  have "summarize (new_fed [] 0 None 1) = None" by (simp add: new_fed_def summarize_def)
  then show ?thesis
    using federated_run_ends [of "new_fed [] 0 None 1" "\<lambda>_ _. 0"
        "\<lparr>task_id = [], subtasks = [''x''], node_id = ''n'', has_local = False, fed_policy = delegation_policy 2 1 1\<rparr>" "[]" 0 None 1]
    by blast
qed

definition lone_config :: fed_config where
  "lone_config = \<lparr>task_id = ''t'', subtasks = [''x''], node_id = ''n'', has_local = False, fed_policy = delegation_policy 2 1 1\<rparr>"

definition lone_final :: fed_state where
  "lone_final = finish lone_config True ''e'' 0 0 0 (local_result lone_config 0 ''no healthy peers'' (Inr no_response))
     (begin_delegate (\<lambda>_ _. 0) 0 (new_fed [] 0 (Some (new_ledger False 5 None)) 1))"


section \<open>What the transport loses\<close>

text \<open>
  The gRPC client builds the response dictionary of a peer from the reply; it has no token counts
  and no cost, so the router reads zeros, and the error that a reply reports is not looked at.
\<close>

record think_reply =
  reply_solution :: string
  reply_quality :: string
  reply_error :: string

definition think :: "think_reply \<Rightarrow> response" where
  "think reply = no_response\<lparr>r_solution := reply_solution reply, r_quality := reply_quality reply\<rparr>"

lemma delegated_entries_cost_nothing:
  "let e = make_entry (ledger_args cfg eid now dur (delegated_result cfg i a (think reply) n))
   in l_input e = 0 \<and> l_output e = 0 \<and> l_cost e = 0 \<and> l_kind e = ''subtask''"
  by (simp add: make_entry_def ledger_args_def delegated_result_def think_def no_response_def kind_of_def Let_def)

lemma failed_reply_is_delegated:
  "d_status (delegated_result cfg i a (think (reply\<lparr>reply_error := err\<rparr>)) n) = Delegated \<and>
   think (reply\<lparr>reply_error := err\<rparr>) = think reply"
  by (simp add: delegated_result_def think_def)

end
