(* ===== verification/Event_Bus.thy ===== *)
theory Event_Bus
  imports Bounded_Log
begin

text \<open>
  The in-process event bus (\<open>core/events.py\<close>): a bounded queue of events, subscribers per type and
  for all types, a consumer that hands every event to its subscribers one after the other, counters
  and dead letters.

  A handler may await, so events are published and subscriptions change while another event is being
  handled: \<open>bus_step\<close> is the interleaved system. The consumer is in the state \<open>handling\<close>: the event
  at hand and the handlers it has still to call, taken when the event left the queue. Besides the
  fields of the bus the state records what was accepted, what was taken from the queue with its
  handlers, and the calls made; these are not read by the operations.
\<close>

record event =
  etype :: string
  eid :: nat

datatype letter_reason = QueueFull | HandlerRaised

datatype call_outcome = Succeeded | Raised | Aborted

record 'h bus =
  max_queue :: nat
  subscribers :: "(string, 'h list) dict"
  queue :: "event list"
  dead_letters :: "(event \<times> letter_reason) list"
  running :: bool
  published :: nat
  delivered :: nat
  failed :: nat
  handling :: "(event \<times> 'h list) option"
  accepted :: "event list"
  taken :: "(event \<times> 'h list) list"
  calls :: "((event \<times> 'h) \<times> call_outcome) list"
  rejected :: nat

definition new_bus :: "nat \<Rightarrow> 'h bus" where
  "new_bus m = \<lparr>max_queue = m, subscribers = [], queue = [], dead_letters = [], running = False, published = 0,
     delivered = 0, failed = 0, handling = None, accepted = [], taken = [], calls = [],
     rejected = 0\<rparr>"

section \<open>Operations\<close>

definition subscribe :: "string \<Rightarrow> 'h \<Rightarrow> 'h bus \<Rightarrow> 'h bus" where
  "subscribe ty h b = b\<lparr>subscribers := dict_set ty (dict_get (subscribers b) ty [] @ [h]) (subscribers b)\<rparr>"

definition unsubscribe :: "string \<Rightarrow> 'h \<Rightarrow> 'h bus \<Rightarrow> 'h bus" where
  "unsubscribe ty h b =
     (case map_of (subscribers b) ty of
        None \<Rightarrow> b
      | Some hs \<Rightarrow> if h \<in> set hs then b\<lparr>subscribers := dict_set ty (remove1 h hs) (subscribers b)\<rparr> else b)"

text \<open>A queue of size zero (or less) is unbounded for \<open>asyncio.Queue\<close>.\<close>

definition queue_full :: "'h bus \<Rightarrow> bool" where
  "queue_full b = (0 < max_queue b \<and> max_queue b \<le> length (queue b))"

definition publish :: "event \<Rightarrow> 'h bus \<Rightarrow> 'h bus" where
  "publish e b =
     (if queue_full b then
        (let letters = dead_letters b @ [(e, QueueFull)]
         in b\<lparr>dead_letters := (if 1000 < length letters then tl letters else letters), failed := failed b + 1,
             rejected := rejected b + 1\<rparr>)
      else b\<lparr>queue := queue b @ [e], published := published b + 1, accepted := accepted b @ [e]\<rparr>)"

definition handlers_for :: "event \<Rightarrow> 'h bus \<Rightarrow> 'h list" where
  "handlers_for e b = dict_get (subscribers b) (etype e) [] @ dict_get (subscribers b) ''*'' []"

text \<open>The consumer takes the next event; without handlers it counts as delivered.\<close>

definition take_event :: "'h bus \<Rightarrow> 'h bus" where
  "take_event b =
     (case queue b of
        [] \<Rightarrow> b
      | e # rest \<Rightarrow>
          (let hs = handlers_for e b;
               b' = b\<lparr>queue := rest, taken := taken b @ [(e, hs)]\<rparr>
           in if hs = [] then b'\<lparr>delivered := delivered b + 1\<rparr> else b'\<lparr>handling := Some (e, hs)\<rparr>))"

definition call_handler :: "bool \<Rightarrow> 'h bus \<Rightarrow> 'h bus" where
  "call_handler succeeds b =
     (case handling b of
        None \<Rightarrow> b
      | Some (e, []) \<Rightarrow> b\<lparr>handling := None\<rparr>
      | Some (e, h # hs) \<Rightarrow>
          (let b' = b\<lparr>handling := (if hs = [] then None else Some (e, hs)),
                     calls := calls b @ [((e, h), if succeeds then Succeeded else Raised)]\<rparr>
           in if succeeds then b'\<lparr>delivered := delivered b + 1\<rparr>
              else b'\<lparr>failed := failed b + 1, dead_letters := dead_letters b @ [(e, HandlerRaised)]\<rparr>))"

definition start_bus :: "'h bus \<Rightarrow> 'h bus" where
  "start_bus b = (if running b then b else b\<lparr>running := True\<rparr>)"

text \<open>Stopping cancels the consumer: the handlers still to be called for the event at hand are not.\<close>

definition pending_calls :: "'h bus \<Rightarrow> (event \<times> 'h) list" where
  "pending_calls b = (case handling b of None \<Rightarrow> [] | Some (e, hs) \<Rightarrow> map (Pair e) hs)"

definition stop_bus :: "'h bus \<Rightarrow> 'h bus" where
  "stop_bus b = b\<lparr>running := False, handling := None, calls := calls b @ map (\<lambda>c. (c, Aborted)) (pending_calls b)\<rparr>"

section \<open>The interleaved system\<close>

inductive bus_step :: "'h bus \<Rightarrow> 'h bus \<Rightarrow> bool" where
  bus_start: "bus_step b (start_bus b)"
| bus_stop: "bus_step b (stop_bus b)"
| bus_subscribe: "bus_step b (subscribe ty h b)"
| bus_unsubscribe: "bus_step b (unsubscribe ty h b)"
| bus_publish: "bus_step b (publish e b)"
| bus_take: "running b \<Longrightarrow> handling b = None \<Longrightarrow> bus_step b (take_event b)"
| bus_call: "bus_step b (call_handler succeeds b)"

inductive bus_reachable :: "nat \<Rightarrow> 'h bus \<Rightarrow> bool" for m where
  bus_new: "bus_reachable m (new_bus m)"
| bus_next: "bus_reachable m b \<Longrightarrow> bus_step b b' \<Longrightarrow> bus_reachable m b'"

section \<open>Invariant\<close>

definition owed_calls :: "'h bus \<Rightarrow> (event \<times> 'h) list" where
  "owed_calls b = concat (map (\<lambda>(e, hs). map (Pair e) hs) (taken b))"

definition bus_inv :: "nat \<Rightarrow> 'h bus \<Rightarrow> bool" where
  "bus_inv m b \<longleftrightarrow>
     max_queue b = m \<and> (0 < m \<longrightarrow> length (queue b) \<le> m) \<and>
     accepted b = map fst (taken b) @ queue b \<and>
     owed_calls b = map fst (calls b) @ pending_calls b \<and>
     published b = length (accepted b) \<and>
     (\<forall>e. handling b \<noteq> Some (e, [])) \<and>
     delivered b = length (filter (\<lambda>c. snd c = Succeeded) (calls b)) + length (filter (\<lambda>(_, hs). hs = []) (taken b)) \<and>
     failed b = length (filter (\<lambda>c. snd c = Raised) (calls b)) + rejected b"

lemma bus_step_inv:
  assumes "bus_step b b'" and "bus_inv m b"
  shows "bus_inv m b'"
  using assms
proof (induction rule: bus_step.induct)
  case (bus_start b)
  then show ?case by (simp add: bus_inv_def start_bus_def owed_calls_def pending_calls_def)
next
  case (bus_stop b)
  then show ?case by (auto simp: bus_inv_def stop_bus_def owed_calls_def pending_calls_def filter_map o_def split: option.split)
next
  case (bus_subscribe b ty h)
  then show ?case by (simp add: bus_inv_def subscribe_def owed_calls_def pending_calls_def)
next
  case (bus_unsubscribe b ty h)
  then show ?case by (simp add: bus_inv_def unsubscribe_def owed_calls_def pending_calls_def split: option.split)
next
  case (bus_publish b e)
  then show ?case
    by (auto simp: bus_inv_def publish_def queue_full_def owed_calls_def pending_calls_def Let_def)
next
  case (bus_take b)
  then show ?case
    by (auto simp: bus_inv_def take_event_def owed_calls_def pending_calls_def Let_def split: list.split)
next
  case (bus_call b succeeds)
  then show ?case
    by (auto simp: bus_inv_def call_handler_def owed_calls_def pending_calls_def Let_def split: option.split list.split)
qed


lemma bus_reachable_inv: "bus_reachable m b \<Longrightarrow> bus_inv m b"
proof (induction rule: bus_reachable.induct)
  case bus_new
  show ?case by (simp add: bus_inv_def new_bus_def owed_calls_def pending_calls_def)
next
  case (bus_next b b')
  then show ?case using bus_step_inv by blast
qed

section \<open>Properties\<close>


definition sample_bus :: "nat bus" where
  "sample_bus = call_handler True (take_event (publish \<lparr>etype = ''a'', eid = 1\<rparr> (subscribe ''*'' 7 (start_bus (new_bus 2)))))"


text \<open>A full queue drops the new event and keeps the dead letters of refused events bounded.\<close>

lemma publish_letters:
  "length (dead_letters b) \<le> 1000 \<Longrightarrow> length (dead_letters (publish e b)) \<le> 1000"
  by (auto simp: publish_def Let_def)

text \<open>
  Handlers that raise have no such bound: every failing call adds a dead letter that is never removed,
  so the dead letters grow without limit although the queue stays small.
\<close>

definition failing_round :: "event \<Rightarrow> 'h bus \<Rightarrow> 'h bus" where
  "failing_round e b = call_handler False (take_event (publish e b))"

lemma failing_round_effect:
  assumes "queue b = []" and "handling b = None" and "handlers_for e b = [h]"
  shows "queue (failing_round e b) = [] \<and> handling (failing_round e b) = None \<and> handlers_for e (failing_round e b) = [h] \<and>
     dead_letters (failing_round e b) = dead_letters b @ [(e, HandlerRaised)]"
proof -
  let ?b1 = "b\<lparr>queue := [e], published := published b + 1, accepted := accepted b @ [e]\<rparr>"
  have p: "publish e b = ?b1" using assms(1) by (auto simp: publish_def queue_full_def)
  have h: "handlers_for e ?b1 = [h]" using assms(3) by (simp add: handlers_for_def)
  show ?thesis
    using assms by (simp add: failing_round_def p take_event_def h Let_def call_handler_def) (simp add: handlers_for_def)
qed

lemma handler_letters_unbounded:
  assumes "queue b = []" and "handling b = None" and "handlers_for e b = [h]"
  shows "length (dead_letters ((failing_round e ^^ n) b)) = length (dead_letters b) + n"
proof -
  have "queue ((failing_round e ^^ n) b) = [] \<and> handling ((failing_round e ^^ n) b) = None \<and>
      handlers_for e ((failing_round e ^^ n) b) = [h] \<and> length (dead_letters ((failing_round e ^^ n) b)) = length (dead_letters b) + n"
  proof (induction n)
    case 0
    then show ?case using assms by simp
  next
    case (Suc n)
    then show ?case using failing_round_effect [of "(failing_round e ^^ n) b" e h] by simp
  qed
  then show ?thesis by simp
qed

end
