(* ===== verification/Pipeline.thy ===== *)
theory Pipeline
  imports Prelude
begin

text \<open>
  The step pipeline (\<open>pipelines/engine.py\<close>): steps with a condition, attempts with retries and a
  timeout, a context that collects the results, and the callbacks after a step.

  What one attempt of a step comes to (its result, a timeout, an exception) is a function of the step,
  the attempt and the context; so is the condition. A result is of any type \<open>'r\<close>; the two results
  that the pipeline makes itself are named. The context is an insertion-ordered dictionary; a
  callback is one that returns (one that raises ends the run), and a step function reads the context
  and does not write to it.
\<close>

datatype step_status = PENDING | RUNNING | COMPLETED | FAILED | SKIPPED

datatype 'r step_result = Produced 'r | KernelNotFound string | Noop

datatype 'r attempt = Returned 'r | TimedOut | Raised string

record ('c, 'r) pstep =
  name :: string
  kernel_name :: "string option"
  func :: "(nat \<Rightarrow> 'c \<Rightarrow> 'r attempt) option"
  condition :: "('c \<Rightarrow> bool) option"
  retry_count :: int
  status :: step_status
  result :: "'r step_result option"
  error :: "string option"

text \<open>The kernels the engine knows: for every name, how an attempt with it goes.\<close>

type_synonym 'r kernels = "(string, nat \<Rightarrow> 'r attempt) dict"

type_synonym 'r pcontext = "(string, 'r step_result) dict"

type_synonym 'r step = "('r pcontext, 'r) pstep"

definition new_step ::
  "string \<Rightarrow> string option \<Rightarrow> (nat \<Rightarrow> 'r pcontext \<Rightarrow> 'r attempt) option \<Rightarrow> ('r pcontext \<Rightarrow> bool) option \<Rightarrow> int \<Rightarrow> 'r step" where
  "new_step n k f c r =
     \<lparr>name = n, kernel_name = k, func = f, condition = c, retry_count = r, status = PENDING, result = None, error = None\<rparr>"

section \<open>One step\<close>

definition run_attempt ::
  "'r kernels option \<Rightarrow> 'r pcontext \<Rightarrow> string option \<Rightarrow> (nat \<Rightarrow> 'r pcontext \<Rightarrow> 'r attempt) option \<Rightarrow> nat
   \<Rightarrow> 'r step_result attempt" where
  "run_attempt noema ctx kname f i =
     (let wrap = (\<lambda>a. case a of Returned r \<Rightarrow> Returned (Produced r) | TimedOut \<Rightarrow> TimedOut | Raised m \<Rightarrow> Raised m)
      in case (kname, noema) of
           (Some (c # cs), Some ks) \<Rightarrow>
             (case map_of ks (c # cs) of
                Some k \<Rightarrow> wrap (k i)
              | None \<Rightarrow> Returned (KernelNotFound (c # cs)))
         | _ \<Rightarrow> (case f of Some g \<Rightarrow> wrap (g i ctx) | None \<Rightarrow> Returned Noop))"

abbreviation attempt_outcome :: "'r kernels option \<Rightarrow> 'r pcontext \<Rightarrow> 'r step \<Rightarrow> nat \<Rightarrow> 'r step_result attempt" where
  "attempt_outcome noema ctx s i \<equiv> run_attempt noema ctx (kernel_name s) (func s) i"

text \<open>The loop over the attempts \<open>i\<close>, \<open>i + 1\<close> up to \<open>retry_count\<close>.\<close>

fun attempts :: "'r kernels option \<Rightarrow> nat list \<Rightarrow> 'r pcontext \<Rightarrow> 'r step \<Rightarrow> 'r pcontext \<times> 'r step" where
  "attempts noema [] ctx s = (ctx, s)"
| "attempts noema (i # is) ctx s =
     (case attempt_outcome noema ctx s i of
        Returned r \<Rightarrow> (dict_set (name s) r ctx, s\<lparr>result := Some r, status := COMPLETED\<rparr>)
      | TimedOut \<Rightarrow>
          (let s' = s\<lparr>error := Some ''Timeout''\<rparr>
           in if int i < retry_count s then attempts noema is ctx s' else attempts noema is ctx (s'\<lparr>status := FAILED\<rparr>))
      | Raised m \<Rightarrow>
          (let s' = s\<lparr>error := Some m\<rparr>
           in if int i < retry_count s then attempts noema is ctx s' else attempts noema is ctx (s'\<lparr>status := FAILED\<rparr>)))"

definition run_step :: "'r kernels option \<Rightarrow> 'r pcontext \<Rightarrow> 'r step \<Rightarrow> 'r pcontext \<times> 'r step" where
  "run_step noema ctx s =
     (case condition s of
        Some c \<Rightarrow> if c ctx then attempts noema [0..<nat (retry_count s + 1)] ctx (s\<lparr>status := RUNNING\<rparr>)
                  else (ctx, s\<lparr>status := SKIPPED\<rparr>)
      | None \<Rightarrow> attempts noema [0..<nat (retry_count s + 1)] ctx (s\<lparr>status := RUNNING\<rparr>))"

section \<open>The pipeline\<close>

record 'r pipeline_result =
  steps :: "'r step list"
  final_output :: "'r pcontext"
  success :: bool
  completed_hook :: "string list"
  error_hook :: "string list"

text \<open>
  The callbacks after a step see it when it was not skipped; the error callbacks when it failed. The
  names of the steps they were called with are collected.
\<close>

fun run_steps :: "'r kernels option \<Rightarrow> 'r step list \<Rightarrow> 'r pipeline_result \<Rightarrow> 'r pipeline_result" where
  "run_steps noema [] res = res"
| "run_steps noema (s # ss) res =
     (let (ctx, s') = run_step noema (final_output res) s;
          res' = res\<lparr>steps := steps res @ [s'], final_output := ctx\<rparr>
      in if status s' = SKIPPED then run_steps noema ss res'
         else
           (let res'' = res'\<lparr>completed_hook := completed_hook res' @ [name s']\<rparr>
            in if status s' = FAILED
               then run_steps noema ss (res''\<lparr>success := False, error_hook := error_hook res'' @ [name s']\<rparr>)
               else run_steps noema ss res''))"

definition execute :: "'r kernels option \<Rightarrow> 'r \<Rightarrow> 'r pcontext \<Rightarrow> 'r step list \<Rightarrow> 'r pipeline_result" where
  "execute noema task initial ss =
     run_steps noema ss \<lparr>steps = [], final_output = dict_set ''task'' (Produced task) initial, success = True,
       completed_hook = [], error_hook = []\<rparr>"

definition completed_steps :: "'r pipeline_result \<Rightarrow> nat" where
  "completed_steps res = length (filter (\<lambda>s. status s = COMPLETED) (steps res))"

definition failed_steps :: "'r pipeline_result \<Rightarrow> nat" where
  "failed_steps res = length (filter (\<lambda>s. status s = FAILED) (steps res))"

section \<open>One step\<close>

fun returned :: "'r attempt \<Rightarrow> 'r option" where
  "returned (Returned r) = Some r"
| "returned _ = None"

lemma attempts_failed:
  assumes "returned (attempt_outcome noema ctx s i) = None"
  shows "\<exists>m. attempts noema (i # is) ctx s =
    (if int i < retry_count s then attempts noema is ctx (s\<lparr>error := Some m\<rparr>)
     else attempts noema is ctx (s\<lparr>error := Some m, status := FAILED\<rparr>))"
  using assms by (cases "attempt_outcome noema ctx s i") (auto simp: Let_def)

fun find_map :: "('a \<Rightarrow> 'b option) \<Rightarrow> 'a list \<Rightarrow> 'b option" where
  "find_map f [] = None"
| "find_map f (x # xs) = (case f x of None \<Rightarrow> find_map f xs | Some y \<Rightarrow> Some y)"

text \<open>The first attempt from \<open>i\<close> on that returns, if there is one.\<close>

definition first_return :: "'r kernels option \<Rightarrow> 'r pcontext \<Rightarrow> 'r step \<Rightarrow> nat list \<Rightarrow> 'r step_result option" where
  "first_return noema ctx s is = find_map (\<lambda>j. returned (attempt_outcome noema ctx s j)) is"

lemma attempts_result:
  assumes "n = nat (retry_count s + 1)" and "i < n" and "status s = RUNNING"
  shows "\<exists>e. attempts noema [i..<n] ctx s =
    (case first_return noema ctx s [i..<n] of
       Some r \<Rightarrow> (dict_set (name s) r ctx, s\<lparr>error := e, result := Some r, status := COMPLETED\<rparr>)
     | None \<Rightarrow> (ctx, s\<lparr>error := e, status := FAILED\<rparr>)) \<and>
    (first_return noema ctx s [i..<n] = None \<longrightarrow> e \<noteq> None)"
  using assms
proof (induction "n - i" arbitrary: i s)
  case (Suc d)
  then have upt: "[i..<n] = i # [Suc i..<n]" by (intro upt_conv_Cons)
  show ?case
  proof (cases "returned (attempt_outcome noema ctx s i)")
    case (Some r)
    then have o: "attempt_outcome noema ctx s i = Returned r" by (cases "attempt_outcome noema ctx s i") auto
    have "attempts noema [i..<n] ctx s = (dict_set (name s) r ctx, s\<lparr>error := error s, result := Some r, status := COMPLETED\<rparr>)"
      by (simp add: upt o)
    with Some show ?thesis by (intro exI [of _ "error s"]) (simp add: first_return_def upt)
  next
    case None
    then obtain m where m: "attempts noema [i..<n] ctx s =
      (if int i < retry_count s then attempts noema [Suc i..<n] ctx (s\<lparr>error := Some m\<rparr>)
       else attempts noema [Suc i..<n] ctx (s\<lparr>error := Some m, status := FAILED\<rparr>))"
      using attempts_failed unfolding upt by blast
    have fr: "first_return noema ctx s [i..<n] = first_return noema ctx (s\<lparr>error := Some m\<rparr>) [Suc i..<n]"
      using None by (simp add: first_return_def upt)
    show ?thesis
    proof (cases "int i < retry_count s")
      case True
      let ?s = "s\<lparr>error := Some m\<rparr>"
      have "\<exists>e. attempts noema [Suc i..<n] ctx ?s =
          (case first_return noema ctx ?s [Suc i..<n] of
             Some r \<Rightarrow> (dict_set (name ?s) r ctx, ?s\<lparr>error := e, result := Some r, status := COMPLETED\<rparr>)
           | None \<Rightarrow> (ctx, ?s\<lparr>error := e, status := FAILED\<rparr>)) \<and>
          (first_return noema ctx ?s [Suc i..<n] = None \<longrightarrow> e \<noteq> None)"
        by (rule Suc.hyps(1)) (use Suc True in auto)
      then show ?thesis unfolding m fr using True by (auto split: option.splits)
    next
      case False
      then have "[Suc i..<n] = []" using Suc by simp
      then show ?thesis using m False fr by (auto simp: first_return_def)
    qed
  qed
qed simp


lemma step_retries_aux:
  assumes "0 \<le> retry_count s" and "\<forall>c. condition s = Some c \<longrightarrow> c ctx"
  shows "let (ctx', s') = run_step noema ctx s; r = first_return noema ctx s [0..<nat (retry_count s + 1)]
         in (case r of
               Some x \<Rightarrow> status s' = COMPLETED \<and> result s' = Some x \<and> ctx' = dict_set (name s) x ctx
             | None \<Rightarrow> status s' = FAILED \<and> error s' \<noteq> None \<and> result s' = result s \<and> ctx' = ctx) \<and> name s' = name s"
proof -
  let ?s = "s\<lparr>status := RUNNING\<rparr>" and ?n = "nat (retry_count s + 1)"
  have run: "run_step noema ctx s = attempts noema [0..<?n] ctx ?s"
    using assms(2) by (cases "condition s") (simp_all add: run_step_def)
  have "\<exists>e. attempts noema [0..<?n] ctx ?s =
    (case first_return noema ctx ?s [0..<?n] of
       Some r \<Rightarrow> (dict_set (name ?s) r ctx, ?s\<lparr>error := e, result := Some r, status := COMPLETED\<rparr>)
     | None \<Rightarrow> (ctx, ?s\<lparr>error := e, status := FAILED\<rparr>)) \<and>
    (first_return noema ctx ?s [0..<?n] = None \<longrightarrow> e \<noteq> None)"
    by (rule attempts_result) (use assms(1) in simp_all)
  moreover have "first_return noema ctx ?s [0..<?n] = first_return noema ctx s [0..<?n]" by (simp add: first_return_def)
  ultimately show ?thesis unfolding run by (cases "first_return noema ctx s [0..<?n]") auto
qed

text \<open>
  One step: its attempts go on until the first that returns, at most \<open>retry_count + 1\<close> of them.
  If one returns, the step is completed, holds that result, and the context gets it under the name of
  the step; if none does, the step has failed with an error and the context is unchanged.
\<close>

theorem step_retries:
  assumes "0 \<le> retry_count s" and "\<forall>c. condition s = Some c \<longrightarrow> c ctx"
  shows "let (ctx', s') = run_step noema ctx s; r = first_return noema ctx s [0..<nat (retry_count s + 1)]
         in (case r of
               Some x \<Rightarrow> status s' = COMPLETED \<and> result s' = Some x \<and> ctx' = dict_set (name s) x ctx
             | None \<Rightarrow> status s' = FAILED \<and> error s' \<noteq> None \<and> result s' = result s \<and> ctx' = ctx) \<and> name s' = name s"
  using assms by (rule step_retries_aux)

theorem step_retries_witness:
  "let (ctx', s') = run_step None [] (new_step ''a'' None (Some (\<lambda>i _. if i < 2 then TimedOut else Returned (5 :: nat))) None 2)
   in status s' = COMPLETED \<and> ctx' = [(''a'', Produced 5)]"
proof -
  let ?s = "new_step ''a'' None (Some (\<lambda>i _. if i < 2 then TimedOut else Returned (5 :: nat))) None 2"
  have "first_return None [] ?s [0..<nat (retry_count ?s + 1)] = Some (Produced 5)"
    by (simp add: first_return_def new_step_def run_attempt_def upt_conv_Cons Let_def)
  then show ?thesis using step_retries [of ?s "[]" None] by (simp add: new_step_def Let_def split_def)
qed

lemma run_step_status:
  assumes "run_step noema ctx s = (ctx', s')" and "0 \<le> retry_count s"
  shows "name s' = name s \<and> status s' \<in> {COMPLETED, FAILED, SKIPPED} \<and>
    (if status s' = COMPLETED then \<exists>x. result s' = Some x \<and> ctx' = dict_set (name s) x ctx else ctx' = ctx)"
proof (cases "\<forall>c. condition s = Some c \<longrightarrow> c ctx")
  case True
  from step_retries_aux [OF assms(2) this, of noema] assms(1) show ?thesis
    by (auto split: option.splits)
next
  case False
  then show ?thesis using assms(1) by (auto simp: run_step_def)
qed

section \<open>The whole pipeline\<close>

definition pipeline_inv :: "'r step list \<Rightarrow> 'r pipeline_result \<Rightarrow> bool" where
  "pipeline_inv done res \<longleftrightarrow>
     map name (steps res) = map name done \<and>
     (\<forall>s \<in> set (steps res). status s \<in> {COMPLETED, FAILED, SKIPPED}) \<and>
     success res = (\<forall>s \<in> set (steps res). status s \<noteq> FAILED) \<and>
     completed_hook res = map name (filter (\<lambda>s. status s \<noteq> SKIPPED) (steps res)) \<and>
     error_hook res = map name (filter (\<lambda>s. status s = FAILED) (steps res)) \<and>
     (distinct (map name done) \<longrightarrow>
        (\<forall>s \<in> set (steps res). status s = COMPLETED \<longrightarrow> result s \<noteq> None \<and> map_of (final_output res) (name s) = result s))"

definition after_step :: "'r kernels option \<Rightarrow> 'r step \<Rightarrow> 'r pipeline_result \<Rightarrow> 'r pipeline_result" where
  "after_step noema s res =
     (let (ctx, s') = run_step noema (final_output res) s
      in res\<lparr>steps := steps res @ [s'], final_output := ctx,
             completed_hook := completed_hook res @ (if status s' = SKIPPED then [] else [name s']),
             success := (success res \<and> status s' \<noteq> FAILED),
             error_hook := error_hook res @ (if status s' = FAILED then [name s'] else [])\<rparr>)"

lemma run_steps_Cons: "run_steps noema (s # ss) res = run_steps noema ss (after_step noema s res)"
proof (cases res)
  case (fields st out ok ch eh)
  obtain ctx s' where r: "run_step noema out s = (ctx, s')" by fastforce
  show ?thesis by (auto simp: fields after_step_def r Let_def)
qed

lemma after_step_inv:
  assumes "pipeline_inv done res" and "0 \<le> retry_count s"
  shows "pipeline_inv (done @ [s]) (after_step noema s res)"
proof -
  obtain ctx s' where r: "run_step noema (final_output res) s = (ctx, s')" by fastforce
  note st = run_step_status [OF r assms(2)]
  have old: "map_of ctx (name q) = map_of (final_output res) (name q)"
    if "distinct (map name (done @ [s]))" "q \<in> set (steps res)" for q
  proof -
    have "name q \<in> set (map name done)"
      using that(2) assms(1) unfolding pipeline_inv_def by (metis imageI list.set_map)
    then have "name q \<noteq> name s" using that(1) by auto
    then show ?thesis using st by (auto split: if_splits)
  qed
  have new: "status s' = COMPLETED \<Longrightarrow> result s' \<noteq> None \<and> map_of ctx (name s') = result s'"
    using st by auto
  show ?thesis
    using assms(1) st old new by (auto simp: pipeline_inv_def after_step_def r Let_def)
qed

lemma run_steps_inv:
  "pipeline_inv done res \<Longrightarrow> \<forall>s \<in> set ss. 0 \<le> retry_count s \<Longrightarrow> pipeline_inv (done @ ss) (run_steps noema ss res)"
proof (induction ss arbitrary: "done" res)
  case (Cons s ss)
  then show ?case using after_step_inv [of "done" res s noema] Cons.IH [of "done @ [s]"] by (simp add: run_steps_Cons del: run_steps.simps)
qed simp



text \<open>
  A step whose kernel the engine does not know counts as completed, so the run is a success.
\<close>

lemma missing_kernel_succeeds:
  "let res = execute (Some []) task [] [new_step ''s'' (Some ''nope'') None None 0]
   in success res \<and> map status (steps res) = [COMPLETED] \<and> map_of (final_output res) ''s'' = Some (KernelNotFound ''nope'')"
  by (simp add: new_step_def execute_def run_step_def run_attempt_def upt_conv_Cons Let_def)

text \<open>The error of an attempt that was retried stays on a step that completes.\<close>

lemma retried_error_stays:
  "let (_, s') = run_step None [] (new_step ''s'' None (Some (\<lambda>i _. if i = 0 then Raised ''x'' else Returned (1 :: nat))) None 1)
   in status s' = COMPLETED \<and> error s' = Some ''x''"
  by (simp add: new_step_def run_step_def run_attempt_def upt_conv_Cons Let_def)

end
