(* ===== verification/Worker_Hierarchy.thy ===== *)
theory Worker_Hierarchy
  imports Prelude
begin

text \<open>
  The worker hierarchy (\<open>workers/hierarchy.py\<close>): a task is decomposed into sub-tasks that are
  processed by sub-workers and aggregated, down to a maximal depth.

  The first part is what \<open>process\<close> computes: the result and the tree of tasks with their states. The
  three callbacks are functions that may fail. The second part is how the sub-workers wait for each
  other: the permits of the semaphore that \<open>spawn_child\<close> holds while a sub-worker runs. There the
  nodes of the tree are numbered, a parent before its children.
\<close>

section \<open>Processing a task\<close>

datatype task_status = COMPLETED | FAILED

datatype ('d, 'v) work_result =
    Value 'v
  | Results "(string + ('d, 'v) work_result) list"
  | NoExecutor 'd

datatype ('d, 'v) htask =
  HTask (description: 'd) (state: task_status) (depth: nat) (outcome: "string + ('d, 'v) work_result")
    (subtasks: "('d, 'v) htask list")

record ('d, 'v) hierarchy =
  decomposer :: "('d \<Rightarrow> nat \<Rightarrow> string + 'd list) option"
  executor :: "('d \<Rightarrow> nat \<Rightarrow> string + 'v) option"
  aggregator :: "('d \<Rightarrow> (string + ('d, 'v) work_result) list \<Rightarrow> string + 'v) option"
  max_depth :: nat
  max_children :: nat

definition new_hierarchy ::
  "('d \<Rightarrow> nat \<Rightarrow> string + 'd list) option \<Rightarrow> ('d \<Rightarrow> nat \<Rightarrow> string + 'v) option
   \<Rightarrow> ('d \<Rightarrow> (string + ('d, 'v) work_result) list \<Rightarrow> string + 'v) option \<Rightarrow> int \<Rightarrow> int \<Rightarrow> int
   \<Rightarrow> (('d, 'v) hierarchy \<times> nat) result" where
  "new_hierarchy dec ex ag md mc permits =
     (if md < 1 then Inl ValueError
      else if mc < 1 then Inl ValueError
      else if permits < 1 then Inl ValueError
      else Inr (\<lparr>decomposer = dec, executor = ex, aggregator = ag, max_depth = nat md, max_children = nat mc\<rparr>, nat permits))"

definition execute_leaf :: "('d, 'v) hierarchy \<Rightarrow> nat \<Rightarrow> 'd \<Rightarrow> string + ('d, 'v) work_result" where
  "execute_leaf h n d =
     (case executor h of
        None \<Rightarrow> Inr (NoExecutor d)
      | Some ex \<Rightarrow> (case ex d n of Inl e \<Rightarrow> Inl e | Inr v \<Rightarrow> Inr (Value v)))"

definition status_of :: "string + ('d, 'v) work_result \<Rightarrow> task_status" where
  "status_of r = (case r of Inl _ \<Rightarrow> FAILED | Inr _ \<Rightarrow> COMPLETED)"

definition aggregate ::
  "('d, 'v) hierarchy \<Rightarrow> 'd \<Rightarrow> (string + ('d, 'v) work_result) list \<Rightarrow> string + ('d, 'v) work_result" where
  "aggregate h d rs =
     (case aggregator h of
        None \<Rightarrow> Inr (Results rs)
      | Some ag \<Rightarrow> (case ag d rs of Inl e \<Rightarrow> Inl e | Inr v \<Rightarrow> Inr (Value v)))"

text \<open>What the decomposer gives: nothing when there is none or the depth is reached.\<close>

definition decompose :: "('d, 'v) hierarchy \<Rightarrow> nat \<Rightarrow> 'd \<Rightarrow> string + 'd list" where
  "decompose h n d =
     (case decomposer h of
        None \<Rightarrow> Inr []
      | Some dec \<Rightarrow> if n < max_depth h then dec d n else Inr [])"

lemma decompose_bottom: "max_depth h \<le> n \<Longrightarrow> decompose h n d = Inr []"
  by (simp add: decompose_def split: option.split)

function process :: "('d, 'v) hierarchy \<Rightarrow> nat \<Rightarrow> 'd \<Rightarrow> ('d, 'v) htask" where
  "process h n d =
     (case decompose h n d of
        Inl e \<Rightarrow> HTask d FAILED n (Inl e) []
      | Inr ds \<Rightarrow>
          if ds = [] \<or> max_depth h \<le> n
          then (let r = execute_leaf h n d in HTask d (status_of r) n r [])
          else
            (let subs = map (process h (Suc n)) (take (max_children h) ds);
                 r = aggregate h d (map outcome subs)
             in HTask d (status_of r) n r subs))"
  by pat_completeness auto
termination
  by (relation "measure (\<lambda>(h, n, d). max_depth h - n)") auto

declare process.simps [simp del]

text \<open>A top-level task; the history keeps it, and every spawned task made one node.\<close>

record ('d, 'v) hierarchy_state =
  task_history :: "('d, 'v) htask list"
  node_counter :: nat

fun spawned :: "('d, 'v) htask \<Rightarrow> nat" where
  "spawned (HTask d s n r subs) = length subs + sum_list (map spawned subs)"

definition execute :: "('d, 'v) hierarchy \<Rightarrow> 'd \<Rightarrow> ('d, 'v) hierarchy_state \<Rightarrow> ('d, 'v) htask \<times> ('d, 'v) hierarchy_state" where
  "execute h d s =
     (let t = process h 0 d
      in (t, s\<lparr>task_history := task_history s @ [t], node_counter := node_counter s + spawned t\<rparr>))"

fun walk_depth :: "('d, 'v) htask \<Rightarrow> nat" where
  "walk_depth (HTask d s n r subs) = (if subs = [] then n else Max (set (map walk_depth subs)))"

definition max_depth_reached :: "('d, 'v) hierarchy_state \<Rightarrow> nat" where
  "max_depth_reached s = (if task_history s = [] then 0 else Max (set (map walk_depth (task_history s))))"

fun all_tasks :: "('d, 'v) htask \<Rightarrow> ('d, 'v) htask list" where
  "all_tasks (HTask d s n r subs) = HTask d s n r subs # concat (map all_tasks subs)"

section \<open>Bounds and failures\<close>

lemma process_cases:
  obtains (failed) e where "process h n d = HTask d FAILED n (Inl e) []" and "decompose h n d = Inl e"
  | (leaf) "process h n d = HTask d (status_of (execute_leaf h n d)) n (execute_leaf h n d) []" and "decompose h n d = Inr []"
  | (node) ds where "decompose h n d = Inr ds" and "ds \<noteq> []" and "n < max_depth h"
      and "process h n d =
        (let subs = map (process h (Suc n)) (take (max_children h) ds); r = aggregate h d (map outcome subs)
         in HTask d (status_of r) n r subs)"
proof (cases "decompose h n d")
  case (Inl e)
  then show ?thesis using failed by (simp add: process.simps [of h n d])
next
  case (Inr ds)
  show ?thesis
  proof (cases "ds = [] \<or> max_depth h \<le> n")
    case True
    then have "ds = []" using Inr decompose_bottom [of h n d] by auto
    then show ?thesis using leaf Inr by (simp add: process.simps [of h n d] Let_def)
  next
    case False
    then show ?thesis using node [of ds] Inr by (simp add: process.simps [of h n d] Let_def)
  qed
qed

lemma process_induct [case_names step]:
  assumes "\<And>n d. (\<And>d'. n < max_depth h \<Longrightarrow> P (Suc n) d') \<Longrightarrow> P n d"
  shows "P n d"
proof (induction "max_depth h - n" arbitrary: n d)
  case 0
  show ?case by (rule assms) (use 0 in simp)
next
  case (Suc k)
  show ?case by (rule assms) (use Suc in simp)
qed

definition task_ok :: "('d, 'v) hierarchy \<Rightarrow> ('d, 'v) htask \<Rightarrow> bool" where
  "task_ok h u \<longleftrightarrow> depth u \<le> max_depth h \<and> length (subtasks u) \<le> max_children h \<and>
     (\<forall>v \<in> set (subtasks u). depth v = Suc (depth u)) \<and>
     state u = status_of (outcome u)"

lemma process_depth [simp]: "depth (process h n d) = n"
  by (cases rule: process_cases [of h n d]) (simp_all add: Let_def)

lemma process_description [simp]: "description (process h n d) = d"
  by (cases rule: process_cases [of h n d]) (simp_all add: Let_def)

lemma process_tasks_ok: "n \<le> max_depth h \<Longrightarrow> \<forall>u \<in> set (all_tasks (process h n d)). task_ok h u"
proof (induction n d rule: process_induct [of h])
  case (step n d)
  show ?case
  proof (cases rule: process_cases [of h n d])
    case (failed e)
    then show ?thesis using step.prems by (simp add: task_ok_def status_of_def)
  next
    case leaf
    then show ?thesis using step.prems by (simp add: task_ok_def)
  next
    case (node ds)
    have "\<forall>u \<in> set (all_tasks (process h (Suc n) d')). task_ok h u" for d'
      using step.IH node(3) by simp
    then show ?thesis using step.prems by (auto simp: node(4) Let_def task_ok_def)
  qed
qed

definition tree_bound :: "nat \<Rightarrow> nat \<Rightarrow> nat" where
  "tree_bound b k = (\<Sum>i\<le>k. b ^ i)"

lemma tree_bound_Suc: "tree_bound b (Suc k) = 1 + b * tree_bound b k"
  unfolding tree_bound_def by (subst sum.atMost_Suc_shift) (simp add: sum_distrib_left)

lemma process_size: "length (all_tasks (process h n d)) \<le> tree_bound (max_children h) (max_depth h - n)"
proof (induction n d rule: process_induct [of h])
  case (step n d)
  have one: "1 \<le> tree_bound b k" for b k by (cases k) (simp_all add: tree_bound_Suc, simp add: tree_bound_def)
  show ?case
  proof (cases rule: process_cases [of h n d])
    case (failed e)
    then show ?thesis using one by simp
  next
    case leaf
    then show ?thesis using one by simp
  next
    case (node ds)
    let ?k = "max_depth h - Suc n" and ?xs = "take (max_children h) ds"
    have each: "length (all_tasks (process h (Suc n) x)) \<le> tree_bound (max_children h) ?k" for x
      using step node(3) by simp
    have "length (all_tasks (process h n d)) = Suc (sum_list (map (\<lambda>x. length (all_tasks (process h (Suc n) x))) ?xs))"
      by (simp add: node(4) Let_def length_concat o_def)
    also have "\<dots> \<le> Suc (length ?xs * tree_bound (max_children h) ?k)"
      using sum_list_mono [of ?xs "\<lambda>x. length (all_tasks (process h (Suc n) x))" "\<lambda>_. tree_bound (max_children h) ?k"] each
      by (simp add: sum_list_triv)
    also have "\<dots> \<le> Suc (max_children h * tree_bound (max_children h) ?k)" by simp
    also have "\<dots> = tree_bound (max_children h) (max_depth h - n)"
      using node(3) tree_bound_Suc [of "max_children h" ?k] by (simp add: Suc_diff_Suc)
    finally show ?thesis .
  qed
qed

lemma spawned_all_tasks: "Suc (spawned t) = length (all_tasks t)"
proof (induction t)
  case (HTask d s n r subs)
  have "length subs + sum_list (map spawned subs) = sum_list (map (\<lambda>t. Suc (spawned t)) subs)" by (induction subs) auto
  also have "\<dots> = sum_list (map (length \<circ> all_tasks) subs)" using HTask by (intro arg_cong [of _ _ sum_list] map_cong) auto
  finally show ?case by (simp add: length_concat)
qed


text \<open>
  Failures stay in their subtree: a task fails only when its own decomposer, executor or
  aggregator raises; the failure of a sub-task is handed to the aggregator as a value, in the position
  of the sub-task, and without an aggregator the task completes with the list of outcomes.
\<close>

theorem failures_contained:
  assumes "0 < max_children h"
  shows "let t = process h n d
         in (subtasks t = [] \<longrightarrow> (state t = FAILED \<longleftrightarrow> isl (decompose h n d) \<or> isl (execute_leaf h n d))) \<and>
            (subtasks t \<noteq> [] \<longrightarrow>
               (\<exists>ds. decompose h n d = Inr ds \<and> map description (subtasks t) = take (max_children h) ds) \<and>
               outcome t = aggregate h d (map outcome (subtasks t)) \<and>
               (aggregator h = None \<longrightarrow> state t = COMPLETED \<and> outcome t = Inr (Results (map outcome (subtasks t)))))"
proof (cases rule: process_cases [of h n d])
  case (failed e)
  then show ?thesis by simp
next
  case leaf
  then show ?thesis by (cases "execute_leaf h n d") (simp_all add: status_of_def)
next
  case (node ds)
  define subs where "subs = map (process h (Suc n)) (take (max_children h) ds)"
  have p: "process h n d = HTask d (status_of (aggregate h d (map outcome subs))) n (aggregate h d (map outcome subs)) subs"
    by (simp only: node(4) subs_def Let_def)
  have "subs \<noteq> []" using node(2) assms by (simp add: subs_def)
  moreover have "map description subs = take (max_children h) ds" by (simp add: subs_def o_def)
  moreover have "aggregator h = None \<Longrightarrow> aggregate h d rs = Inr (Results rs)" for rs by (simp add: aggregate_def)
  ultimately show ?thesis using node(1) by (simp add: p Let_def status_of_def)
qed

definition halving :: "(nat, nat) hierarchy" where
  "halving = \<lparr>decomposer = Some (\<lambda>d n. if d < 2 then Inr [] else if d = 5 then Inl ''x'' else Inr [d div 2, 5]),
     executor = Some (\<lambda>d n. Inr d), aggregator = None, max_depth = 3, max_children = 2\<rparr>"

theorem failures_contained_witness:
  "let t = process halving 0 8 in subtasks t \<noteq> [] \<and> state t = COMPLETED \<and> state (subtasks t ! 1) = FAILED"
proof -
  have h: "decompose halving 0 8 = Inr [4, 5]" "max_depth halving = 3" "max_children halving = 2"
    "decompose halving (Suc 0) 5 = Inl ''x''" "aggregator halving = None"
    by (simp_all add: decompose_def halving_def)
  have p: "process halving 0 8 = (let subs = map (process halving (Suc 0)) [4, 5]; r = aggregate halving 8 (map outcome subs)
      in HTask 8 (status_of r) 0 r subs)"
    by (simp add: process.simps [of halving 0 8] h Let_def)
  have "process halving (Suc 0) 5 = HTask 5 FAILED (Suc 0) (Inl ''x'') []"
    by (simp add: process.simps [of halving "Suc 0" 5] h)
  then show ?thesis
    using failures_contained [of halving 0 8] by (simp add: p h Let_def status_of_def)
qed


section \<open>Waiting for permits\<close>

text \<open>
  The tree of sub-workers: \<open>kids i\<close> are the nodes that node \<open>i\<close> spawns, all with greater numbers; the
  root is 0. A sub-worker waits for a permit, holds it while it processes its task, which includes
  waiting for its own sub-workers, and gives it back when it is done; the root needs none.
\<close>

datatype worker_state = Queued | Active | Done

record tree =
  nodes :: nat
  kids :: "nat \<Rightarrow> nat list"

definition wf_tree :: "tree \<Rightarrow> bool" where
  "wf_tree g \<longleftrightarrow> 0 < nodes g \<and> (\<forall>i < nodes g. \<forall>k \<in> set (kids g i). i < k \<and> k < nodes g)"

lemma wf_treeD: "wf_tree g \<Longrightarrow> i < nodes g \<Longrightarrow> k \<in> set (kids g i) \<Longrightarrow> i < k \<and> k < nodes g"
  unfolding wf_tree_def by blast

lemma wf_tree_pos: "wf_tree g \<Longrightarrow> 0 < nodes g"
  by (simp add: wf_tree_def)

definition held :: "worker_state list \<Rightarrow> nat" where
  "held ws = length (filter (\<lambda>w. w = Active) (tl ws))"

definition initial_workers :: "tree \<Rightarrow> worker_state list" where
  "initial_workers g = Active # replicate (nodes g - 1) Queued"

inductive worker_step :: "tree \<Rightarrow> nat \<Rightarrow> worker_state list \<Rightarrow> worker_state list \<Rightarrow> bool" for g permits where
  acquires: "i < nodes g \<Longrightarrow> ws ! i = Active \<Longrightarrow> k \<in> set (kids g i) \<Longrightarrow> ws ! k = Queued \<Longrightarrow> held ws < permits \<Longrightarrow>
     worker_step g permits ws (ws[k := Active])"
| finishes: "i < nodes g \<Longrightarrow> ws ! i = Active \<Longrightarrow> \<forall>k \<in> set (kids g i). ws ! k = Done \<Longrightarrow>
     worker_step g permits ws (ws[i := Done])"

inductive workers_reach :: "tree \<Rightarrow> nat \<Rightarrow> worker_state list \<Rightarrow> bool" for g permits where
  workers_start: "workers_reach g permits (initial_workers g)"
| workers_more: "workers_reach g permits ws \<Longrightarrow> worker_step g permits ws ws' \<Longrightarrow> workers_reach g permits ws'"

definition internal :: "tree \<Rightarrow> nat" where
  "internal g = card {i. 0 < i \<and> i < nodes g \<and> kids g i \<noteq> []}"

lemma held_card: "held ws = card {i. 0 < i \<and> i < length ws \<and> ws ! i = Active}"
proof -
  have "held ws = card {i. i < length (tl ws) \<and> tl ws ! i = Active}" unfolding held_def by (rule length_filter_conv_card)
  also have "\<dots> = card (Suc ` {i. i < length (tl ws) \<and> tl ws ! i = Active})" by (simp add: card_image)
  also have "Suc ` {i. i < length (tl ws) \<and> tl ws ! i = Active} = {i. 0 < i \<and> i < length ws \<and> ws ! i = Active}"
  proof (intro set_eqI iffI)
    fix i assume "i \<in> {i. 0 < i \<and> i < length ws \<and> ws ! i = Active}"
    then show "i \<in> Suc ` {i. i < length (tl ws) \<and> tl ws ! i = Active}" by (cases i) (auto simp: nth_tl image_iff)
  qed (auto simp: nth_tl)
  finally show ?thesis .
qed

lemma workers_reach_inv:
  "workers_reach g permits ws \<Longrightarrow> wf_tree g \<Longrightarrow> length ws = nodes g \<and> (ws ! 0 = Active \<or> ws ! 0 = Done) \<and> held ws \<le> permits"
proof (induction rule: workers_reach.induct)
  case workers_start
  then show ?case by (simp add: initial_workers_def wf_tree_def held_def)
next
  case (workers_more ws ws')
  from workers_more(2) show ?case
  proof cases
    case (acquires i k)
    have "0 < k" using wf_treeD [OF workers_more.prems acquires(2,4)] by simp
    then have "held ws' \<le> Suc (held ws)"
    proof -
      have "{j. 0 < j \<and> j < length ws' \<and> ws' ! j = Active} \<subseteq> insert k {j. 0 < j \<and> j < length ws \<and> ws ! j = Active}"
        using acquires by (auto simp: nth_list_update split: if_splits)
      then have "held ws' \<le> card (insert k {j. 0 < j \<and> j < length ws \<and> ws ! j = Active})"
        unfolding held_card by (intro card_mono) auto
      also have "\<dots> \<le> Suc (held ws)" unfolding held_card by (simp add: card_insert_if)
      finally show ?thesis .
    qed
    then show ?thesis using workers_more acquires \<open>0 < k\<close> by auto
  next
    case (finishes i)
    have "length ws = nodes g" using workers_more by simp
    then have "{j. 0 < j \<and> j < length ws' \<and> ws' ! j = Active} \<subseteq> {j. 0 < j \<and> j < length ws \<and> ws ! j = Active}"
      using finishes(1,2) by (auto simp: nth_list_update split: if_splits)
    then have "held ws' \<le> held ws" unfolding held_card by (intro card_mono) auto
    then show ?thesis using workers_more finishes by (cases "i = 0") auto
  qed
qed


fun worker_weight :: "worker_state \<Rightarrow> nat" where
  "worker_weight Queued = 2"
| "worker_weight Active = 1"
| "worker_weight Done = 0"

definition work_left :: "worker_state list \<Rightarrow> nat" where
  "work_left ws = sum_list (map worker_weight ws)"

lemma work_left_update:
  assumes "i < length ws" and "worker_weight w < worker_weight (ws ! i)"
  shows "work_left (ws[i := w]) < work_left ws"
proof -
  have "work_left ws = work_left (take i ws @ ws ! i # drop (Suc i) ws)"
    using assms(1) by (simp add: id_take_nth_drop [symmetric])
  then show ?thesis using assms by (simp add: work_left_def upd_conv_take_nth_drop)
qed

lemma worker_step_decreases:
  assumes "worker_step g permits ws ws'" and "wf_tree g" and "length ws = nodes g"
  shows "work_left ws' < work_left ws"
  using assms(1)
proof cases
  case (acquires i k)
  have "k < length ws" using wf_treeD [OF assms(2) acquires(2,4)] assms(3) by simp
  then show ?thesis using acquires by (simp add: work_left_update)
next
  case (finishes i)
  then show ?thesis using assms(3) by (simp add: work_left_update)
qed

lemma progress:
  assumes "wf_tree g" and "internal g < permits" and "length ws = nodes g" and "ws ! 0 = Active"
  shows "\<exists>ws'. worker_step g permits ws ws'"
proof -
  let ?A = "{i. i < nodes g \<and> ws ! i = Active}"
  have A: "finite ?A" "0 \<in> ?A" using wf_tree_pos [OF assms(1)] assms(4) by simp_all
  define m where "m = Max ?A"
  have "m \<in> ?A" unfolding m_def using A by (intro Max_in) blast+
  then have m: "m < nodes g" "ws ! m = Active" by simp_all
  have above: "ws ! k \<noteq> Active" if "k \<in> set (kids g m)" for k
  proof
    assume "ws ! k = Active"
    moreover have "m < k" "k < nodes g" using wf_treeD [OF assms(1) m(1) that] by simp_all
    ultimately have "k \<le> m" unfolding m_def using A(1) by (intro Max_ge) auto
    then show False using \<open>m < k\<close> by simp
  qed
  show ?thesis
  proof (cases "\<forall>k \<in> set (kids g m). ws ! k = Done")
    case True
    then show ?thesis using worker_step.finishes [OF m] by blast
  next
    case False
    then obtain k where k: "k \<in> set (kids g m)" "ws ! k = Queued" using above by (metis worker_state.exhaust)
    show ?thesis
    proof (cases "held ws < permits")
      case True
      then show ?thesis using worker_step.acquires [OF m k] by blast
    next
      case full: False
      have "\<not> {i. 0 < i \<and> i < length ws \<and> ws ! i = Active} \<subseteq> {i. 0 < i \<and> i < nodes g \<and> kids g i \<noteq> []}"
      proof
        assume "{i. 0 < i \<and> i < length ws \<and> ws ! i = Active} \<subseteq> {i. 0 < i \<and> i < nodes g \<and> kids g i \<noteq> []}"
        then have "held ws \<le> internal g" unfolding held_card internal_def by (intro card_mono) auto
        then show False using full assms(2) by simp
      qed
      then obtain j where "j < nodes g" "ws ! j = Active" "kids g j = []" using assms(3) by auto
      then show ?thesis using worker_step.finishes [of j g ws permits] by auto
    qed
  qed
qed

text \<open>
  Enough permits: when fewer sub-workers than there are permits have sub-workers of their own,
  no reachable state is stuck before the root is done, whatever the order in which permits are granted
  and sub-workers finish; every step lowers the work left, of which there is at most two per node, so
  every run ends, and it ends with the root done.
\<close>

theorem enough_permits_finish:
  assumes "wf_tree g" and "internal g < permits" and "workers_reach g permits ws"
  shows "(ws ! 0 \<noteq> Done \<longrightarrow> (\<exists>ws'. worker_step g permits ws ws')) \<and>
     (\<forall>ws'. worker_step g permits ws ws' \<longrightarrow> work_left ws' < work_left ws) \<and> work_left ws \<le> 2 * nodes g"
proof -
  have inv: "length ws = nodes g" "ws ! 0 = Active \<or> ws ! 0 = Done"
    using workers_reach_inv [OF assms(3,1)] by auto
  have "worker_weight w \<le> 2" for w by (cases w) auto
  then have "work_left ws \<le> sum_list (map (\<lambda>_. 2) ws)" unfolding work_left_def by (intro sum_list_mono)
  then have "work_left ws \<le> 2 * nodes g" using inv(1) by (simp add: sum_list_triv)
  then show ?thesis
    using progress [OF assms(1,2) inv(1)] inv worker_step_decreases [OF _ assms(1) inv(1)] by auto
qed

definition chain_pair :: tree where
  "chain_pair = \<lparr>nodes = 3, kids = (\<lambda>i. if i = 0 then [1] else if i = 1 then [2] else [])\<rparr>"

lemma wf_chain_pair: "wf_tree chain_pair"
  by (auto simp: wf_tree_def chain_pair_def split: if_splits)

theorem enough_permits_finish_witness:
  "\<exists>ws'. worker_step chain_pair 2 (initial_workers chain_pair) ws'"
proof -
  have "{i. 0 < i \<and> i < (3 :: nat) \<and> (if i = 0 then [1 :: nat] else if i = 1 then [2] else []) \<noteq> []} = {1}" by auto
  then have "internal chain_pair < 2" by (simp add: internal_def chain_pair_def)
  from enough_permits_finish [OF wf_chain_pair this workers_start] show ?thesis
    by (simp add: initial_workers_def)
qed


text \<open>
  The fan of \<open>m\<close> sub-workers that have one sub-worker each: as many permits as there are sub-workers
  are not enough.
\<close>

definition fan :: "nat \<Rightarrow> tree" where
  "fan m = \<lparr>nodes = 1 + 2 * m, kids = (\<lambda>i. if i = 0 then [1..<Suc m] else if i \<le> m then [m + i] else [])\<rparr>"

lemma wf_fan: "wf_tree (fan m)"
  by (auto simp: wf_tree_def fan_def split: if_splits)

definition fan_state :: "nat \<Rightarrow> nat \<Rightarrow> worker_state list" where
  "fan_state m j = Active # replicate j Active @ replicate (2 * m - j) Queued"

lemma fan_state_nth:
  "j \<le> m \<Longrightarrow> i < 1 + 2 * m \<Longrightarrow> fan_state m j ! i = (if i \<le> j then Active else Queued)"
  by (cases i) (auto simp: fan_state_def nth_append)

lemma fan_state_held: "held (fan_state m j) = j"
  by (simp add: held_def fan_state_def)

lemma fan_reaches: "j \<le> m \<Longrightarrow> workers_reach (fan m) m (fan_state m j)"
proof (induction j)
  case 0
  have "fan_state m 0 = initial_workers (fan m)" by (simp add: fan_state_def initial_workers_def fan_def)
  then show ?case by (simp add: workers_start)
next
  case (Suc j)
  have "worker_step (fan m) m (fan_state m j) ((fan_state m j)[Suc j := Active])"
    by (rule acquires [of 0]) (use Suc.prems in \<open>auto simp: fan_def fan_state_nth fan_state_held\<close>)
  moreover have "(fan_state m j)[Suc j := Active] = fan_state m (Suc j)"
  proof -
    obtain q where q: "2 * m - j = Suc q" "q = 2 * m - Suc j" using Suc.prems by (cases "2 * m - j") auto
    have "(replicate j Active @ replicate (2 * m - j) Queued)[j := Active] = replicate j Active @ Active # replicate q Queued"
      by (simp add: q(1) list_update_append)
    then show ?thesis using q(2) by (simp add: fan_state_def replicate_append_same flip: append_assoc)
  qed
  ultimately show ?case using Suc by (auto intro: workers_more)
qed

text \<open>
  (C27) Too few permits: however many permits there are, as many sub-workers with one sub-worker each
  can take all of them and then wait for ever for their own sub-workers, which get none; the run is
  stuck before the root is done. The number of permits is the number of sub-workers with sub-workers
  here, so the bound of the statement on enough permits is exact.
\<close>

theorem permits_deadlock:
  assumes "0 < m"
  shows "wf_tree (fan m) \<and> internal (fan m) = m \<and>
    (\<exists>ws. workers_reach (fan m) m ws \<and> ws ! 0 = Active \<and> (\<nexists>ws'. worker_step (fan m) m ws ws'))"
proof -
  have "{i. 0 < i \<and> i < nodes (fan m) \<and> kids (fan m) i \<noteq> []} = {1..m}" by (auto simp: fan_def)
  then have "internal (fan m) = m" by (simp add: internal_def)
  moreover have "\<not> worker_step (fan m) m (fan_state m m) ws'" for ws'
  proof
    assume "worker_step (fan m) m (fan_state m m) ws'"
    then show False
    proof cases
      case (acquires i k)
      then show ?thesis by (simp add: fan_state_held)
    next
      case (finishes i)
      have "i \<le> m" using finishes fan_state_nth [of m m i] by (auto simp: fan_def split: if_splits)
      then have "\<exists>k \<in> set (kids (fan m) i). k < 1 + 2 * m" using assms by (auto simp: fan_def)
      then obtain k where "k \<in> set (kids (fan m) i)" "k < 1 + 2 * m" by blast
      then show ?thesis using finishes fan_state_nth [of m m k] by (auto split: if_splits)
    qed
  qed
  moreover have "fan_state m m ! 0 = Active" by (simp add: fan_state_def)
  ultimately show ?thesis using wf_fan fan_reaches [of m m] by blast
qed

theorem permits_deadlock_witness:
  "\<exists>ws. workers_reach (fan 1) 1 ws \<and> ws ! 0 = Active \<and> (\<nexists>ws'. worker_step (fan 1) 1 ws ws')"
  using permits_deadlock [of 1] by simp

end
