(* ===== verification/Worker_Pool.thy ===== *)
theory Worker_Pool
  imports Prelude
begin

text \<open>
  The worker pool (\<open>workers/pool.py\<close>): a fixed number of workers takes tasks from a bounded queue, and
  every submitter waits for the event of its task.

  The submitters and the workers run concurrently; \<open>pool_step\<close> has one step for every stretch between
  two awaits. A task is known by its position in the list of all tasks submitted so far. Its record has
  the fields of \<open>WorkerTask\<close>, where its submitter is, and what the submitter got: an exception or the
  result, which is \<open>None\<close> until a worker sets it.
\<close>

datatype tstate = PENDING | RUNNING | COMPLETED | FAILED

datatype place = AtPut | Waiting | Answered

record 'v ptask =
  state :: tstate
  result :: "'v option"
  error :: string
  finished :: bool
  submitter :: place
  answer :: "(string + 'v option) option"

record 'v pool =
  max_workers :: nat
  max_queue_size :: nat
  running :: bool
  queue :: "nat list"
  tasks :: "'v ptask list"
  busy :: "nat list"
  idle :: nat
  total_completed :: nat
  total_failed :: nat

definition new_pool :: "int \<Rightarrow> nat \<Rightarrow> 'v pool result" where
  "new_pool w q =
     (if w < 1 then Inl ValueError
      else Inr \<lparr>max_workers = nat w, max_queue_size = q, running = False, queue = [], tasks = [], busy = [], idle = 0,
                total_completed = 0, total_failed = 0\<rparr>)"

section \<open>Operations\<close>

definition start :: "'v pool \<Rightarrow> 'v pool" where
  "start p = (if running p then p else p\<lparr>running := True, idle := max_workers p\<rparr>)"

definition update_task :: "nat \<Rightarrow> ('v ptask \<Rightarrow> 'v ptask) \<Rightarrow> 'v pool \<Rightarrow> 'v pool" where
  "update_task i f p = p\<lparr>tasks := (tasks p)[i := f (tasks p ! i)]\<rparr>"

text \<open>\<open>submit\<close> up to the wait for room in the queue; it raises unless the pool is running.\<close>

definition submit :: "'v pool \<Rightarrow> 'v pool result" where
  "submit p =
     (if \<not> running p then Inl RuntimeError
      else Inr (p\<lparr>tasks := tasks p @ [\<lparr>state = PENDING, result = None, error = [], finished = False, submitter = AtPut,
                   answer = None\<rparr>]\<rparr>))"

definition queue_full :: "'v pool \<Rightarrow> bool" where
  "queue_full p = (0 < max_queue_size p \<and> max_queue_size p \<le> length (queue p))"

definition put :: "nat \<Rightarrow> 'v pool \<Rightarrow> 'v pool" where
  "put i p = (update_task i (\<lambda>t. t\<lparr>submitter := Waiting\<rparr>) p)\<lparr>queue := queue p @ [i]\<rparr>"

definition take_task :: "'v pool \<Rightarrow> 'v pool" where
  "take_task p =
     (case queue p of
        [] \<Rightarrow> p
      | i # rest \<Rightarrow> (update_task i (\<lambda>t. t\<lparr>state := RUNNING\<rparr>) p)\<lparr>queue := rest, busy := i # busy p, idle := idle p - 1\<rparr>)"

definition finish :: "nat \<Rightarrow> string + 'v \<Rightarrow> 'v pool \<Rightarrow> 'v pool" where
  "finish i r p =
     (case r of
        Inr v \<Rightarrow> (update_task i (\<lambda>t. t\<lparr>result := Some v, state := COMPLETED, finished := True\<rparr>) p)
                  \<lparr>busy := remove1 i (busy p), idle := idle p + 1, total_completed := total_completed p + 1\<rparr>
      | Inl e \<Rightarrow> (update_task i (\<lambda>t. t\<lparr>error := e, state := FAILED, finished := True\<rparr>) p)
                  \<lparr>busy := remove1 i (busy p), idle := idle p + 1, total_failed := total_failed p + 1\<rparr>)"

text \<open>\<open>submit\<close> after its event: the exception of a failed task, otherwise whatever the result is.\<close>

definition wake :: "nat \<Rightarrow> 'v pool \<Rightarrow> 'v pool" where
  "wake i p =
     update_task i (\<lambda>t. t\<lparr>submitter := Answered, answer := Some (if state t = FAILED then Inl (error t) else Inr (result t))\<rparr>) p"

text \<open>
  Shutting down sets the events of all tasks whose submitters have not been answered and cancels the
  workers; a task that was running keeps its state.
\<close>

definition shutdown :: "'v pool \<Rightarrow> 'v pool" where
  "shutdown p = p\<lparr>running := False, busy := [], idle := 0, tasks := map (\<lambda>t. t\<lparr>finished := True\<rparr>) (tasks p)\<rparr>"

section \<open>The interleaved system\<close>

inductive pool_step :: "'v pool \<Rightarrow> 'v pool \<Rightarrow> bool" where
  started: "pool_step p (start p)"
| submitted: "submit p = Inr p' \<Longrightarrow> pool_step p p'"
| entered: "i < length (tasks p) \<Longrightarrow> submitter (tasks p ! i) = AtPut \<Longrightarrow> \<not> queue_full p \<Longrightarrow> pool_step p (put i p)"
| taken: "running p \<Longrightarrow> 0 < idle p \<Longrightarrow> queue p \<noteq> [] \<Longrightarrow> pool_step p (take_task p)"
| ended: "i \<in> set (busy p) \<Longrightarrow> pool_step p (finish i r p)"
| woken: "i < length (tasks p) \<Longrightarrow> submitter (tasks p ! i) = Waiting \<Longrightarrow> finished (tasks p ! i) \<Longrightarrow> pool_step p (wake i p)"

inductive pool_reach :: "'v pool \<Rightarrow> 'v pool \<Rightarrow> bool" for p0 where
  pool_here: "pool_reach p0 p0"
| pool_more: "pool_reach p0 p \<Longrightarrow> pool_step p p' \<Longrightarrow> pool_reach p0 p'"

section \<open>Invariant while the pool runs\<close>

text \<open>
  What is known of the task at position \<open>i\<close>: its submitter waits for room before it is in the queue, a
  task leaves the queue for a worker once, and its event is set exactly when it has an outcome.
\<close>

definition task_inv :: "'v pool \<Rightarrow> nat \<Rightarrow> 'v ptask \<Rightarrow> bool" where
  "task_inv p i t \<longleftrightarrow>
     (submitter t = AtPut \<longrightarrow> state t = PENDING \<and> i \<notin> set (queue p) \<and> i \<notin> set (busy p)) \<and>
     (submitter t \<noteq> AtPut \<longrightarrow> (state t = PENDING \<longleftrightarrow> i \<in> set (queue p)) \<and> (state t = RUNNING \<longleftrightarrow> i \<in> set (busy p))) \<and>
     (finished t \<longleftrightarrow> state t = COMPLETED \<or> state t = FAILED) \<and>
     (result t \<noteq> None \<longleftrightarrow> state t = COMPLETED) \<and>
     (submitter t = Answered \<longleftrightarrow> answer t \<noteq> None) \<and>
     (\<forall>a. answer t = Some a \<longrightarrow> state t = FAILED \<and> a = Inl (error t) \<or> state t = COMPLETED \<and> a = Inr (result t))"

definition pool_inv :: "'v pool \<Rightarrow> bool" where
  "pool_inv p \<longleftrightarrow>
     distinct (queue p @ busy p) \<and> set (queue p) \<union> set (busy p) \<subseteq> {..<length (tasks p)} \<and>
     (running p \<longrightarrow> length (busy p) + idle p = max_workers p) \<and> (\<not> running p \<longrightarrow> busy p = [] \<and> idle p = 0 \<and> tasks p = []) \<and>
     (0 < max_queue_size p \<longrightarrow> length (queue p) \<le> max_queue_size p) \<and>
     (\<forall>i < length (tasks p). task_inv p i (tasks p ! i)) \<and>
     total_completed p = length (filter (\<lambda>t. state t = COMPLETED) (tasks p)) \<and>
     total_failed p = length (filter (\<lambda>t. state t = FAILED) (tasks p))"

lemma count_update:
  "i < length xs \<Longrightarrow>
   length (filter P (xs[i := y])) + (if P (xs ! i) then 1 else 0) = length (filter P xs) + (if P y then 1 else 0)"
proof (induction xs arbitrary: i)
  case (Cons x xs)
  show ?case
  proof (cases i)
    case (Suc j)
    then show ?thesis using Cons.IH [of j] Cons.prems by auto
  qed simp
qed simp

text \<open>A step that changes one task, and the queue and the busy workers only by that task.\<close>

lemma pool_inv_update:
  assumes inv: "pool_inv p" and i: "i < length (tasks p)" and tasks: "tasks p' = (tasks p)[i := t]"
    and q: "\<And>j. j \<noteq> i \<Longrightarrow> j \<in> set (queue p') \<longleftrightarrow> j \<in> set (queue p)" and b: "\<And>j. j \<noteq> i \<Longrightarrow> j \<in> set (busy p') \<longleftrightarrow> j \<in> set (busy p)"
    and t: "task_inv p' i t" and d: "distinct (queue p' @ busy p')"
    and len: "length (busy p') + idle p' = length (busy p) + idle p"
    and frame: "running p' = running p" "max_workers p' = max_workers p" "max_queue_size p' = max_queue_size p"
    and room: "0 < max_queue_size p \<longrightarrow> length (queue p') \<le> max_queue_size p"
    and c: "total_completed p' + (if state (tasks p ! i) = COMPLETED then 1 else 0) = total_completed p + (if state t = COMPLETED then 1 else 0)"
    and f: "total_failed p' + (if state (tasks p ! i) = FAILED then 1 else 0) = total_failed p + (if state t = FAILED then 1 else 0)"
  shows "pool_inv p'"
proof -
  have run: "running p" using inv i by (auto simp: pool_inv_def)
  have others: "task_inv p' j (tasks p' ! j)" if "j < length (tasks p')" for j
  proof (cases "j = i")
    case True
    then show ?thesis using t i by (simp add: tasks)
  next
    case False
    then have "task_inv p j (tasks p ! j)" using inv that by (simp add: pool_inv_def tasks)
    then show ?thesis using False q [OF False] b [OF False] by (simp add: task_inv_def tasks)
  qed
  have sub: "set (queue p') \<union> set (busy p') \<subseteq> {..<length (tasks p')}"
  proof
    fix j assume j: "j \<in> set (queue p') \<union> set (busy p')"
    have old: "set (queue p) \<union> set (busy p) \<subseteq> {..<length (tasks p)}" using inv by (simp add: pool_inv_def)
    show "j \<in> {..<length (tasks p')}"
    proof (cases "j = i")
      case True
      then show ?thesis using i by (simp add: tasks)
    next
      case False
      then have "j \<in> set (queue p) \<union> set (busy p)" using j q b by blast
      then show ?thesis using old by (auto simp: tasks)
    qed
  qed
  have counts: "total_completed p = length (filter (\<lambda>t. state t = COMPLETED) (tasks p))" "total_failed p = length (filter (\<lambda>t. state t = FAILED) (tasks p))"
    "length (busy p) + idle p = max_workers p" using inv run by (simp_all add: pool_inv_def)
  have "total_completed p' = length (filter (\<lambda>t. state t = COMPLETED) (tasks p'))"
    using c counts(1) count_update [OF i, of "\<lambda>t. state t = COMPLETED" t] by (simp add: tasks split: if_splits)
  moreover have "total_failed p' = length (filter (\<lambda>t. state t = FAILED) (tasks p'))"
    using f counts(2) count_update [OF i, of "\<lambda>t. state t = FAILED" t] by (simp add: tasks split: if_splits)
  ultimately show ?thesis
    unfolding pool_inv_def using others sub d len counts(3) frame room run by simp
qed

lemma put_inv:
  assumes "pool_inv p" and "i < length (tasks p)" and "submitter (tasks p ! i) = AtPut" and "\<not> queue_full p"
  shows "pool_inv (put i p)"
proof -
  have ti: "task_inv p i (tasks p ! i)" and d: "distinct (queue p @ busy p)" using assms(1,2) by (simp_all add: pool_inv_def)
  have st: "state (tasks p ! i) = PENDING" "i \<notin> set (queue p)" "i \<notin> set (busy p)" using ti assms(3) by (simp_all add: task_inv_def)
  show ?thesis
    by (rule pool_inv_update [OF assms(1,2), of _ "(tasks p ! i)\<lparr>submitter := Waiting\<rparr>"])
      (use ti st d assms(3,4) in \<open>auto simp: put_def update_task_def task_inv_def queue_full_def\<close>)
qed

lemma take_inv:
  assumes "pool_inv p" and "running p" and "0 < idle p" and "queue p \<noteq> []"
  shows "pool_inv (take_task p)"
proof -
  obtain i rest where q: "queue p = i # rest" using assms(4) by (cases "queue p") auto
  have i: "i < length (tasks p)" using assms(1) by (simp add: pool_inv_def q)
  have ti: "task_inv p i (tasks p ! i)" and d: "distinct (queue p @ busy p)" using assms(1) i by (simp_all add: pool_inv_def)
  have st: "state (tasks p ! i) = PENDING" "submitter (tasks p ! i) \<noteq> AtPut"
    using ti by (auto simp: task_inv_def q)
  have room: "0 < max_queue_size p \<longrightarrow> length (queue p) \<le> max_queue_size p" using assms(1) by (simp add: pool_inv_def)
  show ?thesis
    by (rule pool_inv_update [OF assms(1) i, of _ "(tasks p ! i)\<lparr>state := RUNNING\<rparr>"])
      (use ti st d room assms(3) in \<open>auto simp: take_task_def update_task_def task_inv_def q\<close>)
qed

lemma finish_inv:
  assumes "pool_inv p" and "i \<in> set (busy p)"
  shows "pool_inv (finish i r p)"
proof -
  have i: "i < length (tasks p)" using assms by (auto simp: pool_inv_def)
  have ti: "task_inv p i (tasks p ! i)" and d: "distinct (queue p @ busy p)" using assms(1) i by (simp_all add: pool_inv_def)
  have sub: "submitter (tasks p ! i) \<noteq> AtPut" using ti assms(2) by (auto simp: task_inv_def)
  have st: "state (tasks p ! i) = RUNNING" "i \<notin> set (queue p)" using ti sub d assms(2) by (auto simp: task_inv_def)
  have room: "0 < max_queue_size p \<longrightarrow> length (queue p) \<le> max_queue_size p" using assms(1) by (simp add: pool_inv_def)
  have len: "length (remove1 i (busy p)) + 1 = length (busy p)"
    using assms(2) by (metis One_nat_def Suc_pred add.commute length_pos_if_in_set length_remove1 plus_1_eq_Suc)
  have ans: "answer (tasks p ! i) = None" using ti st by (auto simp: task_inv_def)
  show ?thesis
  proof (cases r)
    case (Inr v)
    show ?thesis
      by (rule pool_inv_update [OF assms(1) i, of _ "(tasks p ! i)\<lparr>result := Some v, state := COMPLETED, finished := True\<rparr>"])
        (use ti st sub d room len ans in \<open>auto simp: finish_def update_task_def task_inv_def Inr\<close>)
  next
    case (Inl e)
    show ?thesis
      by (rule pool_inv_update [OF assms(1) i, of _ "(tasks p ! i)\<lparr>error := e, state := FAILED, finished := True\<rparr>"])
        (use ti st sub d room len ans in \<open>auto simp: finish_def update_task_def task_inv_def Inl\<close>)
  qed
qed

lemma wake_inv:
  assumes "pool_inv p" and "i < length (tasks p)" and "submitter (tasks p ! i) = Waiting" and "finished (tasks p ! i)"
  shows "pool_inv (wake i p)"
proof -
  have ti: "task_inv p i (tasks p ! i)" and d: "distinct (queue p @ busy p)" using assms(1,2) by (simp_all add: pool_inv_def)
  have room: "0 < max_queue_size p \<longrightarrow> length (queue p) \<le> max_queue_size p" using assms(1) by (simp add: pool_inv_def)
  show ?thesis
    by (rule pool_inv_update [OF assms(1,2), of _ "(tasks p ! i)\<lparr>submitter := Answered,
          answer := Some (if state (tasks p ! i) = FAILED then Inl (error (tasks p ! i)) else Inr (result (tasks p ! i)))\<rparr>"])
      (use ti d room assms(3,4) in \<open>auto simp: wake_def update_task_def task_inv_def\<close>)
qed

lemma submit_inv:
  assumes "pool_inv p" and "submit p = Inr p'"
  shows "pool_inv p'"
proof -
  let ?t = "\<lparr>state = PENDING, result = None, error = [], finished = False, submitter = AtPut, answer = None\<rparr>"
  have run: "running p" and p': "p' = p\<lparr>tasks := tasks p @ [?t]\<rparr>" using assms(2) by (auto simp: submit_def split: if_splits)
  have fresh: "length (tasks p) \<notin> set (queue p) \<union> set (busy p)" using assms(1) by (auto simp: pool_inv_def)
  have "task_inv p' i (tasks p' ! i)" if "i < length (tasks p')" for i
  proof (cases "i < length (tasks p)")
    case True
    then show ?thesis using assms(1) by (simp add: pool_inv_def p' task_inv_def nth_append)
  next
    case False
    then have "i = length (tasks p)" using that by (simp add: p')
    then show ?thesis using fresh by (simp add: p' task_inv_def)
  qed
  moreover have "set (queue p') \<union> set (busy p') \<subseteq> {..<length (tasks p')}"
    using assms(1) by (auto simp: pool_inv_def p')
  ultimately show ?thesis using assms(1) run unfolding pool_inv_def by (simp add: p')
qed

lemma start_inv: "pool_inv p \<Longrightarrow> pool_inv (start p)"
  by (auto simp: pool_inv_def start_def task_inv_def)

lemma pool_step_inv: "pool_step p p' \<Longrightarrow> pool_inv p \<Longrightarrow> pool_inv p'"
  by (induction rule: pool_step.induct) (auto intro: start_inv submit_inv put_inv take_inv finish_inv wake_inv)

lemma pool_reach_inv:
  assumes "pool_reach p0 p" and "new_pool w q = Inr p0"
  shows "pool_inv p \<and> max_workers p = nat w"
  using assms(1)
proof (induction rule: pool_reach.induct)
  case pool_here
  then show ?case using assms(2) by (auto simp: new_pool_def pool_inv_def split: if_splits)
next
  case (pool_more p p')
  have "max_workers p' = max_workers p"
    using pool_more(2) by (induction rule: pool_step.induct)
      (auto simp: start_def submit_def put_def take_task_def finish_def wake_def update_task_def split: if_splits list.split sum.split)
  then show ?case using pool_more pool_step_inv by auto
qed

section \<open>Properties\<close>


text \<open>One worker and one place in the queue: a task is submitted, queued, taken, run and answered.\<close>

definition demo_pool :: "nat pool" where
  "demo_pool = \<lparr>max_workers = 1, max_queue_size = 1, running = False, queue = [], tasks = [], busy = [], idle = 0,
     total_completed = 0, total_failed = 0\<rparr>"

definition demo_waiting :: "nat pool" where
  "demo_waiting = put 0 (start demo_pool\<lparr>tasks := [\<lparr>state = PENDING, result = None, error = [],
     finished = False, submitter = AtPut, answer = None\<rparr>]\<rparr>)"

definition demo_answered :: "nat pool" where
  "demo_answered = wake 0 (finish 0 (Inr 7) (take_task demo_waiting))"

lemma demo_new: "new_pool 1 1 = Inr demo_pool"
  by (simp add: new_pool_def demo_pool_def)

lemma demo_reach_waiting: "pool_reach demo_pool demo_waiting"
proof -
  let ?p = "start demo_pool\<lparr>tasks := [\<lparr>state = PENDING, result = None, error = [],
     finished = False, submitter = AtPut, answer = None\<rparr>]\<rparr>"
  have "submit (start demo_pool) = Inr ?p" by (simp add: submit_def start_def demo_pool_def)
  then have "pool_reach demo_pool ?p" by (blast intro: pool_here pool_more started submitted)
  moreover have "pool_step ?p (put 0 ?p)"
    by (rule entered) (simp_all add: start_def demo_pool_def queue_full_def)
  ultimately show ?thesis unfolding demo_waiting_def by (rule pool_more)
qed

lemma demo_reach_answered: "pool_reach demo_pool demo_answered"
proof -
  have "pool_step demo_waiting (take_task demo_waiting)"
    by (rule taken) (simp_all add: demo_waiting_def put_def update_task_def start_def demo_pool_def)
  moreover have "pool_step (take_task demo_waiting) (finish 0 (Inr 7) (take_task demo_waiting))"
    by (rule ended) (simp add: take_task_def demo_waiting_def put_def update_task_def start_def demo_pool_def)
  moreover have "pool_step (finish 0 (Inr 7) (take_task demo_waiting)) demo_answered"
    unfolding demo_answered_def
    by (rule woken) (simp_all add: finish_def take_task_def demo_waiting_def put_def update_task_def start_def demo_pool_def)
  ultimately show ?thesis using demo_reach_waiting by (blast intro: pool_more)
qed


fun stages_left :: "'v ptask \<Rightarrow> nat" where
  "stages_left t =
     (case submitter t of AtPut \<Rightarrow> 4 | Answered \<Rightarrow> 0
      | Waiting \<Rightarrow> (case state t of PENDING \<Rightarrow> 3 | RUNNING \<Rightarrow> 2 | _ \<Rightarrow> 1))"

definition pool_left :: "'v pool \<Rightarrow> nat" where
  "pool_left p = sum_list (map stages_left (tasks p))"

lemma pool_left_update:
  assumes "i < length (tasks p)" and "tasks p' = (tasks p)[i := t]" and "stages_left t < stages_left (tasks p ! i)"
  shows "pool_left p' < pool_left p"
proof -
  have "sum_list (map stages_left (tasks p)) = sum_list (map stages_left (take i (tasks p) @ tasks p ! i # drop (Suc i) (tasks p)))"
    using assms(1) by (simp add: id_take_nth_drop [symmetric])
  then show ?thesis using assms by (simp add: pool_left_def upd_conv_take_nth_drop del: stages_left.simps)
qed

text \<open>
  The pool never gets stuck while it runs: as long as a submitter has no answer, a step is possible
  that brings some task to its next stage, of which every task has four, so without new submissions
  every submitter is answered in the end.
\<close>

theorem pool_progress:
  assumes "new_pool w q = Inr p0" and "pool_reach p0 p" and "i < length (tasks p)" and "answer (tasks p ! i) = None"
  shows "\<exists>p'. pool_step p p' \<and> pool_left p' < pool_left p"
proof -
  have inv: "pool_inv p" using pool_reach_inv [OF assms(2,1)] by simp
  have w: "0 < max_workers p" using pool_reach_inv [OF assms(2,1)] assms(1) by (auto simp: new_pool_def split: if_splits)
  have run: "running p" using inv assms(3) by (auto simp: pool_inv_def)
  have ti: "task_inv p j (tasks p ! j)" if "j < length (tasks p)" for j using inv that by (simp add: pool_inv_def)
  show ?thesis
  proof (cases "busy p")
    case (Cons j js)
    have j: "j < length (tasks p)" using inv Cons by (simp add: pool_inv_def)
    have "submitter (tasks p ! j) = Waiting" "state (tasks p ! j) = RUNNING"
      using ti [OF j] Cons by (cases "submitter (tasks p ! j)"; auto simp: task_inv_def)+
    then have "pool_left (finish j (Inl []) p) < pool_left p"
      by (intro pool_left_update [OF j, of _ "(tasks p ! j)\<lparr>error := [], state := FAILED, finished := True\<rparr>"])
        (auto simp: finish_def update_task_def)
    then show ?thesis using pool_step.ended [of j p "Inl []"] Cons by auto
  next
    case Nil
    then have idle: "0 < idle p" using inv run w by (simp add: pool_inv_def)
    show ?thesis
    proof (cases "queue p")
      case (Cons j js)
      have j: "j < length (tasks p)" using inv Cons by (simp add: pool_inv_def)
      have "submitter (tasks p ! j) = Waiting" "state (tasks p ! j) = PENDING"
        using ti [OF j] Cons by (cases "submitter (tasks p ! j)"; auto simp: task_inv_def)+
      then have "pool_left (take_task p) < pool_left p"
        by (intro pool_left_update [OF j, of _ "(tasks p ! j)\<lparr>state := RUNNING\<rparr>"]) (auto simp: take_task_def update_task_def Cons)
      then show ?thesis using pool_step.taken [OF run idle] Cons by auto
    next
      case q: Nil
      show ?thesis
      proof (cases "submitter (tasks p ! i)")
        case AtPut
        have "\<not> queue_full p" using q by (auto simp: queue_full_def)
        moreover have "pool_left (put i p) < pool_left p"
          using ti [OF assms(3)] AtPut
          by (intro pool_left_update [OF assms(3), of _ "(tasks p ! i)\<lparr>submitter := Waiting\<rparr>"]) (auto simp: put_def update_task_def task_inv_def)
        ultimately show ?thesis using pool_step.entered [OF assms(3) AtPut] by blast
      next
        case Waiting
        then have fin: "finished (tasks p ! i)" "state (tasks p ! i) = COMPLETED \<or> state (tasks p ! i) = FAILED"
          using ti [OF assms(3)] q Nil by (cases "state (tasks p ! i)"; auto simp: task_inv_def)+
        have "pool_left (wake i p) < pool_left p"
          using Waiting fin(2)
          by (intro pool_left_update [OF assms(3), of _ "(tasks p ! i)\<lparr>submitter := Answered,
              answer := Some (if state (tasks p ! i) = FAILED then Inl (error (tasks p ! i)) else Inr (result (tasks p ! i)))\<rparr>"])
            (auto simp: wake_def update_task_def)
        then show ?thesis using pool_step.woken [OF assms(3) Waiting fin(1)] by blast
      next
        case Answered
        then show ?thesis using ti [OF assms(3)] assms(4) by (simp add: task_inv_def)
      qed
    qed
  qed
qed

theorem pool_progress_witness: "\<exists>p'. pool_step demo_waiting p' \<and> pool_left p' < pool_left demo_waiting"
  by (rule pool_progress [OF demo_new demo_reach_waiting, of 0])
    (simp_all add: demo_waiting_def put_def update_task_def start_def demo_pool_def)

section \<open>Shutting down\<close>

text \<open>
  A task that was still queued is answered with \<open>None\<close>, as if it had run and returned nothing.
\<close>

lemma shutdown_answers_queued:
  assumes "i < length (tasks p)" and "submitter (tasks p ! i) = Waiting" and "state (tasks p ! i) = PENDING" and "result (tasks p ! i) = None"
  shows "pool_step (shutdown p) (wake i (shutdown p)) \<and> answer (tasks (wake i (shutdown p)) ! i) = Some (Inr None)"
proof
  show "pool_step (shutdown p) (wake i (shutdown p))"
    using pool_step.woken [of i "shutdown p"] assms by (simp add: shutdown_def)
  show "answer (tasks (wake i (shutdown p)) ! i) = Some (Inr None)"
    using assms by (simp add: shutdown_def wake_def update_task_def)
qed

text \<open>
  A submitter that waits for room in a full queue is never answered after a shutdown, unless the pool is
  started again: no step of the stopped pool makes room.
\<close>

definition wedged :: "nat \<Rightarrow> 'v pool \<Rightarrow> bool" where
  "wedged i p \<longleftrightarrow> \<not> running p \<and> busy p = [] \<and> queue_full p \<and> i < length (tasks p) \<and> submitter (tasks p ! i) = AtPut"

lemma shutdown_wedges:
  assumes "queue_full p" and "i < length (tasks p)" and "submitter (tasks p ! i) = AtPut"
  shows "wedged i (shutdown p)"
  using assms by (simp add: wedged_def shutdown_def queue_full_def)

lemma wedged_stays: "pool_step p p' \<Longrightarrow> wedged i p \<Longrightarrow> \<not> running p' \<Longrightarrow> wedged i p'"
proof (induction rule: pool_step.induct)
  case (started p)
  then show ?case by (simp add: start_def wedged_def)
next
  case (woken j p)
  then show ?case by (auto simp: wedged_def wake_def update_task_def queue_full_def nth_list_update)
qed (auto simp: wedged_def submit_def)

end
