(* ===== verification/Checkpoint.thy ===== *)
theory Checkpoint
  imports Prelude
begin

text \<open>
  The store of checkpoints (\<open>core/checkpoint.py\<close>): one JSON file per tenant and task, written to a
  temporary file first and then moved into place.

  The directory is a dictionary from file names to contents: a JSON document, or text that is not
  JSON. Reading and writing succeed (errors of the operating system are not modelled). A value of the
  context is what \<open>str\<close> gives for it, or the name of its type when \<open>str\<close> raises. A loaded checkpoint
  has the JSON values of the document, which are not checked.
\<close>

section \<open>File names\<close>

definition strip_set :: "char set \<Rightarrow> string \<Rightarrow> string" where
  "strip_set cs s = rev (dropWhile (\<lambda>c. c \<in> cs) (rev (dropWhile (\<lambda>c. c \<in> cs) s)))"

definition safe_name :: "string \<Rightarrow> string" where
  "safe_name value =
     (let v = strip_set {CHR ''.'', CHR ''_''} (map (\<lambda>c. if safe_char c then c else CHR ''_'') value)
      in if v = [] then ''unknown'' else v)"

definition file_name :: "string \<Rightarrow> string \<Rightarrow> string" where
  "file_name task tenant = safe_name tenant @ ''__'' @ safe_name task @ ''.json''"

definition tmp_name :: "string \<Rightarrow> string" where
  "tmp_name path = path @ ''.tmp''"

section \<open>Saving and loading\<close>

datatype context_value = Shown string | Unshowable string

record checkpoint =
  task_id :: string
  tenant_id :: string
  session_id :: string
  attempt :: int
  completed_steps :: "string list"
  step_results :: "(string, string) dict"
  token_budget_used :: int
  ctx :: "(string, context_value) dict"

datatype file_content = Document json | NotJson

type_synonym disk = "(string, file_content) dict"

definition safe_str :: "context_value \<Rightarrow> string" where
  "safe_str v = (case v of Shown s \<Rightarrow> take 500 s | Unshowable ty \<Rightarrow> ''<error: '' @ ty @ ''>'')"

definition checkpoint_json :: "py_float \<Rightarrow> checkpoint \<Rightarrow> json" where
  "checkpoint_json now cp =
     JDict [(''task_id'', JStr (task_id cp)), (''tenant_id'', JStr (tenant_id cp)), (''session_id'', JStr (session_id cp)),
       (''attempt'', JInt (attempt cp)), (''completed_steps'', JList (map JStr (completed_steps cp))),
       (''step_results'', JDict (map (\<lambda>(k, v). (k, JStr v)) (step_results cp))),
       (''token_budget_used'', JInt (token_budget_used cp)),
       (''context'', JDict (map (\<lambda>(k, v). (k, JStr (safe_str v))) (ctx cp))), (''timestamp'', JFloat now)]"

text \<open>The two halves of the write; a crash may come between them.\<close>

definition write_tmp :: "py_float \<Rightarrow> checkpoint \<Rightarrow> disk \<Rightarrow> disk" where
  "write_tmp now cp d = dict_set (tmp_name (file_name (task_id cp) (tenant_id cp))) (Document (checkpoint_json now cp)) d"

definition replace_file :: "string \<Rightarrow> disk \<Rightarrow> disk result" where
  "replace_file path d =
     (case map_of d (tmp_name path) of
        None \<Rightarrow> Inl RuntimeError
      | Some c \<Rightarrow> Inr (dict_set path c (dict_del (tmp_name path) d)))"

definition save :: "py_float \<Rightarrow> checkpoint \<Rightarrow> disk \<Rightarrow> disk result" where
  "save now cp d = replace_file (file_name (task_id cp) (tenant_id cp)) (write_tmp now cp d)"

record loaded =
  l_task :: json
  l_tenant :: json
  l_session :: json
  l_attempt :: json
  l_steps :: json
  l_results :: json
  l_tokens :: json
  l_context :: json
  l_timestamp :: json

text \<open>
  A missing file, text that is not JSON and a document without \<open>task_id\<close> give nothing; a document that
  is not an object raises \<open>TypeError\<close>, which is not caught.
\<close>

definition load :: "string \<Rightarrow> string \<Rightarrow> disk \<Rightarrow> loaded option result" where
  "load task tenant d =
     (case map_of d (file_name task tenant) of
        None \<Rightarrow> Inr None
      | Some NotJson \<Rightarrow> Inr None
      | Some (Document (JDict items)) \<Rightarrow>
          (case map_of items ''task_id'' of
             None \<Rightarrow> Inr None
           | Some tid \<Rightarrow>
               Inr (Some \<lparr>l_task = tid, l_tenant = dict_get items ''tenant_id'' (JStr tenant),
                 l_session = dict_get items ''session_id'' (JStr []), l_attempt = dict_get items ''attempt'' (JInt 1),
                 l_steps = dict_get items ''completed_steps'' (JList []), l_results = dict_get items ''step_results'' (JDict []),
                 l_tokens = dict_get items ''token_budget_used'' (JInt 0), l_context = dict_get items ''context'' (JDict []),
                 l_timestamp = dict_get items ''timestamp'' (JFloat 0)\<rparr>))
      | Some (Document _) \<Rightarrow> Inl TypeError)"

definition delete :: "string \<Rightarrow> string \<Rightarrow> disk \<Rightarrow> disk" where
  "delete task tenant d = dict_del (file_name task tenant) d"

definition has_checkpoint :: "string \<Rightarrow> string \<Rightarrow> disk \<Rightarrow> bool" where
  "has_checkpoint task tenant d = dict_has d (file_name task tenant)"

section \<open>File names stay in the directory\<close>

lemma set_strip: "set (strip_set cs s) \<subseteq> set s"
  unfolding strip_set_def by (metis set_dropWhileD set_rev subsetI)

lemma safe_name_chars: "c \<in> set (safe_name v) \<Longrightarrow> safe_char c"
proof -
  assume c: "c \<in> set (safe_name v)"
  have under: "safe_char (CHR ''_'')" by (simp add: safe_char_def)
  show ?thesis
  proof (cases "strip_set {CHR ''.'', CHR ''_''} (map (\<lambda>c. if safe_char c then c else CHR ''_'') v) = []")
    case True
    with c show ?thesis by (auto simp: safe_name_def safe_char_def)
  next
    case False
    with c have "c \<in> set (map (\<lambda>c. if safe_char c then c else CHR ''_'') v)"
      using set_strip by (fastforce simp: safe_name_def Let_def)
    then show ?thesis using under by auto
  qed
qed

lemma hd_rstrip:
  assumes "w \<noteq> []" and "\<not> P (hd w)"
  shows "rev (dropWhile P (rev w)) \<noteq> [] \<and> hd (rev (dropWhile P (rev w))) = hd w"
proof -
  obtain x xs where w: "w = x # xs" "\<not> P x" using assms by (cases w) auto
  have "\<exists>y. dropWhile P (ys @ [x]) = y @ [x]" for ys using w(2) by (induction ys) auto
  then obtain y where "dropWhile P (rev xs @ [x]) = y @ [x]" by blast
  then show ?thesis by (simp add: w(1))
qed

lemma safe_name_hd: "safe_name v \<noteq> [] \<and> hd (safe_name v) \<noteq> CHR ''.''"
proof -
  define P where "P = (\<lambda>c. c \<in> {CHR ''.'', CHR ''_''})"
  define w where "w = dropWhile P (map (\<lambda>c. if safe_char c then c else CHR ''_'') v)"
  have s: "safe_name v = (if rev (dropWhile P (rev w)) = [] then ''unknown'' else rev (dropWhile P (rev w)))"
    by (simp only: safe_name_def strip_set_def Let_def P_def w_def)
  show ?thesis
  proof (cases "w = []")
    case True
    then show ?thesis by (simp add: s)
  next
    case False
    then have "\<not> P (hd w)" unfolding w_def by (rule hd_dropWhile)
    from hd_rstrip [of w P, OF False this] this show ?thesis by (auto simp: s P_def)
  qed
qed

text \<open>
  A checkpoint file stays in its directory: whatever the names of the tenant and the task, the file
  name has only letters, digits, underscores, dots and hyphens, so no separator, and does not start
  with a dot.
\<close>

theorem checkpoint_path_safe:
  "(\<forall>c \<in> set (file_name task tenant). safe_char c) \<and> CHR ''/'' \<notin> set (file_name task tenant) \<and>
   hd (file_name task tenant) \<noteq> CHR ''.''"
proof -
  have "\<forall>c \<in> set (file_name task tenant). safe_char c"
    using safe_name_chars by (auto simp: file_name_def safe_char_def)
  moreover have "\<not> safe_char (CHR ''/'')" by (simp add: safe_char_def)
  ultimately show ?thesis using safe_name_hd [of tenant] by (auto simp: file_name_def)
qed

section \<open>Round trip and crashes\<close>

lemma tmp_not_file: "tmp_name (file_name task tenant) \<noteq> file_name task' tenant'"
proof
  assume "tmp_name (file_name task tenant) = file_name task' tenant'"
  then have "last (tmp_name (file_name task tenant)) = last (file_name task' tenant')" by simp
  then show False by (simp add: tmp_name_def file_name_def)
qed

definition loaded_of :: "py_float \<Rightarrow> checkpoint \<Rightarrow> loaded" where
  "loaded_of now cp =
     \<lparr>l_task = JStr (task_id cp), l_tenant = JStr (tenant_id cp), l_session = JStr (session_id cp), l_attempt = JInt (attempt cp),
      l_steps = JList (map JStr (completed_steps cp)), l_results = JDict (map (\<lambda>(k, v). (k, JStr v)) (step_results cp)),
      l_tokens = JInt (token_budget_used cp), l_context = JDict (map (\<lambda>(k, v). (k, JStr (safe_str v))) (ctx cp)),
      l_timestamp = JFloat now\<rparr>"

text \<open>
  Saving is atomic and loading gives back what was saved: saving never fails and afterwards the task
  of the tenant loads the same fields (the context as text), every checkpoint with another file name loads
  as before, and if the process dies before the file is moved into place every checkpoint loads as it
  did before the save.
\<close>

theorem checkpoint_save_load:
  "(\<exists>d'. save now cp d = Inr d' \<and> load (task_id cp) (tenant_id cp) d' = Inr (Some (loaded_of now cp)) \<and>
      (\<forall>task tenant. file_name task tenant \<noteq> file_name (task_id cp) (tenant_id cp) \<longrightarrow> load task tenant d' = load task tenant d)) \<and>
   (\<forall>task tenant. load task tenant (write_tmp now cp d) = load task tenant d)"
proof -
  let ?f = "file_name (task_id cp) (tenant_id cp)" and ?c = "Document (checkpoint_json now cp)"
  have tmp: "map_of (write_tmp now cp d) = (map_of d)(tmp_name ?f \<mapsto> ?c)" by (simp add: write_tmp_def)
  let ?d = "dict_set ?f ?c (dict_del (tmp_name ?f) (write_tmp now cp d))"
  have save: "save now cp d = Inr ?d" by (simp add: save_def replace_file_def tmp)
  have m: "map_of ?d = (map_of d)(tmp_name ?f := None, ?f \<mapsto> ?c)" by (simp add: tmp fun_eq_iff)
  have "load (task_id cp) (tenant_id cp) ?d = Inr (Some (loaded_of now cp))"
    unfolding load_def m by (simp add: checkpoint_json_def loaded_of_def dict_get_def)
  moreover have "load task tenant ?d = load task tenant d" if "file_name task tenant \<noteq> ?f" for task tenant
    unfolding load_def m using that tmp_not_file [of "task_id cp" "tenant_id cp" task tenant] by simp
  moreover have "load task tenant (write_tmp now cp d) = load task tenant d" for task tenant
    unfolding load_def tmp using tmp_not_file [of "task_id cp" "tenant_id cp" task tenant] by simp
  ultimately show ?thesis using save by blast
qed

definition sample_checkpoint :: checkpoint where
  "sample_checkpoint = \<lparr>task_id = ''t'', tenant_id = ''a/b'', session_id = [], attempt = 1, completed_steps = [''plan''],
     step_results = [], token_budget_used = 5, ctx = []\<rparr>"

theorem checkpoint_save_load_witness:
  "\<exists>d'. save 0 sample_checkpoint [] = Inr d' \<and> load ''t'' ''a/b'' d' = Inr (Some (loaded_of 0 sample_checkpoint))"
  using checkpoint_save_load [of 0 sample_checkpoint "[]"] by (auto simp: sample_checkpoint_def)

text \<open>
  Different tenants can share a file: the checkpoint of one loads for the other, with the name of the
  tenant that saved it.
\<close>

lemma tenants_share_file: "file_name ''t'' ''a/b'' = file_name ''t'' ''a_b''"
  by (simp add: file_name_def safe_name_def safe_char_def Let_def)

lemma tenants_and_tasks_share_file: "file_name ''c'' ''a__b'' = file_name ''b__c'' ''a''"
  by (simp add: file_name_def safe_name_def safe_char_def strip_set_def Let_def)

text \<open>A document that is not an object makes loading raise.\<close>

lemma load_raises: "map_of d (file_name task tenant) = Some (Document (JList xs)) \<Longrightarrow> load task tenant d = Inl TypeError"
  by (simp add: load_def)

end
