(* ===== verification/Feature_Flags.thy ===== *)
theory Feature_Flags
  imports Prelude
begin

text \<open>
  The feature flags (\<open>config/feature_flags.py\<close>): defaults, overrides per tenant, and the cache in front
  of them. What Redis and PostgreSQL answered is an argument (nothing when they are not configured, do
  not answer or have no value).
\<close>

record flags =
  cache :: "(string, bool) dict"
  overrides :: "(string, (string, bool) dict) dict"
  defaults :: "(string, bool) dict"

definition DEFAULT_FLAGS :: "(string, bool) dict" where
  "DEFAULT_FLAGS = [(''reflexion'', True), (''pairwise_judge'', True), (''advanced_security'', False), (''graph_rag'', False),
     (''multi_modal'', False), (''sandbox_execution'', True), (''cost_tracking'', True), (''audit_logging'', True)]"

definition new_flags :: flags where
  "new_flags = \<lparr>cache = [], overrides = [], defaults = DEFAULT_FLAGS\<rparr>"

text \<open>No tenant is the empty string here, which the code treats alike.\<close>

definition cache_key :: "string \<Rightarrow> string \<Rightarrow> string" where
  "cache_key tenant flag = ''ff:'' @ (if tenant = [] then ''global'' else tenant) @ '':'' @ flag"

definition set_cache :: "string \<Rightarrow> bool \<Rightarrow> flags \<Rightarrow> flags" where
  "set_cache key v s = s\<lparr>cache := dict_set key v (cache s)\<rparr>"

definition is_enabled :: "string option \<Rightarrow> bool option \<Rightarrow> string \<Rightarrow> string \<Rightarrow> flags \<Rightarrow> bool \<times> flags" where
  "is_enabled redis pg flag tenant s =
     (let key = cache_key tenant flag
      in case redis of
           Some cached \<Rightarrow> (lower cached = ''true'', s)
         | None \<Rightarrow>
             (case map_of (cache s) key of
                Some v \<Rightarrow> (v, s)
              | None \<Rightarrow>
                  (case (if tenant = [] then None else map_of (dict_get (overrides s) tenant []) flag) of
                     Some v \<Rightarrow> (v, set_cache key v s)
                   | None \<Rightarrow>
                       (case (if tenant = [] then None else pg) of
                          Some v \<Rightarrow> (v, set_cache key v s)
                        | None \<Rightarrow>
                            (let v = dict_get (defaults s) flag False in (v, set_cache key v s))))))"

definition set_flag :: "string \<Rightarrow> string \<Rightarrow> bool \<Rightarrow> flags \<Rightarrow> flags" where
  "set_flag tenant flag v s =
     s\<lparr>overrides := dict_set tenant (dict_set flag v (dict_get (overrides s) tenant [])) (overrides s),
       cache := dict_del (''ff:'' @ tenant @ '':'' @ flag) (cache s)\<rparr>"

text \<open>The flags of all names; with a database the rows of the tenant (\<open>Some rows\<close>)
  override the defaults; \<open>redis\<close> and \<open>pg\<close> answer for one flag.\<close>

fun all_enabled ::
  "(string \<Rightarrow> string option) \<Rightarrow> (string \<Rightarrow> bool option) \<Rightarrow> string list \<Rightarrow> string \<Rightarrow> flags \<Rightarrow> (string, bool) dict \<times> flags" where
  "all_enabled redis pg [] tenant s = ([], s)"
| "all_enabled redis pg (f # fs) tenant s =
     (let (v, s1) = is_enabled (redis (cache_key tenant f)) (pg f) f tenant s;
          (d, s2) = all_enabled redis pg fs tenant s1
      in ((f, v) # d, s2))"

definition get_all_flags ::
  "(string \<Rightarrow> string option) \<Rightarrow> (string \<Rightarrow> bool option) \<Rightarrow> (string, bool) dict option \<Rightarrow> string \<Rightarrow> flags \<Rightarrow> (string, bool) dict \<times> flags"
where
  "get_all_flags redis pg rows tenant s =
     (case (if tenant = [] then None else rows) of
        Some rs \<Rightarrow> (foldl (\<lambda>d (k, v). dict_set k v d) (defaults s) rs, s)
      | None \<Rightarrow> all_enabled redis pg (map fst (defaults s)) tenant s)"

section \<open>The cache follows the overrides\<close>

datatype flag_op = Ask string string | SetFlag string string bool

fun flag_step :: "flag_op \<Rightarrow> flags \<Rightarrow> flags" where
  "flag_step (Ask flag tenant) s = snd (is_enabled None None flag tenant s)"
| "flag_step (SetFlag tenant flag v) s = set_flag tenant flag v s"

definition flag_run :: "flag_op list \<Rightarrow> flags" where
  "flag_run calls = foldl (\<lambda>s c. flag_step c s) new_flags calls"

text \<open>The value a flag should have: the last one set for the tenant, else the default.\<close>

fun last_set :: "string \<Rightarrow> string \<Rightarrow> flag_op \<Rightarrow> bool option" where
  "last_set tenant flag (SetFlag t f v) = (if t = tenant \<and> f = flag then Some v else None)"
| "last_set tenant flag _ = None"

definition intended :: "flag_op list \<Rightarrow> string \<Rightarrow> string \<Rightarrow> bool" where
  "intended calls tenant flag =
     (case (if tenant = [] then [] else rev (List.map_filter (last_set tenant flag) calls)) of
        [] \<Rightarrow> dict_get DEFAULT_FLAGS flag False
      | v # _ \<Rightarrow> v)"

text \<open>A name of a tenant that cannot be confused with another key of the cache.\<close>

definition plain_tenant :: "string \<Rightarrow> bool" where
  "plain_tenant t \<longleftrightarrow> CHR '':'' \<notin> set t \<and> t \<noteq> ''global''"

fun plain_op :: "flag_op \<Rightarrow> bool" where
  "plain_op (Ask flag t) = plain_tenant t"
| "plain_op (SetFlag t flag v) = (plain_tenant t \<and> t \<noteq> [])"

lemma first_colon:
  "CHR '':'' \<notin> set a \<Longrightarrow> CHR '':'' \<notin> set b \<Longrightarrow> a @ CHR '':'' # x = b @ CHR '':'' # y \<Longrightarrow> a = b \<and> x = y"
  by (auto simp: append_eq_append_conv2 Cons_eq_append_conv append_eq_Cons_conv)

lemma cache_key_inj:
  assumes "plain_tenant t" and "plain_tenant t'" and "cache_key t f = cache_key t' f'"
  shows "t = t' \<and> f = f'"
proof -
  define g where "g = (\<lambda>t :: string. if t = [] then ''global'' else t)"
  have "CHR '':'' \<notin> set (g t)" "CHR '':'' \<notin> set (g t')" using assms(1,2) by (auto simp: g_def plain_tenant_def)
  moreover have "g t @ CHR '':'' # f = g t' @ CHR '':'' # f'" using assms(3) by (simp add: cache_key_def g_def)
  ultimately have "g t = g t' \<and> f = f'" by (rule first_colon)
  moreover have "g t = g t' \<Longrightarrow> t = t'" using assms(1,2) by (auto simp: g_def plain_tenant_def split: if_splits)
  ultimately show ?thesis by blast
qed

definition override_of :: "flags \<Rightarrow> string \<Rightarrow> string \<Rightarrow> bool option" where
  "override_of s t f = map_of (dict_get (overrides s) t []) f"

definition flags_inv :: "flag_op list \<Rightarrow> flags \<Rightarrow> bool" where
  "flags_inv calls s \<longleftrightarrow>
     defaults s = DEFAULT_FLAGS \<and>
     (\<forall>t f. t \<noteq> [] \<longrightarrow> intended calls t f = (case override_of s t f of Some v \<Rightarrow> v | None \<Rightarrow> dict_get DEFAULT_FLAGS f False)) \<and>
     (\<forall>t f v. plain_tenant t \<longrightarrow> map_of (cache s) (cache_key t f) = Some v \<longrightarrow> v = intended calls t f)"

lemma map_filter_snoc: "List.map_filter f (xs @ [x]) = List.map_filter f xs @ (case f x of None \<Rightarrow> [] | Some y \<Rightarrow> [y])"
  by (simp add: map_filter_def split: option.split)

lemma intended_ask: "intended (calls @ [Ask f t]) = intended calls"
  by (intro ext) (simp add: intended_def map_filter_snoc)

lemma intended_set:
  "intended (calls @ [SetFlag t f v]) t' f' = (if t' \<noteq> [] \<and> t = t' \<and> f = f' then v else intended calls t' f')"
  by (simp add: intended_def map_filter_snoc)

lemma is_enabled_answer:
  assumes "flags_inv calls s" and "plain_tenant t"
  shows "fst (is_enabled None None f t s) = intended calls t f \<and> flags_inv calls (snd (is_enabled None None f t s))"
proof -
  let ?k = "cache_key t f"
  have defs: "defaults s = DEFAULT_FLAGS" using assms(1) by (simp add: flags_inv_def)
  show ?thesis
  proof (cases "map_of (cache s) ?k")
    case (Some v)
    then show ?thesis using assms by (simp add: is_enabled_def flags_inv_def)
  next
    case None
    have ans: "is_enabled None None f t s = (intended calls t f, set_cache ?k (intended calls t f) s)"
    proof (cases "t = []")
      case True
      then show ?thesis using None defs by (simp add: is_enabled_def intended_def Let_def)
    next
      case False
      then have "intended calls t f = (case override_of s t f of Some v \<Rightarrow> v | None \<Rightarrow> dict_get DEFAULT_FLAGS f False)"
        using assms(1) by (simp add: flags_inv_def)
      then show ?thesis using None False defs by (simp add: is_enabled_def override_of_def Let_def split: option.split)
    qed
    have cache: "map_of (cache (set_cache ?k b s)) = (map_of (cache s))(?k \<mapsto> b)" for b by (simp add: set_cache_def)
    have "v = intended calls t' f'" if "plain_tenant t'" "map_of (cache (set_cache ?k (intended calls t f) s)) (cache_key t' f') = Some v" for t' f' v
    proof (cases "cache_key t' f' = ?k")
      case True
      then have "t' = t \<and> f' = f" using cache_key_inj that(1) assms(2) by blast
      then show ?thesis using that(2) by (simp add: cache)
    next
      case False
      then show ?thesis using that assms(1) by (simp add: cache flags_inv_def)
    qed
    then have "flags_inv calls (set_cache ?k (intended calls t f) s)"
      using assms(1) by (simp add: flags_inv_def override_of_def) (simp add: set_cache_def)
    then show ?thesis by (simp add: ans)
  qed
qed

lemma set_flag_inv:
  assumes "flags_inv calls s" and "plain_tenant t" and "t \<noteq> []"
  shows "flags_inv (calls @ [SetFlag t f v]) (set_flag t f v s)"
proof -
  have ov: "override_of (set_flag t f v s) t' f' = (if t' = t \<and> f' = f then Some v else override_of s t' f')" for t' f'
    by (auto simp: override_of_def set_flag_def dict_get_def)
  have key: "''ff:'' @ t @ '':'' @ f = cache_key t f" using assms(3) by (simp add: cache_key_def)
  have "w = intended (calls @ [SetFlag t f v]) t' f'"
    if "plain_tenant t'" "map_of (cache (set_flag t f v s)) (cache_key t' f') = Some w" for t' f' w
  proof -
    have ne: "cache_key t' f' \<noteq> cache_key t f" and "map_of (cache s) (cache_key t' f') = Some w"
      using that(2) unfolding set_flag_def key by (auto split: if_splits)
    then have "w = intended calls t' f'" using assms(1) that(1) by (simp add: flags_inv_def)
    moreover have "\<not> (t = t' \<and> f = f')" using ne by auto
    ultimately show ?thesis by (auto simp: intended_set)
  qed
  moreover have "defaults (set_flag t f v s) = DEFAULT_FLAGS" using assms(1) by (simp add: flags_inv_def set_flag_def)
  moreover have "intended (calls @ [SetFlag t f v]) t' f' =
      (case override_of (set_flag t f v s) t' f' of Some v \<Rightarrow> v | None \<Rightarrow> dict_get DEFAULT_FLAGS f' False)" if "t' \<noteq> []" for t' f'
    using assms(1) that by (auto simp: intended_set ov flags_inv_def)
  ultimately show ?thesis unfolding flags_inv_def by blast
qed

lemma flag_run_inv: "\<forall>c \<in> set calls. plain_op c \<Longrightarrow> flags_inv calls (flag_run calls)"
proof (induction calls rule: rev_induct)
  case Nil
  then show ?case by (simp add: flag_run_def flags_inv_def new_flags_def override_of_def dict_get_def intended_def map_filter_def)
next
  case (snoc c calls)
  then have inv: "flags_inv calls (flag_run calls)" by simp
  have run: "flag_run (calls @ [c]) = flag_step c (flag_run calls)" by (simp add: flag_run_def)
  show ?case
  proof (cases c)
    case (Ask f t)
    have same: "flags_inv (calls @ [Ask f t]) s = flags_inv calls s" for s by (simp add: flags_inv_def intended_ask)
    have "plain_tenant t" using snoc.prems Ask by simp
    moreover have "flag_run (calls @ [Ask f t]) = snd (is_enabled None None f t (flag_run calls))" using run Ask by simp
    ultimately show ?thesis using is_enabled_answer [OF inv, of t f] by (simp add: Ask same)
  next
    case (SetFlag t f v)
    moreover have "flag_run (calls @ [SetFlag t f v]) = set_flag t f v (flag_run calls)" using run SetFlag by simp
    ultimately show ?thesis using snoc.prems set_flag_inv [OF inv, of t f v] by simp
  qed
qed

text \<open>
  A flag has the value that was set last for the tenant, or its default, in spite of the cache:
  after any questions and changes, by tenants whose names have no colon and are not \<open>global\<close>, and
  without a database or Redis.
\<close>

theorem flags_answer_last_set:
  assumes "\<forall>c \<in> set calls. plain_op c" and "plain_tenant t"
  shows "fst (is_enabled None None f t (flag_run calls)) = intended calls t f"
  using is_enabled_answer [OF flag_run_inv [OF assms(1)] assms(2)] by blast

theorem flags_answer_last_set_witness:
  "fst (is_enabled None None ''graph_rag'' ''a'' (flag_run [Ask ''graph_rag'' ''a'', SetFlag ''a'' ''graph_rag'' True, Ask ''graph_rag'' []]))"
  using flags_answer_last_set [of "[Ask ''graph_rag'' ''a'', SetFlag ''a'' ''graph_rag'' True, Ask ''graph_rag'' []]" "''a''" "''graph_rag''"]
  by (simp add: plain_tenant_def intended_def map_filter_simps)

text \<open>
  A tenant that is called \<open>global\<close> changes the answer for everybody: its override and the default
  share a key of the cache.
\<close>

lemma tenant_named_global:
  "fst (is_enabled None None ''graph_rag'' [] (flag_run [SetFlag ''global'' ''graph_rag'' True, Ask ''graph_rag'' ''global'']))
   \<and> intended [SetFlag ''global'' ''graph_rag'' True, Ask ''graph_rag'' ''global''] [] ''graph_rag'' = False"
  by (simp add: flag_run_def new_flags_def is_enabled_def set_flag_def set_cache_def cache_key_def dict_get_def intended_def DEFAULT_FLAGS_def Let_def)

end
