(* ===== verification/Audit_Logger.thy ===== *)
theory Audit_Logger
  imports Merkle_Proof "HOL-Library.Multiset"
begin

text \<open>
  The audit logger (\<open>audit/logger.py\<close>): every event is serialised, hashed into a commitment that becomes a
  leaf of the incremental Merkle tree of \<open>Merkle_Proof\<close>, linked to the root before it, and stored in
  PostgreSQL or, when there is none or it fails, as a line of a file per tenant, from which the leaves are
  loaded again after a restart.

  The serialiser \<open>ser\<close>, the hash \<open>sha\<close> and \<open>str\<close> of a value that is not a string (\<open>str_of\<close>) are arguments,
  and so is what PostgreSQL answers. A line of a file is a JSON document or something that is skipped (a
  blank line or text that is not JSON); reading files never fails, appending to one may. The times of an
  event are the strings \<open>isoformat\<close> gives. The query by time is not modelled.
\<close>

section \<open>Events and files\<close>

record audit_event =
  timestamp :: string
  event_type :: string
  tenant_id :: string
  user_id :: string
  task_id :: "string option"
  details :: "(string, json) dict"
  ip_address :: "string option"
  user_agent :: "string option"
  commitment :: "string option"
  chain_link :: "string option"
  event_index :: "nat option"

fun sub_runs :: "bool \<Rightarrow> string \<Rightarrow> string" where
  "sub_runs in_run [] = []"
| "sub_runs in_run (c # cs) =
     (if safe_char c then c # sub_runs False cs
      else if in_run then sub_runs True cs
      else CHR ''_'' # sub_runs True cs)"

definition tenant_filename :: "string \<Rightarrow> string result" where
  "tenant_filename tenant =
     (let name = sub_runs False tenant
      in if name = [] \<or> name = ''.'' \<or> name = ''..'' \<or> 100 < length name then Inl ValueError else Inr name)"

datatype line = Rec json | Skipped

type_synonym files = "(string, line list) dict"

definition opt_json :: "string option \<Rightarrow> json" where
  "opt_json s = (case s of None \<Rightarrow> JNull | Some x \<Rightarrow> JStr x)"

text \<open>What is hashed of an event, and the record that is written for it.\<close>

definition build_leaf_data :: "audit_event \<Rightarrow> json" where
  "build_leaf_data e =
     JDict [(''timestamp'', JStr (timestamp e)), (''event_type'', JStr (event_type e)), (''tenant_id'', JStr (tenant_id e)),
       (''user_id'', JStr (user_id e)), (''task_id'', opt_json (task_id e)), (''details'', JDict (details e))]"

definition record_json :: "audit_event \<Rightarrow> (string, json) dict" where
  "record_json e =
     [(''timestamp'', JStr (timestamp e)), (''event_type'', JStr (event_type e)), (''tenant_id'', JStr (tenant_id e)),
      (''user_id'', JStr (user_id e)), (''task_id'', opt_json (task_id e)), (''details'', JDict (details e)),
      (''ip_address'', opt_json (ip_address e)), (''user_agent'', opt_json (user_agent e)),
      (''commitment'', opt_json (commitment e)), (''chain_link'', opt_json (chain_link e)),
      (''block_index'', case event_index e of None \<Rightarrow> JNull | Some i \<Rightarrow> JInt (int i))]"

text \<open>The same leaf data from a row of the database or a record of a file; missing columns raise.\<close>

definition build_leaf_row :: "(json \<Rightarrow> string) \<Rightarrow> (string, json) dict \<Rightarrow> json result" where
  "build_leaf_row str_of row =
     bind_res (dict_index row ''timestamp'') (\<lambda>ts.
     bind_res (dict_index row ''event_type'') (\<lambda>ty.
     bind_res (dict_index row ''tenant_id'') (\<lambda>te.
     bind_res (dict_index row ''user_id'') (\<lambda>us.
     Inr (JDict [(''timestamp'', JStr (case ts of JStr s \<Rightarrow> s | _ \<Rightarrow> str_of ts)), (''event_type'', ty), (''tenant_id'', te),
       (''user_id'', us), (''task_id'', dict_get row ''task_id'' JNull),
       (''details'', let d = dict_get row ''details'' JNull in if json_truthy d then d else JDict [])])))))"

section \<open>Loading\<close>

definition parse_lines :: "line list \<Rightarrow> json list" where
  "parse_lines ls = List.map_filter (\<lambda>l. case l of Rec j \<Rightarrow> Some j | Skipped \<Rightarrow> None) ls"

text \<open>A bool is an int in Python.\<close>

definition int_of_json :: "json \<Rightarrow> int option" where
  "int_of_json j = (case j of JInt i \<Rightarrow> Some i | JBool b \<Rightarrow> Some (of_bool b) | _ \<Rightarrow> None)"

definition index_key :: "(string, json) dict \<Rightarrow> int" where
  "index_key r = (case int_of_json (dict_get r ''block_index'' JNull) of None \<Rightarrow> 0 | Some i \<Rightarrow> i)"

definition record_leaf :: "(string, json) dict \<Rightarrow> bytes option" where
  "record_leaf r =
     (case map_of r ''commitment'' of
        Some (JStr s) \<Rightarrow> if s = [] then None else (case fromhex s of Inl _ \<Rightarrow> None | Inr b \<Rightarrow> Some b)
      | _ \<Rightarrow> None)"

definition leaves_of :: "(string, json) dict list \<Rightarrow> bytes list" where
  "leaves_of rs = List.map_filter record_leaf (sort_key index_key rs)"

definition load_leaf_hashes_fallback :: "files \<Rightarrow> bytes list result" where
  "load_leaf_hashes_fallback fs =
     map_res leaves_of (map_result as_dict (concat (map (\<lambda>(_, ls). parse_lines ls) fs)))"

text \<open>The commitments the database returned in order of their index, or \<open>None\<close> when the query failed.\<close>

definition load_leaf_hashes :: "string list option \<Rightarrow> bytes list" where
  "load_leaf_hashes rows =
     (case rows of
        None \<Rightarrow> []
      | Some cs \<Rightarrow> (case map_result fromhex cs of Inl _ \<Rightarrow> [] | Inr hs \<Rightarrow> hs))"

section \<open>The logger\<close>

record logger =
  pg :: bool
  initialized :: bool
  file_fallback :: bool
  leaf_hashes :: "bytes list"
  tree :: "merkle_tree option"

definition new_logger :: "bool \<Rightarrow> logger" where
  "new_logger has_pg = \<lparr>pg = has_pg, initialized = False, file_fallback = False, leaf_hashes = [], tree = None\<rparr>"

definition sync_tree :: "(bytes \<Rightarrow> bytes) \<Rightarrow> logger \<Rightarrow> logger result" where
  "sync_tree sha l =
     (case tree l of
        Some t \<Rightarrow>
          if length (reals t) \<noteq> length (leaf_hashes l)
          then map_res (\<lambda>t. l\<lparr>tree := Some t\<rparr>) (init_tree sha (leaf_hashes l)) else Inr l
      | None \<Rightarrow> map_res (\<lambda>t. l\<lparr>tree := Some t\<rparr>) (init_tree sha (leaf_hashes l)))"

text \<open>
  \<open>initialize\<close> with what PostgreSQL did: whether the table could be created, and the rows. Without it, or when
  something raises there, the files are read. The logger counts as initialised before that, so an error there
  leaves it initialised and empty.
\<close>

definition initialize_files :: "(bytes \<Rightarrow> bytes) \<Rightarrow> files \<Rightarrow> logger \<Rightarrow> unit result \<times> logger" where
  "initialize_files sha fs l =
     (let l1 = l\<lparr>file_fallback := True, initialized := True, leaf_hashes := []\<rparr>
      in case load_leaf_hashes_fallback fs of
           Inl e \<Rightarrow> (Inl e, l1)
         | Inr hs \<Rightarrow>
             (case sync_tree sha (l1\<lparr>leaf_hashes := hs\<rparr>) of
                Inl e \<Rightarrow> (Inl e, l1\<lparr>leaf_hashes := hs\<rparr>)
              | Inr l' \<Rightarrow> (Inr (), l')))"

definition initialize ::
  "(bytes \<Rightarrow> bytes) \<Rightarrow> bool \<Rightarrow> string list option \<Rightarrow> files \<Rightarrow> logger \<Rightarrow> unit result \<times> logger" where
  "initialize sha created rows fs l =
     (if pg l \<and> \<not> file_fallback l \<and> created then
        (case sync_tree sha (l\<lparr>leaf_hashes := load_leaf_hashes rows\<rparr>) of
           Inl _ \<Rightarrow> initialize_files sha fs l
         | Inr l' \<Rightarrow> (Inr (), l'\<lparr>initialized := True\<rparr>))
      else initialize_files sha fs l)"

definition get_prev_root :: "(bytes \<Rightarrow> bytes) \<Rightarrow> logger \<Rightarrow> (bytes \<times> logger) result" where
  "get_prev_root sha l =
     bind_res (sync_tree sha l) (\<lambda>l'.
       case tree l' of None \<Rightarrow> Inr (zero_bytes32, l') | Some t \<Rightarrow> map_res (\<lambda>r. (r, l')) (root t))"

text \<open>Appending to the file of a tenant, which may fail; a tenant without a file name raises.\<close>

definition append_line :: "string \<Rightarrow> line \<Rightarrow> files \<Rightarrow> files" where
  "append_line name x fs = dict_set name (dict_get fs name [] @ [x]) fs"

definition write_fallback :: "bool \<Rightarrow> audit_event \<Rightarrow> files \<Rightarrow> files result" where
  "write_fallback write_ok e fs =
     map_res (\<lambda>name. if write_ok then append_line name (Rec (JDict (record_json e))) fs else fs) (tenant_filename (tenant_id e))"

text \<open>\<open>log\<close> up to the store: the event with its hashes, and the logger with its new leaf.\<close>

definition commit_event :: "(bytes \<Rightarrow> bytes) \<Rightarrow> (json \<Rightarrow> bytes) \<Rightarrow> audit_event \<Rightarrow> logger \<Rightarrow> (audit_event \<times> logger) result" where
  "commit_event sha ser e l =
     (let payload = ser (build_leaf_data e);
          idx = length (leaf_hashes l);
          c = safe_hash sha payload
      in bind_res (get_prev_root sha l) (\<lambda>(prev, l1).
           let link = safe_hash sha (prev @ payload @ ascii (show_nat idx));
               e' = e\<lparr>commitment := Some (to_hex c), chain_link := Some (to_hex link), event_index := Some idx\<rparr>;
               l2 = l1\<lparr>leaf_hashes := leaf_hashes l1 @ [c]\<rparr>
           in map_res (Pair e')
                (case tree l2 of
                   Some t \<Rightarrow> map_res (\<lambda>t'. l2\<lparr>tree := Some t'\<rparr>) (append_leaf sha t c)
                 | None \<Rightarrow> sync_tree sha l2)))"

definition log_event ::
  "(bytes \<Rightarrow> bytes) \<Rightarrow> (json \<Rightarrow> bytes) \<Rightarrow> bool \<Rightarrow> string list option \<Rightarrow> bool \<Rightarrow> bool \<Rightarrow> audit_event \<Rightarrow> files \<times> logger \<Rightarrow>
     audit_event result \<times> files \<times> logger" where
  "log_event sha ser created rows pg_ok write_ok e s =
     (let (fs, l) = s;
          (r, l1) = (if initialized l then (Inr (), l) else initialize sha created rows fs l)
      in case r of
           Inl x \<Rightarrow> (Inl x, fs, l1)
         | Inr _ \<Rightarrow>
             (case commit_event sha ser e l1 of
                Inl x \<Rightarrow> (Inl x, fs, l1)
              | Inr (e', l2) \<Rightarrow>
                  if \<not> file_fallback l2 \<and> pg l2 \<and> pg_ok then (Inr e', fs, l2)
                  else
                    (let l3 = (if \<not> file_fallback l2 \<and> pg l2 then l2\<lparr>file_fallback := True\<rparr> else l2)
                     in case write_fallback write_ok e' fs of
                          Inl x \<Rightarrow> (Inl x, fs, l3)
                        | Inr fs' \<Rightarrow> (Inr e', fs', l3))))"

section \<open>Proofs\<close>

text \<open>
  A proof over the leaves of one file, for an index as it stands in the record: an integer is passed on,
  a float selects nothing but the only leaf, and anything else cannot be compared.
\<close>

definition json_index_proof ::
  "(bytes \<Rightarrow> bytes) \<Rightarrow> (json \<Rightarrow> bytes) \<Rightarrow> json \<Rightarrow> json \<Rightarrow> bytes list \<Rightarrow> inclusion_proof result" where
  "json_index_proof sha ser leaf idx hs =
     (case int_of_json idx of
        Some i \<Rightarrow> map_res (\<lambda>p. p\<lparr>block_index := idx\<rparr>) (generate_inclusion_proof sha ser leaf i hs)
      | None \<Rightarrow>
          if hs = [] then Inl ValueError
          else (case idx of
                  JFloat x \<Rightarrow>
                    if x < 0 \<or> rat_of_nat (length hs) \<le> x then Inl IndexError
                    else if length hs = 1
                    then map_res (\<lambda>p. p\<lparr>block_index := idx\<rparr>) (generate_inclusion_proof sha ser leaf 0 hs)
                    else Inl TypeError
                | _ \<Rightarrow> Inl TypeError))"

text \<open>The answer: the dictionary of the proof with the leaf data.\<close>

definition response :: "inclusion_proof \<Rightarrow> json \<Rightarrow> json" where
  "response p leaf = (case to_dict p of JDict d \<Rightarrow> JDict (dict_set ''leaf_data'' leaf d) | j \<Rightarrow> j)"

definition matching :: "string \<Rightarrow> string \<Rightarrow> (string, json) dict \<Rightarrow> bool" where
  "matching tenant task r = (map_of r ''task_id'' = Some (JStr task) \<and> map_of r ''tenant_id'' = Some (JStr tenant))"

definition get_proof_fallback ::
  "(bytes \<Rightarrow> bytes) \<Rightarrow> (json \<Rightarrow> bytes) \<Rightarrow> (json \<Rightarrow> string) \<Rightarrow> string \<Rightarrow> string \<Rightarrow> files \<Rightarrow> logger \<Rightarrow> (json \<times> logger) result" where
  "get_proof_fallback sha ser str_of tenant task fs l =
     bind_res (tenant_filename tenant) (\<lambda>name.
       case map_of fs name of
         None \<Rightarrow> Inl ValueError
       | Some ls \<Rightarrow>
           bind_res (map_result as_dict (parse_lines ls)) (\<lambda>rs.
             case filter (matching tenant task) rs of
               [] \<Rightarrow> Inl ValueError
             | m # ms \<Rightarrow>
                 (let target = last (m # ms);
                      idx = dict_get target ''block_index'' (JInt 0)
                  in bind_res (build_leaf_row str_of target) (\<lambda>leaf.
                       case int_of_json idx of
                         Some i \<Rightarrow>
                           if leaf_hashes l \<noteq> [] \<and> 0 \<le> i \<and> i < int (length (leaf_hashes l)) then
                             bind_res (sync_tree sha l) (\<lambda>l'.
                               map_res (\<lambda>p. (response (p\<lparr>block_index := idx\<rparr>) leaf, l'))
                                 (case tree l' of
                                    Some t \<Rightarrow>
                                      if length (reals t) = length (leaf_hashes l')
                                      then tree_inclusion_proof sha ser t leaf i
                                      else generate_inclusion_proof sha ser leaf i (leaf_hashes l')
                                  | None \<Rightarrow> generate_inclusion_proof sha ser leaf i (leaf_hashes l')))
                           else map_res (\<lambda>p. (response p leaf, l)) (json_index_proof sha ser leaf idx (leaves_of rs))
                       | None \<Rightarrow> map_res (\<lambda>p. (response p leaf, l)) (json_index_proof sha ser leaf idx (leaves_of rs))))))"

text \<open>
  With PostgreSQL the row is found by a query; a \<open>ValueError\<close> is raised on, anything else falls back to
  the files. The index of a row is an integer.
\<close>

definition pg_proof ::
  "(bytes \<Rightarrow> bytes) \<Rightarrow> (json \<Rightarrow> bytes) \<Rightarrow> (json \<Rightarrow> string) \<Rightarrow> ((string, json) dict \<times> int) option result \<Rightarrow> string list option \<Rightarrow> logger \<Rightarrow>
     (json \<times> logger) result" where
  "pg_proof sha ser str_of found rows l =
     bind_res found (\<lambda>row. case row of
       None \<Rightarrow> Inl ValueError
     | Some (r, i) \<Rightarrow>
         bind_res (build_leaf_row str_of r) (\<lambda>leaf.
         bind_res (sync_tree sha (if leaf_hashes l = [] then l\<lparr>leaf_hashes := load_leaf_hashes rows\<rparr> else l)) (\<lambda>l'.
           case tree l' of
             None \<Rightarrow> Inl RuntimeError
           | Some t \<Rightarrow> map_res (\<lambda>p. (response p leaf, l')) (tree_inclusion_proof sha ser t leaf i))))"

definition get_proof_for_task ::
  "(bytes \<Rightarrow> bytes) \<Rightarrow> (json \<Rightarrow> bytes) \<Rightarrow> (json \<Rightarrow> string) \<Rightarrow> ((string, json) dict \<times> int) option result \<Rightarrow> string list option \<Rightarrow>
     string \<Rightarrow> string \<Rightarrow> files \<Rightarrow> logger \<Rightarrow> (json \<times> logger) result" where
  "get_proof_for_task sha ser str_of found rows tenant task fs l =
     (if file_fallback l \<or> \<not> pg l then get_proof_fallback sha ser str_of tenant task fs l
      else (case pg_proof sha ser str_of found rows l of
              Inr x \<Rightarrow> Inr x
            | Inl ValueError \<Rightarrow> Inl ValueError
            | Inl _ \<Rightarrow> get_proof_fallback sha ser str_of tenant task fs l))"

section \<open>Runs without a database\<close>

text \<open>
  The server's life: it starts with a new logger, which it initialises, logs events, and may be started
  again on the same files.
\<close>

datatype audit_op = Log audit_event | Restart

definition boot :: "(bytes \<Rightarrow> bytes) \<Rightarrow> files \<Rightarrow> files \<times> logger" where
  "boot sha fs = (fs, snd (initialize sha False None fs (new_logger False)))"

fun audit_step :: "(bytes \<Rightarrow> bytes) \<Rightarrow> (json \<Rightarrow> bytes) \<Rightarrow> audit_op \<Rightarrow> files \<times> logger \<Rightarrow> files \<times> logger" where
  "audit_step sha ser (Log e) s = snd (log_event sha ser False None False True e s)"
| "audit_step sha ser Restart s = boot sha (fst s)"

definition audit_run :: "(bytes \<Rightarrow> bytes) \<Rightarrow> (json \<Rightarrow> bytes) \<Rightarrow> audit_op list \<Rightarrow> files \<times> logger" where
  "audit_run sha ser calls = foldl (\<lambda>s c. audit_step sha ser c s) (boot sha []) calls"

fun op_event :: "audit_op \<Rightarrow> audit_event option" where
  "op_event (Log e) = Some e"
| "op_event Restart = None"

definition logged :: "audit_op list \<Rightarrow> audit_event list" where
  "logged calls = List.map_filter op_event calls"

section \<open>The files hold every event\<close>

definition event_leaf :: "(bytes \<Rightarrow> bytes) \<Rightarrow> (json \<Rightarrow> bytes) \<Rightarrow> audit_event \<Rightarrow> bytes" where
  "event_leaf sha ser e = safe_hash sha (ser (build_leaf_data e))"

definition stored ::
  "(bytes \<Rightarrow> bytes) \<Rightarrow> (json \<Rightarrow> bytes) \<Rightarrow> audit_event list \<Rightarrow> (nat \<Rightarrow> string) \<Rightarrow> nat \<Rightarrow> (string, json) dict" where
  "stored sha ser es links i =
     record_json ((es ! i)\<lparr>commitment := Some (to_hex (event_leaf sha ser (es ! i))), chain_link := Some (links i), event_index := Some i\<rparr>)"

definition in_file :: "audit_event list \<Rightarrow> string \<Rightarrow> nat list" where
  "in_file es name = filter (\<lambda>i. tenant_filename (tenant_id (es ! i)) = Inr name) [0..<length es]"

definition files_inv ::
  "(bytes \<Rightarrow> bytes) \<Rightarrow> (json \<Rightarrow> bytes) \<Rightarrow> audit_event list \<Rightarrow> (nat \<Rightarrow> string) \<Rightarrow> files \<Rightarrow> bool" where
  "files_inv sha ser es links fs \<longleftrightarrow>
     wf_dict fs \<and> (\<forall>e \<in> set es. ok (tenant_filename (tenant_id e))) \<and>
     (\<forall>name. dict_get fs name [] = map (\<lambda>i. Rec (JDict (stored sha ser es links i))) (in_file es name))"

lemma stored_keys:
  "map_of (stored sha ser es links i) ''commitment'' = Some (JStr (to_hex (event_leaf sha ser (es ! i))))"
  "map_of (stored sha ser es links i) ''block_index'' = Some (JInt (int i))"
  "map_of (stored sha ser es links i) ''task_id'' = Some (opt_json (task_id (es ! i)))"
  "map_of (stored sha ser es links i) ''tenant_id'' = Some (JStr (tenant_id (es ! i)))"
  by (simp_all add: stored_def record_json_def opt_json_def)

lemma stored_leaf_row: "build_leaf_row str_of (stored sha ser es links i) = Inr (build_leaf_data (es ! i))"
  by (simp add: stored_def record_json_def build_leaf_row_def dict_index_def dict_get_def build_leaf_data_def Let_def)

lemma stored_index: "index_key (stored sha ser es links i) = int i"
  by (simp add: index_key_def dict_get_def stored_keys int_of_json_def)

lemma to_hex_Nil: "to_hex bs = [] \<longleftrightarrow> bs = []"
  by (cases bs) auto

lemma stored_record_leaf:
  "event_leaf sha ser (es ! i) \<noteq> [] \<Longrightarrow> record_leaf (stored sha ser es links i) = Some (event_leaf sha ser (es ! i))"
  by (simp add: record_leaf_def stored_keys to_hex_Nil)

lemma parse_stored: "map_result as_dict (parse_lines (map (\<lambda>i. Rec (JDict (f i))) is)) = Inr (map f is)"
proof -
  have "parse_lines (map (\<lambda>i. Rec (JDict (f i))) is) = map (\<lambda>i. JDict (f i)) is"
    by (induction "is") (simp_all add: parse_lines_def map_filter_simps)
  moreover have "map_result as_dict (map (\<lambda>i. JDict (f i)) is) = Inr (map f is)"
    by (induction "is") (simp_all add: as_dict_def)
  ultimately show ?thesis by simp
qed

lemma in_file_snoc:
  "in_file (es @ [e]) name = in_file es name @ (if tenant_filename (tenant_id e) = Inr name then [length es] else [])"
  by (auto simp: in_file_def nth_append intro!: filter_cong)

lemma stored_snoc: "i < length es \<Longrightarrow> stored sha ser (es @ [e]) (links(length es := k)) i = stored sha ser es links i"
  by (simp add: stored_def nth_append)

lemma in_file_less: "i \<in> set (in_file es name) \<Longrightarrow> i < length es"
  by (simp add: in_file_def)

lemma files_inv_append:
  assumes inv: "files_inv sha ser es links fs" and name: "tenant_filename (tenant_id e) = Inr name"
  shows "files_inv sha ser (es @ [e]) (links(length es := k))
     (append_line name (Rec (JDict (stored sha ser (es @ [e]) (links(length es := k)) (length es)))) fs)"
proof -
  let ?links = "links(length es := k)"
  have old: "map (\<lambda>i. Rec (JDict (stored sha ser (es @ [e]) ?links i))) (in_file es nm) = dict_get fs nm []" for nm
    using inv by (auto simp: files_inv_def stored_snoc in_file_less intro!: map_cong)
  have "dict_get (append_line name x fs) nm [] = dict_get fs nm [] @ (if nm = name then [x] else [])" for nm x
    by (simp add: append_line_def dict_get_def)
  then have "dict_get (append_line name (Rec (JDict (stored sha ser (es @ [e]) ?links (length es)))) fs) nm []
      = map (\<lambda>i. Rec (JDict (stored sha ser (es @ [e]) ?links i))) (in_file (es @ [e]) nm)" for nm
    using name by (simp add: in_file_snoc old [symmetric])
  moreover have "wf_dict (append_line name x fs)" for x using inv by (simp add: append_line_def files_inv_def)
  ultimately show ?thesis using inv name by (auto simp: files_inv_def)
qed

subsection \<open>Loading gives the leaves in order\<close>

lemma mset_filter_disj:
  "(\<And>x. \<not> (P x \<and> Q x)) \<Longrightarrow> mset (filter P xs) + mset (filter Q xs) = mset (filter (\<lambda>x. P x \<or> Q x) xs)"
  by (induction xs) auto

lemma mset_grouped:
  "distinct names \<Longrightarrow>
   mset (concat (map (\<lambda>nm. map g (filter (\<lambda>i. key i = Inr nm) xs)) names))
     = image_mset g (mset (filter (\<lambda>i. \<exists>nm \<in> set names. key i = Inr nm) xs))"
proof (induction names)
  case (Cons nm names)
  have "mset (filter (\<lambda>i. key i = Inr nm) xs) + mset (filter (\<lambda>i. \<exists>nm \<in> set names. key i = Inr nm) xs)
      = mset (filter (\<lambda>i. key i = Inr nm \<or> (\<exists>nm \<in> set names. key i = Inr nm)) xs)"
    using Cons.prems by (intro mset_filter_disj) auto
  then show ?case using Cons by (simp flip: image_mset_union)
qed simp

lemma map_result_concat:
  "(\<And>x. x \<in> set xss \<Longrightarrow> map_result f (g x) = Inr (h x)) \<Longrightarrow> map_result f (concat (map g xss)) = Inr (concat (map h xss))"
proof (induction xss)
  case (Cons x xss)
  have app: "map_result f (as @ bs) = bind_res (map_result f as) (\<lambda>ys. map_res (\<lambda>zs. ys @ zs) (map_result f bs))" for as bs
    by (induction as) (auto simp: bind_res_def map_res_def split: sum.splits)
  show ?case using Cons by (simp add: app)
qed simp

lemma load_stored:
  assumes inv: "files_inv sha ser es links fs" and ne: "\<And>e. e \<in> set es \<Longrightarrow> event_leaf sha ser e \<noteq> []"
  shows "load_leaf_hashes_fallback fs = Inr (map (event_leaf sha ser) es)"
proof -
  let ?r = "stored sha ser es links" and ?key = "\<lambda>i. tenant_filename (tenant_id (es ! i))" and ?n = "length es"
  have wf: "distinct (map fst fs)" using inv by (simp add: files_inv_def wf_dict_def)
  have in_fs: "ls = map (\<lambda>i. Rec (JDict (?r i))) (in_file es nm)" if "(nm, ls) \<in> set fs" for nm ls
  proof -
    have "map_of fs nm = Some ls" using that wf by simp
    then show ?thesis using inv by (simp add: files_inv_def dict_get_def split: option.splits)
  qed
  define rs where "rs = concat (map (\<lambda>p. map ?r (in_file es (fst p))) fs)"
  have "map_result as_dict (concat (map (\<lambda>(_, ls). parse_lines ls) fs)) = Inr rs"
    unfolding rs_def by (rule map_result_concat) (use in_fs parse_stored in \<open>fastforce simp: case_prod_unfold\<close>)
  moreover have "mset rs = mset (map ?r [0..<?n])"
  proof -
    have cover: "\<exists>nm \<in> set (map fst fs). ?key i = Inr nm" if i: "i < ?n" for i
    proof -
      have "ok (?key i)" using inv i by (simp add: files_inv_def)
      then obtain nm where nm: "?key i = Inr nm" by (cases "?key i") auto
      then have "i \<in> set (in_file es nm)" using i by (simp add: in_file_def)
      then have "dict_get fs nm [] \<noteq> []" using inv by (auto simp: files_inv_def)
      then have "nm \<in> fst ` set fs" by (auto simp: dict_get_def split: option.splits dest: map_of_SomeD intro: rev_image_eqI)
      then show ?thesis using nm by auto
    qed
    have "mset rs = image_mset ?r (mset (filter (\<lambda>i. \<exists>nm \<in> set (map fst fs). ?key i = Inr nm) [0..<?n]))"
      using mset_grouped [OF wf, of ?r ?key "[0..<?n]"] by (simp add: rs_def in_file_def comp_def)
    also have "filter (\<lambda>i. \<exists>nm \<in> set (map fst fs). ?key i = Inr nm) [0..<?n] = [0..<?n]"
      using cover by (intro filter_True) auto
    finally show ?thesis by simp
  qed
  then have "sort_key index_key rs = map ?r [0..<?n]"
  proof (rule sort_key_inj_key_eq)
    have "set rs = ?r ` {..<?n}" using \<open>mset rs = _\<close> by (metis atLeast_upt image_set mset_eq_setD)
    then show "inj_on index_key (set rs)" by (auto simp: inj_on_def stored_index)
    show "sorted (map index_key (map ?r [0..<?n]))" by (simp add: comp_def stored_index sorted_map)
  qed
  moreover have "List.map_filter record_leaf (map ?r [0..<?n]) = map (event_leaf sha ser) es"
  proof -
    have "List.map_filter record_leaf (map ?r is) = map (\<lambda>i. event_leaf sha ser (es ! i)) is" if "\<forall>i \<in> set is. i < ?n" for "is"
      using that by (induction "is") (simp_all add: map_filter_simps stored_record_leaf ne)
    then have "List.map_filter record_leaf (map ?r [0..<?n]) = map (\<lambda>i. event_leaf sha ser (es ! i)) [0..<?n]" by simp
    also have "\<dots> = map (event_leaf sha ser) es" by (intro nth_equalityI) simp_all
    finally show ?thesis .
  qed
  ultimately show ?thesis by (simp add: load_leaf_hashes_fallback_def leaves_of_def)
qed

subsection \<open>Every reachable state\<close>

definition audit_inv :: "(bytes \<Rightarrow> bytes) \<Rightarrow> (json \<Rightarrow> bytes) \<Rightarrow> audit_event list \<Rightarrow> files \<times> logger \<Rightarrow> bool" where
  "audit_inv sha ser es s \<longleftrightarrow>
     initialized (snd s) \<and> file_fallback (snd s) \<and> leaf_hashes (snd s) = map (event_leaf sha ser) es \<and>
     (\<exists>t. tree (snd s) = Some t \<and> reals t = leaf_hashes (snd s) \<and> tree_inv sha t) \<and>
     (\<exists>links. files_inv sha ser es links (fst s))"

lemma audit_invE:
  assumes "audit_inv sha ser es (fs, l)"
  obtains t links where "initialized l" "file_fallback l" "leaf_hashes l = map (event_leaf sha ser) es" "tree l = Some t"
    "reals t = leaf_hashes l" "tree_inv sha t" "files_inv sha ser es links fs"
  using assms by (auto simp: audit_inv_def)

lemma sync_tree_ok: "tree l = Some t \<Longrightarrow> reals t = leaf_hashes l \<Longrightarrow> sync_tree sha l = Inr l"
  by (simp add: sync_tree_def)

lemma boot_inv:
  assumes "files_inv sha ser es links fs" and "\<And>x. sha x \<noteq> []"
  shows "audit_inv sha ser es (boot sha fs)"
proof -
  have "load_leaf_hashes_fallback fs = Inr (map (event_leaf sha ser) es)"
    using assms by (intro load_stored) (auto simp: event_leaf_def safe_hash_def)
  moreover obtain t where "init_tree sha (map (event_leaf sha ser) es) = Inr t" "reals t = map (event_leaf sha ser) es" "tree_inv sha t"
    using init_tree_ok by blast
  ultimately show ?thesis using assms(1)
    by (auto simp: boot_def initialize_def initialize_files_def new_logger_def sync_tree_def audit_inv_def)
qed

lemma commit_event_ok:
  assumes "tree l = Some t" and "reals t = leaf_hashes l" and "tree_inv sha t"
  obtains link t' where "commit_event sha ser e l =
      Inr (e\<lparr>commitment := Some (to_hex (event_leaf sha ser e)), chain_link := Some link, event_index := Some (length (leaf_hashes l))\<rparr>,
           l\<lparr>leaf_hashes := leaf_hashes l @ [event_leaf sha ser e], tree := Some t'\<rparr>)"
    "reals t' = leaf_hashes l @ [event_leaf sha ser e]" "tree_inv sha t'"
proof -
  obtain t' where t': "append_leaf sha t (event_leaf sha ser e) = Inr t'" "reals t' = reals t @ [event_leaf sha ser e]" "tree_inv sha t'"
    using append_leaf_ok [OF assms(3)] by blast
  have "root t = compute_root sha (leaf_hashes l)" using tree_root_eq [OF assms(3)] assms(2) by simp
  then obtain r where r: "root t = Inr r" by (cases "leaf_hashes l = []") (simp_all add: compute_root_eq, simp add: compute_root_def)
  show ?thesis
    by (rule that [OF _ _ t'(3)])
      (use t' r assms in \<open>simp_all add: commit_event_def get_prev_root_def sync_tree_ok event_leaf_def Let_def\<close>)
qed

lemma log_event_inv:
  assumes inv: "audit_inv sha ser es (fs, l)" and name: "tenant_filename (tenant_id e) = Inr name"
  shows "audit_inv sha ser (es @ [e]) (snd (log_event sha ser created rows pg_ok True e (fs, l)))"
proof -
  obtain t links where l: "initialized l" "file_fallback l" "leaf_hashes l = map (event_leaf sha ser) es" "tree l = Some t"
    "reals t = leaf_hashes l" "tree_inv sha t" and fi: "files_inv sha ser es links fs"
    using inv by (rule audit_invE)
  obtain link t' where c: "commit_event sha ser e l =
      Inr (e\<lparr>commitment := Some (to_hex (event_leaf sha ser e)), chain_link := Some link, event_index := Some (length (leaf_hashes l))\<rparr>,
           l\<lparr>leaf_hashes := leaf_hashes l @ [event_leaf sha ser e], tree := Some t'\<rparr>)"
    "reals t' = leaf_hashes l @ [event_leaf sha ser e]" "tree_inv sha t'"
    using l(4-6) by (rule commit_event_ok)
  let ?links = "links(length es := link)"
  have st: "stored sha ser (es @ [e]) ?links (length es) =
      record_json (e\<lparr>commitment := Some (to_hex (event_leaf sha ser e)), chain_link := Some link, event_index := Some (length es)\<rparr>)"
    by (simp add: stored_def)
  have "files_inv sha ser (es @ [e]) ?links (fst (snd (log_event sha ser created rows pg_ok True e (fs, l))))"
    using files_inv_append [OF fi name, of link] l c name by (simp add: log_event_def write_fallback_def st)
  then show ?thesis using l c name
    by (auto simp: audit_inv_def log_event_def write_fallback_def)
qed

lemma logged_snoc: "logged (calls @ [c]) = logged calls @ (case op_event c of None \<Rightarrow> [] | Some e \<Rightarrow> [e])"
  by (simp add: logged_def List.map_filter_def split: option.split)

lemma audit_run_inv:
  assumes "\<And>x. sha x \<noteq> []" and "\<forall>e \<in> set (logged calls). ok (tenant_filename (tenant_id e))"
  shows "audit_inv sha ser (logged calls) (audit_run sha ser calls)"
  using assms(2)
proof (induction calls rule: rev_induct)
  case Nil
  have "files_inv sha ser [] links []" for links by (simp add: files_inv_def dict_get_def in_file_def)
  then show ?case using boot_inv assms(1) by (simp add: audit_run_def logged_def map_filter_simps)
next
  case (snoc c calls)
  obtain fs l where s: "audit_run sha ser calls = (fs, l)" by (cases "audit_run sha ser calls")
  have inv: "audit_inv sha ser (logged calls) (fs, l)" using snoc s by (simp add: logged_snoc)
  have run: "audit_run sha ser (calls @ [c]) = audit_step sha ser c (fs, l)" using s by (simp add: audit_run_def)
  show ?case
  proof (cases c)
    case (Log e)
    then obtain name where "tenant_filename (tenant_id e) = Inr name"
      using snoc.prems by (cases "tenant_filename (tenant_id e)") (auto simp: logged_snoc)
    then show ?thesis using log_event_inv [OF inv] run Log by (simp add: logged_snoc)
  next
    case Restart
    from inv obtain links where "files_inv sha ser (logged calls) links fs" by (rule audit_invE)
    then show ?thesis using boot_inv assms(1) run Restart by (simp add: logged_snoc)
  qed
qed

lemma leaf_proof_ok:
  assumes "i < length hs" and "safe_hash sha (ser d) = hs ! i"
  shows "\<exists>p. generate_inclusion_proof sha ser d (int i) hs = Inr p \<and> compute_root sha hs = Inr (root_hash p) \<and>
     verify_inclusion_proof sha ser p d"
proof -
  have "hs \<noteq> []" using assms(1) by auto
  then show ?thesis using assms static.complete [of i hs sha]
    by (simp add: generate_inclusion_proof_eq compute_root_eq verify_inclusion_proof_def)
qed

section \<open>Properties\<close>

lemma matching_stored:
  "matching tenant task (stored sha ser es links i) \<longleftrightarrow> tenant_id (es ! i) = tenant \<and> task_id (es ! i) = Some task"
  by (auto simp: matching_def stored_keys opt_json_def split: option.splits)

lemma event_proof:
  assumes "reals t = map (event_leaf sha ser) es" and "tree_inv sha t" and "i < length es"
  shows "\<exists>p. tree_inclusion_proof sha ser t (build_leaf_data (es ! i)) (int i) = Inr p \<and> compute_root sha (map (event_leaf sha ser) es) = Inr (root_hash p) \<and>
    verify_inclusion_proof sha ser p (build_leaf_data (es ! i)) \<and> block_index p = JInt (int i)"
proof -
  obtain p where p: "generate_inclusion_proof sha ser (build_leaf_data (es ! i)) (int i) (map (event_leaf sha ser) es) = Inr p"
    "compute_root sha (map (event_leaf sha ser) es) = Inr (root_hash p)" "verify_inclusion_proof sha ser p (build_leaf_data (es ! i))"
    using leaf_proof_ok [of i "map (event_leaf sha ser) es" sha ser "build_leaf_data (es ! i)"] assms(3) by (auto simp: event_leaf_def)
  moreover have "block_index p = JInt (int i)" using p(1) assms(3) by (auto simp: generate_inclusion_proof_eq)
  moreover have "tree_inclusion_proof sha ser t (build_leaf_data (es ! i)) (int i) = Inr p"
    using tree_inclusion_proof_eq [OF assms(2), of ser "build_leaf_data (es ! i)" "int i"] assms(1,3) p(1) by (cases es) auto
  ultimately show ?thesis by blast
qed



definition demo_event :: audit_event where
  "demo_event = \<lparr>timestamp = ''2026-01-01'', event_type = ''task'', tenant_id = ''a'', user_id = ''u'', task_id = Some ''t'', details = [],
     ip_address = None, user_agent = None, commitment = None, chain_link = None, event_index = None\<rparr>"


section \<open>Tenants and failures\<close>

text \<open>Whatever is in the files, an answer is about an event of the tenant and the task that were asked for.\<close>

lemma audit_proof_of_tenant:
  assumes "get_proof_fallback sha ser str_of tenant task fs l = Inr (r, l')"
  shows "\<exists>p items. r = response p (JDict items) \<and> map_of items ''tenant_id'' = Some (JStr tenant) \<and> map_of items ''task_id'' = Some (JStr task)"
proof -
  obtain name ls rs where "tenant_filename tenant = Inr name" "map_of fs name = Some ls" and rs: "map_result as_dict (parse_lines ls) = Inr rs"
    using assms by (auto simp: get_proof_fallback_def bind_res_eq_Inr split: option.splits)
  note steps = this
  obtain m ms where ms: "filter (matching tenant task) rs = m # ms"
    using assms steps by (cases "filter (matching tenant task) rs") (auto simp: get_proof_fallback_def)
  have ne: "filter (matching tenant task) rs \<noteq> []" by (simp add: ms)
  obtain leaf where leaf: "build_leaf_row str_of (last (m # ms)) = Inr leaf"
    using assms steps ms by (auto simp: get_proof_fallback_def bind_res_eq_Inr Let_def)
  then have "\<exists>p. r = response p leaf"
    using assms steps ms by (auto simp: get_proof_fallback_def bind_res_eq_Inr map_res_eq_Inr Let_def split: option.splits if_splits)
  moreover have "matching tenant task (last (m # ms))" using last_in_set [OF ne] unfolding ms [symmetric] set_filter by blast
  then have "\<exists>items. leaf = JDict items \<and> map_of items ''tenant_id'' = Some (JStr tenant) \<and> map_of items ''task_id'' = Some (JStr task)"
    using leaf by (auto simp: matching_def build_leaf_row_def bind_res_eq_Inr dict_index_def dict_get_def split: option.splits)
  ultimately show ?thesis by blast
qed

text \<open>
  The columns that are read back from PostgreSQL do not include the task, so the leaf data of such a row
  has none, whatever event was logged; for an event with a task it is not what was hashed.
\<close>

lemma pg_row_has_no_task:
  assumes "map_of row ''task_id'' = None" and "build_leaf_row str_of row = Inr leaf" and "task_id e \<noteq> None"
  shows "leaf \<noteq> build_leaf_data e"
  using assms by (auto simp: build_leaf_row_def bind_res_eq_Inr dict_get_def build_leaf_data_def opt_json_def)

text \<open>A tenant without a file name: the event is refused, but its leaf stays in the tree of the running logger.\<close>

lemma refused_event_stays:
  assumes "audit_inv sha ser es (fs, l)" and "tenant_filename (tenant_id e) = Inl x"
  shows "\<exists>l'. log_event sha ser created rows pg_ok write_ok e (fs, l) = (Inl x, fs, l') \<and>
     leaf_hashes l' = map (event_leaf sha ser) (es @ [e])"
proof -
  from assms(1) obtain t links where l: "initialized l" "file_fallback l" "leaf_hashes l = map (event_leaf sha ser) es" "tree l = Some t"
    "reals t = leaf_hashes l" "tree_inv sha t" "files_inv sha ser es links fs"
    by (rule audit_invE)
  obtain link t' where "commit_event sha ser e l =
      Inr (e\<lparr>commitment := Some (to_hex (event_leaf sha ser e)), chain_link := Some link, event_index := Some (length (leaf_hashes l))\<rparr>,
           l\<lparr>leaf_hashes := leaf_hashes l @ [event_leaf sha ser e], tree := Some t'\<rparr>)"
    using l(4-6) by (rule commit_event_ok)
  then show ?thesis using l assms(2) by (simp add: log_event_def write_fallback_def)
qed

text \<open>A query that fails when the logger starts is taken for an empty log: the indices start at 0 again.\<close>

lemma failed_query_restarts_chain:
  "\<exists>l'. initialize sha True None fs (new_logger True) = (Inr (), l') \<and> leaf_hashes l' = [] \<and> \<not> file_fallback l'"
  using init_tree_ok [of sha "[]"] by (auto simp: initialize_def initialize_files_def new_logger_def load_leaf_hashes_def sync_tree_def)

text \<open>
  A line that is JSON but not an object makes the start raise, with the logger left initialised and
  without leaves.
\<close>

lemma damaged_line_drops_leaves:
  "initialize sha False None [(name, [Rec (JList xs)])] (new_logger False)
     = (Inl AttributeError, (new_logger False)\<lparr>initialized := True, file_fallback := True\<rparr>)"
  by (simp add: initialize_def initialize_files_def new_logger_def load_leaf_hashes_fallback_def parse_lines_def map_filter_simps as_dict_def)

text \<open>
  Without initialisation, as in the command line tool, a proof is made over the file of the tenant only:
  the second event of the log is the only one of its tenant, and there is no proof for it.
\<close>

lemma uninitialised_proof_fails:
  "get_proof_for_task (Cons 1) (\<lambda>_. []) (\<lambda>_. []) (Inr None) None ''b'' ''t''
     (fst (audit_run (Cons 1) (\<lambda>_. []) [Log demo_event, Log (demo_event\<lparr>tenant_id := ''b''\<rparr>)])) (new_logger False) = Inl IndexError"
proof -
  let ?e = "demo_event\<lparr>tenant_id := ''b''\<rparr>" and ?calls = "[Log demo_event, Log (demo_event\<lparr>tenant_id := ''b''\<rparr>)]"
  have es: "logged ?calls = [demo_event, ?e]" by (simp add: logged_def map_filter_simps)
  have nm: "tenant_filename ''b'' = Inr ''b''" "tenant_filename ''a'' = Inr ''a''" by (simp_all add: tenant_filename_def safe_char_def)
  have okn: "\<forall>e \<in> set [demo_event, ?e]. ok (tenant_filename (tenant_id e))" using nm by (simp add: demo_event_def)
  have inv: "audit_inv (Cons 1) (\<lambda>_. []) [demo_event, ?e] (audit_run (Cons 1) (\<lambda>_. []) ?calls)"
    using audit_run_inv [of "Cons 1" ?calls "\<lambda>_. []"] okn by (simp add: es)
  obtain fs l where s: "audit_run (Cons 1) (\<lambda>_. []) ?calls = (fs, l)" by (cases "audit_run (Cons 1) (\<lambda>_. []) ?calls")
  from inv obtain links where fi: "files_inv (Cons 1) (\<lambda>_. []) [demo_event, ?e] links fs" unfolding s by (rule audit_invE)
  have one: "in_file [demo_event, ?e] ''b'' = [Suc 0]" using nm by (simp add: in_file_def demo_event_def)
  let ?r = "stored (Cons 1) (\<lambda>_. []) [demo_event, ?e] links (Suc 0)"
  have d: "dict_get fs ''b'' [] = [Rec (JDict ?r)]" using fi one by (simp add: files_inv_def)
  then have f: "map_of fs ''b'' = Some [Rec (JDict ?r)]" by (auto simp: dict_get_def split: option.splits)
  have lv: "leaves_of [?r] = [event_leaf (Cons 1) (\<lambda>_. []) ?e]"
    using stored_record_leaf [of "Cons 1" "\<lambda>_. []" "[demo_event, ?e]" "Suc 0" links]
    by (simp add: leaves_of_def map_filter_simps event_leaf_def safe_hash_def)
  have pl: "parse_lines [Rec (JDict ?r)] = [JDict ?r]" by (simp add: parse_lines_def map_filter_simps)
  have mt: "matching ''b'' ''t'' ?r" by (simp add: matching_def stored_keys opt_json_def demo_event_def)
  show ?thesis unfolding s
    by (simp add: get_proof_for_task_def get_proof_fallback_def new_logger_def nm f pl as_dict_def mt stored_leaf_row dict_get_def
        stored_keys int_of_json_def lv json_index_proof_def generate_inclusion_proof_def Let_def)
qed

end
