(* ===== verification/Judge.thy ===== *)
theory Judge
  imports Llm_Provider
begin

text \<open>
  The model as a judge (\<open>judge.py\<close>): what is made of the text that a completion returns. The completion
  itself (see \<open>Llm_Provider\<close>) is an argument: its text, or the exception it raised. \<open>json.loads\<close> is the
  argument \<open>loads\<close> and \<open>float\<close> of a string is \<open>float_of\<close>, which may give an infinity or a NaN. The texts of
  the prompts are not modelled.
\<close>

section \<open>Scores\<close>

datatype float_value = Finite py_float | Infinite bool | NaN

definition to_float :: "(string \<Rightarrow> float_value option) \<Rightarrow> json \<Rightarrow> float_value option" where
  "to_float float_of v =
     (case v of
        JBool b \<Rightarrow> Some (Finite (of_bool b))
      | JInt i \<Rightarrow> Some (Finite (of_int i))
      | JFloat x \<Rightarrow> Some (Finite x)
      | JStr s \<Rightarrow> float_of s
      | _ \<Rightarrow> None)"

definition score :: "(string \<Rightarrow> float_value option) \<Rightarrow> json \<Rightarrow> py_float" where
  "score float_of v =
     (case to_float float_of v of
        None \<Rightarrow> 0
      | Some NaN \<Rightarrow> 0
      | Some (Infinite pos) \<Rightarrow> if pos then 1 else 0
      | Some (Finite x) \<Rightarrow> max 0 (min 1 x))"

record judge_score =
  architecture :: py_float
  code_quality :: py_float
  security :: py_float
  performance :: py_float
  maintainability :: py_float
  completeness :: py_float
  overall :: py_float

definition no_score :: judge_score where
  "no_score = \<lparr>architecture = 0, code_quality = 0, security = 0, performance = 0, maintainability = 0, completeness = 0, overall = 0\<rparr>"

definition parse_scores :: "(string \<Rightarrow> float_value option) \<Rightarrow> (string, json) dict \<Rightarrow> judge_score" where
  "parse_scores float_of d =
     (let s = (\<lambda>k. score float_of (dict_get d k JNull))
      in \<lparr>architecture = s ''architecture'', code_quality = s ''code_quality'', security = s ''security'',
          performance = s ''performance'', maintainability = s ''maintainability'', completeness = s ''completeness'',
          overall = s ''overall''\<rparr>)"

section \<open>Verdicts\<close>

record verdict =
  passed :: bool
  scores :: judge_score
  strengths :: json
  weaknesses :: json
  improvements :: json
  production_readiness :: json
  summary :: json
  raw_feedback :: string

definition failed_verdict :: "string \<Rightarrow> string \<Rightarrow> verdict" where
  "failed_verdict msg raw =
     \<lparr>passed = False, scores = no_score, strengths = JList [], weaknesses = JList [], improvements = JList [],
      production_readiness = JStr ''needs-work'', summary = JStr msg, raw_feedback = raw\<rparr>"

definition json_prefix :: "nat \<Rightarrow> json \<Rightarrow> json result" where
  "json_prefix n j = (case j of JStr s \<Rightarrow> Inr (JStr (take n s)) | JList xs \<Rightarrow> Inr (JList (take n xs)) | _ \<Rightarrow> Inl TypeError)"

text \<open>The verdict, and what is written to the metadata of the solution, which happens before the summary is read.\<close>

definition parse_verdict ::
  "(string \<Rightarrow> json option) \<Rightarrow> (string \<Rightarrow> float_value option) \<Rightarrow> string \<Rightarrow> verdict result \<times> (judge_score \<times> json) option" where
  "parse_verdict loads float_of raw =
     (case loads (strip_fences raw) of
        None \<Rightarrow> (Inr (failed_verdict ''Raw (unparseable) judge feedback'' (take 500 raw)), None)
      | Some j \<Rightarrow>
          (case bind_res (as_dict j) (\<lambda>d. map_res (Pair d) (as_dict (dict_get d ''scores'' (JDict [])))) of
             Inl e \<Rightarrow> (Inl e, None)
           | Inr (d, sd) \<Rightarrow>
               (let s = parse_scores float_of sd; weak = dict_get d ''weaknesses'' (JList [])
                in (map_res (\<lambda>sm.
                      \<lparr>passed = (1 / 2 \<le> overall s), scores = s, strengths = dict_get d ''strengths'' (JList []), weaknesses = weak,
                       improvements = dict_get d ''improvements'' (JList []),
                       production_readiness = dict_get d ''production_readiness'' (JStr ''needs-work''), summary = sm,
                       raw_feedback = take 500 raw\<rparr>)
                      (json_prefix 500 (dict_get d ''summary'' (JStr []))),
                    Some (s, weak)))))"

text \<open>Any exception, of the completion or of the parsing, gives a verdict that is not passed.\<close>

definition evaluate_solution ::
  "(string \<Rightarrow> json option) \<Rightarrow> (string \<Rightarrow> float_value option) \<Rightarrow> (py_error \<Rightarrow> string) \<Rightarrow> string result \<Rightarrow> verdict \<times> (judge_score \<times> json) option"
where
  "evaluate_solution loads float_of msg completion =
     (case completion of
        Inl e \<Rightarrow> (failed_verdict (''Judge evaluation skipped: '' @ msg e) [], None)
      | Inr raw \<Rightarrow>
          (case parse_verdict loads float_of raw of
             (Inl e, meta) \<Rightarrow> (failed_verdict (''Judge evaluation skipped: '' @ msg e) [], meta)
           | (Inr v, meta) \<Rightarrow> (v, meta)))"

section \<open>Comparing two solutions\<close>

record pairwise =
  winner :: json
  winner_index :: nat
  rationale :: json
  scores_a :: judge_score
  scores_b :: judge_score

definition parse_pairwise ::
  "(string \<Rightarrow> json option) \<Rightarrow> (string \<Rightarrow> float_value option) \<Rightarrow> string \<Rightarrow> pairwise result" where
  "parse_pairwise loads float_of raw =
     (case loads (strip_fences raw) of
        None \<Rightarrow> Inr \<lparr>winner = JStr ''A'', winner_index = 0, rationale = JStr (take 300 raw), scores_a = no_score, scores_b = no_score\<rparr>
      | Some j \<Rightarrow>
          bind_res (as_dict j) (\<lambda>d.
          bind_res (as_dict (dict_get d ''scores_a'' (JDict []))) (\<lambda>a.
          map_res (\<lambda>b.
            let w = dict_get d ''winner'' (JStr ''A'')
            in \<lparr>winner = w, winner_index = (if w = JStr ''A'' then 0 else 1), rationale = dict_get d ''rationale'' (JStr []),
                scores_a = parse_scores float_of a, scores_b = parse_scores float_of b\<rparr>)
            (as_dict (dict_get d ''scores_b'' (JDict []))))))"

definition evaluate_pairwise ::
  "(string \<Rightarrow> json option) \<Rightarrow> (string \<Rightarrow> float_value option) \<Rightarrow> (py_error \<Rightarrow> string) \<Rightarrow> string result \<Rightarrow> pairwise" where
  "evaluate_pairwise loads float_of msg completion =
     (case bind_res completion (parse_pairwise loads float_of) of
        Inr r \<Rightarrow> r
      | Inl e \<Rightarrow> \<lparr>winner = JStr [], winner_index = 0, rationale = JStr (''Pairwise judge error: '' @ msg e),
                  scores_a = no_score, scores_b = no_score\<rparr>)"

section \<open>Properties\<close>

definition unit_score :: "judge_score \<Rightarrow> bool" where
  "unit_score s \<longleftrightarrow> (\<forall>x \<in> {architecture s, code_quality s, security s, performance s, maintainability s, completeness s, overall s}.
     0 \<le> x \<and> x \<le> 1)"

lemma score_bounds: "0 \<le> score float_of v \<and> score float_of v \<le> 1"
  by (simp add: score_def split: option.split float_value.split)

lemma unit_parse_scores: "unit_score (parse_scores float_of d)"
  using score_bounds by (simp add: unit_score_def parse_scores_def Let_def)

lemma unit_no_score: "unit_score no_score"
  by (simp add: unit_score_def no_score_def)

text \<open>
  (C26) Whatever the model answers, also when it raises or answers text that is not JSON or JSON of another
  shape, the judge returns a verdict whose scores lie between 0 and 1 and which passes exactly when the
  overall score is at least one half; a verdict that could not be read from the answer has score 0.
\<close>

theorem verdict_well_formed:
  fixes loads float_of msg completion
  defines "v \<equiv> fst (evaluate_solution loads float_of msg completion)"
  shows "unit_score (scores v) \<and> (passed v \<longleftrightarrow> 1 / 2 \<le> overall (scores v)) \<and>
    (overall (scores v) \<noteq> 0 \<longrightarrow> (\<exists>raw d sd. completion = Inr raw \<and> loads (strip_fences raw) = Some (JDict d) \<and>
        map_of d ''scores'' = Some (JDict sd) \<and> overall (scores v) = score float_of (dict_get sd ''overall'' JNull)))"
proof (cases "\<exists>raw d sd. completion = Inr raw \<and> loads (strip_fences raw) = Some (JDict d) \<and>
        dict_get d ''scores'' (JDict []) = JDict sd \<and> ok (json_prefix 500 (dict_get d ''summary'' (JStr [])))")
  case True
  then obtain raw d sd sm where c: "completion = Inr raw" "loads (strip_fences raw) = Some (JDict d)"
      "dict_get d ''scores'' (JDict []) = JDict sd" "json_prefix 500 (dict_get d ''summary'' (JStr [])) = Inr sm"
    by (auto simp: ok_iff)
  have v: "scores v = parse_scores float_of sd" "passed v \<longleftrightarrow> 1 / 2 \<le> overall (scores v)"
    using c by (simp_all add: v_def evaluate_solution_def parse_verdict_def as_dict_def Let_def)
  have "sd = [] \<or> map_of d ''scores'' = Some (JDict sd)" using c(3) by (auto simp: dict_get_def split: option.splits)
  moreover have "overall (scores v) = score float_of (dict_get sd ''overall'' JNull)" by (simp add: v parse_scores_def Let_def)
  moreover have "score float_of (dict_get [] ''overall'' JNull) = 0" by (simp add: score_def to_float_def dict_get_def)
  ultimately show ?thesis using v c unit_parse_scores by auto
next
  case False
  have "scores v = no_score \<and> \<not> passed v"
  proof (cases completion)
    case (Inr raw)
    show ?thesis
    proof (cases "loads (strip_fences raw)")
      case (Some j)
      show ?thesis
      proof (cases "bind_res (as_dict j) (\<lambda>d. map_res (Pair d) (as_dict (dict_get d ''scores'' (JDict []))))")
        case (Inr x)
        then obtain d sd where d: "j = JDict d" "dict_get d ''scores'' (JDict []) = JDict sd" "x = (d, sd)"
          by (auto simp: bind_res_eq_Inr map_res_eq_Inr as_dict_def split: json.splits)
        then have "\<not> ok (json_prefix 500 (dict_get d ''summary'' (JStr [])))" using False \<open>completion = Inr raw\<close> Some by auto
        then obtain e where "json_prefix 500 (dict_get d ''summary'' (JStr [])) = Inl e" by (auto simp: not_ok_iff)
        then show ?thesis using \<open>completion = Inr raw\<close> Some Inr d
          by (simp add: v_def evaluate_solution_def parse_verdict_def failed_verdict_def Let_def)
      qed (use Inr Some in \<open>simp add: v_def evaluate_solution_def parse_verdict_def failed_verdict_def\<close>)
    qed (use Inr in \<open>simp add: v_def evaluate_solution_def parse_verdict_def failed_verdict_def\<close>)
  qed (simp add: v_def evaluate_solution_def failed_verdict_def)
  then show ?thesis using unit_no_score by (simp add: no_score_def)
qed

theorem verdict_well_formed_witness:
  "overall (scores (fst (evaluate_solution (\<lambda>_. Some (JDict [(''scores'', JDict [(''overall'', JInt 3)])])) (\<lambda>_. None) (\<lambda>_. []) (Inr ''x'')))) = 1
   \<and> passed (fst (evaluate_solution (\<lambda>_. Some (JDict [(''scores'', JDict [(''overall'', JInt 3)])])) (\<lambda>_. None) (\<lambda>_. []) (Inr ''x'')))"
  using verdict_well_formed [of "\<lambda>_. Some (JDict [(''scores'', JDict [(''overall'', JInt 3)])])" "\<lambda>_. None" "\<lambda>_. []" "Inr ''x''"]
  by (simp add: evaluate_solution_def parse_verdict_def as_dict_def dict_get_def parse_scores_def score_def to_float_def json_prefix_def Let_def)

text \<open>
  Every winner that is not exactly \<open>A\<close> is taken for the second solution, also an answer that names none.
\<close>

lemma unclear_winner_is_second:
  assumes "loads (strip_fences raw) = Some (JDict [(''winner'', w)])" and "w \<noteq> JStr ''A''"
  shows "map_res winner_index (parse_pairwise loads float_of raw) = Inr 1"
  using assms by (simp add: parse_pairwise_def as_dict_def dict_get_def Let_def)

end
