(* ===== verification/Merge_Gate.thy ===== *)
theory Merge_Gate
  imports Judge Ontology_Graph
begin

text \<open>
  The merge gate (\<open>experiments/gate.py\<close>): the changed files are checked against the axioms of the ontology,
  their formal specifications are verified (\<open>verifiers/lean.py\<close>), the sandbox validates them and the judge
  of theory \<open>Judge\<close> scores them; anything that fails is listed and blocks the merge.

  What Git, the Lean compiler, the sandbox and the judge answer are arguments: a value, or the text of the
  exception they raised. The identifiers that occur in a Python file (\<open>ast.walk\<close>) are the argument \<open>idents\<close>.
  The pairs of the \<open>forbids\<close> axioms are a set in the code, whose order is not specified; here they come
  in the order of the relations.
\<close>

section \<open>Changed files\<close>

record gfile =
  path :: string
  language :: string
  content :: string

definition gate_file :: "string \<Rightarrow> string \<Rightarrow> gfile" where
  "gate_file p c = \<lparr>path = p, language = (if suffix ''.py'' p then ''python'' else ''text''), content = c\<rparr>"

text \<open>Explicit files, or the lines Git printed; a file that cannot be read (\<open>None\<close>) is not gated.\<close>

datatype change_set = Explicit "(string \<times> string) list" | FromGit "string list" "string \<Rightarrow> string option"

definition changed_file_paths :: "string list \<Rightarrow> string list" where
  "changed_file_paths stdout_lines = filter (\<lambda>l. strip l \<noteq> []) stdout_lines"

definition raw_changed_files :: "change_set \<Rightarrow> gfile list" where
  "raw_changed_files cs =
     (case cs of
        Explicit fs \<Rightarrow> map (\<lambda>(p, c). gate_file p c) fs
      | FromGit lines read \<Rightarrow> List.map_filter (\<lambda>p. map_option (gate_file p) (read p)) (changed_file_paths lines))"

definition has_suffix :: "string list \<Rightarrow> gfile \<Rightarrow> bool" where
  "has_suffix sfx f = list_ex (\<lambda>s. suffix s (path f)) sfx"

section \<open>Axioms of the ontology\<close>

text \<open>\<open>requires\<close> is a dictionary filled with \<open>setdefault\<close>: it keeps the first object of a subject.\<close>

definition requires_of :: "relation list \<Rightarrow> (string, string) dict" where
  "requires_of rs =
     foldl (\<lambda>d r. if predicate r = ''requires'' \<and> \<not> dict_has d (subject r) then dict_set (subject r) (obj r) d else d) [] rs"

definition forbids_of :: "relation list \<Rightarrow> (string \<times> string) list" where
  "forbids_of rs = remdups (map (\<lambda>r. (subject r, obj r)) (filter (\<lambda>r. predicate r = ''forbids'') rs))"

definition file_violations :: "(string \<Rightarrow> string list) \<Rightarrow> (string, string) dict \<Rightarrow> (string \<times> string) list \<Rightarrow> gfile \<Rightarrow> string list" where
  "file_violations idents req forb f =
     (if \<not> suffix ''.py'' (path f) then []
      else
        (let ids = idents (content f)
         in map (\<lambda>(s, ob). ''ontology:'' @ path f @ '':'' @ s @ '' requires '' @ ob) (filter (\<lambda>(s, ob). s \<in> set ids \<and> ob \<notin> set ids) req) @
            map (\<lambda>(s, ob). ''ontology:'' @ path f @ '':'' @ s @ '' forbids '' @ ob) (filter (\<lambda>(s, ob). s \<in> set ids \<and> ob \<in> set ids) forb)))"

definition ontology_violations :: "(string \<Rightarrow> string list) \<Rightarrow> gfile list \<Rightarrow> graph \<Rightarrow> string list" where
  "ontology_violations idents fs g =
     (let req = requires_of (g_relations g); forb = forbids_of (g_relations g)
      in if req = [] \<and> forb = [] then [] else concat (map (file_violations idents req forb) fs))"

section \<open>Formal specifications\<close>

text \<open>\<open>Path(s).name\<close>: the last component that is neither empty nor a dot.\<close>

fun split_slash :: "string \<Rightarrow> string list" where
  "split_slash [] = [[]]"
| "split_slash (c # cs) =
     (if c = CHR ''/'' then [] # split_slash cs
      else (case split_slash cs of [] \<Rightarrow> [[c]] | p # ps \<Rightarrow> (c # p) # ps))"

definition path_name :: "string \<Rightarrow> string" where
  "path_name s = (let ps = filter (\<lambda>p. p \<noteq> [] \<and> p \<noteq> ''.'') (split_slash s) in if ps = [] then [] else last ps)"

definition has_spec :: "string list \<Rightarrow> string \<Rightarrow> bool" where
  "has_spec lean_paths p =
     (let stem = take (length p - 3) p
      in list_ex (\<lambda>c. c \<in> set lean_paths) [stem @ ''.lean'', ''specs/'' @ stem @ ''.lean'', ''specs/'' @ path_name stem @ ''.lean''])"

definition missing_formal_specs :: "gfile list \<Rightarrow> string list \<Rightarrow> string list \<Rightarrow> string list" where
  "missing_formal_specs fs lean_paths patterns =
     map path (filter (\<lambda>f. suffix ''.py'' (path f) \<and> list_ex (\<lambda>p. prefix p (path f)) patterns \<and> \<not> has_spec lean_paths (path f)) fs)"

text \<open>
  The Lean verifier: whether the binary is there, and what compiling one module gave (the exit code and
  the output, or an exception).
\<close>

record verifier_result =
  verified :: bool
  files_checked :: nat
  v_output :: string
  v_error :: string

definition verify_lean_source :: "bool \<Rightarrow> (string \<Rightarrow> string + int \<times> string \<times> string) \<Rightarrow> string \<Rightarrow> string \<Rightarrow> verifier_result" where
  "verify_lean_source available run binary source =
     (if \<not> available then \<lparr>verified = False, files_checked = 0, v_output = [], v_error = ''lean_not_installed:'' @ binary\<rparr>
      else (case run source of
              Inl e \<Rightarrow> \<lparr>verified = False, files_checked = 0, v_output = [], v_error = ''lean_run_failed:'' @ e\<rparr>
            | Inr (code, out, err) \<Rightarrow>
                (let output = strip (out @ [CHR 10] @ err)
                 in \<lparr>verified = (code = 0), files_checked = 1, v_output = output,
                     v_error = (if code = 0 then [] else if take 500 output \<noteq> [] then take 500 output
                                else ''lean_exit_'' @ show_int code)\<rparr>)))"

definition verify_files ::
  "bool \<Rightarrow> (string \<Rightarrow> string + int \<times> string \<times> string) \<Rightarrow> string \<Rightarrow> (string \<times> string) list \<Rightarrow> verifier_result" where
  "verify_files available run binary fs =
     (let lean = filter (\<lambda>(p, _). suffix ''.lean'' p) fs;
          rs = map (\<lambda>(p, c). (p, verify_lean_source available run binary c)) lean
      in if lean = [] then \<lparr>verified = True, files_checked = 0, v_output = [], v_error = []\<rparr>
         else \<lparr>verified = list_all (\<lambda>(_, r). verified r) rs, files_checked = length lean,
               v_output = take 2000 (py_join [CHR 10] (filter (\<lambda>s. s \<noteq> []) (map (\<lambda>(_, r). v_output r) rs))),
               v_error = take 500 (py_join ''; '' (map (\<lambda>(p, r). p @ '': '' @ v_error r)
                           (filter (\<lambda>(_, r). \<not> verified r \<and> v_error r \<noteq> []) rs)))\<rparr>)"

section \<open>The gate\<close>

record gate_config =
  judge_threshold :: py_float
  sandbox_enabled :: bool
  include_suffixes :: "string list"
  verifier :: "((string \<times> string) list \<Rightarrow> string + bool \<times> string) option"
  require_spec_patterns :: "string list"
  ontology :: "graph option"

record gate_report =
  gate_passed :: bool
  changed_files :: nat
  judge_score :: py_float
  judge_passed :: bool
  judge_summary :: string
  sandbox_all_valid :: "bool option"
  sandbox_summary :: string
  formal_verified :: "bool option"
  formal_error :: string
  blocked_by :: "string list"
  violations :: "string list"
  gate_note :: string

text \<open>The formal stage: the verdict, its error, and what it blocks.\<close>

definition formal_stage :: "gate_config \<Rightarrow> gfile list \<Rightarrow> gfile list \<Rightarrow> bool option \<times> string \<times> string list" where
  "formal_stage cfg raw fs =
     (case verifier cfg of
        None \<Rightarrow> (None, [], [])
      | Some verify \<Rightarrow>
          (let lean = map (\<lambda>f. (path f, content f)) (filter (\<lambda>f. suffix ''.lean'' (path f)) raw);
               (v, err) = (if lean = [] then (None, [])
                           else (case verify lean of
                                   Inl e \<Rightarrow> (Some False, ''verifier_crashed:'' @ e)
                                 | Inr (b, e) \<Rightarrow> (Some b, e)))
           in (v, err,
               (if v = Some False then [''formal_verification''] else []) @
               (if require_spec_patterns cfg \<noteq> []
                then map (\<lambda>p. ''missing_formal_spec:'' @ p) (missing_formal_specs fs (map fst lean) (require_spec_patterns cfg)) else []))))"

definition sandbox_stage :: "gate_config \<Rightarrow> (gfile list \<Rightarrow> string + bool \<times> string) \<Rightarrow> gfile list \<Rightarrow> bool option \<times> string \<times> string list" where
  "sandbox_stage cfg sandbox fs =
     (if \<not> sandbox_enabled cfg then (None, [], [])
      else (case sandbox fs of
              Inl e \<Rightarrow> (Some False, ''sandbox_error:'' @ e, [''sandbox''])
            | Inr (b, s) \<Rightarrow> (Some b, s, if b then [] else [''sandbox''])))"

definition judge_stage :: "gate_config \<Rightarrow> (gfile list \<Rightarrow> string + py_float \<times> bool \<times> string) \<Rightarrow> gfile list \<Rightarrow> (py_float \<times> bool \<times> string) \<times> string list" where
  "judge_stage cfg judge fs =
     (let (v, errs) = (case judge fs of Inl e \<Rightarrow> ((0, False, []), [''judge_error:'' @ e]) | Inr v \<Rightarrow> (v, []))
      in (v, errs @ (if fst v < judge_threshold cfg
                     then [''judge_score='' @ fmt_fixed 3 (fst v) @ '' < threshold='' @ fmt_fixed 3 (judge_threshold cfg)] else [])))"

definition run_merge_gate ::
  "(string \<Rightarrow> string list) \<Rightarrow> (gfile list \<Rightarrow> string + bool \<times> string) \<Rightarrow> (gfile list \<Rightarrow> string + py_float \<times> bool \<times> string) \<Rightarrow>
     gate_config \<Rightarrow> change_set \<Rightarrow> gate_report" where
  "run_merge_gate idents sandbox judge cfg cs =
     (let raw = raw_changed_files cs;
          fs = filter (has_suffix (include_suffixes cfg)) raw;
          viol = (case ontology cfg of None \<Rightarrow> [] | Some g \<Rightarrow> ontology_violations idents fs g);
          (fv, ferr, fblock) = formal_stage cfg raw fs
      in if fs = [] then
           \<lparr>gate_passed = (viol @ fblock = []), changed_files = 0, judge_score = 0, judge_passed = False, judge_summary = [],
            sandbox_all_valid = None, sandbox_summary = [], formal_verified = fv, formal_error = ferr,
            blocked_by = viol @ fblock, violations = viol, gate_note = ''no_changed_files''\<rparr>
         else
           (let (sv, ssum, sblock) = sandbox_stage cfg sandbox fs;
                ((score, jp, jsum), jblock) = judge_stage cfg judge fs;
                blocked = viol @ fblock @ sblock @ jblock
            in \<lparr>gate_passed = (blocked = []), changed_files = length fs, judge_score = score, judge_passed = jp, judge_summary = jsum,
                sandbox_all_valid = sv, sandbox_summary = ssum, formal_verified = fv, formal_error = ferr,
                blocked_by = blocked, violations = viol, gate_note = []\<rparr>))"

text \<open>The command line: exit code 0 exactly for a passed gate; a crash of the gate is a blocked report.\<close>

definition gate_exit_code :: "string + gate_report \<Rightarrow> int" where
  "gate_exit_code r = (case r of Inl _ \<Rightarrow> 1 | Inr rep \<Rightarrow> if gate_passed rep then 0 else 1)"

text \<open>The default judge: the verdict of \<open>evaluate_solution\<close>, which does not raise.\<close>

definition default_judge ::
  "(string \<Rightarrow> json option) \<Rightarrow> (string \<Rightarrow> float_value option) \<Rightarrow> (py_error \<Rightarrow> string) \<Rightarrow> (json \<Rightarrow> string) \<Rightarrow> (gfile list \<Rightarrow> string result) \<Rightarrow>
     gfile list \<Rightarrow> string + py_float \<times> bool \<times> string" where
  "default_judge loads float_of msg str_of completion fs =
     (let v = fst (evaluate_solution loads float_of msg (completion fs))
      in Inr (overall (scores v), passed v, case summary v of JStr s \<Rightarrow> s | j \<Rightarrow> str_of j))"

section \<open>When a change passes\<close>

definition axioms_hold :: "(string \<Rightarrow> string list) \<Rightarrow> gate_config \<Rightarrow> gfile list \<Rightarrow> bool" where
  "axioms_hold idents cfg fs \<longleftrightarrow>
     (\<forall>g f. ontology cfg = Some g \<longrightarrow> f \<in> set fs \<longrightarrow> suffix ''.py'' (path f) \<longrightarrow>
        (\<forall>r s. find (\<lambda>r. predicate r = ''requires'' \<and> subject r = s) (g_relations g) = Some r \<longrightarrow>
            s \<in> set (idents (content f)) \<longrightarrow> obj r \<in> set (idents (content f))) \<and>
        (\<forall>r \<in> set (g_relations g). predicate r = ''forbids'' \<longrightarrow>
            \<not> (subject r \<in> set (idents (content f)) \<and> obj r \<in> set (idents (content f)))))"

definition specs_hold :: "gate_config \<Rightarrow> gfile list \<Rightarrow> gfile list \<Rightarrow> bool" where
  "specs_hold cfg raw fs \<longleftrightarrow>
     (\<forall>verify lean. verifier cfg = Some verify \<longrightarrow>
        lean = map (\<lambda>f. (path f, content f)) (filter (\<lambda>f. suffix ''.lean'' (path f)) raw) \<longrightarrow>
        (lean \<noteq> [] \<longrightarrow> (\<exists>e. verify lean = Inr (True, e))) \<and>
        (\<forall>f \<in> set fs. suffix ''.py'' (path f) \<longrightarrow> (\<exists>p \<in> set (require_spec_patterns cfg). prefix p (path f)) \<longrightarrow>
            has_spec (map fst lean) (path f)))"

definition reviewed ::
  "gate_config \<Rightarrow> (gfile list \<Rightarrow> string + bool \<times> string) \<Rightarrow> (gfile list \<Rightarrow> string + py_float \<times> bool \<times> string) \<Rightarrow> gfile list \<Rightarrow> bool" where
  "reviewed cfg sandbox judge fs \<longleftrightarrow>
     (sandbox_enabled cfg \<longrightarrow> (\<exists>s. sandbox fs = Inr (True, s))) \<and> (\<exists>v. judge fs = Inr v \<and> judge_threshold cfg \<le> fst v)"

lemma map_of_requires:
  "map_of (requires_of rs) s = map_option obj (find (\<lambda>r. predicate r = ''requires'' \<and> subject r = s) rs)"
proof -
  let ?f = "\<lambda>d r. if predicate r = ''requires'' \<and> \<not> dict_has d (subject r) then dict_set (subject r) (obj r) d else d"
  have "map_of (foldl ?f d rs) s
      = (case map_of d s of Some v \<Rightarrow> Some v | None \<Rightarrow> map_option obj (find (\<lambda>r. predicate r = ''requires'' \<and> subject r = s) rs))" for d
    by (induction rs arbitrary: d) (auto simp: dict_has_iff split: option.split)
  then show ?thesis by (simp add: requires_of_def)
qed

lemma wf_requires: "wf_dict (requires_of rs)"
proof -
  have "wf_dict d \<Longrightarrow> wf_dict (foldl (\<lambda>d r. if predicate r = ''requires'' \<and> \<not> dict_has d (subject r)
      then dict_set (subject r) (obj r) d else d) d rs)" for d
    by (induction rs arbitrary: d) auto
  then show ?thesis by (simp add: requires_of_def)
qed

lemma in_requires:
  "(s, ob) \<in> set (requires_of rs) \<longleftrightarrow> (\<exists>r. find (\<lambda>r. predicate r = ''requires'' \<and> subject r = s) rs = Some r \<and> obj r = ob)"
proof -
  have "(s, ob) \<in> set (requires_of rs) \<longleftrightarrow> map_of (requires_of rs) s = Some ob"
    using wf_requires [of rs] by (simp add: wf_dict_def)
  then show ?thesis by (simp add: map_of_requires)
qed

lemma no_violations:
  "file_violations idents (requires_of rs) (forbids_of rs) f = [] \<longleftrightarrow>
     (suffix ''.py'' (path f) \<longrightarrow>
        (\<forall>r s. find (\<lambda>r. predicate r = ''requires'' \<and> subject r = s) rs = Some r \<longrightarrow>
            s \<in> set (idents (content f)) \<longrightarrow> obj r \<in> set (idents (content f))) \<and>
        (\<forall>r \<in> set rs. predicate r = ''forbids'' \<longrightarrow> \<not> (subject r \<in> set (idents (content f)) \<and> obj r \<in> set (idents (content f)))))"
  by (auto simp: file_violations_def filter_empty_conv in_requires forbids_of_def Let_def)

lemma no_axioms:
  assumes "requires_of rs = []" and "forbids_of rs = []"
  shows "find (\<lambda>r. predicate r = ''requires'' \<and> subject r = s) rs = None" and "r \<in> set rs \<Longrightarrow> predicate r \<noteq> ''forbids''"
  using map_of_requires [of rs s] assms by (auto simp: forbids_of_def filter_empty_conv)

lemma violations_iff:
  "(case ontology cfg of None \<Rightarrow> [] | Some g \<Rightarrow> ontology_violations idents fs g) = [] \<longleftrightarrow> axioms_hold idents cfg fs"
proof (cases "ontology cfg")
  case (Some g)
  show ?thesis
  proof (cases "requires_of (g_relations g) = [] \<and> forbids_of (g_relations g) = []")
    case True
    then show ?thesis using no_axioms [of "g_relations g"] Some by (simp add: ontology_violations_def axioms_hold_def)
  next
    case False
    then have "ontology_violations idents fs g = [] \<longleftrightarrow>
        (\<forall>f \<in> set fs. file_violations idents (requires_of (g_relations g)) (forbids_of (g_relations g)) f = [])"
      by (auto simp: ontology_violations_def)
    then show ?thesis unfolding no_violations using Some by (auto simp: axioms_hold_def)
  qed
qed (simp add: axioms_hold_def)

lemma formal_iff: "snd (snd (formal_stage cfg raw fs)) = [] \<longleftrightarrow> specs_hold cfg raw fs"
proof (cases "verifier cfg")
  case (Some verify)
  let ?lean = "map (\<lambda>f. (path f, content f)) (filter (\<lambda>f. suffix ''.lean'' (path f)) raw)"
  have miss: "missing_formal_specs fs (map fst ?lean) (require_spec_patterns cfg) = [] \<longleftrightarrow>
      (\<forall>f \<in> set fs. suffix ''.py'' (path f) \<longrightarrow> (\<exists>p \<in> set (require_spec_patterns cfg). prefix p (path f)) \<longrightarrow>
         has_spec (map fst ?lean) (path f))"
    by (auto simp: missing_formal_specs_def filter_empty_conv list_ex_iff)
  show ?thesis
  proof (cases "?lean = []")
    case True
    then show ?thesis using miss Some by (auto simp: formal_stage_def specs_hold_def Let_def)
  next
    case False
    then show ?thesis using miss Some
      by (auto simp: formal_stage_def specs_hold_def Let_def split: sum.split)
  qed
qed (simp add: formal_stage_def specs_hold_def)

lemma review_iff:
  "snd (snd (sandbox_stage cfg sandbox fs)) = [] \<and> snd (judge_stage cfg judge fs) = [] \<longleftrightarrow> reviewed cfg sandbox judge fs"
  by (auto simp: sandbox_stage_def judge_stage_def reviewed_def Let_def split: sum.splits if_splits)


section \<open>What the gate lets through\<close>

definition default_config :: gate_config where
  "default_config = \<lparr>judge_threshold = 0, sandbox_enabled = True, include_suffixes = [''.py''], verifier = None,
     require_spec_patterns = [], ontology = None\<rparr>"

text \<open>
  The default judge does not raise: a model that cannot be reached counts as a score of 0, which the
  default threshold accepts.
\<close>

lemma unreachable_judge_passes:
  assumes "\<And>fs. completion fs = Inl err" and "\<And>fs. \<exists>s. sandbox fs = Inr (True, s)"
  shows "gate_passed (run_merge_gate idents sandbox (default_judge loads float_of msg str_of completion) default_config cs)"
proof -
  have "reviewed default_config sandbox (default_judge loads float_of msg str_of completion) fs" for fs
    using assms by (simp add: reviewed_def default_config_def default_judge_def evaluate_solution_def failed_verdict_def no_score_def Let_def)
  then have "snd (snd (sandbox_stage default_config sandbox fs)) = []"
    "snd (judge_stage default_config (default_judge loads float_of msg str_of completion) fs) = []" for fs
    using review_iff by blast+
  then show ?thesis by (simp add: run_merge_gate_def Let_def split_beta) (simp add: default_config_def formal_stage_def)
qed

text \<open>Only the first \<open>requires\<close> axiom of a subject is checked.\<close>

lemma second_requires_ignored:
  assumes "predicate r1 = ''requires''" and "predicate r2 = ''requires''" and "subject r1 = subject r2"
  shows "requires_of [r1, r2] = [(subject r1, obj r1)]"
  using assms by (simp add: requires_of_def dict_has_def)

text \<open>Without a verifier the required specifications are not asked for.\<close>

lemma specs_need_verifier: "verifier cfg = None \<Longrightarrow> formal_stage cfg raw fs = (None, [], [])"
  by (simp add: formal_stage_def)

text \<open>A change without any gated file passes without sandbox and judge.\<close>

lemma ungated_change_passes:
  assumes "filter (has_suffix (include_suffixes cfg)) (raw_changed_files cs) = []" and "verifier cfg = None"
  shows "gate_passed (run_merge_gate idents sandbox judge cfg cs)"
  using assms by (simp add: run_merge_gate_def formal_stage_def ontology_violations_def Let_def split: option.split)

text \<open>All of the specifications in a change must compile, whichever order they are compiled in.\<close>

lemma verify_files_iff:
  "verified (verify_files available run binary fs) \<longleftrightarrow>
     (\<forall>(p, c) \<in> set fs. suffix ''.lean'' p \<longrightarrow> available \<and> (\<exists>out err. run c = Inr (0, out, err)))"
proof -
  have one: "verified (verify_lean_source available run binary c) \<longleftrightarrow> available \<and> (\<exists>out err. run c = Inr (0, out, err))" for c
    by (auto simp: verify_lean_source_def Let_def split: sum.splits)
  let ?lean = "filter (\<lambda>(p, _). suffix ''.lean'' p) fs"
  have "verified (verify_files available run binary fs) \<longleftrightarrow> (\<forall>(p, c) \<in> set ?lean. verified (verify_lean_source available run binary c))"
    by (cases "?lean = []") (auto simp: verify_files_def Let_def list_all_iff split_beta)
  then show ?thesis unfolding one by auto
qed

end
