(* ===== verification/Incident_Fixer.thy ===== *)
theory Incident_Fixer
  imports Merge_Gate
begin

text \<open>
  The autonomy loop (\<open>autonomy/fixer.py\<close>, \<open>autonomy/incidents.py\<close>): an incident becomes a task, the engine's
  solution is validated with its tests, its files are put on a branch and a pull request is opened, and
  when it is allowed to, the loop runs the merge gate of theory \<open>Merge_Gate\<close> over the files and approves
  and merges the request.

  What the engine, the sandbox and GitHub answer are arguments: a value, or the text of an exception. The
  calls to GitHub that change something are recorded in order. The normalisation of Sentry payloads,
  the text of the request and the attribution of costs (see \<open>Billing\<close>), which never raises, are not modelled.
\<close>

section \<open>Incidents\<close>

record incident =
  inc_id :: string
  inc_title :: string
  inc_description :: string
  stack_trace :: string
  inc_tags :: "string list"

record fix_task =
  t_title :: string
  t_description :: string
  t_tags :: "string list"

definition incident_to_task :: "incident \<Rightarrow> fix_task" where
  "incident_to_task i =
     (let d0 = (if inc_description i = [] then ''Reproduce and fix the incident: '' @ inc_title i else inc_description i);
          d = (if stack_trace i = [] then d0 else d0 @ [CHR 10, CHR 10] @ ''Stack trace:'' @ [CHR 10] @ take 3000 (stack_trace i));
          tags = foldl (\<lambda>ts t. if t \<in> set ts then ts else ts @ [t]) (inc_tags i) [''bug'', ''incident'']
      in \<lparr>t_title = ''Fix: '' @ inc_title i, t_description = d, t_tags = take 20 tags\<rparr>)"

definition slug_char :: "char \<Rightarrow> bool" where
  "slug_char c = (let n = (of_char c :: nat) in 48 \<le> n \<and> n \<le> 57 \<or> 97 \<le> n \<and> n \<le> 122)"

fun slug_runs :: "bool \<Rightarrow> string \<Rightarrow> string" where
  "slug_runs in_run [] = []"
| "slug_runs in_run (c # cs) =
     (if slug_char c then c # slug_runs False cs
      else if in_run then slug_runs True cs
      else CHR ''-'' # slug_runs True cs)"

definition strip_dash :: "string \<Rightarrow> string" where
  "strip_dash s = rev (dropWhile (\<lambda>c. c = CHR ''-'') (rev (dropWhile (\<lambda>c. c = CHR ''-'') s)))"

definition incident_branch_name :: "incident \<Rightarrow> string" where
  "incident_branch_name i =
     (let slug = take 40 (strip_dash (slug_runs False (lower (inc_title i))))
      in ''noema-fix/'' @ take 8 (inc_id i) @ ''-'' @ (if slug = [] then ''incident'' else slug))"

section \<open>Files of a solution\<close>

record code_block =
  filename :: string
  cb_language :: string
  cb_content :: string
  cb_description :: string

definition block_path :: "code_block \<Rightarrow> string" where
  "block_path b =
     (let name = dropWhile (\<lambda>c. c = CHR ''/'') (strip (filename b))
      in if name \<noteq> [] then name
         else
           (let lang = lower (if cb_language b = [] then ''py'' else cb_language b);
                ext = (if lang = ''python'' \<or> lang = ''py'' then ''py'' else ''txt'')
            in map (\<lambda>c. if c = CHR '' '' then CHR ''_'' else c)
                 (''fix_'' @ (if cb_description b = [] then ''file'' else cb_description b) @ ''_'') @ ''.'' @ ext))"

fun solution_files :: "string list \<Rightarrow> code_block list \<Rightarrow> (string \<times> string) list" where
  "solution_files seen [] = []"
| "solution_files seen (b # bs) =
     (if block_path b \<in> set seen then solution_files seen bs
      else (block_path b, cb_content b) # solution_files (block_path b # seen) bs)"

section \<open>The loop\<close>

datatype status = FixGenerationFailed | ValidationFailed | NoChanges | PrFailed | PrCreated

datatype gh_call = SubmitPR "(string \<times> string) list" string | ApprovePR int | MergePR int

record answers =
  think :: "fix_task \<Rightarrow> string + code_block list"
  validate :: "code_block list \<Rightarrow> string + bool"
  submit_pr :: "string + int"
  approve_pr :: "string + unit"
  merge_pr :: "string + bool"

record fix_result =
  status :: status
  gate_passed_flag :: "bool option"
  approved :: bool
  merged :: bool
  gate_error :: "string option"

definition ended :: "status \<Rightarrow> fix_result" where
  "ended s = \<lparr>status = s, gate_passed_flag = None, approved = False, merged = False, gate_error = None\<rparr>"

text \<open>\<open>_run_merge_gate\<close>, with the flag that the caller sets from the report.\<close>

definition run_gate ::
  "bool \<Rightarrow> ((string \<times> string) list \<Rightarrow> string + gate_report) \<Rightarrow> answers \<Rightarrow> int \<Rightarrow> (string \<times> string) list \<Rightarrow> fix_result \<times> gh_call list" where
  "run_gate auto_merge gate a pr fs =
     (case gate fs of
        Inl e \<Rightarrow> ((ended PrCreated)\<lparr>gate_error := Some e\<rparr>, [])
      | Inr rep \<Rightarrow>
          if \<not> gate_passed rep then ((ended PrCreated)\<lparr>gate_passed_flag := Some False\<rparr>, [])
          else
            (case approve_pr a of
               Inl e \<Rightarrow> ((ended PrCreated)\<lparr>gate_passed_flag := Some True, gate_error := Some e\<rparr>, [ApprovePR pr])
             | Inr _ \<Rightarrow>
                 if \<not> auto_merge then ((ended PrCreated)\<lparr>gate_passed_flag := Some True, approved := True\<rparr>, [ApprovePR pr])
                 else
                   (case merge_pr a of
                      Inl e \<Rightarrow> ((ended PrCreated)\<lparr>gate_passed_flag := Some True, approved := True, gate_error := Some e\<rparr>,
                                [ApprovePR pr, MergePR pr])
                    | Inr m \<Rightarrow> ((ended PrCreated)\<lparr>gate_passed_flag := Some True, approved := True, merged := m\<rparr>,
                                [ApprovePR pr, MergePR pr]))))"

definition handle_incident ::
  "bool \<Rightarrow> bool \<Rightarrow> ((string \<times> string) list \<Rightarrow> string + gate_report) \<Rightarrow> answers \<Rightarrow> incident \<Rightarrow> fix_result \<times> gh_call list" where
  "handle_incident auto_approve auto_merge gate a i =
     (case think a (incident_to_task i) of
        Inl _ \<Rightarrow> (ended FixGenerationFailed, [])
      | Inr blocks \<Rightarrow>
          (case validate a blocks of
             Inl _ \<Rightarrow> (ended ValidationFailed, [])
           | Inr valid \<Rightarrow>
               if \<not> valid then (ended ValidationFailed, [])
               else if blocks = [] then (ended NoChanges, [])
               else
                 (let fs = solution_files [] blocks; branch = incident_branch_name i
                  in case submit_pr a of
                       Inl _ \<Rightarrow> (ended PrFailed, [SubmitPR fs branch])
                     | Inr pr \<Rightarrow>
                         if \<not> auto_approve then (ended PrCreated, [SubmitPR fs branch])
                         else (let (r, calls) = run_gate auto_merge gate a pr fs in (r, SubmitPR fs branch # calls)))))"

text \<open>The default gate: the explicit files of the fix, with the threshold of the settings.\<close>

definition default_gate ::
  "(string \<Rightarrow> string list) \<Rightarrow> (gfile list \<Rightarrow> string + bool \<times> string) \<Rightarrow> (gfile list \<Rightarrow> string + py_float \<times> bool \<times> string) \<Rightarrow> py_float \<Rightarrow>
     (((string \<times> string) list \<Rightarrow> string + bool \<times> string) \<times> string list) option \<Rightarrow> (string \<times> string) list \<Rightarrow> string + gate_report" where
  "default_gate idents sandbox judge threshold lean fs =
     Inr (run_merge_gate idents sandbox judge
       \<lparr>judge_threshold = threshold, sandbox_enabled = True, include_suffixes = [''.py''],
        verifier = map_option fst lean, require_spec_patterns = (case lean of None \<Rightarrow> [] | Some (_, ps) \<Rightarrow> ps), ontology = None\<rparr>
       (Explicit fs))"

section \<open>Files\<close>

lemma solution_files_paths:
  "distinct (map fst (solution_files seen bs)) \<and> set (map fst (solution_files seen bs)) = block_path ` set bs - set seen"
  by (induction bs arbitrary: seen) auto

lemma solution_files_first:
  "(p, c) \<in> set (solution_files seen bs) \<Longrightarrow> find (\<lambda>b. block_path b = p) bs \<noteq> None \<and> c = cb_content (the (find (\<lambda>b. block_path b = p) bs))"
proof (induction bs arbitrary: seen)
  case (Cons b bs)
  show ?case
  proof (cases "block_path b \<in> set seen")
    case True
    then have "(p, c) \<in> set (solution_files seen bs)" using Cons.prems by simp
    moreover have "p \<notin> set seen" using solution_files_paths [of seen bs] calculation by force
    ultimately show ?thesis using Cons.IH [of seen] True by auto
  next
    case False
    then show ?thesis using Cons.prems Cons.IH [of "block_path b # seen"] solution_files_paths [of "block_path b # seen" bs]
      by (auto simp: image_iff) force+
  qed
qed simp

section \<open>Properties\<close>

text \<open>
  (C8) The autonomy loop fails closed. GitHub is called at most to open a request, then to approve it and
  then to merge it, in this order; nothing is opened unless the engine's solution was validated with its
  tests, nothing is approved unless this is allowed and the gate returned a report that passes, nothing
  is merged unless that is allowed too and the approval succeeded, and the result never claims more.
\<close>

theorem autonomy_fails_closed:
  assumes "handle_incident auto_approve auto_merge gate a i = (r, calls)"
  shows "(calls = [] \<or> (\<exists>fs pr. prefix calls [SubmitPR fs (incident_branch_name i), ApprovePR pr, MergePR pr])) \<and>
    (\<forall>fs br. SubmitPR fs br \<in> set calls \<longrightarrow>
       (\<exists>blocks. think a (incident_to_task i) = Inr blocks \<and> validate a blocks = Inr True \<and> fs = solution_files [] blocks \<and> fs \<noteq> [])) \<and>
    (\<forall>pr. ApprovePR pr \<in> set calls \<longrightarrow>
       auto_approve \<and> submit_pr a = Inr pr \<and> (\<exists>fs br rep. SubmitPR fs br \<in> set calls \<and> gate fs = Inr rep \<and> gate_passed rep)) \<and>
    (\<forall>pr. MergePR pr \<in> set calls \<longrightarrow> auto_merge \<and> approve_pr a = Inr () \<and> ApprovePR pr \<in> set calls) \<and>
    (approved r \<longrightarrow> (\<exists>pr. ApprovePR pr \<in> set calls \<and> approve_pr a = Inr ())) \<and> (merged r \<longrightarrow> (\<exists>pr. MergePR pr \<in> set calls))"
proof (cases "calls = []")
  case True
  then have "\<not> approved r \<and> \<not> merged r" using assms
    by (auto simp: handle_incident_def ended_def Let_def split: sum.splits if_splits prod.splits)
  then show ?thesis using True by simp
next
  case False
  then obtain blocks where b: "think a (incident_to_task i) = Inr blocks" "validate a blocks = Inr True" "blocks \<noteq> []"
    using assms by (auto simp: handle_incident_def Let_def split: sum.splits if_splits)
  let ?fs = "solution_files [] blocks" and ?br = "incident_branch_name i"
  have ne: "?fs \<noteq> []" using b(3) by (cases blocks) auto
  show ?thesis
  proof (cases "\<exists>pr. submit_pr a = Inr pr \<and> auto_approve")
    case no: False
    then have "calls = [SubmitPR ?fs ?br]" "\<not> approved r" "\<not> merged r"
      using assms b by (auto simp: handle_incident_def ended_def Let_def split: sum.splits if_splits)
    then show ?thesis using b ne by auto
  next
    case True
    then obtain pr where pr: "submit_pr a = Inr pr" and auto_approve by blast
    then obtain more where run: "run_gate auto_merge gate a pr ?fs = (r, more)" and calls: "calls = SubmitPR ?fs ?br # more"
      using assms b by (auto simp: handle_incident_def Let_def split: prod.splits)
    have more: "prefix more [ApprovePR pr, MergePR pr]" "more \<noteq> [] \<Longrightarrow> \<exists>rep. gate ?fs = Inr rep \<and> gate_passed rep"
      "MergePR pr \<in> set more \<Longrightarrow> auto_merge \<and> approve_pr a = Inr ()" "approved r \<Longrightarrow> more \<noteq> [] \<and> approve_pr a = Inr ()"
      "merged r \<Longrightarrow> MergePR pr \<in> set more"
      using run by (auto simp: run_gate_def ended_def split: sum.splits if_splits)
    have shape: "more = [] \<or> more = [ApprovePR pr] \<or> more = [ApprovePR pr, MergePR pr]"
      using more(1) by (auto simp: prefix_Cons)
    show ?thesis using more(2-5) shape calls b ne pr \<open>auto_approve\<close> by auto
  qed
qed

definition demo_incident :: incident where
  "demo_incident = \<lparr>inc_id = ''42'', inc_title = ''Crash'', inc_description = [], stack_trace = [], inc_tags = []\<rparr>"

definition demo_answers :: answers where
  "demo_answers = \<lparr>think = (\<lambda>_. Inr [\<lparr>filename = ''a.py'', cb_language = ''python'', cb_content = ''x = 1'', cb_description = []\<rparr>]),
     validate = (\<lambda>_. Inr True), submit_pr = Inr 7, approve_pr = Inr (), merge_pr = Inr True\<rparr>"

definition demo_gate :: "(string \<times> string) list \<Rightarrow> string + gate_report" where
  "demo_gate = default_gate (\<lambda>_. []) (\<lambda>_. Inr (True, [])) (\<lambda>_. Inr (1, True, [])) (1 / 2) None"

theorem autonomy_fails_closed_witness:
  "\<exists>fs br rep. SubmitPR fs br \<in> set (snd (handle_incident True True demo_gate demo_answers demo_incident)) \<and>
     demo_gate fs = Inr rep \<and> gate_passed rep \<and> ApprovePR 7 \<in> set (snd (handle_incident True True demo_gate demo_answers demo_incident))"
proof -
  have "\<exists>rep. demo_gate fs = Inr rep \<and> gate_passed rep" for fs
    by (simp add: demo_gate_def default_gate_def run_merge_gate_def formal_stage_def sandbox_stage_def judge_stage_def Let_def)
  then have "ApprovePR 7 \<in> set (snd (handle_incident True True demo_gate demo_answers demo_incident))"
    by (simp add: handle_incident_def demo_answers_def run_gate_def Let_def split_beta split: sum.split) (metis sum.inject(2) sum.simps(4))
  then show ?thesis
    using autonomy_fails_closed [OF prod.collapse [symmetric], of True True demo_gate demo_answers demo_incident] by blast
qed

text \<open>
  The gate looks at Python files only: a fix without any is approved and merged without the sandbox of
  the gate and without the judge, whatever they would say.
\<close>

lemma other_files_merge_unjudged:
  assumes "think a (incident_to_task i) = Inr blocks" and "validate a blocks = Inr True" and "blocks \<noteq> []"
    and "\<forall>b \<in> set blocks. \<not> suffix ''.py'' (block_path b)"
    and "submit_pr a = Inr pr" and "approve_pr a = Inr ()" and "merge_pr a = Inr True"
  shows "merged (fst (handle_incident True True (default_gate idents sandbox judge threshold None) a i))"
proof -
  let ?fs = "solution_files [] blocks"
  have "\<not> suffix ''.py'' p" if "(p, c) \<in> set ?fs" for p c
    using that assms(4) solution_files_paths [of "[]" blocks] by (metis (no_types, lifting) Diff_empty empty_set imageE image_eqI list.set_map prod.sel(1))
  then have "filter (has_suffix [''.py'']) (raw_changed_files (Explicit ?fs)) = []"
    by (auto simp: raw_changed_files_def has_suffix_def gate_file_def filter_empty_conv)
  then have "\<exists>rep. default_gate idents sandbox judge threshold None ?fs = Inr rep \<and> gate_passed rep"
    by (auto simp: default_gate_def intro!: ungated_change_passes)
  then show ?thesis using assms by (auto simp: handle_incident_def run_gate_def Let_def ended_def)
qed

text \<open>
  The branch name is safe after the first eight characters of the identifier only, which comes from the
  payload as it is.
\<close>

lemma branch_keeps_identifier: "prefix (''noema-fix/'' @ take 8 (inc_id i)) (incident_branch_name i)"
  by (simp add: incident_branch_name_def Let_def)

end
