(* ===== verification/Evolution.thy ===== *)
theory Evolution
  imports Merge_Gate
begin

text \<open>
  The self-evolution engine (\<open>evolution/engine.py\<close>): issues found in the project's own files, patches for
  them, and the landing policy: tests before a patch is kept, and proposals instead of changes unless
  patches may be applied.

  The worktree is a dictionary from paths to contents; reading and writing succeed. The model's proposal,
  the tests (which see the worktree as it is when they run, and may raise) and the compiler are arguments.
  The optimisation of prompts and the subprocess that runs pytest are not modelled.
\<close>

section \<open>Issues\<close>

type_synonym worktree = "(string, string) dict"

record issue =
  i_file :: string
  i_type :: string
  i_severity :: string

definition EXCLUDED :: "string list" where
  "EXCLUDED = [''.venv'', ''venv'', ''env'', ''.git'', ''__pycache__'', ''node_modules'', ''build'', ''dist'', ''.mypy_cache'',
     ''.pytest_cache'', ''.ruff_cache'', ''.hypothesis'', ''.benchmarks'', ''.noema'', ''.idea'', ''.vscode'']"

fun split_newline :: "string \<Rightarrow> string list" where
  "split_newline [] = [[]]"
| "split_newline (c # cs) =
     (if c = CHR 10 then [] # split_newline cs
      else (case split_newline cs of [] \<Rightarrow> [[c]] | l # ls \<Rightarrow> (c # l) # ls))"

definition analyze_file :: "string \<Rightarrow> string \<Rightarrow> issue list \<times> (string \<times> nat) list" where
  "analyze_file p text =
     (if length text < 50 then ([], [])
      else
        (let lines = split_newline text;
             funcs = length (filter (\<lambda>l. prefix ''def '' (strip l) \<or> prefix ''async def '' (strip l)) lines)
         in ((if contains text ''TODO'' \<or> contains text ''FIXME''
              then [\<lparr>i_file = p, i_type = ''todo_fixme'', i_severity = ''medium''\<rparr>] else []) @
             (if contains text ''except:'' \<or> contains text ''except Exception:''
              then [\<lparr>i_file = p, i_type = ''bare_except'', i_severity = ''low''\<rparr>] else []) @
             (if 500 < length lines then [\<lparr>i_file = p, i_type = ''large_file'', i_severity = ''medium''\<rparr>] else []),
             if 20 < funcs then [(p, funcs)] else [])))"

text \<open>The parts of a path are those of the project root and of the path below it.\<close>

definition analyzed :: "string list \<Rightarrow> string \<Rightarrow> bool" where
  "analyzed root_parts p = (suffix ''.py'' p \<and> set EXCLUDED \<inter> set (root_parts @ split_slash p) = {})"

definition analyze_self :: "string list \<Rightarrow> worktree \<Rightarrow> issue list \<times> (string \<times> nat) list" where
  "analyze_self root_parts fs =
     (let rs = map (\<lambda>(p, text). analyze_file p text) (filter (\<lambda>(p, _). analyzed root_parts p) fs)
      in (concat (map fst rs), concat (map snd rs)))"

section \<open>Patches\<close>

record patch =
  target :: string
  original_code :: string
  patched_code :: string
  description :: string
  applied :: bool
  tests_passed :: bool
  tests_output :: string

text \<open>\<open>generate_patch\<close>: the model proposes new code and a description for the content of a file, or fails.\<close>

definition generate_patch :: "(string \<Rightarrow> issue \<Rightarrow> (string \<times> string) option) \<Rightarrow> string \<Rightarrow> issue \<Rightarrow> worktree \<Rightarrow> patch option" where
  "generate_patch propose p i fs =
     (case map_of fs p of
        None \<Rightarrow> None
      | Some text \<Rightarrow>
          map_option (\<lambda>(code, desc). \<lparr>target = p, original_code = text, patched_code = code, description = desc,
              applied = False, tests_passed = False, tests_output = []\<rparr>) (propose text i))"

definition backup_path :: "string \<Rightarrow> string" where
  "backup_path p = p @ ''.bak''"

definition apply_patch :: "(string \<Rightarrow> bool) \<Rightarrow> bool \<Rightarrow> patch \<Rightarrow> worktree \<Rightarrow> bool \<times> patch \<times> worktree" where
  "apply_patch compiles dry_run p fs =
     (case map_of fs (target p) of
        None \<Rightarrow> (False, p, fs)
      | Some text \<Rightarrow>
          if dry_run then (True, p, fs)
          else
            (let original = (if original_code p \<noteq> [] then original_code p else text);
                 fs1 = dict_set (target p) (patched_code p) (dict_set (backup_path (target p)) original fs)
             in if compiles (patched_code p)
                then (True, p\<lparr>applied := True\<rparr>, dict_del (backup_path (target p)) fs1)
                else (False, p\<lparr>applied := False, tests_passed := False\<rparr>,
                      dict_del (backup_path (target p)) (dict_set (target p) original fs1))))"

record engine =
  enabled :: bool
  test_before_apply :: bool
  auto_apply :: bool
  max_patches_per_cycle :: int
  patches :: "patch list"
  cycle :: nat

text \<open>The tests get the number of the patch, so that they need not answer alike.\<close>

definition validate_and_land ::
  "(nat \<Rightarrow> worktree \<Rightarrow> string + bool \<times> string) \<Rightarrow> (string \<Rightarrow> bool) \<Rightarrow> nat \<Rightarrow> engine \<Rightarrow> patch \<Rightarrow> worktree \<Rightarrow> bool \<times> patch \<times> worktree" where
  "validate_and_land tests compiles n e p fs =
     (case map_of fs (target p) of
        None \<Rightarrow> (False, p, fs)
      | Some text \<Rightarrow>
          (let original = (if original_code p \<noteq> [] then original_code p else text);
               p1 = p\<lparr>original_code := original\<rparr>;
               fs1 = (if test_before_apply e then dict_set (target p) (patched_code p) fs else fs);
               (green, out) = (if test_before_apply e
                               then (case tests n fs1 of Inl err \<Rightarrow> (False, err) | Inr r \<Rightarrow> r) else (True, tests_output p));
               p2 = (if test_before_apply e then p1\<lparr>tests_output := out, tests_passed := green\<rparr> else p1)
           in if \<not> green then (False, p2, dict_set (target p) original fs1)
              else if \<not> auto_apply e then (True, p2\<lparr>applied := False\<rparr>, dict_set (target p) original fs1)
              else apply_patch compiles False p2 fs1))"

section \<open>A cycle\<close>

record evolution_result =
  patches_generated :: nat
  patches_applied :: nat
  patches_proposed :: nat
  patches_rejected :: nat
  evolution_cycle :: nat
  improved :: "string list"

definition new_result :: "nat \<Rightarrow> evolution_result" where
  "new_result c = \<lparr>patches_generated = 0, patches_applied = 0, patches_proposed = 0, patches_rejected = 0, evolution_cycle = c, improved = []\<rparr>"

fun land_all ::
  "(string \<Rightarrow> issue \<Rightarrow> worktree \<Rightarrow> patch option) \<Rightarrow> (nat \<Rightarrow> worktree \<Rightarrow> string + bool \<times> string) \<Rightarrow> (string \<Rightarrow> bool) \<Rightarrow> issue list \<Rightarrow>
     engine \<Rightarrow> evolution_result \<Rightarrow> worktree \<Rightarrow> engine \<times> evolution_result \<times> worktree" where
  "land_all gen tests compiles [] e r fs = (e, r, fs)"
| "land_all gen tests compiles (i # is) e r fs =
     (case gen (i_file i) i fs of
        None \<Rightarrow> land_all gen tests compiles is e r fs
      | Some p \<Rightarrow>
          (let (landed, p', fs') = validate_and_land tests compiles (length (patches e)) e p fs;
               e' = e\<lparr>patches := patches e @ [p']\<rparr>;
               r1 = r\<lparr>patches_generated := patches_generated r + 1\<rparr>;
               r' = (if \<not> landed then r1\<lparr>patches_rejected := patches_rejected r1 + 1\<rparr>
                     else if applied p' then r1\<lparr>patches_applied := patches_applied r1 + 1,
                       improved := improved r1 @ [''Applied patch to '' @ target p' @ '': '' @ description p']\<rparr>
                     else r1\<lparr>patches_proposed := patches_proposed r1 + 1\<rparr>)
           in land_all gen tests compiles is e' r' fs'))"

definition run_evolution_cycle ::
  "(string \<Rightarrow> issue \<Rightarrow> worktree \<Rightarrow> patch option) \<Rightarrow> (nat \<Rightarrow> worktree \<Rightarrow> string + bool \<times> string) \<Rightarrow> (string \<Rightarrow> bool) \<Rightarrow> string list \<Rightarrow>
     engine \<Rightarrow> worktree \<Rightarrow> engine \<times> evolution_result \<times> worktree" where
  "run_evolution_cycle gen tests compiles root_parts e fs =
     (let e1 = e\<lparr>cycle := cycle e + 1\<rparr>; r = new_result (cycle e1)
      in if \<not> enabled e then (e1, r, fs)
         else land_all gen tests compiles (py_take (max_patches_per_cycle e) (fst (analyze_self root_parts fs))) e1 r fs)"

definition stat_applied :: "engine \<Rightarrow> nat" where
  "stat_applied e = length (filter applied (patches e))"

definition stat_proposed :: "engine \<Rightarrow> nat" where
  "stat_proposed e = length (filter (\<lambda>p. \<not> applied p \<and> tests_passed p) (patches e))"

definition stat_rejected :: "engine \<Rightarrow> nat" where
  "stat_rejected e = length (filter (\<lambda>p. \<not> applied p \<and> \<not> tests_passed p) (patches e))"

section \<open>Landing one patch\<close>

text \<open>
  \<open>landed_ok\<close>: the patch may stand in the worktree, since it was applied, compiles, and, when tests are asked
  for, they were green on a worktree that had it.
\<close>

definition landed_ok :: "(nat \<Rightarrow> worktree \<Rightarrow> string + bool \<times> string) \<Rightarrow> (string \<Rightarrow> bool) \<Rightarrow> engine \<Rightarrow> patch \<Rightarrow> bool" where
  "landed_ok tests compiles e p \<longleftrightarrow>
     auto_apply e \<and> applied p \<and> compiles (patched_code p) \<and>
     (test_before_apply e \<longrightarrow> tests_passed p \<and> (\<exists>n fs out. tests n fs = Inr (True, out) \<and> map_of fs (target p) = Some (patched_code p)))"

definition is_backup :: "string \<Rightarrow> bool" where
  "is_backup q = suffix ''.bak'' q"

lemma backup_path_simps [simp]: "is_backup (backup_path p)" "backup_path p \<noteq> p"
  by (simp_all add: is_backup_def backup_path_def suffix_def)

lemma land_effect:
  assumes "map_of fs (target p) = Some text" and "original_code p = text" and "applied p = False" and "text \<noteq> []"
    and "validate_and_land tests compiles n e p fs = (landed, p', fs')"
  shows "target p' = target p" and "patched_code p' = patched_code p" and "applied p' \<longrightarrow> landed"
    and "\<not> auto_apply e \<Longrightarrow> map_of fs' = map_of fs"
    and "\<And>q. \<not> is_backup q \<Longrightarrow> map_of fs' q \<noteq> map_of fs q \<Longrightarrow>
           q = target p \<and> map_of fs' q = Some (patched_code p) \<and> landed_ok tests compiles e p'"
proof -
  have orig: "(if original_code p \<noteq> [] then original_code p else text) = text" using assms(2) by simp
  define fs1 where "fs1 = (if test_before_apply e then dict_set (target p) (patched_code p) fs else fs)"
  define g where "g = (if test_before_apply e
      then (case tests n fs1 of Inl err \<Rightarrow> (False, err) | Inr r \<Rightarrow> r) else (True, tests_output p))"
  define p2 where "p2 = (if test_before_apply e
      then p\<lparr>original_code := text, tests_output := snd g, tests_passed := fst g\<rparr> else p\<lparr>original_code := text\<rparr>)"
  have v: "validate_and_land tests compiles n e p fs =
      (if \<not> fst g then (False, p2, dict_set (target p) text fs1)
       else if \<not> auto_apply e then (True, p2\<lparr>applied := False\<rparr>, dict_set (target p) text fs1)
       else apply_patch compiles False p2 fs1)"
    using assms(1) by (simp add: validate_and_land_def orig fs1_def g_def p2_def Let_def split_beta)
  have p2: "target p2 = target p" "patched_code p2 = patched_code p" "original_code p2 = text" "applied p2 = False"
    "test_before_apply e \<Longrightarrow> tests_passed p2 = fst g"
    using assms(3) by (simp_all add: p2_def)
  have restored: "map_of (dict_set (target p) text fs1) = map_of fs" using assms(1) by (auto simp: fs1_def fun_eq_iff)
  obtain t1 where t1: "map_of fs1 (target p) = Some t1" using assms(1) by (cases "test_before_apply e") (simp_all add: fs1_def)
  have app: "apply_patch compiles False p2 fs1 =
      (if compiles (patched_code p)
       then (True, p2\<lparr>applied := True\<rparr>, dict_del (backup_path (target p)) (dict_set (target p) (patched_code p)
          (dict_set (backup_path (target p)) text fs1)))
       else (False, p2\<lparr>applied := False, tests_passed := False\<rparr>, dict_del (backup_path (target p)) (dict_set (target p) text
          (dict_set (target p) (patched_code p) (dict_set (backup_path (target p)) text fs1)))))"
    using t1 assms(4) by (simp add: apply_patch_def p2 Let_def)
  have green: "\<exists>n fs out. tests n fs = Inr (True, out) \<and> map_of fs (target p) = Some (patched_code p)" if "test_before_apply e" "fst g"
    using that by (auto simp: g_def fs1_def split: sum.splits intro!: exI [of _ n] exI [of _ fs1])
  show "target p' = target p" "patched_code p' = patched_code p" "applied p' \<longrightarrow> landed"
    using assms(5) v app p2 by (auto split: if_splits)
  show "map_of fs' = map_of fs" if "\<not> auto_apply e" using that assms(5) v restored by (auto split: if_splits)
  show "q = target p \<and> map_of fs' q = Some (patched_code p) \<and> landed_ok tests compiles e p'"
    if q: "\<not> is_backup q" "map_of fs' q \<noteq> map_of fs q" for q
  proof -
    have qb: "q \<noteq> backup_path (target p)" using q(1) by auto
    have "auto_apply e \<and> fst g" using q(2) assms(5) v restored by (auto split: if_splits)
    then have c: "auto_apply e" "fst g" and v': "apply_patch compiles False p2 fs1 = (landed, p', fs')" using assms(5) v by simp_all
    have other: "map_of fs1 q = map_of fs q" if "q \<noteq> target p" using that by (simp add: fs1_def)
    have comp: "compiles (patched_code p)"
    proof (rule ccontr)
      assume "\<not> compiles (patched_code p)"
      then have "map_of fs' q = (if q = target p then Some text else map_of fs1 q)" using v' app qb by auto
      then show False using q(2) assms(1) other by (auto split: if_splits)
    qed
    then have p': "p' = p2\<lparr>applied := True\<rparr>" and "map_of fs' q = (if q = target p then Some (patched_code p) else map_of fs1 q)"
      using v' app qb by auto
    then have "q = target p" "map_of fs' q = Some (patched_code p)" using q(2) other by (auto split: if_splits)
    moreover have "landed_ok tests compiles e p'" using c comp green p2 by (simp add: landed_ok_def p')
    ultimately show ?thesis by blast
  qed
qed

section \<open>A whole cycle\<close>

text \<open>
  \<open>all_landed\<close> relates the worktree before and after some patches: a file that is not a backup and differs is
  the target of one of the patches that may stand, and has its code.
\<close>

definition all_landed ::
  "(nat \<Rightarrow> worktree \<Rightarrow> string + bool \<times> string) \<Rightarrow> (string \<Rightarrow> bool) \<Rightarrow> engine \<Rightarrow> patch list \<Rightarrow> worktree \<Rightarrow> worktree \<Rightarrow> bool" where
  "all_landed tests compiles e ps fs fs' \<longleftrightarrow>
     (\<forall>q. \<not> is_backup q \<longrightarrow> map_of fs' q \<noteq> map_of fs q \<longrightarrow>
        (\<exists>p \<in> set ps. target p = q \<and> map_of fs' q = Some (patched_code p) \<and> landed_ok tests compiles e p))"

text \<open>\<open>tallied\<close>: the counters of a cycle account for its patches.\<close>

definition tallied :: "evolution_result \<Rightarrow> patch list \<Rightarrow> bool" where
  "tallied r ps \<longleftrightarrow>
     patches_generated r = length ps \<and> patches_applied r = length (filter applied ps) \<and>
     patches_applied r + patches_proposed r + patches_rejected r = patches_generated r"

lemma landed_ok_patches [simp]: "landed_ok tests compiles (e\<lparr>patches := x\<rparr>) = landed_ok tests compiles e"
  by (simp add: landed_ok_def fun_eq_iff)

lemma all_landed_simps [simp]:
  "all_landed tests compiles e [] fs fs"
  "all_landed tests compiles (e\<lparr>patches := x\<rparr>) = all_landed tests compiles e"
  by (simp_all add: all_landed_def fun_eq_iff)

lemma all_landed_Cons:
  assumes "all_landed tests compiles e [p] fs fs1" and "all_landed tests compiles e ps fs1 fs2"
  shows "all_landed tests compiles e (p # ps) fs fs2"
proof -
  have "\<exists>p' \<in> set (p # ps). target p' = q \<and> map_of fs2 q = Some (patched_code p') \<and> landed_ok tests compiles e p'"
    if "\<not> is_backup q" "map_of fs2 q \<noteq> map_of fs q" for q
  proof (cases "map_of fs2 q = map_of fs1 q")
    case True
    then show ?thesis using assms(1) that by (auto simp: all_landed_def)
  next
    case False
    then show ?thesis using assms(2) that(1) by (auto simp: all_landed_def)
  qed
  then show ?thesis by (simp add: all_landed_def)
qed

text \<open>The files with issues are not backups, and stay non-empty when the proposals are.\<close>

definition patchable :: "issue list \<Rightarrow> worktree \<Rightarrow> bool" where
  "patchable is fs \<longleftrightarrow> (\<forall>i \<in> set is. \<not> is_backup (i_file i) \<and> map_of fs (i_file i) \<noteq> Some [])"

lemma generated_patch:
  assumes "generate_patch propose q i fs = Some p" and "\<And>text i code desc. propose text i = Some (code, desc) \<Longrightarrow> code \<noteq> []"
  shows "target p = q" "map_of fs (target p) = Some (original_code p)" "applied p = False" "patched_code p \<noteq> []"
  using assms by (auto simp: generate_patch_def split: option.splits)

lemma land_all_effect:
  assumes "land_all (generate_patch propose) tests compiles is e r fs = (e', r', fs')" and "patchable is fs"
    and nonempty: "\<And>text i code desc. propose text i = Some (code, desc) \<Longrightarrow> code \<noteq> []" and "tallied r qs"
  shows "\<exists>ps. e' = e\<lparr>patches := patches e @ ps\<rparr> \<and> all_landed tests compiles e ps fs fs' \<and> length ps \<le> length is \<and>
    (\<not> auto_apply e \<longrightarrow> map_of fs' = map_of fs) \<and> tallied r' (qs @ ps)"
  using assms(1,2,4)
proof (induction "is" arbitrary: e r fs qs)
  case Nil
  then show ?case by (auto intro!: exI [of _ "[]"])
next
  case (Cons i "is")
  show ?case
  proof (cases "generate_patch propose (i_file i) i fs")
    case None
    then show ?thesis using Cons.prems Cons.IH [of e r fs qs] by (fastforce simp: patchable_def)
  next
    case (Some p)
    note p = generated_patch [OF Some nonempty]
    obtain landed p' fs1 where v: "validate_and_land tests compiles (length (patches e)) e p fs = (landed, p', fs1)"
      by (rule prod_cases3)
    have "original_code p \<noteq> []" using Cons.prems(2) p(1,2) by (auto simp: patchable_def)
    note eff = land_effect [OF p(2) refl p(3) this v]
    define e1 where "e1 = e\<lparr>patches := patches e @ [p']\<rparr>"
    define r0 where "r0 = r\<lparr>patches_generated := patches_generated r + 1\<rparr>"
    define r1 where "r1 = (if \<not> landed then r0\<lparr>patches_rejected := patches_rejected r0 + 1\<rparr>
      else if applied p' then r0\<lparr>patches_applied := patches_applied r0 + 1,
        improved := improved r0 @ [''Applied patch to '' @ target p' @ '': '' @ description p']\<rparr>
      else r0\<lparr>patches_proposed := patches_proposed r0 + 1\<rparr>)"
    have rest: "land_all (generate_patch propose) tests compiles is e1 r1 fs1 = (e', r', fs')"
      using Cons.prems(1) Some v by (auto simp: e1_def r0_def r1_def Let_def split: if_splits)
    have one: "all_landed tests compiles e [p'] fs fs1"
      using eff by (auto simp: all_landed_def)
    have pat: "patchable is fs1"
    proof -
      have "map_of fs1 (i_file j) \<noteq> Some []" if "j \<in> set is" for j
        using one p(4) eff(2) Cons.prems(2) that unfolding all_landed_def patchable_def by (cases "map_of fs1 (i_file j) = map_of fs (i_file j)") auto
      then show ?thesis using Cons.prems(2) by (simp add: patchable_def)
    qed
    have "tallied r1 (qs @ [p'])" using Cons.prems(3) eff(3) by (auto simp: tallied_def r1_def r0_def)
    then obtain ps where "e' = e1\<lparr>patches := patches e1 @ ps\<rparr>" "all_landed tests compiles e1 ps fs1 fs'" "length ps \<le> length is"
      "\<not> auto_apply e1 \<longrightarrow> map_of fs' = map_of fs1" "tallied r' ((qs @ [p']) @ ps)"
      using Cons.IH [OF rest pat] by blast
    then show ?thesis
      using all_landed_Cons [OF one, of ps fs'] eff(4) by (intro exI [of _ "p' # ps"]) (simp add: e1_def)
  qed
qed

lemma issues_patchable:
  assumes "wf_dict fs"
  shows "patchable (py_take n (fst (analyze_self root_parts fs))) fs"
proof -
  have "\<exists>text. map_of fs (i_file i) = Some text \<and> 50 \<le> length text \<and> suffix ''.py'' (i_file i)" if i: "i \<in> set (fst (analyze_self root_parts fs))" for i
  proof -
    obtain p c where pt: "(p, c) \<in> set fs" "analyzed root_parts p" "i \<in> set (fst (analyze_file p c))"
      using i by (auto simp: analyze_self_def Let_def)
    then have "i_file i = p" "50 \<le> length c" by (auto simp: analyze_file_def Let_def split: if_splits)
    then show ?thesis using pt assms by (auto simp: analyzed_def wf_dict_def)
  qed
  then show ?thesis using set_py_take [of n] by (fastforce simp: patchable_def is_backup_def suffix_def)
qed


definition demo_text :: string where
  "demo_text = ''TODO '' @ replicate 50 (CHR ''x'')"

definition demo_evolution :: engine where
  "demo_evolution = \<lparr>enabled = True, test_before_apply = True, auto_apply = True, max_patches_per_cycle = 2, patches = [], cycle = 0\<rparr>"

definition demo_propose :: "string \<Rightarrow> issue \<Rightarrow> (string \<times> string) option" where
  "demo_propose c i = (if i_type i = ''todo_fixme'' then Some (''pass'', ''done'') else None)"


text \<open>
  An empty file is not restored: its empty content counts as missing, so the content is read again after the
  patch was written, and the failed patch stays.
\<close>

lemma empty_original_not_restored:
  "apply_patch (\<lambda>_. False) False \<lparr>target = ''a.py'', original_code = [], patched_code = ''x('', description = [], applied = False,
     tests_passed = True, tests_output = []\<rparr> [(''a.py'', ''x('')] =
   (False, \<lparr>target = ''a.py'', original_code = [], patched_code = ''x('', description = [], applied = False,
     tests_passed = False, tests_output = []\<rparr>, [(''a.py'', ''x('')])"
  "validate_and_land (\<lambda>_ _. Inr (True, [])) (\<lambda>_. False) 0 demo_evolution \<lparr>target = ''a.py'', original_code = [],
     patched_code = ''x('', description = [], applied = False, tests_passed = False, tests_output = []\<rparr> [(''a.py'', [])] =
   (False, \<lparr>target = ''a.py'', original_code = [], patched_code = ''x('', description = [], applied = False,
     tests_passed = False, tests_output = []\<rparr>, [(''a.py'', ''x('')])"
  by (simp_all add: apply_patch_def validate_and_land_def demo_evolution_def backup_path_def Let_def)

text \<open>A file that has the name of the backup is lost when a patch is applied.\<close>

lemma backup_overwritten:
  assumes "map_of fs (target p) = Some c"
  shows "map_of (snd (snd (apply_patch compiles False p fs))) (backup_path (target p)) = None"
  using assms by (simp add: apply_patch_def Let_def)

text \<open>Without tests a proposed patch counts as rejected in the statistics, though as proposed in the cycle.\<close>

lemma untested_proposal_counts_rejected:
  assumes "map_of fs (target p) = Some c" and "\<not> test_before_apply e" and "\<not> auto_apply e" and "\<not> tests_passed p"
  shows "fst (validate_and_land tests compiles n e p fs)"
    and "stat_rejected (e\<lparr>patches := [fst (snd (validate_and_land tests compiles n e p fs))]\<rparr>) = 1"
  using assms by (simp_all add: validate_and_land_def stat_rejected_def Let_def)

text \<open>A project below a directory with an excluded name, such as a build directory, is never analysed.\<close>

lemma excluded_root:
  "''build'' \<in> set root_parts \<Longrightarrow> analyze_self root_parts fs = ([], [])"
  by (auto simp: analyze_self_def analyzed_def EXCLUDED_def Let_def filter_empty_conv)

end
