(* ===== verification/Experiment_Runner.thy ===== *)
theory Experiment_Runner
  imports Billing "HOL-Library.Sublist" "HOL-Library.Char_ord" "HOL-Library.Product_Lexorder" "HOL-Library.Multiset"
begin

text \<open>
  The experiment runner (\<open>experiments/runner.py\<close>): the validation of a configuration, the matrix of cells run
  through engines, the records with the cost of every file, the environment around a run and the summary.

  An engine is a value of a type of the caller's; making one, and what its reasoning, the judge and the sandbox
  do with it, are arguments. Provider names are strings and costs numbers here (\<open>exp_config\<close>). The time stamps,
  and \<open>stdev\<close>, which takes a square root, are not computed: durations are part of the answer of the engine and
  \<open>stdev\<close> is an argument. The CSV files are not modelled.
\<close>

section \<open>Configuration\<close>

definition is_true :: "json option \<Rightarrow> bool" where
  "is_true j = (case j of None \<Rightarrow> False | Some v \<Rightarrow> json_truthy v)"

definition check :: "bool \<Rightarrow> unit result" where
  "check b = (if b then Inr () else Inl ValueError)"

text \<open>A provider name that cannot be hashed raises when it is added to the names seen.\<close>

definition validate_provider :: "json \<Rightarrow> unit result" where
  "validate_provider p =
     (case p of
        JDict d \<Rightarrow>
          bind_res (check (is_true (map_of d ''provider''))) (\<lambda>_.
          (case map_of d ''models'' of
             Some (JList ms) \<Rightarrow>
               bind_res (check (ms \<noteq> [])) (\<lambda>_.
                 case map_of d ''provider'' of
                   Some (JList _) \<Rightarrow> Inl TypeError
                 | Some (JDict _) \<Rightarrow> Inl TypeError
                 | _ \<Rightarrow> check (list_all (\<lambda>m. case m of JStr s \<Rightarrow> s \<noteq> [] | _ \<Rightarrow> False) ms))
           | _ \<Rightarrow> Inl ValueError))
      | _ \<Rightarrow> Inl ValueError)"

fun each :: "('a \<Rightarrow> unit result) \<Rightarrow> 'a list \<Rightarrow> unit result" where
  "each f [] = Inr ()"
| "each f (x # xs) = bind_res (f x) (\<lambda>_. each f xs)"

definition positive_int :: "json \<Rightarrow> bool" where
  "positive_int j = (case j of JInt i \<Rightarrow> 1 \<le> i | JBool b \<Rightarrow> b | _ \<Rightarrow> False)"

definition validate_experiment :: "json \<Rightarrow> (string, json) dict result" where
  "validate_experiment cfg =
     (case cfg of
        JDict d \<Rightarrow>
          bind_res (check (case map_of d ''meta'' of Some (JDict m) \<Rightarrow> is_true (map_of m ''name'') | _ \<Rightarrow> False)) (\<lambda>_.
          bind_res (case map_of d ''providers'' of
                      Some (JList ps) \<Rightarrow> bind_res (check (ps \<noteq> [])) (\<lambda>_. each validate_provider ps)
                    | _ \<Rightarrow> Inl ValueError) (\<lambda>_.
          bind_res (case map_of d ''tasks'' of
                      Some (JList ts) \<Rightarrow>
                        bind_res (check (ts \<noteq> [])) (\<lambda>_.
                          each (\<lambda>t. check (case t of JDict td \<Rightarrow> is_true (map_of td ''title'') | _ \<Rightarrow> False)) ts)
                    | _ \<Rightarrow> Inl ValueError) (\<lambda>_.
          bind_res (check (positive_int (dict_get d ''repetitions'' (JInt 1)))) (\<lambda>_. Inr d))))
      | _ \<Rightarrow> Inl ValueError)"

definition parse_experiment :: "(string \<Rightarrow> json) \<Rightarrow> string \<Rightarrow> (string, json) dict result" where
  "parse_experiment safe_load t =
     (let cfg = safe_load t in validate_experiment (if json_truthy cfg then cfg else JDict []))"

section \<open>Costs per file\<close>

record file_share =
  f_path :: string
  f_lines :: nat
  f_input :: int
  f_output :: int
  f_total :: int
  f_cost :: py_float

definition cost_row :: "py_float \<Rightarrow> string \<Rightarrow> nat \<Rightarrow> int \<Rightarrow> int \<Rightarrow> file_share" where
  "cost_row cost_per_token name n fin fout =
     \<lparr>f_path = name, f_lines = n, f_input = fin, f_output = fout, f_total = fin + fout,
      f_cost = py_round 8 (cost_per_token * of_int (fin + fout))\<rparr>"

fun cost_rows :: "py_float \<Rightarrow> int \<Rightarrow> int \<Rightarrow> nat \<Rightarrow> int \<Rightarrow> int \<Rightarrow> (string \<times> nat) list \<Rightarrow> file_share list" where
  "cost_rows cpt tin tout total_lines done_in done_out [] = []"
| "cost_rows cpt tin tout total_lines done_in done_out [(name, n)] = [cost_row cpt name n (tin - done_in) (tout - done_out)]"
| "cost_rows cpt tin tout total_lines done_in done_out ((name, n) # f # fs) =
     (let share = of_nat n / of_nat total_lines;
          fin = round_half_even (of_int tin * share);
          fout = round_half_even (of_int tout * share)
      in cost_row cpt name n fin fout # cost_rows cpt tin tout total_lines (done_in + fin) (done_out + fout) (f # fs))"

definition attribute_file_costs :: "(string \<times> string) list \<Rightarrow> int \<Rightarrow> int \<Rightarrow> py_float \<Rightarrow> file_share list" where
  "attribute_file_costs blocks tin tout cpt =
     (let fs = map (\<lambda>(name, content). (name, count_lines content)) (filter (\<lambda>(name, _). name \<noteq> []) blocks);
          total_lines = sum_list (map snd fs)
      in if total_lines = 0 \<or> tin \<le> 0 \<and> tout \<le> 0 then [] else cost_rows cpt tin tout total_lines 0 0 fs)"

section \<open>One cell\<close>

record task =
  t_title :: string
  t_description :: string
  t_tags :: "string list"

text \<open>The totals of the tracer: tokens, calls, input tokens and output tokens.\<close>

type_synonym stats = "int \<times> int \<times> int \<times> int"

record solution =
  s_quality :: string
  s_blocks :: "(string \<times> string) list"

datatype failure = Timeout "py_float option" | Raised string string string

text \<open>
  The message of a failure: \<open>timeout after \<dots>\<close>, or a prefix (\<open>judge:\<close>, \<open>sandbox:\<close> or none), the name of the class
  of the exception and its text. A cell counts as timed out when its message begins with \<open>timeout\<close>.
\<close>

definition is_timeout :: "failure \<Rightarrow> bool" where
  "is_timeout f = (case f of Timeout _ \<Rightarrow> True | Raised pre cls msg \<Rightarrow> prefix ''timeout'' (pre @ cls @ '': '' @ msg))"

datatype thought = Thought solution | ThinkTimeout | ThinkRaised string string

record 'e world =
  factory :: "nat \<Rightarrow> string \<Rightarrow> string \<Rightarrow> string + 'e"
  get_stats :: "'e \<Rightarrow> stats"
  think :: "'e \<Rightarrow> task \<Rightarrow> py_float option \<Rightarrow> thought \<times> py_float \<times> 'e"
  judge :: "'e \<Rightarrow> solution \<Rightarrow> task \<Rightarrow> (string \<times> string + py_float \<times> bool \<times> string) \<times> 'e"
  validate :: "'e \<Rightarrow> solution \<Rightarrow> (string \<times> string + bool \<times> string) \<times> 'e"

record run_record =
  r_task :: task
  r_provider :: string
  r_model :: string
  repeat_index :: nat
  duration_ms :: py_float
  tokens_input :: int
  tokens_output :: int
  total_tokens :: int
  llm_calls :: int
  r_score :: py_float
  r_passed :: bool
  r_summary :: string
  solution_quality :: string
  code_blocks :: nat
  r_sandbox :: "bool option"
  r_sandbox_summary :: string
  cost_estimate :: py_float
  r_error :: "failure option"
  r_files :: "file_share list"

definition delta_stats :: "stats \<Rightarrow> stats \<Rightarrow> stats" where
  "delta_stats after before =
     (case (after, before) of ((t, c, i, ou), (t', c', i', ou')) \<Rightarrow> (t - t', c - c', i - i', ou - ou'))"

definition judge_cell :: "'e world \<Rightarrow> task \<Rightarrow> solution option \<Rightarrow> failure option \<Rightarrow> 'e \<Rightarrow> (py_float \<times> bool \<times> string) \<times> failure option \<times> 'e" where
  "judge_cell w t sol err e =
     (case (sol, err) of
        (Some s, None) \<Rightarrow>
          (case judge w e s t of
             (Inl (cls, msg), e') \<Rightarrow> ((0, False, []), Some (Raised ''judge:'' cls msg), e')
           | (Inr v, e') \<Rightarrow> (v, None, e'))
      | _ \<Rightarrow> ((0, False, []), err, e))"

definition sandbox_cell :: "'e world \<Rightarrow> bool \<Rightarrow> solution option \<Rightarrow> failure option \<Rightarrow> 'e \<Rightarrow> (bool option \<times> string) \<times> failure option \<times> 'e" where
  "sandbox_cell w sandbox sol err e =
     (case (sol, err) of
        (Some s, None) \<Rightarrow>
          if sandbox then
            (case validate w e s of
               (Inl (cls, msg), e') \<Rightarrow> ((None, []), Some (Raised ''sandbox:'' cls msg), e')
             | (Inr (b, sm), e') \<Rightarrow> ((Some b, sm), None, e'))
          else ((None, []), err, e)
      | _ \<Rightarrow> ((None, []), err, e))"

definition run_once ::
  "'e world \<Rightarrow> bool \<Rightarrow> py_float option \<Rightarrow> py_float \<Rightarrow> string \<Rightarrow> string \<Rightarrow> task \<Rightarrow> nat \<Rightarrow> 'e \<Rightarrow> run_record \<times> 'e" where
  "run_once w sandbox timeout cpt provider model t rep e =
     (let (th, ms, e1) = think w e t timeout;
          sol = (case th of Thought s \<Rightarrow> Some s | _ \<Rightarrow> None);
          err = (case th of Thought _ \<Rightarrow> None | ThinkTimeout \<Rightarrow> Some (Timeout timeout) | ThinkRaised cls msg \<Rightarrow> Some (Raised [] cls msg));
          (tok, calls, tin, tout) = delta_stats (get_stats w e1) (get_stats w e);
          ((score, pass, sm), err2, e2) = judge_cell w t sol err e1;
          ((sb, sbsm), err3, e3) = sandbox_cell w sandbox sol err2 e2
      in (\<lparr>r_task = t, r_provider = provider, r_model = model, repeat_index = rep, duration_ms = py_round 2 ms,
           tokens_input = tin, tokens_output = tout, total_tokens = tok, llm_calls = calls,
           r_score = score, r_passed = pass, r_summary = sm,
           solution_quality = (case sol of None \<Rightarrow> [] | Some s \<Rightarrow> s_quality s),
           code_blocks = (case sol of None \<Rightarrow> 0 | Some s \<Rightarrow> length (s_blocks s)),
           r_sandbox = sb, r_sandbox_summary = sbsm, cost_estimate = py_round 8 (cpt * of_int tok), r_error = err3,
           r_files = attribute_file_costs (case sol of None \<Rightarrow> [] | Some s \<Rightarrow> s_blocks s) tin tout cpt\<rparr>, e3))"

section \<open>The matrix\<close>

record exp_config =
  providers :: "(string \<times> py_float \<times> string list) list"
  tasks :: "task list"
  repetitions :: nat
  timeout_seconds :: "py_float option"
  sandbox_on :: bool
  neurosymbolic :: bool

text \<open>
  The state of a run: the engines by provider and model, each with the number it was made under, the stale
  ones, the cells written so far (\<open>runs.jsonl\<close> and \<open>results.json\<close>), how many engines were made, and which
  were shut down, in order.
\<close>

record 'e matrix =
  engines :: "(string \<times> string, nat \<times> 'e) dict"
  stale :: "(string \<times> string) set"
  written :: "run_record list"
  made :: nat
  shut :: "nat list"

definition run_cell :: "'e world \<Rightarrow> exp_config \<Rightarrow> py_float \<Rightarrow> string \<times> string \<Rightarrow> task \<times> nat \<Rightarrow> 'e matrix \<Rightarrow> 'e matrix" where
  "run_cell w x cpt key cell m =
     (case map_of (engines m) key of
        None \<Rightarrow> m
      | Some (n, e) \<Rightarrow>
          (let (r, e') = run_once w (sandbox_on x) (timeout_seconds x) cpt (fst key) (snd key) (fst cell) (snd cell) e
           in m\<lparr>engines := dict_set key (n, e') (engines m), written := written m @ [r],
                stale := (case r_error r of Some f \<Rightarrow> if is_timeout f then insert key (stale m) else stale m | None \<Rightarrow> stale m)\<rparr>))"

definition cells :: "exp_config \<Rightarrow> (task \<times> nat) list" where
  "cells x = concat (map (\<lambda>t. map (Pair t) [1..<Suc (repetitions x)]) (tasks x))"

definition drop_stale :: "string \<times> string \<Rightarrow> 'e matrix \<Rightarrow> 'e matrix" where
  "drop_stale key m =
     (if key \<in> stale m then
        m\<lparr>engines := dict_del key (engines m), stale := stale m - {key},
          shut := shut m @ (case map_of (engines m) key of None \<Rightarrow> [] | Some (n, _) \<Rightarrow> [n])\<rparr>
      else m)"

definition get_engine :: "'e world \<Rightarrow> string \<times> string \<Rightarrow> 'e matrix \<Rightarrow> string + 'e matrix" where
  "get_engine w key m =
     (if dict_has (engines m) key then Inr m
      else (case factory w (made m) (fst key) (snd key) of
              Inl msg \<Rightarrow> Inl msg
            | Inr e \<Rightarrow> Inr (m\<lparr>engines := dict_set key (made m, e) (engines m), made := made m + 1\<rparr>)))"

text \<open>One model: its engine, then its cells. An engine that cannot be made ends the run.\<close>

definition run_model :: "'e world \<Rightarrow> exp_config \<Rightarrow> string \<times> py_float \<times> string \<Rightarrow> 'e matrix \<Rightarrow> string option \<times> 'e matrix" where
  "run_model w x pm m =
     (case pm of (provider, cpt, model) \<Rightarrow>
        (let m1 = drop_stale (provider, model) m
         in case get_engine w (provider, model) m1 of
              Inl msg \<Rightarrow> (Some msg, m1)
            | Inr m2 \<Rightarrow> (None, foldl (\<lambda>m cell. run_cell w x cpt (provider, model) cell m) m2 (cells x))))"

fun run_models :: "'e world \<Rightarrow> exp_config \<Rightarrow> (string \<times> py_float \<times> string) list \<Rightarrow> 'e matrix \<Rightarrow> string option \<times> 'e matrix" where
  "run_models w x [] m = (None, m)"
| "run_models w x (pm # pms) m =
     (case run_model w x pm m of (Some msg, m') \<Rightarrow> (Some msg, m') | (None, m') \<Rightarrow> run_models w x pms m')"

definition models :: "exp_config \<Rightarrow> (string \<times> py_float \<times> string) list" where
  "models x = concat (map (\<lambda>(p, cpt, ms). map (\<lambda>m. (p, cpt, m)) ms) (providers x))"

definition shutdown_all :: "'e matrix \<Rightarrow> 'e matrix" where
  "shutdown_all m = m\<lparr>engines := [], shut := shut m @ map (\<lambda>(_, n, _). n) (engines m)\<rparr>"

definition run_matrix :: "'e world \<Rightarrow> exp_config \<Rightarrow> (string + run_record list) \<times> 'e matrix" where
  "run_matrix w x =
     (let (err, m) = run_models w x (models x) \<lparr>engines = [], stale = {}, written = [], made = 0, shut = []\<rparr>
      in (case err of None \<Rightarrow> Inr (written m) | Some msg \<Rightarrow> Inl msg, shutdown_all m))"

section \<open>The environment\<close>

type_synonym env = "(string, string) dict"

definition NEURO :: string where
  "NEURO = ''NOEMA_NEUROSYMBOLIC__ENABLED''"

definition apply_settings :: "bool \<Rightarrow> env \<Rightarrow> env" where
  "apply_settings b e = dict_set NEURO (if b then ''true'' else ''false'') e"

text \<open>
  \<open>_restore_environment\<close> goes over a copy of the current environment: a key that was not saved is removed, and
  one whose value differs from its value in the copy is set to that.
\<close>

definition restore_environment :: "env \<Rightarrow> env \<Rightarrow> env" where
  "restore_environment saved e =
     foldl (\<lambda>cur (k, v). if \<not> dict_has saved k then dict_del k cur
                         else if dict_index cur k \<noteq> Inr v then dict_set k v cur else cur) e e"

definition run_environment :: "bool \<Rightarrow> (env \<Rightarrow> env) \<Rightarrow> env \<Rightarrow> env" where
  "run_environment b body e = restore_environment e (body (apply_settings b e))"

section \<open>The summary\<close>

definition mean :: "py_float list \<Rightarrow> py_float" where
  "mean xs = (if xs = [] then 0 else sum_list xs / of_nat (length xs))"

record summary_row =
  sr_provider :: string
  sr_model :: string
  sr_n :: nat
  mean_judge_score :: py_float
  stddev_judge_score :: py_float
  mean_latency_ms :: py_float
  stddev_latency_ms :: py_float
  mean_total_tokens :: py_float
  mean_cost :: py_float
  sandbox_pass_rate :: "py_float option"
  error_rate :: py_float

definition groups :: "run_record list \<Rightarrow> (string \<times> string, run_record list) dict" where
  "groups rs = foldl (\<lambda>d r. let k = (r_provider r, r_model r) in dict_set k (dict_get d k [] @ [r]) d) [] rs"

definition summary_row_of :: "(py_float list \<Rightarrow> py_float) \<Rightarrow> (string \<times> string) \<times> run_record list \<Rightarrow> summary_row" where
  "summary_row_of stdev g =
     (case g of ((provider, model), rs) \<Rightarrow>
        (let sd = (\<lambda>xs. if 1 < length xs then stdev xs else 0);
             sandbox = List.map_filter r_sandbox rs
         in \<lparr>sr_provider = provider, sr_model = model, sr_n = length rs,
             mean_judge_score = py_round 4 (mean (map r_score rs)), stddev_judge_score = py_round 4 (sd (map r_score rs)),
             mean_latency_ms = py_round 2 (mean (map duration_ms rs)), stddev_latency_ms = py_round 2 (sd (map duration_ms rs)),
             mean_total_tokens = py_round 1 (mean (map (\<lambda>r. of_int (total_tokens r)) rs)),
             mean_cost = py_round 8 (mean (map cost_estimate rs)),
             sandbox_pass_rate = (if sandbox = [] then None
               else Some (py_round 4 (of_nat (length (filter id sandbox)) / of_nat (length sandbox)))),
             error_rate = py_round 4 (mean (map (\<lambda>r. if r_error r = None then 0 else 1) rs))\<rparr>))"

definition summarize :: "(py_float list \<Rightarrow> py_float) \<Rightarrow> run_record list \<Rightarrow> summary_row list" where
  "summarize stdev rs = map (summary_row_of stdev) (sort_key fst (groups rs))"

section \<open>Shares of the files\<close>

definition totals :: "file_share list \<Rightarrow> int \<times> int" where
  "totals rows = (sum_list (map f_input rows), sum_list (map f_output rows))"

lemma cost_row_simps [simp]:
  "f_path (cost_row cpt p n i ou) = p" "f_lines (cost_row cpt p n i ou) = n" "f_input (cost_row cpt p n i ou) = i"
  "f_output (cost_row cpt p n i ou) = ou" "f_total (cost_row cpt p n i ou) = i + ou"
  "f_cost (cost_row cpt p n i ou) = py_round 8 (cpt * of_int (i + ou))"
  by (simp_all add: cost_row_def)

lemma cost_rows_totals:
  "fs \<noteq> [] \<Longrightarrow> sum_list (map f_input (cost_rows cpt tin tout tot done_in done_out fs)) = tin - done_in \<and>
     sum_list (map f_output (cost_rows cpt tin tout tot done_in done_out fs)) = tout - done_out"
  by (induction cpt tin tout tot done_in done_out fs rule: cost_rows.induct) (auto simp: Let_def)

lemma cost_rows_shape:
  "map (\<lambda>r. (f_path r, f_lines r)) (cost_rows cpt tin tout tot done_in done_out fs) = fs \<and>
   (\<forall>r \<in> set (cost_rows cpt tin tout tot done_in done_out fs). f_total r = f_input r + f_output r \<and> f_cost r = py_round 8 (cpt * of_int (f_total r)))"
  by (induction cpt tin tout tot done_in done_out fs rule: cost_rows.induct) (auto simp: Let_def)

lemma cost_rows_early:
  "i < length fs - 1 \<Longrightarrow> f_input (cost_rows cpt tin tout tot done_in done_out fs ! i) = round_half_even (of_int tin * (of_nat (snd (fs ! i)) / of_nat tot)) \<and>
     f_output (cost_rows cpt tin tout tot done_in done_out fs ! i) = round_half_even (of_int tout * (of_nat (snd (fs ! i)) / of_nat tot))"
  by (induction cpt tin tout tot done_in done_out fs arbitrary: i rule: cost_rows.induct) (auto simp: Let_def nth_Cons' less_diff_conv)

text \<open>
  The last share is off by at most half a token for every file before it: the deviation of a list of numbers
  with a given sum from shares with the same sum.
\<close>

lemma last_absorbs:
  fixes x y :: "rat list"
  assumes "length x = length y" and "x \<noteq> []" and "sum_list x = sum_list y" and "\<And>i. i < length x - 1 \<Longrightarrow> \<bar>x ! i - y ! i\<bar> \<le> c"
  shows "\<bar>last x - last y\<bar> \<le> of_nat (length x - 1) * c"
proof -
  have sums: "sum_list z = sum_list (butlast z) + last z" if "z \<noteq> []" for z :: "rat list"
    using that by (metis append_butlast_last_id sum_list.append sum_list_simps(1,2) add_0_right)
  have y: "y \<noteq> []" using assms by auto
  have "\<bar>sum_list u - sum_list v\<bar> \<le> of_nat (length u) * c" if "length u = length v" "\<And>i. i < length u \<Longrightarrow> \<bar>u ! i - v ! i\<bar> \<le> c" for u v :: "rat list"
    using that
  proof (induction u v rule: list_induct2)
    case (Cons a u b v)
    have "\<bar>a - b\<bar> \<le> c" using Cons.prems [of 0] by simp
    moreover have "\<bar>sum_list u - sum_list v\<bar> \<le> of_nat (length u) * c"
    proof (rule Cons.IH)
      show "\<bar>u ! i - v ! i\<bar> \<le> c" if "i < length u" for i using Cons.prems [of "Suc i"] that by simp
    qed
    ultimately show ?case by (simp add: algebra_simps)
  qed simp
  from this [of "butlast x" "butlast y"] have "\<bar>sum_list (butlast x) - sum_list (butlast y)\<bar> \<le> of_nat (length x - 1) * c"
    using assms(1,4) by (simp add: nth_butlast)
  moreover have "last x - last y = sum_list (butlast y) - sum_list (butlast x)" using sums [OF assms(2)] sums [OF y] assms(3) by simp
  ultimately show ?thesis by (simp add: abs_minus_commute)
qed

definition sized_files :: "(string \<times> string) list \<Rightarrow> (string \<times> nat) list" where
  "sized_files blocks = map (\<lambda>(p, content). (p, count_lines content)) (filter (\<lambda>(p, _). p \<noteq> []) blocks)"

lemma attribute_eq:
  "attribute_file_costs blocks tin tout cpt =
     (if sum_list (map snd (sized_files blocks)) = 0 \<or> tin \<le> 0 \<and> tout \<le> 0 then []
      else cost_rows cpt tin tout (sum_list (map snd (sized_files blocks))) 0 0 (sized_files blocks))"
  unfolding attribute_file_costs_def sized_files_def Let_def ..

lemma share_bound:
  fixes fs :: "(string \<times> nat) list" and get :: "file_share \<Rightarrow> int"
  assumes "length rows = length fs" and "fs \<noteq> []" and "sum_list (map get rows) = t" and "tot = sum_list (map snd fs)" and "tot \<noteq> 0"
    and "\<And>i. i < length fs - 1 \<Longrightarrow> get (rows ! i) = round_half_even (of_int t * (of_nat (snd (fs ! i)) / of_nat tot))" and "i < length fs"
  shows "\<bar>of_int (get (rows ! i)) - of_int t * of_nat (snd (fs ! i)) / of_nat tot\<bar> \<le> (of_nat (length fs) / 2 :: rat)"
proof -
  let ?y = "map (\<lambda>f. of_int t * (of_nat (snd f) / of_nat tot)) fs :: rat list"
  let ?x = "map (\<lambda>r. of_int (get r)) rows :: rat list"
  have "sum_list ?y = of_int t * (of_nat (sum_list (map snd fs)) / of_nat tot)"
    by (induction fs) (simp_all add: algebra_simps add_divide_distrib)
  also have "\<dots> = of_int t" unfolding assms(4) [symmetric] using assms(5) by simp
  finally have "sum_list ?y = of_int t" .
  moreover have "sum_list ?x = of_int (sum_list (map get rows))" by (induction rows) simp_all
  ultimately have sums: "sum_list ?x = sum_list ?y" using assms(3) by simp
  have early: "\<bar>?x ! i - ?y ! i\<bar> \<le> 1 / 2" if "i < length fs - 1" for i
    using that assms(1,6) round_half_even_error by simp
  have n: "(of_nat (length fs - 1) * (1 / 2) :: rat) \<le> of_nat (length fs) / 2" "(1 / 2 :: rat) \<le> of_nat (length fs) / 2"
    using assms(2) by (cases fs; simp)+
  show ?thesis
  proof (cases "i < length fs - 1")
    case True
    then show ?thesis using early [OF True] n(2) assms(1,7) by simp
  next
    case False
    then have "i = length fs - 1" using assms(7) by simp
    moreover have "\<bar>last ?x - last ?y\<bar> \<le> of_nat (length ?x - 1) * (1 / 2)"
      by (rule last_absorbs) (use assms(1,2) sums early in auto)
    moreover have "last ?x = of_int (get (rows ! (length fs - 1)))" "last ?y = of_int t * (of_nat (snd (fs ! (length fs - 1))) / of_nat tot)"
      using assms(1,2) by (subst last_conv_nth; auto)+
    ultimately show ?thesis using order_trans [OF _ n(1)] assms(1) by simp
  qed
qed

text \<open>
  The token counts that a run attributes to its files add up exactly to the counts of the run, file by
  file in the order of the solution; each file's counts differ from its share by lines by at most half a
  token per file, and its cost is that of its tokens. Nothing is attributed when there are no lines or
  no tokens.
\<close>

theorem file_costs_add_up:
  fixes blocks tin tout cpt
  defines "rows \<equiv> attribute_file_costs blocks tin tout cpt" and "fs \<equiv> sized_files blocks"
  assumes "rows \<noteq> []"
  shows "map (\<lambda>r. (f_path r, f_lines r)) rows = fs \<and> sum_list (map f_input rows) = tin \<and> sum_list (map f_output rows) = tout \<and>
    (\<forall>i < length rows. f_total (rows ! i) = f_input (rows ! i) + f_output (rows ! i) \<and>
       f_cost (rows ! i) = py_round 8 (cpt * of_int (f_total (rows ! i))) \<and>
       \<bar>of_int (f_input (rows ! i)) - of_int tin * of_nat (f_lines (rows ! i)) / of_nat (sum_list (map f_lines rows))\<bar> \<le> (of_nat (length rows) / 2 :: rat) \<and>
       \<bar>of_int (f_output (rows ! i)) - of_int tout * of_nat (f_lines (rows ! i)) / of_nat (sum_list (map f_lines rows))\<bar> \<le> (of_nat (length rows) / 2 :: rat))"
proof -
  let ?tot = "sum_list (map snd fs)"
  have tot: "?tot \<noteq> 0" and rows: "rows = cost_rows cpt tin tout ?tot 0 0 fs"
    using assms(3) by (auto simp: rows_def fs_def attribute_eq split: if_splits)
  have fs: "fs \<noteq> []" using tot by auto
  note shape = cost_rows_shape [of cpt tin tout ?tot 0 0 fs, folded rows]
  note sums = cost_rows_totals [OF fs, of cpt tin tout ?tot 0 0, folded rows]
  have len: "length rows = length fs" using shape by (metis length_map)
  have nth: "f_lines (rows ! i) = snd (fs ! i)" if "i < length rows" for i
    using shape that by (metis (no_types, lifting) nth_map snd_conv)
  have lines: "map f_lines rows = map snd fs" using shape by (metis (no_types, lifting) map_eq_conv map_map o_apply snd_conv)
  note early = cost_rows_early [where cpt = cpt and tin = tin and tout = tout and tot = "?tot" and done_in = 0 and done_out = 0 and fs = fs, folded rows]
  have bounds: "\<bar>of_int (f_input (rows ! i)) - of_int tin * of_nat (snd (fs ! i)) / of_nat ?tot\<bar> \<le> (of_nat (length fs) / 2 :: rat)"
      "\<bar>of_int (f_output (rows ! i)) - of_int tout * of_nat (snd (fs ! i)) / of_nat ?tot\<bar> \<le> (of_nat (length fs) / 2 :: rat)"
    if "i < length fs" for i
    by (rule share_bound [OF len fs]; use sums early tot that in simp)+
  show ?thesis using shape sums len lines nth bounds by auto
qed

definition demo_blocks :: "(string \<times> string) list" where
  "demo_blocks = [(''a'', ''x''), (''b'', ''x''), (''c'', ''x''), (''d'', ''x''), (''e'', ''x'')]"

theorem file_costs_add_up_witness:
  "attribute_file_costs demo_blocks 7 0 1 \<noteq> [] \<and> sum_list (map f_input (attribute_file_costs demo_blocks 7 0 1)) = 7"
proof -
  have "attribute_file_costs demo_blocks 7 0 1 \<noteq> []" by code_simp
  from this file_costs_add_up [OF this] show ?thesis by blast
qed

text \<open>The last file may get a negative number of tokens: three tokens over five files of one line.\<close>

lemma negative_share:
  "map f_input (attribute_file_costs demo_blocks 3 0 1) = [1, 1, 1, 1, -1]"
  by code_simp

section \<open>The matrix is complete\<close>

type_synonym cell_id = "string \<times> string \<times> task \<times> nat"

definition cell_id :: "run_record \<Rightarrow> cell_id" where
  "cell_id r = (r_provider r, r_model r, r_task r, repeat_index r)"

definition planned :: "exp_config \<Rightarrow> (string \<times> py_float \<times> string) list \<Rightarrow> cell_id list" where
  "planned x pms = concat (map (\<lambda>(p, _, m). map (\<lambda>(t, rep). (p, m, t, rep)) (cells x)) pms)"

definition numbers :: "('k, nat \<times> 'e) dict \<Rightarrow> nat list" where
  "numbers d = map (\<lambda>(_, n, _). n) d"

text \<open>Every engine that was made is either in use or was shut down once.\<close>

definition engines_inv :: "'e matrix \<Rightarrow> bool" where
  "engines_inv m \<longleftrightarrow> wf_dict (engines m) \<and> mset (shut m @ numbers (engines m)) = mset [0..<made m]"

lemma numbers_update: "map_of d k = Some (n, e) \<Longrightarrow> numbers (dict_set k (n, e') d) = numbers d"
  by (induction d) (auto simp: numbers_def)

lemma numbers_new: "\<not> dict_has d k \<Longrightarrow> numbers (dict_set k (n, e) d) = numbers d @ [n]"
  by (induction d) (auto simp: numbers_def dict_has_iff split: if_splits)

lemma numbers_del: "wf_dict d \<Longrightarrow> map_of d k = Some (n, e) \<Longrightarrow> mset (numbers d) = add_mset n (mset (numbers (dict_del k d)))"
proof (induction d)
  case (Cons a d)
  show ?case
  proof (cases "fst a = k")
    case True
    then have "k \<notin> fst ` set d" using Cons.prems by (auto simp: wf_dict_def)
    then have "dict_del k d = d" by (simp add: delete_notin_dom)
    then show ?thesis using True Cons.prems by (auto simp: numbers_def split: prod.splits)
  next
    case False
    then show ?thesis using Cons by (auto simp: numbers_def wf_dict_def split: prod.splits if_splits)
  qed
qed simp

lemma run_once_id: "cell_id (fst (run_once w sb tmo cpt p m t rep e)) = (p, m, t, rep)"
  by (simp add: run_once_def cell_id_def Let_def split_beta)

lemma run_cell_effect:
  assumes "engines_inv m" and "dict_has (engines m) key"
  shows "engines_inv (run_cell w x cpt key cell m)" and "dict_has (engines (run_cell w x cpt key cell m)) key"
    and "map cell_id (written (run_cell w x cpt key cell m)) = map cell_id (written m) @ [(fst key, snd key, fst cell, snd cell)]"
proof -
  obtain n e where e: "map_of (engines m) key = Some (n, e)" using assms(2) by (auto simp: dict_has_iff)
  obtain r e' where r: "run_once w (sandbox_on x) (timeout_seconds x) cpt (fst key) (snd key) (fst cell) (snd cell) e = (r, e')" by fastforce
  have "cell_id r = (fst key, snd key, fst cell, snd cell)" using run_once_id [of w "sandbox_on x"] r by (metis fst_conv)
  then show "map cell_id (written (run_cell w x cpt key cell m)) = map cell_id (written m) @ [(fst key, snd key, fst cell, snd cell)]"
    by (simp add: run_cell_def e r)
  show "engines_inv (run_cell w x cpt key cell m)" "dict_has (engines (run_cell w x cpt key cell m)) key"
    using assms(1) numbers_update [OF e] by (simp_all add: run_cell_def e r engines_inv_def dict_has_iff)
qed

lemma run_cells_effect:
  fixes w x cpt and cs :: "(task \<times> nat) list"
  assumes "engines_inv m" and "dict_has (engines m) key"
  defines "m' \<equiv> foldl (\<lambda>m cell. run_cell w x cpt key cell m) m cs"
  shows "engines_inv m' \<and> map cell_id (written m') = map cell_id (written m) @ map (\<lambda>(t, rep). (fst key, snd key, t, rep)) cs"
  unfolding m'_def using assms(1,2)
proof (induction cs arbitrary: m)
  case (Cons c cs)
  show ?case using Cons.IH [OF run_cell_effect(1,2) [OF Cons.prems]] run_cell_effect(3) [OF Cons.prems] by (simp add: split_beta)
qed simp

lemma drop_stale_effect:
  assumes "engines_inv m"
  shows "engines_inv (drop_stale key m)" and "written (drop_stale key m) = written m"
proof -
  have "dict_del key (engines m) = engines m" if "map_of (engines m) key = None"
    using that by (simp add: delete_notin_dom map_of_eq_None_iff)
  then show "engines_inv (drop_stale key m)"
    using assms numbers_del [of "engines m" key] by (auto simp: drop_stale_def engines_inv_def split: option.splits)
qed (simp add: drop_stale_def)

lemma get_engine_effect:
  assumes "engines_inv m" and "get_engine w key m = Inr m'"
  shows "engines_inv m'" and "dict_has (engines m') key" and "written m' = written m"
  using assms numbers_new [of "engines m" key]
  by (auto simp: get_engine_def engines_inv_def dict_has_iff atLeastLessThanSuc split: if_splits sum.splits)

lemma run_model_effect:
  assumes "engines_inv m" and "run_model w x pm m = (err, m')"
  shows "engines_inv m'" and "err = None \<Longrightarrow> map cell_id (written m') = map cell_id (written m) @ planned x [pm]"
    and "err = Some msg \<Longrightarrow> written m' = written m \<and> (\<exists>n. factory w n (fst pm) (snd (snd pm)) = Inl msg)"
proof -
  obtain p cpt mo where pm: "pm = (p, cpt, mo)" by (rule prod_cases3)
  note d = drop_stale_effect [OF assms(1), of "(p, mo)"]
  have "engines_inv m' \<and> (err = None \<longrightarrow> map cell_id (written m') = map cell_id (written m) @ planned x [pm]) \<and>
      (\<forall>msg. err = Some msg \<longrightarrow> written m' = written m \<and> (\<exists>n. factory w n (fst pm) (snd (snd pm)) = Inl msg))"
  proof (cases "get_engine w (p, mo) (drop_stale (p, mo) m)")
    case (Inl msg)
    then show ?thesis using assms(2) d by (auto simp: run_model_def pm get_engine_def split: if_splits sum.splits)
  next
    case (Inr m2)
    note g = get_engine_effect [OF d(1) Inr]
    have m': "err = None" "m' = foldl (\<lambda>m cell. run_cell w x cpt (p, mo) cell m) m2 (cells x)"
      using assms(2) Inr by (simp_all add: run_model_def pm)
    show ?thesis using run_cells_effect [OF g(1,2), of w x cpt "cells x"] d(2) g(3) by (simp add: m' planned_def pm)
  qed
  then show "engines_inv m'" and "err = None \<Longrightarrow> map cell_id (written m') = map cell_id (written m) @ planned x [pm]"
    and "err = Some msg \<Longrightarrow> written m' = written m \<and> (\<exists>n. factory w n (fst pm) (snd (snd pm)) = Inl msg)" by auto
qed

lemma run_models_effect:
  assumes "engines_inv m" and "run_models w x pms m = (err, m')"
  shows "engines_inv m' \<and> (\<exists>pre post. pms = pre @ post \<and> map cell_id (written m') = map cell_id (written m) @ planned x pre \<and>
    (case err of None \<Rightarrow> post = [] | Some msg \<Rightarrow> \<exists>n p c mo rest. post = (p, c, mo) # rest \<and> factory w n p mo = Inl msg))"
  using assms
proof (induction pms arbitrary: m)
  case Nil
  then show ?case by (simp add: planned_def)
next
  case (Cons pm pms)
  obtain err1 m1 where s: "run_model w x pm m = (err1, m1)" by fastforce
  note eff = run_model_effect [OF Cons.prems(1) s]
  show ?case
  proof (cases err1)
    case None
    with Cons.IH [OF eff(1)] Cons.prems(2) s obtain pre post where pp: "pms = pre @ post"
      "map cell_id (written m') = map cell_id (written m1) @ planned x pre" "engines_inv m'"
      "case err of None \<Rightarrow> post = [] | Some msg \<Rightarrow> \<exists>n p c mo rest. post = (p, c, mo) # rest \<and> factory w n p mo = Inl msg" by auto
    have "map cell_id (written m') = map cell_id (written m) @ planned x (pm # pre)"
      using pp(2) eff(2) [OF None] by (simp add: planned_def)
    moreover have "pm # pms = (pm # pre) @ post" using pp(1) by simp
    ultimately show ?thesis using pp(3,4) by blast
  next
    case (Some msg)
    obtain p c mo where pm: "pm = (p, c, mo)" by (rule prod_cases3)
    have "err = Some msg" "m' = m1" using Cons.prems(2) s Some by auto
    moreover have "pm # pms = [] @ (p, c, mo) # pms" by (simp add: pm)
    ultimately show ?thesis using eff(1) eff(3) [OF Some] by (intro conjI exI [of _ "[]"] exI [of _ "pm # pms"]) (auto simp: pm planned_def)
  qed
qed


definition demo_task :: task where
  "demo_task = \<lparr>t_title = ''t'', t_description = [], t_tags = []\<rparr>"

text \<open>An engine that counts the cells it is given, and times out in the first.\<close>

definition demo_world :: "nat world" where
  "demo_world = \<lparr>factory = (\<lambda>n p m. if m = ''bad'' then Inl ''no engine'' else Inr 0), get_stats = (\<lambda>e. (int e, int e, 0, 0)),
     think = (\<lambda>e t tmo. (if e = 0 then ThinkTimeout else Thought \<lparr>s_quality = ''good'', s_blocks = []\<rparr>, 5, e + 1)),
     judge = (\<lambda>e s t. (Inr (1, True, []), e)), validate = (\<lambda>e s. (Inr (True, []), e))\<rparr>"

definition demo_experiment :: "string \<Rightarrow> exp_config" where
  "demo_experiment second = \<lparr>providers = [(''p'', 1, [''m'', second])], tasks = [demo_task], repetitions = 2, timeout_seconds = Some 1,
     sandbox_on = False, neurosymbolic = False\<rparr>"


text \<open>
  A timed-out engine is marked stale but replaced only when its model comes up again in the list of
  providers: the remaining cells of the model still use it. Here engine 0 answers both cells, and no
  engine was shut down before the end.
\<close>

lemma stale_engine_reused:
  "made (snd (run_matrix demo_world (demo_experiment ''n''))) = 2"
  "map (\<lambda>r. (r_error r = None, total_tokens r)) (written (snd (run_matrix demo_world (demo_experiment ''n'')))) =
     [(False, 1), (True, 1), (False, 1), (True, 1)]"
  by code_simp+

section \<open>The environment after a run\<close>

lemma restore_loop:
  assumes "distinct (map fst l)" and "\<And>k v. (k, v) \<in> set l \<Longrightarrow> map_of cur k = Some v"
  shows "map_of (foldl (\<lambda>cur (k, v). if \<not> dict_has saved k then dict_del k cur
      else if dict_index cur k \<noteq> Inr v then dict_set k v cur else cur) cur l) q =
    (if \<not> dict_has saved q \<and> q \<in> fst ` set l then None else map_of cur q)"
  using assms
proof (induction l arbitrary: cur)
  case (Cons a l)
  obtain k v where a: "a = (k, v)" by fastforce
  have k: "map_of cur k = Some v" "k \<notin> fst ` set l" using Cons.prems by (auto simp: a)
  show ?case
  proof (cases "dict_has saved k")
    case True
    moreover have "dict_index cur k = Inr v" using k(1) by (simp add: dict_index_def)
    ultimately show ?thesis using Cons.IH [of cur] Cons.prems by (auto simp: a)
  next
    case False
    have "map_of (dict_del k cur) k' = Some v'" if "(k', v') \<in> set l" for k' v'
      using that Cons.prems(2) [of k' v'] k(2) by (auto simp: a image_iff)
    then show ?thesis using Cons.IH [of "dict_del k cur"] Cons.prems(1) False by (auto simp: a)
  qed
qed simp

text \<open>
  What restoring the environment does: variables that were not there before are removed, and all others
  keep the value they have after the run, since the loop compares them with a copy of themselves.
\<close>

lemma restore_environment_effect:
  assumes "wf_dict e"
  shows "map_of (restore_environment saved e) k = (if dict_has saved k then map_of e k else None)"
  using restore_loop [of e e saved k] assms by (auto simp: restore_environment_def wf_dict_def map_of_eq_None_iff)

lemma set_variable_not_restored:
  assumes "wf_dict e" and "dict_has e NEURO"
  shows "map_of (run_environment b id e) NEURO = Some (if b then ''true'' else ''false'')"
    and "k \<noteq> NEURO \<Longrightarrow> map_of (run_environment b id e) k = map_of e k"
  using assms by (auto simp: run_environment_def restore_environment_effect apply_settings_def dict_has_iff)

lemma unset_variable_removed:
  assumes "wf_dict e" and "\<not> dict_has e NEURO"
  shows "map_of (run_environment b id e) = map_of e"
  using assms by (auto simp: run_environment_def restore_environment_effect apply_settings_def dict_has_iff fun_eq_iff)

section \<open>What a valid configuration has\<close>

lemma check_Inr [simp]: "check b = Inr u \<longleftrightarrow> b"
  by (simp add: check_def)

lemma each_Inr: "each f xs = Inr u \<longleftrightarrow> (\<forall>x \<in> set xs. f x = Inr ())"
  by (induction xs) (auto simp: bind_res_eq_Inr)

lemma validated_provider:
  "validate_provider p = Inr () \<Longrightarrow> \<exists>d ms. p = JDict d \<and> is_true (map_of d ''provider'') \<and> map_of d ''models'' = Some (JList ms) \<and>
     ms \<noteq> [] \<and> (\<forall>m \<in> set ms. \<exists>s. m = JStr s \<and> s \<noteq> [])"
  by (auto simp: validate_provider_def bind_res_eq_Inr list_all_iff split: json.splits option.splits)

lemma validated_experiment:
  assumes "validate_experiment cfg = Inr d"
  shows "cfg = JDict d" and "\<exists>m. map_of d ''meta'' = Some (JDict m) \<and> is_true (map_of m ''name'')"
    and "\<exists>ps. map_of d ''providers'' = Some (JList ps) \<and> ps \<noteq> [] \<and> (\<forall>p \<in> set ps. validate_provider p = Inr ())"
    and "\<exists>ts. map_of d ''tasks'' = Some (JList ts) \<and> ts \<noteq> [] \<and> (\<forall>t \<in> set ts. \<exists>td. t = JDict td \<and> is_true (map_of td ''title''))"
    and "positive_int (dict_get d ''repetitions'' (JInt 1))"
  using assms by (auto simp: validate_experiment_def bind_res_eq_Inr each_Inr split: json.splits option.splits)

section \<open>What a summary says\<close>

abbreviation record_key :: "run_record \<Rightarrow> string \<times> string" where
  "record_key r \<equiv> (r_provider r, r_model r)"

lemma groups_snoc: "groups (rs @ [r]) = dict_set (record_key r) (dict_get (groups rs) (record_key r) [] @ [r]) (groups rs)"
  by (simp add: groups_def Let_def)

lemma groups_facts:
  "wf_dict (groups rs)" "dict_get (groups rs) k [] = filter (\<lambda>r. record_key r = k) rs" "fst ` set (groups rs) = record_key ` set rs"
proof (induction rs rule: rev_induct)
  case Nil
  show "wf_dict (groups [])" "dict_get (groups []) k [] = filter (\<lambda>r. record_key r = k) []" "fst ` set (groups []) = record_key ` set []"
    by (simp_all add: groups_def dict_get_def)
next
  case (snoc r rs)
  show "wf_dict (groups (rs @ [r]))" using snoc by (simp add: groups_snoc)
  show "dict_get (groups (rs @ [r])) k [] = filter (\<lambda>r. record_key r = k) (rs @ [r])"
    using snoc(2) by (auto simp: groups_snoc dict_get_def)
  show "fst ` set (groups (rs @ [r])) = record_key ` set (rs @ [r])"
    using snoc(3) by (simp add: groups_snoc fst_set_dict_set insert_commute)
qed

lemma in_groups: "(k, g) \<in> set (groups rs) \<longleftrightarrow> g = filter (\<lambda>r. record_key r = k) rs \<and> k \<in> record_key ` set rs"
proof -
  have "(k, g) \<in> set (groups rs) \<longleftrightarrow> map_of (groups rs) k = Some g" using groups_facts(1) by (simp add: wf_dict_def)
  also have "\<dots> \<longleftrightarrow> dict_get (groups rs) k [] = g \<and> k \<in> fst ` set (groups rs)"
    by (auto simp: dict_get_def split: option.splits) (auto simp: map_of_eq_None_iff dest: map_of_SomeD intro: rev_image_eqI)
  finally show ?thesis using groups_facts(2,3) by auto
qed

text \<open>A summary has one row for each provider and model with records, in order, made of exactly its records.\<close>

lemma summarize_rows:
  "set (summarize stdev rs) = (\<lambda>k. summary_row_of stdev (k, filter (\<lambda>r. record_key r = k) rs)) ` record_key ` set rs"
  "sorted (map (\<lambda>r. (sr_provider r, sr_model r)) (summarize stdev rs))"
  "distinct (map (\<lambda>r. (sr_provider r, sr_model r)) (summarize stdev rs))"
proof -
  have key: "(\<lambda>r. (sr_provider r, sr_model r)) \<circ> summary_row_of stdev = fst" by (auto simp: summary_row_of_def Let_def)
  show "set (summarize stdev rs) = (\<lambda>k. summary_row_of stdev (k, filter (\<lambda>r. record_key r = k) rs)) ` record_key ` set rs"
    using in_groups [of _ _ rs] by (auto simp: summarize_def image_iff) force+
  show "sorted (map (\<lambda>r. (sr_provider r, sr_model r)) (summarize stdev rs))" by (simp add: summarize_def key)
  have "distinct (map fst (groups rs))" using groups_facts(1) by (simp add: wf_dict_def)
  then have "distinct (map fst (sort_key fst (groups rs)))" by (metis distinct_sort mset_map mset_sort mset_eq_imp_distinct_iff)
  then show "distinct (map (\<lambda>r. (sr_provider r, sr_model r)) (summarize stdev rs))" by (simp add: summarize_def key)
qed

end
