(* ===== verification/Leaderboard.thy ===== *)
theory Leaderboard
  imports Experiment_Runner
begin

text \<open>
  The leaderboard (\<open>eval/leaderboard.py\<close>): the summaries that the experiment runner writes, merged row by row into
  one entry for each provider and model and ranked.

  The summaries come in the order in which the directories are found, each as the JSON document in it, or
  \<open>None\<close> when it cannot be read. \<open>float\<close> of a string (\<open>float_of\<close>) and \<open>str\<close> of a value that is not a string
  (\<open>str_of\<close>) are arguments; infinities and NaN are not modelled, nor is the Markdown table.
\<close>

section \<open>Reading summaries\<close>

text \<open>The document that the runner writes for a summary.\<close>

definition row_json :: "summary_row \<Rightarrow> json" where
  "row_json r = JDict
     [(''provider'', JStr (sr_provider r)), (''model'', JStr (sr_model r)), (''n'', JInt (int (sr_n r))),
      (''mean_judge_score'', JFloat (mean_judge_score r)), (''stddev_judge_score'', JFloat (stddev_judge_score r)),
      (''mean_latency_ms'', JFloat (mean_latency_ms r)), (''stddev_latency_ms'', JFloat (stddev_latency_ms r)),
      (''mean_total_tokens'', JFloat (mean_total_tokens r)), (''mean_cost'', JFloat (mean_cost r)),
      (''sandbox_pass_rate'', case sandbox_pass_rate r of None \<Rightarrow> JStr [] | Some x \<Rightarrow> JFloat x),
      (''error_rate'', JFloat (error_rate r))]"

definition summary_json :: "string \<Rightarrow> string \<Rightarrow> nat \<Rightarrow> summary_row list \<Rightarrow> json" where
  "summary_json run_id now n rows = JDict
     [(''run_id'', JStr run_id), (''generated_at'', JStr now), (''n_records'', JInt (int n)), (''summary'', JList (map row_json rows))]"

definition read_summary_rows :: "json option \<Rightarrow> (string, json) dict list" where
  "read_summary_rows doc =
     (case doc of
        Some (JDict d) \<Rightarrow>
          (case map_of d ''summary'' of
             Some (JList rows) \<Rightarrow> List.map_filter (\<lambda>r. case r of JDict x \<Rightarrow> Some x | _ \<Rightarrow> None) rows
           | _ \<Rightarrow> [])
      | _ \<Rightarrow> [])"

definition to_float :: "(string \<Rightarrow> py_float option) \<Rightarrow> json \<Rightarrow> py_float" where
  "to_float float_of v =
     (case v of
        JBool b \<Rightarrow> of_bool b
      | JInt i \<Rightarrow> of_int i
      | JFloat x \<Rightarrow> x
      | JStr s \<Rightarrow> (case float_of s of None \<Rightarrow> 0 | Some x \<Rightarrow> x)
      | _ \<Rightarrow> 0)"

section \<open>Merging\<close>

record lrow =
  l_provider :: string
  l_model :: string
  l_runs :: nat
  l_cells :: nat
  l_score :: py_float
  best_score :: py_float
  worst_score :: py_float
  l_latency :: py_float
  l_tokens :: py_float
  l_cost :: py_float
  l_error_rate :: py_float
  l_sandbox :: "py_float option"

definition new_row :: "string \<times> string \<Rightarrow> lrow" where
  "new_row k = \<lparr>l_provider = fst k, l_model = snd k, l_runs = 0, l_cells = 0, l_score = 0, best_score = 0, worst_score = 0,
     l_latency = 0, l_tokens = 0, l_cost = 0, l_error_rate = 0, l_sandbox = None\<rparr>"

definition weighted :: "py_float \<Rightarrow> nat \<Rightarrow> py_float \<Rightarrow> nat \<Rightarrow> py_float" where
  "weighted current current_n v new_n =
     (if current_n + new_n = 0 then 0
      else py_round 4 ((current * of_nat current_n + v * of_nat new_n) / of_nat (current_n + new_n)))"

text \<open>What is read from one row: \<open>n\<close> is at least 1, and \<open>sandbox_pass_rate\<close> counts only when it is a number.\<close>

record entry =
  e_key :: "string \<times> string"
  e_n :: nat
  e_score :: py_float
  e_latency :: py_float
  e_tokens :: py_float
  e_cost :: py_float
  e_error_rate :: py_float
  e_sandbox :: "py_float option"

definition str_value :: "(json \<Rightarrow> string) \<Rightarrow> json \<Rightarrow> string" where
  "str_value str_of j = (case j of JStr s \<Rightarrow> s | _ \<Rightarrow> str_of j)"

definition read_entry :: "(string \<Rightarrow> py_float option) \<Rightarrow> (json \<Rightarrow> string) \<Rightarrow> (string, json) dict \<Rightarrow> entry option" where
  "read_entry float_of str_of row =
     (let p = str_value str_of (dict_get row ''provider'' (JStr []));
          m = str_value str_of (dict_get row ''model'' (JStr []));
          f = (\<lambda>k. to_float float_of (dict_get row k JNull))
      in if p = [] \<or> m = [] then None
         else Some \<lparr>e_key = (p, m), e_n = nat (max 1 (py_trunc (to_float float_of (dict_get row ''n'' (JInt 0))))),
           e_score = f ''mean_judge_score'', e_latency = f ''mean_latency_ms'', e_tokens = f ''mean_total_tokens'',
           e_cost = f ''mean_cost'', e_error_rate = f ''error_rate'',
           e_sandbox = (case dict_get row ''sandbox_pass_rate'' JNull of
              JBool b \<Rightarrow> Some (of_bool b) | JInt i \<Rightarrow> Some (of_int i) | JFloat x \<Rightarrow> Some x | _ \<Rightarrow> None)\<rparr>)"

definition merge :: "entry \<Rightarrow> lrow \<Rightarrow> lrow" where
  "merge e r =
     (let w = (\<lambda>cur v. weighted cur (l_cells r) v (e_n e))
      in r\<lparr>l_runs := l_runs r + 1, l_cells := l_cells r + e_n e, l_score := w (l_score r) (e_score e),
           l_latency := w (l_latency r) (e_latency e), l_tokens := w (l_tokens r) (e_tokens e),
           l_cost := w (l_cost r) (e_cost e), l_error_rate := w (l_error_rate r) (e_error_rate e),
           best_score := max (best_score r) (e_score e),
           worst_score := (if worst_score r = 0 then e_score e else min (worst_score r) (e_score e)),
           l_sandbox := (case e_sandbox e of
              None \<Rightarrow> l_sandbox r
            | Some v \<Rightarrow> Some (case l_sandbox r of None \<Rightarrow> v | Some cur \<Rightarrow> (cur + v) / 2))\<rparr>)"

definition merge_entries :: "entry list \<Rightarrow> (string \<times> string, lrow) dict" where
  "merge_entries es = foldl (\<lambda>acc e. dict_set (e_key e) (merge e (dict_get acc (e_key e) (new_row (e_key e)))) acc) [] es"

definition rank :: "lrow \<Rightarrow> py_float \<times> py_float \<times> py_float \<times> string \<times> string" where
  "rank r = (- l_score r, l_latency r, l_cost r, lower (l_provider r), lower (l_model r))"

definition entries :: "(string \<Rightarrow> py_float option) \<Rightarrow> (json \<Rightarrow> string) \<Rightarrow> json option list \<Rightarrow> entry list" where
  "entries float_of str_of docs = List.map_filter (read_entry float_of str_of) (concat (map read_summary_rows docs))"

definition compute_leaderboard :: "(string \<Rightarrow> py_float option) \<Rightarrow> (json \<Rightarrow> string) \<Rightarrow> json option list \<Rightarrow> int \<Rightarrow> lrow list" where
  "compute_leaderboard float_of str_of docs top_n =
     (let rows = sort_key rank (map snd (merge_entries (entries float_of str_of docs)))
      in if 0 < top_n then take (nat top_n) rows else rows)"

section \<open>Rows and their entries\<close>

definition of_key :: "string \<times> string \<Rightarrow> entry list \<Rightarrow> entry list" where
  "of_key k es = filter (\<lambda>e. e_key e = k) es"

definition merged :: "string \<times> string \<Rightarrow> entry list \<Rightarrow> lrow" where
  "merged k es = foldl (\<lambda>r e. merge e r) (new_row k) es"

lemma merge_entries_snoc:
  "merge_entries (es @ [e]) = dict_set (e_key e) (merge e (dict_get (merge_entries es) (e_key e) (new_row (e_key e)))) (merge_entries es)"
  by (simp add: merge_entries_def)

lemma merge_entries_facts:
  "wf_dict (merge_entries es)" "dict_get (merge_entries es) k (new_row k) = merged k (of_key k es)" "fst ` set (merge_entries es) = e_key ` set es"
proof (induction es arbitrary: k rule: rev_induct)
  case Nil
  show "wf_dict (merge_entries [])" "fst ` set (merge_entries []) = e_key ` set []" by (simp_all add: merge_entries_def)
  show "dict_get (merge_entries []) k (new_row k) = merged k (of_key k [])" for k
    by (simp add: merge_entries_def dict_get_def of_key_def merged_def)
next
  case (snoc e es)
  show "wf_dict (merge_entries (es @ [e]))" using snoc(1) by (simp add: merge_entries_snoc)
  have at: "dict_get (merge_entries es) (e_key e) (new_row (e_key e)) = merged (e_key e) (of_key (e_key e) es)" using snoc(2) .
  show "dict_get (merge_entries (es @ [e])) k (new_row k) = merged k (of_key k (es @ [e]))" for k
  proof (cases "k = e_key e")
    case True
    then show ?thesis using at by (simp add: merge_entries_snoc dict_get_def of_key_def merged_def)
  next
    case False
    then have "of_key k (es @ [e]) = of_key k es" by (simp add: of_key_def)
    then show ?thesis using snoc(2) [of k] False by (simp add: merge_entries_snoc dict_get_def)
  qed
  show "fst ` set (merge_entries (es @ [e])) = e_key ` set (es @ [e])"
    using snoc(3) by (simp add: merge_entries_snoc fst_set_dict_set insert_commute)
qed

lemma in_merge_entries: "(k, r) \<in> set (merge_entries es) \<longleftrightarrow> k \<in> e_key ` set es \<and> r = merged k (of_key k es)"
proof -
  have "(k, r) \<in> set (merge_entries es) \<longleftrightarrow> map_of (merge_entries es) k = Some r" using merge_entries_facts(1) by (simp add: wf_dict_def)
  also have "\<dots> \<longleftrightarrow> k \<in> fst ` set (merge_entries es) \<and> dict_get (merge_entries es) k (new_row k) = r"
    by (auto simp: dict_get_def split: option.splits) (auto simp: map_of_eq_None_iff dest: map_of_SomeD intro: rev_image_eqI)
  finally show ?thesis using merge_entries_facts(2,3) by auto
qed

lemma leaderboard_rows:
  "set (compute_leaderboard float_of str_of docs 0) = (\<lambda>k. merged k (of_key k (entries float_of str_of docs))) ` e_key ` set (entries float_of str_of docs)"
  by (auto simp: compute_leaderboard_def in_merge_entries image_iff) (metis in_merge_entries snd_conv image_eqI)+

section \<open>How far rounding takes the mean\<close>

lemma weighted_error:
  assumes "\<bar>cur * of_nat N - S\<bar> \<le> eps * of_nat N" and "0 \<le> eps"
  shows "\<bar>weighted cur N v n * of_nat (N + n) - (S + v * of_nat n)\<bar> \<le> (eps + 1 / 20000) * of_nat (N + n)"
proof (cases "N + n = 0")
  case True
  then show ?thesis using assms by simp
next
  case False
  define x where "x = (cur * of_nat N + v * of_nat n) / of_nat (N + n)"
  have pos: "0 < (of_nat (N + n) :: rat)" using False by (simp only: of_nat_0_less_iff)
  have x: "x * of_nat (N + n) = cur * of_nat N + v * of_nat n" using pos by (simp add: x_def)
  have "\<bar>py_round 4 x - x\<bar> \<le> 1 / 20000" using py_round_error [of 4 x] by simp
  then have "\<bar>(py_round 4 x - x) * of_nat (N + n)\<bar> \<le> 1 / 20000 * of_nat (N + n)"
    unfolding abs_mult abs_of_nat by (rule mult_right_mono) simp
  then have "\<bar>py_round 4 x * of_nat (N + n) - (cur * of_nat N + v * of_nat n)\<bar> \<le> 1 / 20000 * of_nat (N + n)"
    using x by (simp add: left_diff_distrib)
  moreover have "weighted cur N v n = py_round 4 x" using False by (simp add: weighted_def x_def)
  moreover have "eps * of_nat N \<le> eps * of_nat (N + n)" using assms(2) by (simp add: mult_left_mono)
  ultimately show ?thesis using assms(1) by (simp only: distrib_right)
qed

lemma merged_snoc: "merged k (es @ [e]) = merge e (merged k es)"
  by (simp add: merged_def)

lemma merged_facts:
  "l_provider (merged k es) = fst k \<and> l_model (merged k es) = snd k \<and> l_runs (merged k es) = length es \<and>
   l_cells (merged k es) = sum_list (map e_n es) \<and>
   \<bar>l_score (merged k es) * of_nat (l_cells (merged k es)) - sum_list (map (\<lambda>e. e_score e * of_nat (e_n e)) es)\<bar>
     \<le> of_nat (length es) / 20000 * of_nat (l_cells (merged k es))"
proof (induction es rule: rev_induct)
  case Nil
  show ?case by (simp add: merged_def new_row_def)
next
  case (snoc e es)
  let ?r = "merged k es"
  have "\<bar>weighted (l_score ?r) (l_cells ?r) (e_score e) (e_n e) * of_nat (l_cells ?r + e_n e) -
      (sum_list (map (\<lambda>e. e_score e * of_nat (e_n e)) es) + e_score e * of_nat (e_n e))\<bar>
      \<le> (of_nat (length es) / 20000 + 1 / 20000) * of_nat (l_cells ?r + e_n e)"
    by (rule weighted_error) (use snoc.IH in blast, simp)
  then show ?case using snoc.IH by (simp add: merged_snoc merge_def Let_def add_divide_distrib add.commute)
qed

section \<open>From the records of the runs to the leaderboard\<close>

definition entry_of :: "summary_row \<Rightarrow> entry" where
  "entry_of r = \<lparr>e_key = (sr_provider r, sr_model r), e_n = max 1 (sr_n r), e_score = mean_judge_score r, e_latency = mean_latency_ms r,
     e_tokens = mean_total_tokens r, e_cost = mean_cost r, e_error_rate = error_rate r, e_sandbox = sandbox_pass_rate r\<rparr>"

lemma read_row_json:
  "\<exists>d. row_json r = JDict d \<and> read_entry float_of str_of d = (if sr_provider r = [] \<or> sr_model r = [] then None else Some (entry_of r))"
  by (auto simp: row_json_def read_entry_def entry_of_def dict_get_def str_value_def to_float_def py_trunc_def max_def Let_def split: option.splits)

lemma filter_unique: "distinct (map f xs) \<Longrightarrow> x \<in> set xs \<Longrightarrow> filter (\<lambda>y. f y = f x) xs = [x]"
proof (induction xs)
  case (Cons a xs)
  show ?case
  proof (cases "x = a")
    case True
    then have "filter (\<lambda>y. f y = f x) xs = []" using Cons.prems(1) by (auto simp: filter_empty_conv image_iff)
    then show ?thesis using True by simp
  next
    case False
    then show ?thesis using Cons by (auto simp: image_iff)
  qed
qed simp

abbreviation with_key :: "string \<times> string \<Rightarrow> run_record list \<Rightarrow> run_record list" where
  "with_key k rs \<equiv> filter (\<lambda>r. record_key r = k) rs"

lemma summary_of_key:
  "filter (\<lambda>r. (sr_provider r, sr_model r) = k) (summarize stdev rs) = (if with_key k rs = [] then [] else [summary_row_of stdev (k, with_key k rs)])"
proof (cases "with_key k rs = []")
  case True
  then show ?thesis
    using summarize_rows(1) [of stdev rs] by (auto simp: filter_empty_conv summary_row_of_def Let_def)
next
  case False
  let ?row = "summary_row_of stdev (k, with_key k rs)"
  have "?row \<in> set (summarize stdev rs)" using False summarize_rows(1) [of stdev rs] by (auto simp: filter_empty_conv image_iff)
  moreover have "(sr_provider ?row, sr_model ?row) = k" by (auto simp: summary_row_of_def Let_def split: prod.splits)
  ultimately show ?thesis using filter_unique [OF summarize_rows(3), of ?row stdev rs] False by simp
qed

type_synonym run = "string \<times> string \<times> run_record list"

abbreviation run_records :: "run \<Rightarrow> run_record list" where
  "run_records x \<equiv> snd (snd x)"

definition run_doc :: "(py_float list \<Rightarrow> py_float) \<Rightarrow> run \<Rightarrow> json option" where
  "run_doc stdev x = Some (summary_json (fst x) (fst (snd x)) (length (run_records x)) (summarize stdev (run_records x)))"

lemma entries_of_key:
  assumes "fst k \<noteq> []" and "snd k \<noteq> []"
  shows "of_key k (entries float_of str_of (map (run_doc stdev) xs)) =
    map (\<lambda>x. entry_of (summary_row_of stdev (k, with_key k (run_records x)))) (filter (\<lambda>x. with_key k (run_records x) \<noteq> []) xs)"
proof -
  have rows: "of_key k (List.map_filter (read_entry float_of str_of) (List.map_filter (\<lambda>r. case r of JDict x \<Rightarrow> Some x | _ \<Rightarrow> None) (map row_json rs))) =
      map entry_of (filter (\<lambda>r. (sr_provider r, sr_model r) = k) rs)" for rs
  proof (induction rs)
    case (Cons r rs)
    obtain d where d: "row_json r = JDict d"
      "read_entry float_of str_of d = (if sr_provider r = [] \<or> sr_model r = [] then None else Some (entry_of r))" using read_row_json by blast
    have "e_key (entry_of r) = (sr_provider r, sr_model r)" by (simp add: entry_of_def)
    then show ?case using Cons.IH assms d by (auto simp: of_key_def map_filter_simps)
  qed (simp add: of_key_def map_filter_simps)
  have "of_key k (entries float_of str_of [run_doc stdev x]) =
      (if with_key k (run_records x) = [] then [] else [entry_of (summary_row_of stdev (k, with_key k (run_records x)))])" for x
    by (simp add: entries_def run_doc_def summary_json_def read_summary_rows_def rows summary_of_key)
  moreover have "of_key k (entries float_of str_of (map (run_doc stdev) (x # xs))) =
      of_key k (entries float_of str_of [run_doc stdev x]) @ of_key k (entries float_of str_of (map (run_doc stdev) xs))" for x xs
    by (simp add: entries_def of_key_def map_filter_def)
  ultimately show ?thesis by (induction xs) (simp_all add: entries_def of_key_def map_filter_simps)
qed

lemma group_entry:
  assumes "g \<noteq> []"
  shows "e_n (entry_of (summary_row_of stdev (k, g))) = length g"
    and "\<bar>e_score (entry_of (summary_row_of stdev (k, g))) * of_nat (length g) - sum_list (map r_score g)\<bar> \<le> 1 / 20000 * of_nat (length g)"
proof -
  obtain p m where k: "k = (p, m)" by fastforce
  have n: "0 < (of_nat (length g) :: rat)" "1 \<le> length g" using assms by (simp_all add: Suc_leI)
  then show "e_n (entry_of (summary_row_of stdev (k, g))) = length g" by (simp add: entry_of_def summary_row_of_def k Let_def)
  have "\<bar>py_round 4 (mean (map r_score g)) - mean (map r_score g)\<bar> * of_nat (length g) \<le> 1 / 20000 * of_nat (length g)"
    using py_round_error [of 4 "mean (map r_score g)"] by (intro mult_right_mono) simp_all
  moreover have "mean (map r_score g) * of_nat (length g) = sum_list (map r_score g)" using assms by (simp add: mean_def)
  ultimately show "\<bar>e_score (entry_of (summary_row_of stdev (k, g))) * of_nat (length g) - sum_list (map r_score g)\<bar> \<le> 1 / 20000 * of_nat (length g)"
    using n(1) by (simp add: entry_of_def summary_row_of_def k Let_def abs_mult_pos left_diff_distrib flip: abs_mult)
qed

lemma sum_deviation:
  fixes a b :: "'x \<Rightarrow> rat"
  assumes "\<And>x. x \<in> set xs \<Longrightarrow> \<bar>a x - b x\<bar> \<le> c * of_nat (l x)"
  shows "\<bar>(\<Sum>x \<leftarrow> xs. a x) - (\<Sum>x \<leftarrow> xs. b x)\<bar> \<le> c * of_nat (\<Sum>x \<leftarrow> xs. l x)"
  using assms
proof (induction xs)
  case (Cons x xs)
  have "\<bar>a x - b x\<bar> \<le> c * of_nat (l x)" "\<bar>(\<Sum>x \<leftarrow> xs. a x) - (\<Sum>x \<leftarrow> xs. b x)\<bar> \<le> c * of_nat (\<Sum>x \<leftarrow> xs. l x)"
    using Cons by simp_all
  then show ?case by (simp only: list.map sum_list.Cons of_nat_add distrib_left)
qed simp

lemma board_distinct: "distinct (map (\<lambda>r. (l_provider r, l_model r)) (compute_leaderboard float_of str_of docs 0))"
proof -
  let ?d = "merge_entries (entries float_of str_of docs)"
  have "(l_provider r, l_model r) = k" if "(k, r) \<in> set ?d" for k r
    using that merged_facts by (simp add: in_merge_entries)
  then have "map (\<lambda>r. (l_provider r, l_model r)) (map snd ?d) = map fst ?d" by auto
  then have "distinct (map (\<lambda>r. (l_provider r, l_model r)) (map snd ?d))" using merge_entries_facts(1) by (simp only: wf_dict_def)
  then have "distinct (map (\<lambda>r. (l_provider r, l_model r)) (sort_key rank (map snd ?d)))"
    by (subst mset_eq_imp_distinct_iff [of _ "map (\<lambda>r. (l_provider r, l_model r)) (map snd ?d)"]) (simp_all only: mset_map mset_sort)
  then show ?thesis by (simp add: compute_leaderboard_def)
qed

text \<open>
  (C12) The leaderboard over the summaries of any number of runs has one row for every provider and model
  with records. It counts the runs and the cells exactly, and its score is the mean judge score over
  all the cells of all the runs up to half a ten-thousandth for each run and one more; the rows are ranked by
  score, latency and cost.
\<close>

theorem leaderboard_reports_mean:
  fixes float_of str_of stdev and runs :: "run list" and k :: "string \<times> string"
  defines "board \<equiv> compute_leaderboard float_of str_of (map (run_doc stdev) runs) 0"
    and "g \<equiv> with_key k (concat (map run_records runs))"
    and "n \<equiv> length (filter (\<lambda>x. with_key k (run_records x) \<noteq> []) runs)"
  assumes "g \<noteq> []" and "fst k \<noteq> []" and "snd k \<noteq> []"
  shows "sorted (map rank board) \<and>
    (\<exists>row. filter (\<lambda>r. (l_provider r, l_model r) = k) board = [row] \<and> l_runs row = n \<and> l_cells row = length g \<and>
       \<bar>l_score row - mean (map r_score g)\<bar> \<le> of_nat (n + 1) / 20000)"
proof -
  define es where "es = entries float_of str_of (map (run_doc stdev) runs)"
  define ks where "ks = filter (\<lambda>x. with_key k (run_records x) \<noteq> []) runs"
  define ent where "ent = (\<lambda>x. entry_of (summary_row_of stdev (k, with_key k (run_records x))))"
  have ek: "of_key k es = map ent ks" unfolding es_def ks_def ent_def by (rule entries_of_key [OF assms(5,6)])
  define row where "row = merged k (map ent ks)"
  note facts = merged_facts [of k "map ent ks", folded row_def]
  have ne: "with_key k (run_records x) \<noteq> []" if "x \<in> set ks" for x using that by (simp add: ks_def)
  have gsum: "length g = (\<Sum>x \<leftarrow> ks. length (with_key k (run_records x)))" "sum_list (map r_score g) = (\<Sum>x \<leftarrow> ks. sum_list (map r_score (with_key k (run_records x))))"
    unfolding g_def ks_def by (induction runs) auto
  have cells: "l_cells row = length g"
  proof -
    have "map e_n (map ent ks) = map (\<lambda>x. length (with_key k (run_records x))) ks" using group_entry(1) ne by (simp add: ent_def)
    moreover have "l_cells row = sum_list (map e_n (map ent ks))" using facts by blast
    ultimately show ?thesis using gsum(1) by (simp only:)
  qed
  have score: "\<bar>(\<Sum>x \<leftarrow> ks. e_score (ent x) * of_nat (e_n (ent x))) - sum_list (map r_score g)\<bar> \<le> 1 / 20000 * of_nat (length g)"
    unfolding gsum by (rule sum_deviation) (use group_entry ne in \<open>simp add: ent_def\<close>)
  have "\<bar>l_score row * of_nat (length g) - sum_list (map r_score g)\<bar> \<le> of_nat (n + 1) / 20000 * of_nat (length g)"
  proof -
    have "\<bar>l_score row * of_nat (length g) - (\<Sum>x \<leftarrow> ks. e_score (ent x) * of_nat (e_n (ent x)))\<bar> \<le> of_nat n / 20000 * of_nat (length g)"
      using facts [THEN conjunct2, THEN conjunct2, THEN conjunct2, THEN conjunct2] unfolding cells
      by (simp only: map_map o_def length_map n_def ks_def)
    then show ?thesis using score by (simp only: of_nat_add of_nat_1 add_divide_distrib distrib_right)
  qed
  moreover have "l_score row * of_nat (length g) - sum_list (map r_score g) = (l_score row - mean (map r_score g)) * of_nat (length g)"
    using assms(4) by (simp add: mean_def left_diff_distrib)
  ultimately have bound: "\<bar>l_score row - mean (map r_score g)\<bar> \<le> of_nat (n + 1) / 20000"
    using assms(4) by (simp add: abs_mult)
  have "ks \<noteq> []" using assms(4) gsum(1) by auto
  then have "k \<in> e_key ` set es" using ek by (auto simp: of_key_def filter_eq_Cons_iff neq_Nil_conv map_eq_Cons_conv Cons_eq_map_conv)
  then have "row \<in> set board" unfolding board_def leaderboard_rows es_def [symmetric] row_def ek [symmetric] by (rule imageI)
  then have "filter (\<lambda>r. (l_provider r, l_model r) = (l_provider row, l_model row)) board = [row]"
    unfolding board_def by (rule filter_unique [OF board_distinct])
  moreover have "(l_provider row, l_model row) = k" using facts by simp
  ultimately have "filter (\<lambda>r. (l_provider r, l_model r) = k) board = [row]" by (simp only:)
  moreover have "sorted (map rank board)" by (simp add: board_def compute_leaderboard_def)
  ultimately show ?thesis using bound facts cells by (auto simp: n_def ks_def)
qed

definition demo_record :: "py_float \<Rightarrow> run_record" where
  "demo_record s = \<lparr>r_task = demo_task, r_provider = ''p'', r_model = ''m'', repeat_index = 1, duration_ms = 0, tokens_input = 0, tokens_output = 0,
     total_tokens = 0, llm_calls = 0, r_score = s, r_passed = True, r_summary = [], solution_quality = [], code_blocks = 0, r_sandbox = None,
     r_sandbox_summary = [], cost_estimate = 0, r_error = None, r_files = []\<rparr>"

theorem leaderboard_reports_mean_witness:
  "\<exists>row. filter (\<lambda>r. (l_provider r, l_model r) = (''p'', ''m''))
      (compute_leaderboard (\<lambda>_. None) (\<lambda>_. []) (map (run_doc (\<lambda>_. 0)) [([], [], [demo_record 1]), ([], [], [demo_record 0, demo_record 0])]) 0) = [row] \<and>
    l_cells row = 3 \<and> \<bar>l_score row - 1 / 3\<bar> \<le> 3 / 20000"
  using leaderboard_reports_mean [of "(''p'', ''m'')" "[([], [], [demo_record 1]), ([], [], [demo_record 0, demo_record 0])]" "\<lambda>_. None" "\<lambda>_. []" "\<lambda>_. 0"]
  by (auto simp: demo_record_def mean_def)

text \<open>
  A worst score of zero counts as not set: after runs with the scores 0 and then 1, the worst score is 1. And
  the pass rate of the sandbox is not weighted: it depends on the order of the runs.
\<close>

definition demo_entry :: "py_float \<Rightarrow> py_float \<Rightarrow> entry" where
  "demo_entry s rate = \<lparr>e_key = (''p'', ''m''), e_n = 1, e_score = s, e_latency = 0, e_tokens = 0, e_cost = 0, e_error_rate = 0, e_sandbox = Some rate\<rparr>"

lemma worst_score_forgets_zero:
  "worst_score (merged (''p'', ''m'') [demo_entry 0 0, demo_entry 1 0]) = 1"
  "worst_score (merged (''p'', ''m'') [demo_entry 1 0, demo_entry 0 0]) = 0"
  by code_simp+

lemma sandbox_rate_order:
  "l_sandbox (merged (''p'', ''m'') [demo_entry 0 1, demo_entry 0 1, demo_entry 0 0]) = Some (1 / 2)"
  "l_sandbox (merged (''p'', ''m'') [demo_entry 0 0, demo_entry 0 1, demo_entry 0 1]) = Some (3 / 4)"
  by code_simp+

end
