(* ===== verification/Atomic_Io.thy ===== *)
theory Atomic_Io
  imports Prelude "HOL-Library.Sublist"
begin

text \<open>
  Files written atomically, with rotating backups (\<open>utils/atomic_io.py\<close>). A directory maps file names to
  contents: a JSON document, or bytes that are not one (\<open>Damaged\<close>). What the operating system does with a name
  is an operation on the directory; it is taken to succeed, except that the process may stop between any two
  operations, which is why a write is the list of the directories it passes through.
\<close>

section \<open>Names\<close>

datatype content = Document json | Damaged

type_synonym dir = "(string, content) dict"

text \<open>\<open>Path.with_suffix\<close>: what follows the last dot is replaced, unless the name begins or ends with it.\<close>

definition with_suffix :: "string \<Rightarrow> string \<Rightarrow> string" where
  "with_suffix p sfx =
     (let ext = takeWhile (\<lambda>c. c \<noteq> CHR ''.'') (rev p); stem = take (length p - length ext - 1) p
      in if ext = [] \<or> length ext = length p \<or> stem = [] then p @ sfx else stem @ sfx)"

definition bak :: "string \<Rightarrow> nat \<Rightarrow> string" where
  "bak p i = with_suffix p (''.bak.'' @ show_nat i)"

section \<open>Rotating and writing\<close>

definition shift_one :: "string \<Rightarrow> nat \<Rightarrow> dir \<Rightarrow> dir" where
  "shift_one p i d =
     (case map_of d (bak p i) of
        None \<Rightarrow> d
      | Some c \<Rightarrow> dict_set (bak p (Suc i)) c (dict_del (bak p i) d))"

text \<open>The directories after every step of a loop.\<close>

fun trail :: "('a \<Rightarrow> 's \<Rightarrow> 's) \<Rightarrow> 'a list \<Rightarrow> 's \<Rightarrow> 's list" where
  "trail f [] s = []"
| "trail f (x # xs) s = f x s # trail f xs (f x s)"

definition rotate_steps :: "string \<Rightarrow> int \<Rightarrow> dir \<Rightarrow> dir list" where
  "rotate_steps p max_backups d =
     (if max_backups \<le> 0 then []
      else
        (let n = nat max_backups;
             d1 = dict_del (bak p n) d;
             ds = trail (shift_one p) (rev [1..<n]) d1;
             d2 = last (d1 # ds)
         in d1 # ds @ [case map_of d2 p of None \<Rightarrow> d2 | Some c \<Rightarrow> dict_set (bak p 1) c d2]))"

definition rotate_backups :: "string \<Rightarrow> int \<Rightarrow> dir \<Rightarrow> dir" where
  "rotate_backups p max_backups d = last (d # rotate_steps p max_backups d)"

text \<open>
  \<open>tmp\<close> is the name that \<open>mkstemp\<close> makes up. The temporary file is empty, then complete, then renamed over
  the file.
\<close>

definition write_steps :: "string \<Rightarrow> string \<Rightarrow> json \<Rightarrow> bool \<Rightarrow> int \<Rightarrow> dir \<Rightarrow> dir list" where
  "write_steps tmp p j backup backup_count d =
     (let rs = (if backup \<and> dict_has d p then rotate_steps p backup_count d else []);
          d1 = last (d # rs);
          d2 = dict_set tmp Damaged d1;
          d3 = dict_set tmp (Document j) d2
      in rs @ [d2, d3, dict_set p (Document j) (dict_del tmp d3)])"

definition atomic_write_json :: "string \<Rightarrow> string \<Rightarrow> json \<Rightarrow> bool \<Rightarrow> int \<Rightarrow> dir \<Rightarrow> dir" where
  "atomic_write_json tmp p j backup backup_count d = last (write_steps tmp p j backup backup_count d)"

definition atomic_read_json :: "string \<Rightarrow> json option \<Rightarrow> dir \<Rightarrow> json" where
  "atomic_read_json p fallback d =
     (let dflt = (case fallback of None \<Rightarrow> JDict [] | Some j \<Rightarrow> j)
      in case map_of d p of
           None \<Rightarrow> dflt
         | Some (Document j) \<Rightarrow> j
         | Some Damaged \<Rightarrow> (case map_of d (bak p 1) of Some (Document j) \<Rightarrow> j | _ \<Rightarrow> dflt))"

section \<open>Names do not clash\<close>

definition stem_of :: "string \<Rightarrow> string" where
  "stem_of p = with_suffix p []"

lemma with_suffix_stem: "with_suffix p sfx = stem_of p @ sfx"
  by (simp add: stem_of_def with_suffix_def Let_def)

lemma stem_cases: "stem_of p = p \<or> (\<exists>ext. p = stem_of p @ ''.'' @ ext \<and> CHR ''.'' \<notin> set ext)"
proof -
  let ?ext = "takeWhile (\<lambda>c. c \<noteq> CHR ''.'') (rev p)" and ?rest = "dropWhile (\<lambda>c. c \<noteq> CHR ''.'') (rev p)"
  show ?thesis
  proof (cases "?rest")
    case Nil
    then have "length ?ext = length p" by (metis append_Nil2 length_rev takeWhile_dropWhile_id)
    then show ?thesis by (simp add: stem_of_def with_suffix_def Let_def)
  next
    case (Cons c r)
    then have c: "c = CHR ''.''" by (metis (mono_tags, lifting) dropWhile_eq_Cons_conv)
    have "rev p = ?ext @ CHR ''.'' # r" using Cons c by (metis takeWhile_dropWhile_id)
    then have p: "p = rev r @ ''.'' @ rev ?ext" by (metis append.assoc append_Cons append_Nil rev_append rev_rev_ident rev.simps(2))
    have "take (length q - length e - 1) q = rev r" if "q = rev r @ ''.'' @ rev e" for q e :: string using that by simp
    from this [OF p] have "take (length p - length ?ext - 1) p = rev r" .
    moreover have "CHR ''.'' \<notin> set (rev ?ext)" by (auto dest: set_takeWhileD)
    ultimately show ?thesis using p by (auto simp: stem_of_def with_suffix_def Let_def)
  qed
qed

lemma bak_stem: "bak p i = stem_of p @ ''.bak.'' @ show_nat i"
  by (simp add: bak_def with_suffix_stem)

lemma bak_inj [simp]: "bak p i = bak p j \<longleftrightarrow> i = j"
  by (auto simp: bak_stem dest: show_nat_inj)

lemma bak_not_file [simp]: "bak p i \<noteq> p" "p \<noteq> bak p i"
proof -
  have "\<not> (CHR ''.'' \<notin> set ext)" if "bak p i = p" "p = stem_of p @ ''.'' @ ext" for ext
  proof -
    have "stem_of p @ ''.bak.'' @ show_nat i = stem_of p @ ''.'' @ ext" using that by (simp only: bak_stem)
    then have "ext = ''bak.'' @ show_nat i" by simp
    then show ?thesis by simp
  qed
  moreover have "stem_of p \<noteq> p" if "bak p i = p"
    using that by (metis append_self_conv bak_stem append_is_Nil_conv list.distinct(1))
  ultimately show "bak p i \<noteq> p" using stem_cases [of p] by blast
  then show "p \<noteq> bak p i" by (rule not_sym)
qed

text \<open>Names of temporary files end in \<open>.tmp\<close>, those of backups in a digit.\<close>

definition is_tmp :: "string \<Rightarrow> bool" where
  "is_tmp q = suffix ''.tmp'' q"

lemma tmp_not_bak: "is_tmp t \<Longrightarrow> t \<noteq> bak p i"
proof
  assume "is_tmp t" "t = bak p i"
  then have "last (show_nat i) = CHR ''p''" by (auto simp: is_tmp_def bak_stem suffix_def) (metis last.simps last_appendR list.distinct(1) show_nat_nonempty)
  then show False using show_nat_digits [of "CHR ''p''" i] last_in_set [OF show_nat_nonempty, of i] by auto
qed

section \<open>Rotation\<close>

lemma last_trail: "last (s # trail f xs s) = fold f xs s"
  by (induction xs arbitrary: s) auto

lemma trail_in: "s' \<in> set (trail f xs s) \<Longrightarrow> \<exists>ys. s' = fold f ys s \<and> set ys \<subseteq> set xs"
proof (induction xs arbitrary: s)
  case (Cons x xs)
  show ?case
  proof (cases "s' = f x s")
    case True
    then show ?thesis by (intro exI [of _ "[x]"]) simp
  next
    case False
    with Cons obtain ys where "s' = fold f ys (f x s)" "set ys \<subseteq> set xs" by auto
    then show ?thesis by (intro exI [of _ "x # ys"]) auto
  qed
qed simp

text \<open>After the backups from \<open>n - 1\<close> down to \<open>m\<close> were shifted, each is one place higher and place \<open>m\<close> is free.\<close>

lemma map_of_shift_one:
  "map_of (shift_one p i s) q =
     (case map_of s (bak p i) of None \<Rightarrow> map_of s q | Some c \<Rightarrow> if q = bak p (Suc i) then Some c else if q = bak p i then None else map_of s q)"
  by (simp add: shift_one_def split: option.split)

lemma shifted:
  assumes "m \<le> n" and "map_of d (bak p n) = None"
  shows "map_of (fold (shift_one p) (rev [m..<n]) d) (bak p k) =
    (if k = m then None else if m < k \<and> k \<le> n then map_of d (bak p (k - 1)) else map_of d (bak p k))"
  using assms(1)
proof (induction m arbitrary: k rule: inc_induct)
  case base
  then show ?case using assms(2) by simp
next
  case (step m)
  let ?s = "fold (shift_one p) (rev [Suc m..<n]) d"
  have upt: "[m..<n] = m # [Suc m..<n]" using step(2) by (simp add: upt_conv_Cons)
  have src: "map_of ?s (bak p m) = map_of d (bak p m)" using step.IH [of m] by simp
  have "map_of (shift_one p m ?s) (bak p k) = (if k = m then None else if k = Suc m then map_of d (bak p m) else map_of ?s (bak p k))"
    using src step.IH [of "Suc m"] by (auto simp: map_of_shift_one split: option.splits)
  then show ?case using step.IH [of k] step(2) by (auto simp: upt)
qed

lemma shift_other: "(\<And>k. q \<noteq> bak p k) \<Longrightarrow> map_of (fold (shift_one p) xs d) q = map_of d q"
  by (induction xs arbitrary: d) (auto simp: shift_one_def split: option.splits)

lemma rotate_effect:
  assumes "0 < n" and "map_of d p = Some c"
  shows "map_of (rotate_backups p n d) (bak p 1) = Some c"
    and "1 \<le> k \<Longrightarrow> int k < n \<Longrightarrow> map_of (rotate_backups p n d) (bak p (Suc k)) = map_of d (bak p k)"
    and "k = 0 \<or> n < int k \<Longrightarrow> map_of (rotate_backups p n d) (bak p k) = map_of d (bak p k)"
    and "(\<And>k. q \<noteq> bak p k) \<Longrightarrow> map_of (rotate_backups p n d) q = map_of d q"
proof -
  define N where "N = nat n"
  have N: "1 \<le> N" "\<not> n \<le> 0" using assms(1) by (simp_all add: N_def)
  define d1 where "d1 = dict_del (bak p N) d"
  define d2 where "d2 = fold (shift_one p) (rev [1..<N]) d1"
  have sh: "map_of d2 (bak p k) = (if k = 1 then None else if 1 < k \<and> k \<le> N then map_of d1 (bak p (k - 1)) else map_of d1 (bak p k))" for k
    unfolding d2_def by (rule shifted) (use N in \<open>simp_all add: d1_def\<close>)
  have ot: "map_of d2 q = map_of d q" if "\<And>k. q \<noteq> bak p k" for q
    using shift_other [OF that] that by (simp add: d2_def d1_def)
  have "last (d1 # trail (shift_one p) (rev [1..<N]) d1) = d2" unfolding d2_def by (rule last_trail)
  moreover have "map_of d2 p = Some c" using ot [of p] assms(2) by simp
  ultimately have "rotate_steps p n d = (d1 # trail (shift_one p) (rev [1..<N]) d1) @ [dict_set (bak p 1) c d2]"
    using N(2) unfolding rotate_steps_def Let_def N_def [symmetric] d1_def [symmetric] by (simp del: last.simps)
  then have r: "rotate_backups p n d = dict_set (bak p 1) c d2" by (simp add: rotate_backups_def)
  show "map_of (rotate_backups p n d) (bak p 1) = Some c" by (simp add: r)
  show "map_of (rotate_backups p n d) (bak p (Suc k)) = map_of d (bak p k)" if "1 \<le> k" "int k < n"
    using that sh [of "Suc k"] by (auto simp: r d1_def N_def)
  show "map_of (rotate_backups p n d) (bak p k) = map_of d (bak p k)" if "k = 0 \<or> n < int k"
    using that sh [of k] assms(1) by (auto simp: r d1_def N_def)
  show "map_of (rotate_backups p n d) q = map_of d q" if "\<And>k. q \<noteq> bak p k"
    using ot [OF that] that by (simp add: r)
qed

text \<open>While backups are rotated the file itself and all other files stay as they are.\<close>

lemma rotate_steps_other:
  assumes "d' \<in> set (rotate_steps p n d)" and "\<And>k. q \<noteq> bak p k"
  shows "map_of d' q = map_of d q"
proof -
  have "map_of e q = map_of d q" if "e \<in> set (dict_del (bak p (nat n)) d # trail (shift_one p) (rev [1..<nat n]) (dict_del (bak p (nat n)) d))" for e
  proof -
    have "\<exists>ys. e = fold (shift_one p) ys (dict_del (bak p (nat n)) d)"
      using that trail_in [of e "shift_one p" "rev [1..<nat n]" "dict_del (bak p (nat n)) d"] by (auto intro: exI [of _ "[]"])
    then show ?thesis using shift_other [OF assms(2)] assms(2) by auto
  qed
  note e = this this [OF last_in_set [OF list.distinct(2)]]
  show ?thesis using assms e by (auto simp: rotate_steps_def Let_def split: if_splits option.splits)
qed

section \<open>Writing\<close>

lemma atomic_write_eq:
  "atomic_write_json tmp p j backup n d =
     (let d1 = (if backup \<and> dict_has d p then rotate_backups p n d else d)
      in dict_set p (Document j) (dict_del tmp (dict_set tmp (Document j) (dict_set tmp Damaged d1))))"
  by (auto simp: atomic_write_json_def write_steps_def rotate_backups_def Let_def)

lemma write_effect:
  assumes "is_tmp tmp" and "tmp \<noteq> p" and "\<not> dict_has d tmp" and "0 < n" and "d' = atomic_write_json tmp p j True n d"
  shows "map_of d' p = Some (Document j)"
    and "dict_has d p \<Longrightarrow> map_of d' (bak p 1) = map_of d p"
    and "dict_has d p \<Longrightarrow> 1 \<le> k \<Longrightarrow> int k < n \<Longrightarrow> map_of d' (bak p (Suc k)) = map_of d (bak p k)"
    and "dict_has d p \<Longrightarrow> n < int k \<Longrightarrow> map_of d' (bak p k) = map_of d (bak p k)"
    and "\<not> dict_has d p \<Longrightarrow> map_of d' (bak p k) = map_of d (bak p k)"
    and "q \<noteq> p \<Longrightarrow> (\<And>k. q \<noteq> bak p k) \<Longrightarrow> map_of d' q = map_of d q"
proof -
  define d1 where "d1 = (if dict_has d p then rotate_backups p n d else d)"
  have m: "map_of d' = (map_of d1)(tmp := None, p \<mapsto> Document j)" unfolding assms(5) atomic_write_eq Let_def by (auto simp: d1_def)
  have tb: "tmp \<noteq> bak p k" "bak p k \<noteq> tmp" for k using tmp_not_bak [OF assms(1), of p k] by auto
  show "map_of d' p = Some (Document j)" by (simp add: m)
  note rot = rotate_effect [OF assms(4), of d p]
  show "map_of d' (bak p 1) = map_of d p" if "dict_has d p"
    using that rot(1) tb by (auto simp: m d1_def dict_has_iff)
  show "map_of d' (bak p (Suc k)) = map_of d (bak p k)" if "dict_has d p" "1 \<le> k" "int k < n"
    using that rot(2) tb by (auto simp: m d1_def dict_has_iff)
  show "map_of d' (bak p k) = map_of d (bak p k)" if "dict_has d p" "n < int k"
    using that rot(3) [of _ k] tb by (auto simp: m d1_def dict_has_iff)
  show "map_of d' (bak p k) = map_of d (bak p k)" if "\<not> dict_has d p" using that tb by (simp add: m d1_def)
  show "map_of d' q = map_of d q" if "q \<noteq> p" "\<And>k. q \<noteq> bak p k"
    using that rot(4) [of _ q] assms(3) by (auto simp: m d1_def dict_has_iff)
qed

text \<open>A series of writes to one file, each with the temporary name that was made up for it.\<close>

definition write_all :: "string \<Rightarrow> int \<Rightarrow> (string \<times> json) list \<Rightarrow> dir \<Rightarrow> dir" where
  "write_all p n ws d = foldl (\<lambda>d (tmp, j). atomic_write_json tmp p j True n d) d ws"

lemma write_all_effect:
  assumes "0 < n" and "map_of d p = None" and "\<And>k. map_of d (bak p k) = None"
    and "\<forall>w \<in> set ws. is_tmp (fst w) \<and> fst w \<noteq> p \<and> \<not> dict_has d (fst w)"
  shows "(ws = [] \<longrightarrow> map_of (write_all p n ws d) p = None) \<and> (ws \<noteq> [] \<longrightarrow> map_of (write_all p n ws d) p = Some (Document (snd (last ws)))) \<and>
      (\<forall>k \<ge> 1. map_of (write_all p n ws d) (bak p k) = (if int k \<le> n \<and> k < length ws then Some (Document (snd (rev ws ! k))) else None)) \<and>
      (\<forall>q. q \<noteq> p \<and> (\<forall>k. q \<noteq> bak p k) \<longrightarrow> map_of (write_all p n ws d) q = map_of d q)"
  using assms(4)
proof (induction ws rule: rev_induct)
  case Nil
  then show ?case using assms(2,3) by (simp add: write_all_def)
next
  case (snoc w ws)
  obtain tmp j where w: "w = (tmp, j)" by fastforce
  let ?d = "write_all p n ws d" and ?d' = "write_all p n (ws @ [w]) d"
  have d': "?d' = atomic_write_json tmp p j True n ?d" by (simp add: write_all_def w)
  have tmp: "is_tmp tmp" "tmp \<noteq> p" "\<not> dict_has d tmp" using snoc.prems by (auto simp: w)
  have "\<forall>w \<in> set ws. is_tmp (fst w) \<and> fst w \<noteq> p \<and> \<not> dict_has d (fst w)" using snoc.prems by simp
  note IH = snoc.IH [OF this]
  have "\<not> dict_has ?d tmp" using IH tmp tmp_not_bak [OF tmp(1)] by (simp add: dict_has_iff)
  note eff = write_effect [OF tmp(1,2) this assms(1) d']
  have has: "dict_has ?d p \<longleftrightarrow> ws \<noteq> []" using IH by (auto simp: dict_has_iff)
  have "map_of ?d' (bak p k) = (if int k \<le> n \<and> k < Suc (length ws) then Some (Document (snd (rev (ws @ [w]) ! k))) else None)" if k1: "1 \<le> k" for k
  proof (cases "ws = []")
    case True
    then show ?thesis using eff(5) [of k] has IH k1 by simp
  next
    case False
    consider "k = 1" | "1 < k" "int k \<le> n" | "1 < k" "n < int k" using k1 by linarith
    then show ?thesis
    proof cases
      case 1
      then show ?thesis using eff(2) has IH False assms(1) by (simp add: w rev_nth last_conv_nth hd_rev flip: hd_conv_nth)
    next
      case 2
      then obtain i where "k = Suc i" "1 \<le> i" "int i < n" by (cases k) auto
      then show ?thesis using eff(3) [of i] has IH False by (auto simp: w)
    next
      case 3
      then show ?thesis using eff(4) [of k] has IH False k1 by auto
    qed
  qed
  then show ?case using eff(1,6) IH by (auto simp: w)
qed


definition demo_writes :: "(string \<times> json) list" where
  "demo_writes = [(''a.1.tmp'', JInt 1), (''a.2.tmp'', JInt 2), (''a.3.tmp'', JInt 3), (''a.4.tmp'', JInt 4)]"


section \<open>Interrupted writes\<close>

text \<open>
  (C14) A write that is interrupted anywhere leaves the file as it was or completely written, and touches no
  other file but its backups and the temporary one.
\<close>

theorem interrupted_write_is_atomic:
  assumes "d' \<in> set (write_steps tmp p j backup n d)" and "is_tmp tmp" and "tmp \<noteq> p"
  shows "map_of d' p \<in> {map_of d p, Some (Document j)} \<and>
    (\<forall>q. q \<noteq> p \<longrightarrow> q \<noteq> tmp \<longrightarrow> (\<forall>k. q \<noteq> bak p k) \<longrightarrow> map_of d' q = map_of d q)"
proof -
  let ?rs = "if backup \<and> dict_has d p then rotate_steps p n d else []"
  have rs: "map_of e q = map_of d q" if "e \<in> set (d # ?rs)" "\<And>k. q \<noteq> bak p k" for e q
    using that rotate_steps_other by (auto split: if_splits)
  have lst: "last (d # ?rs) \<in> set (d # ?rs)" by (rule last_in_set) simp
  consider "d' \<in> set (d # ?rs)" | c where "d' = dict_set tmp c (last (d # ?rs))"
    | "d' = dict_set p (Document j) (dict_del tmp (dict_set tmp (Document j) (dict_set tmp Damaged (last (d # ?rs)))))"
    | c where "d' = dict_set tmp c (dict_set tmp Damaged (last (d # ?rs)))"
    using assms(1) unfolding write_steps_def Let_def by auto
  then show ?thesis
  proof cases
    case 1
    then show ?thesis using rs [OF 1] by simp
  qed (use rs [OF lst] assms(3) in auto)
qed

theorem interrupted_write_is_atomic_witness:
  "map_of (write_steps ''a.1.tmp'' ''a.json'' (JInt 2) True 3 [(''a.json'', Document (JInt 1))] ! 4) ''a.json'' \<in>
     {Some (Document (JInt 1)), Some (Document (JInt 2))}"
proof -
  let ?s = "write_steps ''a.1.tmp'' ''a.json'' (JInt 2) True 3 [(''a.json'', Document (JInt 1))]"
  have "length ?s = 7" by code_simp
  then have "?s ! 4 \<in> set ?s" by (intro nth_mem) simp
  from interrupted_write_is_atomic [OF this, THEN conjunct1] show ?thesis
    by (simp only: map_of.simps fst_conv snd_conv fun_upd_same) (simp add: is_tmp_def suffix_def)
qed

text \<open>
  A damaged file is rotated like a good one: the next write makes it the first backup, the only one that
  reading looks at, so that a second damage loses everything although the second backup is good.
\<close>

lemma damaged_file_becomes_backup:
  assumes "is_tmp tmp" and "tmp \<noteq> p" and "\<not> dict_has d tmp" and "1 < n"
    and "map_of d p = Some Damaged" and "map_of d (bak p 1) = Some (Document v)"
    and d': "d' = atomic_write_json tmp p j True n d"
  shows "atomic_read_json p fallback d = v"
    and "atomic_read_json p (Some dflt) (dict_set p Damaged d') = dflt"
    and "map_of d' (bak p 2) = Some (Document v)"
proof -
  have "0 < n" "dict_has d p" using assms by (simp_all add: dict_has_iff)
  note eff = write_effect [OF assms(1-3) this(1) d']
  show "atomic_read_json p fallback d = v" using assms by (simp add: atomic_read_json_def Let_def)
  show "atomic_read_json p (Some dflt) (dict_set p Damaged d') = dflt"
    using eff(2) \<open>dict_has d p\<close> assms(5) by (simp add: atomic_read_json_def Let_def)
  show "map_of d' (bak p 2) = Some (Document v)" using eff(3) [of 1] \<open>dict_has d p\<close> assms(4,6) by (simp add: numeral_2_eq_2)
qed

text \<open>Backups replace the suffix of the name, so files that differ in it only share them.\<close>

lemma backups_shared: "bak ''a.json'' i = bak ''a.txt'' i" "bak ''a.json'' 1 = ''a.bak.1''"
proof -
  show "bak ''a.json'' i = bak ''a.txt'' i" by (simp add: bak_def with_suffix_def)
  show "bak ''a.json'' 1 = ''a.bak.1''" by code_simp
qed

end
