(* ===== verification/Memory_Store.thy ===== *)
theory Memory_Store
  imports Atomic_Io
begin

text \<open>
  The three-tier memory (\<open>memory/store.py\<close>): episodes, facts and procedures, kept in lists, indexed by their
  texts, and saved to three files through \<open>Atomic_Io\<close>, at once or, inside an event loop, by a timer that every
  change starts anew.

  What Pydantic makes of a model and of a document (\<open>dump\<close>, \<open>parse\<close>) is an argument, with the law that parsing
  what was dumped gives it back. Identifiers, times and the names of temporary files are arguments. The
  similarity of two texts (\<open>embeddings.py\<close>) is an argument too; the index is the exhaustive search that is used
  without FAISS, with ties in the order of insertion.
\<close>

section \<open>Memories\<close>

record episode =
  ep_id :: string
  ep_time :: py_float
  task_description :: string
  solution_summary :: string
  tech_stack :: string
  outcome :: string
  duration_seconds :: py_float
  error_message :: string
  ep_tags :: "string list"
  ep_context :: json

record fact =
  fact_id :: string
  topic :: string
  fact_text :: string
  confidence :: py_float
  source :: string
  use_count :: nat
  last_used :: py_float
  fact_tags :: "string list"

record procedure =
  proc_id :: string
  procedure_name :: string
  steps :: "string list"
  success_rate :: py_float
  times_applied :: nat
  times_succeeded :: nat
  avg_duration :: py_float
  prerequisites :: "string list"
  proc_tags :: "string list"

section \<open>The index\<close>

type_synonym docs = "(string \<times> string) list"

text \<open>\<open>HNSWIndex.search\<close> without FAISS: the identifiers of the most similar documents.\<close>

definition nearest :: "(string \<Rightarrow> string \<Rightarrow> py_float) \<Rightarrow> docs \<Rightarrow> string \<Rightarrow> nat \<Rightarrow> string list" where
  "nearest sim ds q k = map fst (take (min k (length ds)) (sort_key (\<lambda>(_, t). - sim q t) ds))"

definition ep_doc :: "episode \<Rightarrow> string \<times> string" where
  "ep_doc e = (ep_id e, task_description e @ '' '' @ solution_summary e @ '' '' @ tech_stack e @ '' '' @ py_join '' '' (ep_tags e))"

definition fact_doc :: "fact \<Rightarrow> string \<times> string" where
  "fact_doc f = (fact_id f, topic f @ '' '' @ fact_text f @ '' '' @ py_join '' '' (fact_tags f))"

section \<open>The store\<close>

record store =
  episodic :: "episode list"
  semantic :: "fact list"
  procedural :: "procedure list"
  episodic_index :: docs
  semantic_index :: docs
  dirty :: bool
  timer :: bool

record config =
  auto_save :: bool
  backup_count :: int
  tmp_name :: "string \<Rightarrow> string"
  dump_ep :: "episode \<Rightarrow> json"
  dump_fact :: "fact \<Rightarrow> json"
  dump_proc :: "procedure \<Rightarrow> json"
  parse_ep :: "json \<Rightarrow> episode option"
  parse_fact :: "json \<Rightarrow> fact option"
  parse_proc :: "json \<Rightarrow> procedure option"

abbreviation episodic_path :: string where
  "episodic_path \<equiv> ''episodic.json''"

abbreviation semantic_path :: string where
  "semantic_path \<equiv> ''semantic.json''"

abbreviation procedural_path :: string where
  "procedural_path \<equiv> ''procedural.json''"

text \<open>
  \<open>store.extend(cls(**item) for item in data)\<close> inside a \<open>try\<close>: the items before the first that does not
  parse are kept.
\<close>

fun parse_items :: "(json \<Rightarrow> 'a option) \<Rightarrow> json list \<Rightarrow> 'a list" where
  "parse_items parse [] = []"
| "parse_items parse (j # js) = (case parse j of None \<Rightarrow> [] | Some x \<Rightarrow> x # parse_items parse js)"

definition restore_list :: "(json \<Rightarrow> 'a option) \<Rightarrow> string \<Rightarrow> dir \<Rightarrow> 'a list" where
  "restore_list parse p d = (case json_iter (atomic_read_json p (Some (JList [])) d) of Inl _ \<Rightarrow> [] | Inr js \<Rightarrow> parse_items parse js)"

definition restore_from_disk :: "config \<Rightarrow> dir \<Rightarrow> store" where
  "restore_from_disk c d =
     (let eps = restore_list (parse_ep c) episodic_path d;
          facts = restore_list (parse_fact c) semantic_path d
      in \<lparr>episodic = eps, semantic = facts, procedural = restore_list (parse_proc c) procedural_path d,
          episodic_index = map ep_doc eps, semantic_index = map fact_doc facts, dirty = False, timer = False\<rparr>)"

definition save_list :: "config \<Rightarrow> string \<Rightarrow> json list \<Rightarrow> dir \<Rightarrow> dir" where
  "save_list c p js d = atomic_write_json (tmp_name c p) p (JList js) True (backup_count c) d"

definition save :: "config \<Rightarrow> store \<times> dir \<Rightarrow> store \<times> dir" where
  "save c sd =
     (let (s, d) = sd
      in (s\<lparr>dirty := False, timer := False\<rparr>,
          save_list c procedural_path (map (dump_proc c) (procedural s))
            (save_list c semantic_path (map (dump_fact c) (semantic s))
              (save_list c episodic_path (map (dump_ep c) (episodic s)) d))))"

text \<open>\<open>_mark_dirty\<close>, inside an event loop or not.\<close>

definition mark_dirty :: "config \<Rightarrow> bool \<Rightarrow> store \<times> dir \<Rightarrow> store \<times> dir" where
  "mark_dirty c in_loop sd =
     (let sd1 = ((fst sd)\<lparr>dirty := True\<rparr>, snd sd)
      in if \<not> auto_save c then sd1 else if in_loop then ((fst sd1)\<lparr>timer := True\<rparr>, snd sd1) else save c sd1)"

definition debounced_save :: "config \<Rightarrow> store \<times> dir \<Rightarrow> store \<times> dir" where
  "debounced_save c sd =
     (let s = (fst sd)\<lparr>timer := False\<rparr> in if \<not> dirty s then (s, snd sd) else save c (s, snd sd))"

definition flush :: "config \<Rightarrow> store \<times> dir \<Rightarrow> store \<times> dir" where
  "flush c sd = (if dirty (fst sd) then save c sd else sd)"

section \<open>Operations\<close>

definition record_episode :: "config \<Rightarrow> bool \<Rightarrow> episode \<Rightarrow> store \<times> dir \<Rightarrow> store \<times> dir" where
  "record_episode c in_loop e sd =
     (let s = fst sd
      in mark_dirty c in_loop (s\<lparr>episodic := episodic s @ [e], episodic_index := episodic_index s @ [ep_doc e]\<rparr>, snd sd))"

text \<open>A dictionary made from a list keeps the last entry of a key.\<close>

definition by_id :: "('a \<Rightarrow> string) \<Rightarrow> 'a list \<Rightarrow> string \<Rightarrow> 'a option" where
  "by_id key xs i = map_of (rev (map (\<lambda>x. (key x, x)) xs)) i"

definition search_episodes :: "(docs \<Rightarrow> string \<Rightarrow> nat \<Rightarrow> string list) \<Rightarrow> string \<Rightarrow> nat \<Rightarrow> store \<Rightarrow> episode list" where
  "search_episodes look q limit s = List.map_filter (by_id ep_id (episodic s)) (look (episodic_index s) q limit)"

definition get_recent_episodes :: "nat \<Rightarrow> store \<Rightarrow> episode list" where
  "get_recent_episodes limit s = take limit (sort_key (\<lambda>e. - ep_time e) (episodic s))"

definition learn_fact :: "config \<Rightarrow> bool \<Rightarrow> fact \<Rightarrow> store \<times> dir \<Rightarrow> store \<times> dir" where
  "learn_fact c in_loop f sd =
     (let s = fst sd
      in mark_dirty c in_loop (s\<lparr>semantic := semantic s @ [f], semantic_index := semantic_index s @ [fact_doc f]\<rparr>, snd sd))"

text \<open>
  \<open>search_knowledge\<close> counts the use of every fact it finds; facts are objects, so the fact of an identifier
  is the last one in the list that has it. The answer is sorted by confidence times uses.
\<close>

definition use_fact :: "py_float \<Rightarrow> string \<Rightarrow> fact list \<Rightarrow> fact list" where
  "use_fact now i fs =
     (if i \<in> fact_id ` set fs then
        (let k = last (filter (\<lambda>k. fact_id (fs ! k) = i) [0..<length fs])
         in fs[k := (fs ! k)\<lparr>use_count := use_count (fs ! k) + 1, last_used := now\<rparr>])
      else fs)"

definition search_knowledge ::
  "(docs \<Rightarrow> string \<Rightarrow> nat \<Rightarrow> string list) \<Rightarrow> config \<Rightarrow> bool \<Rightarrow> py_float \<Rightarrow> string \<Rightarrow> nat \<Rightarrow> store \<times> dir \<Rightarrow> fact list \<times> store \<times> dir" where
  "search_knowledge look c in_loop now q limit sd =
     (let s = fst sd;
          ids = look (semantic_index s) q limit;
          facts = fold (use_fact now) ids (semantic s);
          found = List.map_filter (by_id fact_id facts) ids
      in (take limit (sort_key (\<lambda>m. - (confidence m * of_nat (use_count m))) found),
          mark_dirty c in_loop (s\<lparr>semantic := facts\<rparr>, snd sd)))"

definition get_facts_by_topic :: "string \<Rightarrow> store \<Rightarrow> fact list" where
  "get_facts_by_topic t s = filter (\<lambda>m. lower (topic m) = lower t) (semantic s)"

definition store_procedure :: "config \<Rightarrow> bool \<Rightarrow> procedure \<Rightarrow> store \<times> dir \<Rightarrow> store \<times> dir" where
  "store_procedure c in_loop p sd = mark_dirty c in_loop ((fst sd)\<lparr>procedural := procedural (fst sd) @ [p]\<rparr>, snd sd)"

definition new_procedure :: "string \<Rightarrow> string \<Rightarrow> string list \<Rightarrow> procedure" where
  "new_procedure i p ss = \<lparr>proc_id = i, procedure_name = p, steps = ss, success_rate = 1, times_applied = 0, times_succeeded = 0,
     avg_duration = 0, prerequisites = [], proc_tags = []\<rparr>"

definition named :: "string \<Rightarrow> procedure \<Rightarrow> bool" where
  "named p x = (lower (procedure_name x) = lower p)"

definition find_procedure :: "string \<Rightarrow> store \<Rightarrow> procedure option" where
  "find_procedure p s = find (named p) (procedural s)"

definition apply_outcome :: "bool \<Rightarrow> py_float \<Rightarrow> procedure \<Rightarrow> procedure" where
  "apply_outcome succeeded duration x =
     (let n = times_applied x + 1; k = times_succeeded x + (if succeeded then 1 else 0)
      in x\<lparr>times_applied := n, times_succeeded := k, success_rate := of_nat k / of_nat (max n 1),
           avg_duration := (if n = 1 then duration else (avg_duration x * of_nat (n - 1) + duration) / of_nat n)\<rparr>)"

fun update_first :: "('a \<Rightarrow> bool) \<Rightarrow> ('a \<Rightarrow> 'a) \<Rightarrow> 'a list \<Rightarrow> 'a list" where
  "update_first P f [] = []"
| "update_first P f (x # xs) = (if P x then f x # xs else x # update_first P f xs)"

definition record_procedure_outcome :: "config \<Rightarrow> bool \<Rightarrow> string \<Rightarrow> bool \<Rightarrow> py_float \<Rightarrow> store \<times> dir \<Rightarrow> store \<times> dir" where
  "record_procedure_outcome c in_loop p succeeded duration sd =
     (case find_procedure p (fst sd) of
        None \<Rightarrow> sd
      | Some _ \<Rightarrow>
          mark_dirty c in_loop
            ((fst sd)\<lparr>procedural := update_first (named p) (apply_outcome succeeded duration) (procedural (fst sd))\<rparr>, snd sd))"

definition search_procedures :: "string \<Rightarrow> store \<Rightarrow> procedure list" where
  "search_procedures q s =
     filter (\<lambda>p. sublist (lower q) (lower (procedure_name p)) \<or> list_ex (\<lambda>t. sublist (lower q) (lower t)) (proc_tags p)) (procedural s)"

record mem_stats =
  n_episodic :: nat
  n_semantic :: nat
  n_procedural :: nat
  n_successes :: nat
  n_failures :: nat
  m_success_rate :: py_float
  avg_confidence :: py_float
  avg_success_rate :: py_float

definition stats :: "store \<Rightarrow> mem_stats" where
  "stats s =
     (let ok = length (filter (\<lambda>e. outcome e = ''success'') (episodic s));
          bad = length (filter (\<lambda>e. outcome e = ''failure'') (episodic s))
      in \<lparr>n_episodic = length (episodic s), n_semantic = length (semantic s), n_procedural = length (procedural s),
          n_successes = ok, n_failures = bad, m_success_rate = of_nat ok / of_nat (max (ok + bad) 1),
          avg_confidence = sum_list (map confidence (semantic s)) / of_nat (max (length (semantic s)) 1),
          avg_success_rate = sum_list (map success_rate (procedural s)) / of_nat (max (length (procedural s)) 1)\<rparr>)"

section \<open>Searching\<close>

text \<open>What the store relies on of an index: it answers with identifiers of its documents, at most as many as asked for.\<close>

locale doc_index =
  fixes look :: "docs \<Rightarrow> string \<Rightarrow> nat \<Rightarrow> string list"
  assumes look_known: "set (look ds q k) \<subseteq> fst ` set ds"
    and look_length: "length (look ds q k) \<le> k"
    and look_all: "length ds \<le> k \<Longrightarrow> set (look ds q k) = fst ` set ds"
begin

lemma length_map_filter_le: "length (List.map_filter f xs) \<le> length xs"
  by (induction xs) (auto simp: map_filter_simps split: option.split)

lemma by_id_in: "by_id key xs i = Some x \<Longrightarrow> x \<in> set xs \<and> key x = i"
  by (auto simp: by_id_def dest!: map_of_SomeD)

lemma by_id_distinct: "distinct (map key xs) \<Longrightarrow> x \<in> set xs \<Longrightarrow> by_id key xs (key x) = Some x"
  unfolding by_id_def by (rule map_of_is_SomeI) (auto simp: rev_map [symmetric] o_def)

lemma search_sound:
  "set (search_episodes look q limit s) \<subseteq> set (episodic s) \<and> length (search_episodes look q limit s) \<le> limit"
proof
  show "set (search_episodes look q limit s) \<subseteq> set (episodic s)"
    by (auto simp: search_episodes_def map_filter_def dest: by_id_in)
  show "length (search_episodes look q limit s) \<le> limit"
    unfolding search_episodes_def by (rule order_trans [OF length_map_filter_le look_length])
qed

lemma search_complete:
  assumes "episodic_index s = map ep_doc (episodic s)" and "distinct (map ep_id (episodic s))" and "length (episodic s) \<le> limit"
  shows "set (search_episodes look q limit s) = set (episodic s)"
proof -
  have ids: "set (look (episodic_index s) q limit) = ep_id ` set (episodic s)"
    using look_all [of "episodic_index s" limit q] assms by (simp add: image_image ep_doc_def)
  have "e \<in> set (search_episodes look q limit s)" if "e \<in> set (episodic s)" for e
    using by_id_distinct [OF assms(2) that] ids that by (force simp: search_episodes_def map_filter_def)
  then show ?thesis using search_sound [of q limit s] by blast
qed

end

interpretation numpy_index: doc_index "nearest sim" for sim
proof
  show "set (nearest sim ds q k) \<subseteq> fst ` set ds" for ds q k by (auto simp: nearest_def dest!: in_set_takeD)
  show "length (nearest sim ds q k) \<le> k" for ds q k by (simp add: nearest_def)
  show "set (nearest sim ds q k) = fst ` set ds" if "length ds \<le> k" for ds q k
    using that by (simp add: nearest_def min_def)
qed

section \<open>Saving and restoring\<close>

abbreviation paths :: "string list" where
  "paths \<equiv> [episodic_path, semantic_path, procedural_path]"

text \<open>
  What is relied on of a configuration: temporary names end in \<open>.tmp\<close>, some backups are kept, and Pydantic parses
  what it dumped.
\<close>

definition config_ok :: "config \<Rightarrow> bool" where
  "config_ok c \<longleftrightarrow> 0 < backup_count c \<and> (\<forall>p. is_tmp (tmp_name c p)) \<and>
     (\<forall>x. parse_ep c (dump_ep c x) = Some x) \<and> (\<forall>x. parse_fact c (dump_fact c x) = Some x) \<and> (\<forall>x. parse_proc c (dump_proc c x) = Some x)"

definition tmps_free :: "config \<Rightarrow> dir \<Rightarrow> bool" where
  "tmps_free c d \<longleftrightarrow> (\<forall>p \<in> set paths. \<not> dict_has d (tmp_name c p))"

lemma path_facts:
  assumes "p \<in> set paths" and "q \<in> set paths" and "p \<noteq> q"
  shows "q \<noteq> bak p k" and "bak q j \<noteq> bak p k" and "bak q j \<noteq> p"
  using assms by (auto simp: bak_def with_suffix_def)

lemma tmp_not_path: "is_tmp t \<Longrightarrow> p \<in> set paths \<Longrightarrow> t \<noteq> p"
  by (auto simp: is_tmp_def suffix_def)

lemma save_list_effect:
  assumes "config_ok c" and "tmps_free c d" and "p \<in> set paths" and d': "d' = save_list c p js d"
  shows "atomic_read_json p f d' = JList js" and "tmps_free c d'"
    and "\<And>q. q \<in> set paths \<Longrightarrow> q \<noteq> p \<Longrightarrow> atomic_read_json q f d' = atomic_read_json q f d"
proof -
  have tmp: "is_tmp (tmp_name c q)" for q using assms(1) by (simp add: config_ok_def)
  have n: "0 < backup_count c" using assms(1) by (simp add: config_ok_def)
  have nt: "\<not> dict_has d (tmp_name c p)" using assms(2,3) unfolding tmps_free_def by blast
  note eff = write_effect [OF tmp tmp_not_path [OF tmp assms(3)] nt n d' [unfolded save_list_def]]
  show "atomic_read_json p f d' = JList js" using eff(1) by (simp add: atomic_read_json_def)
  show "tmps_free c d'" unfolding tmps_free_def
  proof
    fix q assume q: "q \<in> set paths"
    have "map_of d' (tmp_name c q) = map_of d (tmp_name c q)"
      using tmp_not_path [OF tmp assms(3)] tmp_not_bak [OF tmp] by (intro eff(6)) auto
    then show "\<not> dict_has d' (tmp_name c q)" using assms(2) q by (auto simp: tmps_free_def dict_has_iff)
  qed
  show "atomic_read_json q f d' = atomic_read_json q f d" if "q \<in> set paths" "q \<noteq> p" for q
  proof -
    have "map_of d' q = map_of d q" using that path_facts [OF assms(3) that(1)] by (intro eff(6)) auto
    moreover have "map_of d' (bak q 1) = map_of d (bak q 1)" using that path_facts [OF assms(3) that(1)] by (intro eff(6)) auto
    ultimately show ?thesis unfolding atomic_read_json_def by (simp only:)
  qed
qed

lemma parse_dumped: "(\<And>x. parse (dump x) = Some x) \<Longrightarrow> parse_items parse (map dump xs) = xs"
  by (induction xs) auto

definition contents :: "store \<Rightarrow> episode list \<times> fact list \<times> procedure list" where
  "contents s = (episodic s, semantic s, procedural s)"

definition indexed :: "store \<Rightarrow> bool" where
  "indexed s \<longleftrightarrow> episodic_index s = map ep_doc (episodic s) \<and> semantic_index s = map fact_doc (semantic s)"

lemma save_restores:
  assumes "config_ok c" and "tmps_free c d" and "save c (s, d) = (s', d')"
  shows "contents (restore_from_disk c d') = contents s" and "tmps_free c d'" and "contents s' = contents s"
proof -
  define d1 where "d1 = save_list c episodic_path (map (dump_ep c) (episodic s)) d"
  define d2 where "d2 = save_list c semantic_path (map (dump_fact c) (semantic s)) d1"
  have d': "d' = save_list c procedural_path (map (dump_proc c) (procedural s)) d2" and s': "s' = s\<lparr>dirty := False, timer := False\<rparr>"
    using assms(3) by (simp_all add: save_def d1_def d2_def)
  note e1 = save_list_effect [OF assms(1,2) _ d1_def]
  note e2 = save_list_effect [OF assms(1) e1(2) _ d2_def]
  note e3 = save_list_effect [OF assms(1) e2(2) _ d']
  have laws: "parse_ep c (dump_ep c x) = Some x" "parse_fact c (dump_fact c y) = Some y" "parse_proc c (dump_proc c z) = Some z" for x y z
    using assms(1) by (simp_all add: config_ok_def)
  have "atomic_read_json episodic_path f d' = JList (map (dump_ep c) (episodic s))"
      "atomic_read_json semantic_path f d' = JList (map (dump_fact c) (semantic s))"
      "atomic_read_json procedural_path f d' = JList (map (dump_proc c) (procedural s))" for f
    using e1 e2 e3 by simp_all
  then show "contents (restore_from_disk c d') = contents s"
    by (simp add: contents_def restore_from_disk_def restore_list_def Let_def parse_dumped laws)
  show "tmps_free c d'" using e3(2) by simp
  show "contents s' = contents s" by (simp add: contents_def s')
qed

section \<open>Runs\<close>

text \<open>
  Calls of the store, each inside an event loop or not, the timer, and a flush. Searching for facts is an
  operation too, since it counts their uses.
\<close>

datatype mem_op =
    Episode bool episode
  | Learn bool fact
  | StoreProc bool procedure
  | Outcome bool string bool py_float
  | Know bool py_float string nat
  | Timer
  | Flush

fun mem_step :: "(docs \<Rightarrow> string \<Rightarrow> nat \<Rightarrow> string list) \<Rightarrow> config \<Rightarrow> mem_op \<Rightarrow> store \<times> dir \<Rightarrow> store \<times> dir" where
  "mem_step look c (Episode l e) sd = record_episode c l e sd"
| "mem_step look c (Learn l f) sd = learn_fact c l f sd"
| "mem_step look c (StoreProc l p) sd = store_procedure c l p sd"
| "mem_step look c (Outcome l p b x) sd = record_procedure_outcome c l p b x sd"
| "mem_step look c (Know l now q k) sd = snd (search_knowledge look c l now q k sd)"
| "mem_step look c Timer sd = (if timer (fst sd) then debounced_save c sd else sd)"
| "mem_step look c Flush sd = flush c sd"

definition mem_run :: "(docs \<Rightarrow> string \<Rightarrow> nat \<Rightarrow> string list) \<Rightarrow> config \<Rightarrow> mem_op list \<Rightarrow> store \<times> dir \<Rightarrow> store \<times> dir" where
  "mem_run look c calls sd = foldl (\<lambda>sd x. mem_step look c x sd) sd calls"

definition mem_inv :: "config \<Rightarrow> store \<times> dir \<Rightarrow> bool" where
  "mem_inv c sd \<longleftrightarrow>
     indexed (fst sd) \<and> tmps_free c (snd sd) \<and>
     (dirty (fst sd) \<or> contents (restore_from_disk c (snd sd)) = contents (fst sd)) \<and>
     (auto_save c \<longrightarrow> dirty (fst sd) \<longrightarrow> timer (fst sd))"

lemma indexed_upd [simp]: "indexed (s\<lparr>dirty := x\<rparr>) = indexed s" "indexed (s\<lparr>timer := x\<rparr>) = indexed s"
  by (simp_all add: indexed_def)

lemma contents_upd [simp]: "contents (s\<lparr>dirty := x\<rparr>) = contents s" "contents (s\<lparr>timer := x\<rparr>) = contents s"
  by (simp_all add: contents_def)

lemma save_inv:
  assumes "config_ok c" and "tmps_free c d" and "indexed s"
  shows "mem_inv c (save c (s, d)) \<and> \<not> dirty (fst (save c (s, d)))"
proof -
  obtain s' d' where s: "save c (s, d) = (s', d')" by fastforce
  have "s' = s\<lparr>dirty := False, timer := False\<rparr>" using s by (simp add: save_def)
  then show ?thesis using save_restores [OF assms(1,2) s] assms(3) by (simp add: mem_inv_def s)
qed

lemma mark_dirty_inv:
  assumes "config_ok c" and "tmps_free c (snd sd)" and "indexed (fst sd)"
  shows "mem_inv c (mark_dirty c l sd)"
  using assms save_inv [OF assms(1,2), of "(fst sd)\<lparr>dirty := True\<rparr>"]
  by (auto simp: mark_dirty_def Let_def mem_inv_def)

lemma map_update_same: "f y = f (xs ! k) \<Longrightarrow> map f (xs[k := y]) = map f xs"
  by (cases "k < length xs") (simp add: map_update, metis list_update_id nth_map, simp add: list_update_beyond)

lemma use_fact_doc: "map fact_doc (use_fact now i fs) = map fact_doc fs"
  unfolding use_fact_def Let_def by (simp add: map_update_same fact_doc_def)

lemma use_facts_doc: "map fact_doc (fold (use_fact now) ids fs) = map fact_doc fs"
  by (induction ids arbitrary: fs) (simp_all add: use_fact_doc)

lemma mem_step_inv:
  assumes "config_ok c" and "mem_inv c sd"
  shows "mem_inv c (mem_step look c x sd)"
proof -
  have inv: "indexed (fst sd)" "tmps_free c (snd sd)" using assms(2) by (simp_all add: mem_inv_def)
  note md = mark_dirty_inv [OF assms(1)]
  show ?thesis
  proof (cases x)
    case (Episode l e)
    then show ?thesis using inv by (simp add: record_episode_def Let_def) (intro md; simp add: indexed_def)
  next
    case (Learn l f)
    then show ?thesis using inv by (simp add: learn_fact_def Let_def) (intro md; simp add: indexed_def)
  next
    case (StoreProc l p)
    then show ?thesis using inv by (simp add: store_procedure_def) (intro md; simp add: indexed_def)
  next
    case (Outcome l p b y)
    have "indexed ((fst sd)\<lparr>procedural := z\<rparr>)" for z using inv(1) by (simp add: indexed_def)
    then have "mem_inv c (mark_dirty c l ((fst sd)\<lparr>procedural := z\<rparr>, snd sd))" for z using inv(2) by (intro md) simp_all
    then show ?thesis using assms(2) by (cases "find_procedure p (fst sd)") (simp_all add: Outcome record_procedure_outcome_def)
  next
    case (Know l now q k)
    then show ?thesis using inv by (simp add: search_knowledge_def Let_def) (intro md; simp add: indexed_def use_facts_doc)
  next
    case Timer
    then show ?thesis using inv assms save_inv [OF assms(1) inv(2), of "(fst sd)\<lparr>timer := False\<rparr>"]
      by (auto simp: debounced_save_def Let_def mem_inv_def)
  next
    case Flush
    then show ?thesis using inv assms save_inv [OF assms(1) inv(2), of "fst sd"] by (simp add: flush_def)
  qed
qed

lemma mem_run_inv: "config_ok c \<Longrightarrow> mem_inv c sd \<Longrightarrow> mem_inv c (mem_run look c calls sd)"
  unfolding mem_run_def by (induction calls arbitrary: sd) (simp_all add: mem_step_inv)

lemma restored_inv: "tmps_free c d \<Longrightarrow> mem_inv c (restore_from_disk c d, d)"
  by (simp add: mem_inv_def indexed_def restore_from_disk_def Let_def)

text \<open>
  (C15) Memory survives a restart. A store that starts on the files of any directory and runs any sequence of
  calls, in an event loop or outside, is found again with all its episodes, facts and procedures by a
  store that starts on the files after a flush, and at any moment when nothing is marked as changed;
  with automatic saving, whatever is marked as changed has a timer running that will save it. Its
  indexes always describe exactly its episodes and facts.
\<close>

theorem memory_survives_restart:
  assumes "config_ok c" and "tmps_free c d" and "mem_run look c calls (restore_from_disk c d, d) = (s, d')"
  shows "contents (restore_from_disk c (snd (flush c (s, d')))) = contents s \<and>
    (\<not> dirty s \<longrightarrow> contents (restore_from_disk c d') = contents s) \<and> (auto_save c \<and> dirty s \<longrightarrow> timer s) \<and>
    episodic_index s = map ep_doc (episodic s) \<and> semantic_index s = map fact_doc (semantic s)"
proof -
  have inv: "mem_inv c (s, d')" using mem_run_inv [OF assms(1) restored_inv [OF assms(2)], of look calls] by (simp add: assms(3))
  have "contents (restore_from_disk c (snd (flush c (s, d')))) = contents s"
  proof (cases "dirty s")
    case True
    obtain s2 d2 where s: "save c (s, d') = (s2, d2)" by fastforce
    then show ?thesis using True inv save_restores(1) [OF assms(1) _ s] by (simp add: flush_def mem_inv_def)
  next
    case False
    then show ?thesis using inv by (simp add: flush_def mem_inv_def)
  qed
  then show ?thesis using inv by (auto simp: mem_inv_def indexed_def)
qed

definition demo_episode :: episode where
  "demo_episode = \<lparr>ep_id = ''e'', ep_time = 0, task_description = ''t'', solution_summary = [], tech_stack = [], outcome = ''success'',
     duration_seconds = 0, error_message = [], ep_tags = [], ep_context = JDict []\<rparr>"

section \<open>A format of the files\<close>

text \<open>One way to dump and parse the three kinds of memories, which satisfies the law.\<close>

definition get_str :: "(string, json) dict \<Rightarrow> string \<Rightarrow> string option" where
  "get_str d k = (case map_of d k of Some (JStr s) \<Rightarrow> Some s | _ \<Rightarrow> None)"

definition get_float :: "(string, json) dict \<Rightarrow> string \<Rightarrow> py_float option" where
  "get_float d k = (case map_of d k of Some (JFloat x) \<Rightarrow> Some x | _ \<Rightarrow> None)"

definition get_nat :: "(string, json) dict \<Rightarrow> string \<Rightarrow> nat option" where
  "get_nat d k = (case map_of d k of Some (JInt i) \<Rightarrow> if 0 \<le> i then Some (nat i) else None | _ \<Rightarrow> None)"

definition get_strs :: "(string, json) dict \<Rightarrow> string \<Rightarrow> string list option" where
  "get_strs d k = (case map_of d k of
     Some (JList js) \<Rightarrow> if list_all (\<lambda>j. case j of JStr _ \<Rightarrow> True | _ \<Rightarrow> False) js then Some (map (\<lambda>j. case j of JStr s \<Rightarrow> s | _ \<Rightarrow> []) js) else None
   | _ \<Rightarrow> None)"

abbreviation jstrs :: "string list \<Rightarrow> json" where
  "jstrs ss \<equiv> JList (map JStr ss)"

definition dump_episode :: "episode \<Rightarrow> json" where
  "dump_episode e = JDict [(''id'', JStr (ep_id e)), (''timestamp'', JFloat (ep_time e)), (''task_description'', JStr (task_description e)),
     (''solution_summary'', JStr (solution_summary e)), (''tech_stack'', JStr (tech_stack e)), (''outcome'', JStr (outcome e)),
     (''duration_seconds'', JFloat (duration_seconds e)), (''error_message'', JStr (error_message e)), (''tags'', jstrs (ep_tags e)),
     (''context'', ep_context e)]"

definition parse_episode :: "json \<Rightarrow> episode option" where
  "parse_episode j =
     (case j of
        JDict d \<Rightarrow>
          Option.bind (get_str d ''id'') (\<lambda>i. Option.bind (get_float d ''timestamp'') (\<lambda>t. Option.bind (get_str d ''task_description'') (\<lambda>td.
          Option.bind (get_str d ''solution_summary'') (\<lambda>ss. Option.bind (get_str d ''tech_stack'') (\<lambda>ts. Option.bind (get_str d ''outcome'') (\<lambda>ou.
          Option.bind (get_float d ''duration_seconds'') (\<lambda>du. Option.bind (get_str d ''error_message'') (\<lambda>em. Option.bind (get_strs d ''tags'') (\<lambda>tg.
          Some \<lparr>ep_id = i, ep_time = t, task_description = td, solution_summary = ss, tech_stack = ts, outcome = ou, duration_seconds = du,
            error_message = em, ep_tags = tg, ep_context = dict_get d ''context'' (JDict [])\<rparr>)))))))))
      | _ \<Rightarrow> None)"

definition dump_fact_json :: "fact \<Rightarrow> json" where
  "dump_fact_json f = JDict [(''id'', JStr (fact_id f)), (''topic'', JStr (topic f)), (''fact'', JStr (fact_text f)), (''confidence'', JFloat (confidence f)),
     (''source'', JStr (source f)), (''use_count'', JInt (int (use_count f))), (''last_used'', JFloat (last_used f)), (''tags'', jstrs (fact_tags f))]"

definition parse_fact_json :: "json \<Rightarrow> fact option" where
  "parse_fact_json j =
     (case j of
        JDict d \<Rightarrow>
          Option.bind (get_str d ''id'') (\<lambda>i. Option.bind (get_str d ''topic'') (\<lambda>t. Option.bind (get_str d ''fact'') (\<lambda>f.
          Option.bind (get_float d ''confidence'') (\<lambda>c. Option.bind (get_str d ''source'') (\<lambda>s. Option.bind (get_nat d ''use_count'') (\<lambda>u.
          Option.bind (get_float d ''last_used'') (\<lambda>l. Option.bind (get_strs d ''tags'') (\<lambda>tg.
          Some \<lparr>fact_id = i, topic = t, fact_text = f, confidence = c, source = s, use_count = u, last_used = l, fact_tags = tg\<rparr>))))))))
      | _ \<Rightarrow> None)"

definition dump_procedure :: "procedure \<Rightarrow> json" where
  "dump_procedure p = JDict [(''id'', JStr (proc_id p)), (''procedure_name'', JStr (procedure_name p)), (''steps'', jstrs (steps p)),
     (''success_rate'', JFloat (success_rate p)), (''times_applied'', JInt (int (times_applied p))), (''times_succeeded'', JInt (int (times_succeeded p))),
     (''avg_duration'', JFloat (avg_duration p)), (''prerequisites'', jstrs (prerequisites p)), (''tags'', jstrs (proc_tags p))]"

definition parse_procedure :: "json \<Rightarrow> procedure option" where
  "parse_procedure j =
     (case j of
        JDict d \<Rightarrow>
          Option.bind (get_str d ''id'') (\<lambda>i. Option.bind (get_str d ''procedure_name'') (\<lambda>n. Option.bind (get_strs d ''steps'') (\<lambda>s.
          Option.bind (get_float d ''success_rate'') (\<lambda>r. Option.bind (get_nat d ''times_applied'') (\<lambda>a. Option.bind (get_nat d ''times_succeeded'') (\<lambda>k.
          Option.bind (get_float d ''avg_duration'') (\<lambda>m. Option.bind (get_strs d ''prerequisites'') (\<lambda>q. Option.bind (get_strs d ''tags'') (\<lambda>tg.
          Some \<lparr>proc_id = i, procedure_name = n, steps = s, success_rate = r, times_applied = a, times_succeeded = k, avg_duration = m,
            prerequisites = q, proc_tags = tg\<rparr>)))))))))
      | _ \<Rightarrow> None)"

lemmas get_defs = get_str_def get_float_def get_nat_def get_strs_def

lemma jstrs_simps: "list_all (\<lambda>j. case j of JStr _ \<Rightarrow> True | _ \<Rightarrow> False) (map JStr ss)" "map ((\<lambda>j. case j of JStr s \<Rightarrow> s | _ \<Rightarrow> []) \<circ> JStr) ss = ss"
  by (simp_all add: list_all_iff o_def)

lemma parse_dump:
  "parse_episode (dump_episode e) = Some e" "parse_fact_json (dump_fact_json f) = Some f" "parse_procedure (dump_procedure p) = Some p"
  by (simp_all add: parse_episode_def dump_episode_def parse_fact_json_def dump_fact_json_def parse_procedure_def dump_procedure_def
      get_defs jstrs_simps dict_get_def)

definition file_config :: "bool \<Rightarrow> config" where
  "file_config auto = \<lparr>auto_save = auto, backup_count = 5, tmp_name = (\<lambda>p. p @ ''.tmp''), dump_ep = dump_episode, dump_fact = dump_fact_json,
     dump_proc = dump_procedure, parse_ep = parse_episode, parse_fact = parse_fact_json, parse_proc = parse_procedure\<rparr>"

lemma file_config_ok: "config_ok (file_config auto)"
  by (simp add: config_ok_def file_config_def is_tmp_def suffix_def parse_dump)

theorem memory_survives_restart_witness:
  "\<exists>s d'. mem_run (nearest (\<lambda>_ _. 0)) (file_config True) [Episode True demo_episode] (restore_from_disk (file_config True) [], []) = (s, d') \<and>
     episodic s = [demo_episode] \<and> dirty s \<and> timer s \<and>
     contents (restore_from_disk (file_config True) (snd (flush (file_config True) (s, d')))) = ([demo_episode], [], [])"
proof -
  let ?c = "file_config True"
  have free: "tmps_free ?c []" by (simp add: tmps_free_def dict_has_iff)
  obtain s d' where r: "mem_run (nearest (\<lambda>_ _. 0)) ?c [Episode True demo_episode] (restore_from_disk ?c [], []) = (s, d')" by fastforce
  have s: "episodic s = [demo_episode]" "dirty s" "semantic s = []" "procedural s = []"
    using r by (auto simp: mem_run_def record_episode_def mark_dirty_def file_config_def restore_from_disk_def restore_list_def atomic_read_json_def Let_def)
  show ?thesis using memory_survives_restart [OF file_config_ok free r] r s by (auto simp: contents_def file_config_def)
qed

section \<open>Statistics of procedures\<close>

lemma apply_outcome_name [simp]: "procedure_name (apply_outcome b x p) = procedure_name p"
  by (simp add: apply_outcome_def Let_def)

lemma update_first_twice:
  "(\<And>x. P x \<Longrightarrow> P (f x)) \<Longrightarrow> update_first P g (update_first P f xs) = update_first P (g \<circ> f) xs"
  by (induction xs) auto

lemma find_update_first: "(\<And>x. P x \<Longrightarrow> P (f x)) \<Longrightarrow> find P (update_first P f xs) = map_option f (find P xs)"
  by (induction xs) auto

lemma mark_dirty_procedural [simp]: "procedural (fst (mark_dirty c l sd)) = procedural (fst sd)"
  by (simp add: mark_dirty_def save_def Let_def split_beta)

definition record_outcomes :: "config \<Rightarrow> string \<Rightarrow> (bool \<times> bool \<times> py_float) list \<Rightarrow> store \<times> dir \<Rightarrow> store \<times> dir" where
  "record_outcomes c p os sd = foldl (\<lambda>sd (l, b, x). record_procedure_outcome c l p b x sd) sd os"

lemma record_outcomes_first:
  "procedural (fst (record_outcomes c p os sd)) = update_first (named p) (\<lambda>x. foldl (\<lambda>x (l, b, y). apply_outcome b y x) x os) (procedural (fst sd))"
proof (induction os arbitrary: sd)
  case Nil
  have "update_first P (\<lambda>x. x) xs = xs" for P and xs :: "procedure list" by (induction xs) auto
  then show ?case by (simp add: record_outcomes_def)
next
  case (Cons a os)
  obtain l b y where a: "a = (l, b, y)" by (rule prod_cases3)
  have nm: "named p x \<Longrightarrow> named p (apply_outcome b y x)" for x by (simp add: named_def)
  have none: "update_first P f xs = xs" if "find P xs = None" for P and f :: "procedure \<Rightarrow> procedure" and xs
    using that by (induction xs) (auto split: if_splits)
  have "procedural (fst (record_procedure_outcome c l p b y sd)) = update_first (named p) (apply_outcome b y) (procedural (fst sd))"
    using none by (simp add: record_procedure_outcome_def find_procedure_def split: option.split)
  moreover have "record_outcomes c p (a # os) sd = record_outcomes c p os (record_procedure_outcome c l p b y sd)" by (simp add: record_outcomes_def a)
  ultimately show ?case using Cons.IH update_first_twice [of "named p" "apply_outcome b y", OF nm] by (simp add: a o_def)
qed

lemma outcomes_exact:
  fixes os :: "(bool \<times> bool \<times> py_float) list"
  assumes "times_applied x = 0" and "times_succeeded x = 0"
  defines "y \<equiv> foldl (\<lambda>x (l, b, y). apply_outcome b y x) x os"
  shows "times_applied y = length os \<and> times_succeeded y = length (filter (\<lambda>(_, b, _). b) os) \<and>
    (os \<noteq> [] \<longrightarrow> success_rate y = of_nat (times_succeeded y) / of_nat (length os) \<and>
       avg_duration y = sum_list (map (\<lambda>(_, _, t). t) os) / of_nat (length os))"
  unfolding y_def
proof (induction os rule: rev_induct)
  case Nil
  show ?case using assms(1,2) by simp
next
  case (snoc a os)
  obtain l b t where a: "a = (l, b, t)" by (rule prod_cases3)
  show ?case
  proof (cases "os = []")
    case True
    then show ?thesis using assms(1,2) by (simp add: a apply_outcome_def Let_def)
  next
    case False
    then have "(of_nat (length os) :: rat) \<noteq> 0" by simp
    then show ?thesis using snoc.IH False by (auto simp: a apply_outcome_def Let_def)
  qed
qed

text \<open>
  After any outcomes of a procedure that was stored new, its statistics are exact: how often it was
  applied and succeeded, its success rate and its mean duration; other procedures, and later ones of the
  same name, are untouched.
\<close>

theorem procedure_statistics_exact:
  assumes "procedural (fst sd) = pre @ x # post" and "named p x" and "\<forall>y \<in> set pre. \<not> named p y"
    and "times_applied x = 0" and "times_succeeded x = 0" and "os \<noteq> []"
  shows "\<exists>y. procedural (fst (record_outcomes c p os sd)) = pre @ y # post \<and> times_applied y = length os \<and>
    times_succeeded y = length (filter (\<lambda>(_, b, _). b) os) \<and> success_rate y = of_nat (times_succeeded y) / of_nat (length os) \<and>
    avg_duration y = sum_list (map (\<lambda>(_, _, t). t) os) / of_nat (length os)"
proof -
  have "update_first P f (pre @ x # post) = pre @ f x # post" if "P x" "\<forall>y \<in> set pre. \<not> P y" for P f
    using that(2) by (induction pre) (simp_all add: that(1))
  then show ?thesis using record_outcomes_first [of c p os sd] outcomes_exact [OF assms(4,5), of os] assms(1-3,6) by auto
qed

theorem procedure_statistics_exact_witness:
  "\<exists>y. procedural (fst (record_outcomes (file_config False) ''Deploy'' [(True, True, 2), (False, False, 4)]
      ((restore_from_disk (file_config False) [])\<lparr>procedural := [new_procedure ''1'' ''deploy'' []]\<rparr>, []))) = [y] \<and>
    success_rate y = 1 / 2 \<and> avg_duration y = 3"
proof -
  have "named ''Deploy'' (new_procedure ''1'' ''deploy'' [])" by code_simp
  moreover have "times_applied (new_procedure ''1'' ''deploy'' []) = 0" "times_succeeded (new_procedure ''1'' ''deploy'' []) = 0"
    by (simp_all add: new_procedure_def)
  ultimately show ?thesis
    using procedure_statistics_exact [of "((restore_from_disk (file_config False) [])\<lparr>procedural := [new_procedure ''1'' ''deploy'' []]\<rparr>, [])"
        "[]" "new_procedure ''1'' ''deploy'' []" "[]" "''Deploy''" "[(True, True, 2), (False, False, 4)]" "file_config False"] by auto
qed

text \<open>
  One record that does not parse hides those after it: the store starts with the records before it only, and
  the next save writes the shortened list.
\<close>

lemma bad_record_drops_rest:
  assumes "\<forall>x \<in> set pre. parse x \<noteq> None" and "parse bad = None"
  shows "length (parse_items parse (pre @ bad # post)) = length pre"
  using assms by (induction pre) (auto split: option.splits)

end
