(* ===== verification/Self_Healer.thy ===== *)
theory Self_Healer
  imports Ontology_Validator
begin

text \<open>
  The self-healer (\<open>healer/engine.py\<close>): a call is attempted again and again under the actions of a strategy, and
  what happens to the last failure depends on the action; every execution is counted and entered in a history.
  After a failed and a fixed version of some code it can also propose an axiom to the ontology, through
  \<open>crystallize_axiom\<close> of theory \<open>Ontology_Validator\<close>.

  A call is a function of its number and of the healing context it is given, to a value or to the text of an
  exception; a timeout is an exception. Times and identifiers are left out, and so are the callbacks, whose
  exceptions are swallowed.
\<close>

section \<open>Strategies\<close>

datatype action = RETRY | RETRY_WITH_CONTEXT | FALLBACK | ROLLBACK | SKIP | ESCALATE

fun action_value :: "action \<Rightarrow> string" where
  "action_value RETRY = ''retry''"
| "action_value RETRY_WITH_CONTEXT = ''retry_with_context''"
| "action_value FALLBACK = ''fallback''"
| "action_value ROLLBACK = ''rollback''"
| "action_value SKIP = ''skip''"
| "action_value ESCALATE = ''escalate''"

record 'a strategy =
  max_retries :: int
  backoff_base :: py_float
  backoff_max :: py_float
  fallback_value :: "'a option"
  actions :: "action list"

definition default_strategy :: "'a strategy" where
  "default_strategy = \<lparr>max_retries = 3, backoff_base = 1, backoff_max = 30, fallback_value = None, actions = [RETRY, RETRY_WITH_CONTEXT, FALLBACK]\<rparr>"

record healing =
  original_error :: string
  action_taken :: string
  healed :: bool

record healer =
  history :: "healing list"
  success_count :: nat
  failure_count :: nat
  strategies_applied :: "(string, nat) dict"

definition new_healer :: healer where
  "new_healer = \<lparr>history = [], success_count = 0, failure_count = 0, strategies_applied = []\<rparr>"

text \<open>The context of an attempt: the error before it and the number of that attempt.\<close>

type_synonym context_info = "(string \<times> nat) option"

type_synonym 'a call = "nat \<Rightarrow> context_info \<Rightarrow> string + 'a"

section \<open>Executing\<close>

definition backoff :: "'a strategy \<Rightarrow> nat \<Rightarrow> py_float" where
  "backoff st attempt = min (backoff_base st * 2 ^ attempt) (backoff_max st)"

text \<open>The attempts: for every action, \<open>range(max_retries)\<close>.\<close>

definition attempts :: "'a strategy \<Rightarrow> (action \<times> nat) list" where
  "attempts st = concat (map (\<lambda>a. map (Pair a) [0..<nat (max_retries st)]) (actions st))"

definition succeed :: "string option \<Rightarrow> action \<Rightarrow> nat \<Rightarrow> healer \<Rightarrow> healer" where
  "succeed last_error a n h =
     h\<lparr>success_count := success_count h + 1,
       history := history h @ [\<lparr>original_error = (case last_error of None \<Rightarrow> [] | Some e \<Rightarrow> e),
         action_taken = ''succeeded_on_'' @ action_value a @ ''_attempt_'' @ show_nat (n + 1), healed = True\<rparr>]\<rparr>"

definition give_up :: "string \<Rightarrow> string \<Rightarrow> bool \<Rightarrow> healer \<Rightarrow> healer" where
  "give_up err taken b h =
     h\<lparr>failure_count := failure_count h + 1, history := history h @ [\<lparr>original_error = err, action_taken = taken, healed = b\<rparr>]\<rparr>"

definition applied :: "action \<Rightarrow> healer \<Rightarrow> healer" where
  "applied a h = h\<lparr>strategies_applied := dict_set (action_value a) (dict_get (strategies_applied h) (action_value a) 0 + 1) (strategies_applied h)\<rparr>"

text \<open>
  The loop over the attempts that are left: the number of the call, the context, the last error, the healer and the
  delays slept. It returns a value, the fallback or nothing (\<open>Inr\<close>), or raises (\<open>Inl\<close>).
\<close>

fun heal_loop ::
  "'a call \<Rightarrow> bool \<Rightarrow> 'a strategy \<Rightarrow> 'a option \<Rightarrow> (action \<times> nat) list \<Rightarrow> nat \<Rightarrow> context_info \<Rightarrow> string option \<Rightarrow> healer \<Rightarrow> py_float list \<Rightarrow>
     (string + 'a option) \<times> healer \<times> nat \<times> py_float list" where
  "heal_loop f supports st fallback [] i ctx err h sl =
     (case err of
        None \<Rightarrow> (Inr fallback, give_up ''None'' ''all_strategies_exhausted'' False h, i, sl)
      | Some e \<Rightarrow> (Inl e, give_up e ''all_strategies_exhausted'' False h, i, sl))"
| "heal_loop f supports st fallback ((a, n) # rest) i ctx err h sl =
     (case f i (if supports then ctx else None) of
        Inr v \<Rightarrow> (Inr (Some v), succeed err a n h, i + 1, sl)
      | Inl e \<Rightarrow>
          (let h' = applied a h
           in case a of
                RETRY \<Rightarrow> heal_loop f supports st fallback rest (i + 1) ctx (Some e) h' (sl @ [backoff st n])
              | RETRY_WITH_CONTEXT \<Rightarrow> heal_loop f supports st fallback rest (i + 1) (Some (e, n)) (Some e) h' (sl @ [backoff st n])
              | FALLBACK \<Rightarrow> (Inr fallback, give_up e ''fallback'' (fallback \<noteq> None) h', i + 1, sl)
              | SKIP \<Rightarrow> (Inr None, give_up e ''skip'' False h', i + 1, sl)
              | ROLLBACK \<Rightarrow> (Inl e, give_up e ''rollback'' False h', i + 1, sl)
              | ESCALATE \<Rightarrow> (Inl e, give_up e ''escalate'' False h', i + 1, sl)))"

definition execute_with_healing ::
  "'a call \<Rightarrow> bool \<Rightarrow> 'a strategy \<Rightarrow> 'a option \<Rightarrow> healer \<Rightarrow> (string + 'a option) \<times> healer \<times> nat \<times> py_float list" where
  "execute_with_healing f supports st fallback h = heal_loop f supports st fallback (attempts st) 0 None None h []"

record heal_stats =
  total_executions :: nat
  successes :: nat
  failures :: nat
  healing_rate :: py_float

definition get_stats :: "healer \<Rightarrow> heal_stats" where
  "get_stats h =
     (let total_n = success_count h + failure_count h
      in \<lparr>total_executions = total_n, successes = success_count h, failures = failure_count h,
          healing_rate = of_nat (success_count h) / of_nat (max total_n 1)\<rparr>)"

text \<open>
  Proposing an axiom: without a model or an ontology nothing happens, and an exception counts as a refusal.
\<close>

definition propose_ontological_axiom ::
  "bool \<Rightarrow> builder \<Rightarrow> (string \<Rightarrow> json) \<Rightarrow> bool \<Rightarrow> string option \<Rightarrow> validator \<Rightarrow> bool option \<Rightarrow> string \<Rightarrow> graph option \<Rightarrow> bool \<times> graph option" where
  "propose_ontological_axiom has_llm build extract available reply v saved task_id g =
     (case g of
        None \<Rightarrow> (False, None)
      | Some graph \<Rightarrow>
          if \<not> has_llm then (False, g)
          else (let (r, g') = crystallize_axiom build extract available reply v saved task_id graph in (accepted r, Some g')))"

section \<open>What an execution does\<close>

text \<open>
  The context and the outcome of the \<open>i\<close>-th attempt when all before it failed and were retried.
\<close>

primrec ctx_at :: "'a call \<Rightarrow> bool \<Rightarrow> (action \<times> nat) list \<Rightarrow> nat \<Rightarrow> context_info" where
  "ctx_at f supports pl 0 = None"
| "ctx_at f supports pl (Suc i) =
     (case f i (if supports then ctx_at f supports pl i else None) of
        Inl e \<Rightarrow> if fst (pl ! i) = RETRY_WITH_CONTEXT then Some (e, snd (pl ! i)) else ctx_at f supports pl i
      | Inr _ \<Rightarrow> ctx_at f supports pl i)"

definition outcome_at :: "'a call \<Rightarrow> bool \<Rightarrow> (action \<times> nat) list \<Rightarrow> nat \<Rightarrow> string + 'a" where
  "outcome_at f supports pl i = f i (if supports then ctx_at f supports pl i else None)"

definition goes_on :: "'a call \<Rightarrow> bool \<Rightarrow> (action \<times> nat) list \<Rightarrow> nat \<Rightarrow> bool" where
  "goes_on f supports pl i \<longleftrightarrow> \<not> ok (outcome_at f supports pl i) \<and> fst (pl ! i) \<in> {RETRY, RETRY_WITH_CONTEXT}"

definition error_of :: "string + 'a \<Rightarrow> string" where
  "error_of r = (case r of Inl e \<Rightarrow> e | Inr _ \<Rightarrow> [])"

text \<open>How an execution ends at attempt \<open>m\<close>, or with all attempts used up.\<close>

definition ends_with :: "'a call \<Rightarrow> bool \<Rightarrow> (action \<times> nat) list \<Rightarrow> 'a option \<Rightarrow> nat \<Rightarrow> string + 'a option" where
  "ends_with f supports pl fallback m =
     (if m = length pl then (if m = 0 then Inr fallback else Inl (error_of (outcome_at f supports pl (m - 1))))
      else (case outcome_at f supports pl m of
              Inr v \<Rightarrow> Inr (Some v)
            | Inl e \<Rightarrow> (case fst (pl ! m) of FALLBACK \<Rightarrow> Inr fallback | SKIP \<Rightarrow> Inr None | _ \<Rightarrow> Inl e)))"

definition run_length :: "(action \<times> nat) list \<Rightarrow> nat \<Rightarrow> nat" where
  "run_length pl m = (if m = length pl then m else m + 1)"

lemma counters_simps [simp]:
  "success_count (succeed err a n h) = success_count h + 1" "failure_count (succeed err a n h) = failure_count h"
  "length (history (succeed err a n h)) = length (history h) + 1"
  "success_count (give_up e t b h) = success_count h" "failure_count (give_up e t b h) = failure_count h + 1"
  "length (history (give_up e t b h)) = length (history h) + 1"
  "success_count (applied a h) = success_count h" "failure_count (applied a h) = failure_count h" "history (applied a h) = history h"
  by (simp_all add: succeed_def give_up_def applied_def)

lemma heal_loop_effect:
  assumes "heal_loop f spt st fb rest (length pre) (ctx_at f spt (pre @ rest) (length pre)) err h sl = (r, h', calls, sl')"
    and "\<forall>j < length pre. goes_on f spt (pre @ rest) j"
    and "err = (if pre = [] then None else Some (error_of (outcome_at f spt (pre @ rest) (length pre - 1))))"
  shows "\<exists>m \<ge> length pre. m \<le> length (pre @ rest) \<and> (\<forall>j < m. goes_on f spt (pre @ rest) j) \<and> (m < length (pre @ rest) \<longrightarrow> \<not> goes_on f spt (pre @ rest) m) \<and>
    r = ends_with f spt (pre @ rest) fb m \<and> calls = run_length (pre @ rest) m \<and>
    sl' = sl @ map (backoff st \<circ> snd) (drop (length pre) (take m (pre @ rest))) \<and>
    success_count h' = success_count h + (if m < length (pre @ rest) \<and> ok (outcome_at f spt (pre @ rest) m) then 1 else 0) \<and>
    success_count h' + failure_count h' = success_count h + failure_count h + 1 \<and> length (history h') = length (history h) + 1"
  using assms
proof (induction rest arbitrary: pre err h sl)
  case Nil
  then show ?case by (intro exI [of _ "length pre"]) (auto simp: ends_with_def run_length_def split: option.splits if_splits)
next
  case (Cons an rest)
  obtain a n where an: "an = (a, n)" by fastforce
  note prems = Cons.prems [unfolded an]
  let ?pl = "pre @ (a, n) # rest" and ?m = "length pre"
  have here: "f ?m (if spt then ctx_at f spt ?pl ?m else None) = outcome_at f spt ?pl ?m" by (simp add: outcome_at_def)
  have act: "fst (?pl ! ?m) = a" "snd (?pl ! ?m) = n" by simp_all
  show ?case
  proof (cases "goes_on f spt ?pl ?m")
    case False
    have "r = ends_with f spt ?pl fb ?m \<and> calls = run_length ?pl ?m \<and> sl' = sl \<and>
        success_count h' = success_count h + (if ok (outcome_at f spt ?pl ?m) then 1 else 0) \<and>
        success_count h' + failure_count h' = success_count h + failure_count h + 1 \<and> length (history h') = length (history h) + 1"
    proof (cases "outcome_at f spt ?pl ?m")
      case (Inr v)
      then show ?thesis using prems(1) here by (auto simp: ends_with_def run_length_def)
    next
      case (Inl e)
      then have "a \<noteq> RETRY" "a \<noteq> RETRY_WITH_CONTEXT" using False act by (auto simp: goes_on_def)
      then show ?thesis using prems(1) here Inl act by (cases a) (auto simp: ends_with_def run_length_def Let_def)
    qed
    then show ?thesis unfolding an using prems(2) False by (intro exI [of _ ?m]) auto
  next
    case True
    then obtain e where e: "outcome_at f spt ?pl ?m = Inl e" and a: "a = RETRY \<or> a = RETRY_WITH_CONTEXT"
      by (auto simp: goes_on_def act not_ok_iff)
    have pl: "(pre @ [(a, n)]) @ rest = ?pl" by simp
    have ctx: "ctx_at f spt ?pl (Suc ?m) = (if a = RETRY_WITH_CONTEXT then Some (e, n) else ctx_at f spt ?pl ?m)"
      using e act by (simp add: outcome_at_def)
    have step: "heal_loop f spt st fb rest (length (pre @ [(a, n)])) (ctx_at f spt ((pre @ [(a, n)]) @ rest) (length (pre @ [(a, n)]))) (Some e)
        (applied a h) (sl @ [backoff st n]) = (r, h', calls, sl')"
    proof -
      have f: "f ?m (if spt then ctx_at f spt ?pl ?m else None) = Inl e" using here e by simp
      have len: "length (pre @ [(a, n)]) = Suc ?m" by simp
      show ?thesis unfolding pl len ctx using prems(1) f a by (auto simp: Let_def simp del: ctx_at.simps)
    qed
    have all: "\<forall>j < length (pre @ [(a, n)]). goes_on f spt ((pre @ [(a, n)]) @ rest) j"
      using prems(2) True by (simp add: less_Suc_eq)
    have err: "Some e = (if pre @ [(a, n)] = [] then None
        else Some (error_of (outcome_at f spt ((pre @ [(a, n)]) @ rest) (length (pre @ [(a, n)]) - 1))))"
      using e by (simp add: error_of_def)
    have len: "length (pre @ [(a, n)]) = Suc ?m" by simp
    obtain m where m: "Suc ?m \<le> m" "m \<le> length ?pl" "\<forall>j < m. goes_on f spt ?pl j" "m < length ?pl \<longrightarrow> \<not> goes_on f spt ?pl m"
        "r = ends_with f spt ?pl fb m" "calls = run_length ?pl m"
        "sl' = (sl @ [backoff st n]) @ map (backoff st \<circ> snd) (drop (Suc ?m) (take m ?pl))"
        "success_count h' = success_count h + (if m < length ?pl \<and> ok (outcome_at f spt ?pl m) then 1 else 0)"
        "success_count h' + failure_count h' = success_count h + failure_count h + 1" "length (history h') = length (history h) + 1"
      using Cons.IH [OF step all err, unfolded pl len counters_simps] by blast
    have "drop ?m (take m ?pl) = (a, n) # drop (Suc ?m) (take m ?pl)"
      using m(1) by (auto dest!: le_Suc_ex)
    then have sl': "sl' = sl @ map (backoff st \<circ> snd) (drop ?m (take m ?pl))" using m(7) by (simp only: list.map) simp
    have "?m \<le> m" using m(1) by simp
    with m(2-6) sl' m(8-10) show ?thesis unfolding an by blast
  qed
qed

text \<open>
  (C16) What an execution does, for every strategy and every call: it makes the attempts of the strategy in
  order, goes on while they fail under a retry action, and ends with the first value, with what
  the first other action says, or, when all attempts are used up, with the last error. It makes at most
  as many calls as the strategy has attempts, sleeps after every retried failure for at most the maximal
  backoff, and is counted exactly once, as a success exactly when a call returned.
\<close>

theorem healing_outcome:
  assumes "execute_with_healing f spt st fb h = (r, h', calls, sl)"
  shows "\<exists>m \<le> length (attempts st). (\<forall>j < m. goes_on f spt (attempts st) j) \<and> (m < length (attempts st) \<longrightarrow> \<not> goes_on f spt (attempts st) m) \<and>
    r = ends_with f spt (attempts st) fb m \<and> calls = run_length (attempts st) m \<and>
    calls \<le> length (actions st) * nat (max_retries st) \<and>
    sl = map (backoff st \<circ> snd) (take m (attempts st)) \<and> (\<forall>x \<in> set sl. x \<le> backoff_max st) \<and>
    total_executions (get_stats h') = total_executions (get_stats h) + 1 \<and> length (history h') = length (history h) + 1 \<and>
    successes (get_stats h') = successes (get_stats h) + (if m < length (attempts st) \<and> ok (outcome_at f spt (attempts st) m) then 1 else 0)"
proof -
  have len: "length (attempts st) = length (actions st) * nat (max_retries st)"
    by (simp add: attempts_def length_concat o_def sum_list_triv)
  have "heal_loop f spt st fb (attempts st) (length []) (ctx_at f spt ([] @ attempts st) (length [])) None h [] = (r, h', calls, sl)"
    using assms by (simp add: execute_with_healing_def)
  from heal_loop_effect [OF this] obtain m where m: "m \<le> length (attempts st)" "\<forall>j < m. goes_on f spt (attempts st) j"
      "m < length (attempts st) \<longrightarrow> \<not> goes_on f spt (attempts st) m" "r = ends_with f spt (attempts st) fb m" "calls = run_length (attempts st) m"
      "sl = map (backoff st \<circ> snd) (take m (attempts st))"
      "success_count h' = success_count h + (if m < length (attempts st) \<and> ok (outcome_at f spt (attempts st) m) then 1 else 0)"
      "success_count h' + failure_count h' = success_count h + failure_count h + 1" "length (history h') = length (history h) + 1" by auto
  moreover have "calls \<le> length (actions st) * nat (max_retries st)" using m(1,5) len by (simp add: run_length_def split: if_splits)
  moreover have "\<forall>x \<in> set sl. x \<le> backoff_max st" using m(6) by (auto simp: backoff_def)
  ultimately show ?thesis by (intro exI [of _ m]) (simp add: get_stats_def Let_def)
qed

definition demo_call :: "string call" where
  "demo_call i c = (if i < 4 then Inl ''boom'' else Inr (case c of None \<Rightarrow> ''plain'' | Some (e, n) \<Rightarrow> e))"

theorem healing_outcome_witness:
  "\<exists>h' calls sl. execute_with_healing demo_call True default_strategy None new_healer = (Inr (Some ''boom''), h', calls, sl) \<and> calls = 5 \<and>
     sl = [1, 2, 4, 1] \<and> length (history h') = 1 \<and> calls \<le> 9"
proof -
  obtain r h' calls sl where x: "execute_with_healing demo_call True default_strategy None new_healer = (r, h', calls, sl)" by (rule prod_cases4)
  have "fst (execute_with_healing demo_call True default_strategy None new_healer) = Inr (Some ''boom'')" by code_simp
  moreover have "snd (snd (execute_with_healing demo_call True default_strategy None new_healer)) = (5, [1, 2, 4, 1])" by code_simp
  moreover have "length (history new_healer) = 0" "length (actions (default_strategy :: string strategy)) = 3" by (simp_all add: new_healer_def default_strategy_def)
  moreover have "length (history h') = length (history new_healer) + 1" using healing_outcome [OF x] by blast
  ultimately show ?thesis using x by auto
qed

text \<open>A strategy without retries never calls the function and returns the fallback without an error.\<close>

lemma no_retries_no_call:
  "max_retries st \<le> 0 \<Longrightarrow> execute_with_healing f spt st fb h = (Inr fb, give_up ''None'' ''all_strategies_exhausted'' False h, 0, [])"
proof -
  assume "max_retries st \<le> 0"
  then have "attempts st = []" by (simp add: attempts_def)
  then show ?thesis by (simp add: execute_with_healing_def)
qed

text \<open>
  Under the default strategy a call that always fails returns nothing instead of raising when the caller gives no fallback,
  and the fallback value of the strategy is never looked at.
\<close>

lemma default_returns_nothing:
  "fst (execute_with_healing (\<lambda>_ _. Inl ''boom'') True (default_strategy\<lparr>fallback_value := Some x\<rparr>) None new_healer) = Inr None"
  by (simp add: execute_with_healing_def attempts_def default_strategy_def upt_rec Let_def)

text \<open>A fallback is entered in the history as healed, but counted as a failure.\<close>

lemma fallback_counted_as_failure:
  "let h = fst (snd (execute_with_healing (\<lambda>_ _. Inl ''boom'') True default_strategy (Some ''x'') new_healer))
   in map healed (history h) = [True] \<and> success_count h = 0 \<and> failure_count h = 1"
  by code_simp

text \<open>The first attempt with context has none: the errors of the plain retries are not passed on.\<close>

lemma first_context_attempt_has_none:
  "ctx_at (\<lambda>_ _. Inl ''boom'' :: string + string) True (attempts default_strategy) 3 = None"
  by code_simp

section \<open>Proposing axioms\<close>

text \<open>
  The answer is yes exactly when an axiom that the validator accepts was added and not refused by the disk; a
  graph that changed always did so by an accepted axiom.
\<close>

lemma proposal_effect:
  assumes "propose_ontological_axiom has_llm build extract available reply v saved task_id g = (yes, g')"
  shows "yes \<or> g' \<noteq> g \<Longrightarrow> \<exists>h g0 g1. has_llm \<and> g = Some g0 \<and> g' = Some g1 \<and> validate v h g0 = Inr Accept \<and>
    add_relation (axiom_of h) g0 = Inr g1 \<and> (yes \<longleftrightarrow> saved \<noteq> Some False)"
  using assms crystallize_cases [of build "extract" available reply v saved task_id "the g"]
  by (auto simp: propose_ontological_axiom_def split: option.splits if_splits prod.splits)

end
