(* ===== verification/Py_Regex.thy ===== *)
theory Py_Regex
  imports Prelude
begin

text \<open>
  The part of Python's \<open>re\<close> that the components use: patterns of character classes, greedy repetition of a
  class, alternatives, capturing groups and word boundaries, matched by backtracking. \<open>matches\<close> lists all
  matches at a position in the order in which the backtracking engine tries them, so that its head is the match
  that \<open>re\<close> returns; \<open>search\<close> takes the first position that has one. The lists are proved to be exactly the
  matches of the inductive meaning \<open>parses\<close>.
\<close>

datatype re =
    Chars "char \<Rightarrow> bool"
  | Many "char \<Rightarrow> bool"
  | Empty
  | Then re re
  | Either re re
  | Group re
  | Boundary

text \<open>
  \<open>\w\<close> below 256: letters, digits and the underscore, as \<open>str.isalnum\<close> has them. A match is what it consumes,
  the groups in order, and the rest of the text.
\<close>

definition is_digit :: "char \<Rightarrow> bool" where
  "is_digit c = (let n = (of_char c :: nat) in 48 \<le> n \<and> n \<le> 57)"

definition is_word :: "char \<Rightarrow> bool" where
  "is_word c =
     (let n = (of_char c :: nat)
      in 48 \<le> n \<and> n \<le> 57 \<or> 65 \<le> n \<and> n \<le> 90 \<or> 97 \<le> n \<and> n \<le> 122 \<or> n = 95 \<or>
         n \<in> {170, 178, 179, 181, 185, 186, 188, 189, 190} \<or> 192 \<le> n \<and> n \<noteq> 215 \<and> n \<noteq> 247)"

definition at_boundary :: "char option \<Rightarrow> string \<Rightarrow> bool" where
  "at_boundary p s = ((case p of None \<Rightarrow> False | Some c \<Rightarrow> is_word c) \<noteq> (case s of [] \<Rightarrow> False | c # _ \<Rightarrow> is_word c))"

definition before :: "char option \<Rightarrow> string \<Rightarrow> char option" where
  "before p t = (if t = [] then p else Some (last t))"

fun spans :: "(char \<Rightarrow> bool) \<Rightarrow> string \<Rightarrow> (string \<times> string) list" where
  "spans P [] = [([], [])]"
| "spans P (c # cs) = (if P c then map (\<lambda>(t, u). (c # t, u)) (spans P cs) else []) @ [([], c # cs)]"

fun matches :: "re \<Rightarrow> char option \<Rightarrow> string \<Rightarrow> (string \<times> string list \<times> string) list" where
  "matches (Chars P) p s = (case s of c # cs \<Rightarrow> if P c then [([c], [], cs)] else [] | [] \<Rightarrow> [])"
| "matches (Many P) p s = map (\<lambda>(t, u). (t, [], u)) (spans P s)"
| "matches Empty p s = [([], [], s)]"
| "matches (Then r q) p s =
     concat (map (\<lambda>(t, gs, u). map (\<lambda>(t', gs', u'). (t @ t', gs @ gs', u')) (matches q (before p t) u)) (matches r p s))"
| "matches (Either r q) p s = matches r p s @ matches q p s"
| "matches (Group r) p s = map (\<lambda>(t, gs, u). (t, t # gs, u)) (matches r p s)"
| "matches Boundary p s = (if at_boundary p s then [([], [], s)] else [])"

text \<open>\<open>re.search\<close>, with the groups as the result.\<close>

fun search_from :: "re \<Rightarrow> char option \<Rightarrow> string \<Rightarrow> string list option" where
  "search_from r p s =
     (case matches r p s of
        (t, gs, u) # _ \<Rightarrow> Some gs
      | [] \<Rightarrow> (case s of [] \<Rightarrow> None | c # cs \<Rightarrow> search_from r (Some c) cs))"

declare search_from.simps [simp del]

definition search :: "re \<Rightarrow> string \<Rightarrow> string list option" where
  "search r s = search_from r None s"

section \<open>Patterns\<close>

fun seq :: "re list \<Rightarrow> re" where
  "seq [] = Empty"
| "seq [r] = r"
| "seq (r # rs) = Then r (seq rs)"

definition text_of :: "string \<Rightarrow> re" where
  "text_of s = seq (map (\<lambda>c. Chars ((=) c)) s)"

abbreviation blanks :: re where
  "blanks \<equiv> Many is_space"

definition blanks1 :: re where
  "blanks1 = Then (Chars is_space) (Many is_space)"

definition optional :: "re \<Rightarrow> re" where
  "optional r = Either r Empty"

section \<open>Meaning\<close>

inductive parses :: "re \<Rightarrow> char option \<Rightarrow> string \<Rightarrow> string list \<Rightarrow> string \<Rightarrow> bool" where
  chars: "P c \<Longrightarrow> parses (Chars P) p [c] [] u"
| many: "list_all P t \<Longrightarrow> parses (Many P) p t [] u"
| empty: "parses Empty p [] [] u"
| then_: "parses r p t gs (t' @ u) \<Longrightarrow> parses q (before p t) t' gs' u \<Longrightarrow> parses (Then r q) p (t @ t') (gs @ gs') u"
| left: "parses r p t gs u \<Longrightarrow> parses (Either r q) p t gs u"
| right: "parses q p t gs u \<Longrightarrow> parses (Either r q) p t gs u"
| group: "parses r p t gs u \<Longrightarrow> parses (Group r) p t (t # gs) u"
| boundary: "at_boundary p u \<Longrightarrow> parses Boundary p [] [] u"

inductive_cases parses_elims:
  "parses (Chars P) p t gs u" "parses (Many P) p t gs u" "parses Empty p t gs u" "parses (Then r q) p t gs u"
  "parses (Either r q) p t gs u" "parses (Group r) p t gs u" "parses Boundary p t gs u"

lemma set_spans: "(t, u) \<in> set (spans P s) \<longleftrightarrow> s = t @ u \<and> list_all P t"
proof (induction s arbitrary: t)
  case (Cons c cs)
  then show ?case by (cases t) auto
qed auto

text \<open>The lists of matches are sound and complete.\<close>

lemma matches_parses: "(t, gs, u) \<in> set (matches r p s) \<longleftrightarrow> s = t @ u \<and> parses r p t gs u"
proof (induction r arbitrary: p s t gs u)
  case (Chars P)
  show ?case by (cases s) (auto intro: parses.intros elim!: parses_elims)
next
  case (Many P)
  show ?case using set_spans [of t u P s] by (auto intro: parses.intros elim!: parses_elims)
next
  case (Then r q)
  show ?case
  proof
    assume "(t, gs, u) \<in> set (matches (Then r q) p s)"
    then obtain t1 gs1 u1 t2 gs2 where "(t1, gs1, u1) \<in> set (matches r p s)" "(t2, gs2, u) \<in> set (matches q (before p t1) u1)"
      "t = t1 @ t2" "gs = gs1 @ gs2" by auto
    then show "s = t @ u \<and> parses (Then r q) p t gs u" using Then.IH by (auto intro: parses.intros)
  next
    assume "s = t @ u \<and> parses (Then r q) p t gs u"
    then obtain t1 gs1 t2 gs2 where "parses r p t1 gs1 (t2 @ u)" "parses q (before p t1) t2 gs2 u" and
      e: "s = t1 @ t2 @ u" "t = t1 @ t2" "gs = gs1 @ gs2" by (auto elim: parses_elims)
    then have "(t1, gs1, t2 @ u) \<in> set (matches r p s)" "(t2, gs2, u) \<in> set (matches q (before p t1) (t2 @ u))"
      using Then.IH(1) [of t1 gs1 "t2 @ u" p s] Then.IH(2) [of t2 gs2 u "before p t1" "t2 @ u"] by simp_all
    then show "(t, gs, u) \<in> set (matches (Then r q) p s)" using e by force
  qed
next
  case (Either r q)
  then show ?case by (auto intro: parses.intros elim!: parses_elims)
next
  case (Group r)
  have "(t, gs, u) \<in> set (matches (Group r) p s) \<longleftrightarrow> (\<exists>gs'. gs = t # gs' \<and> (t, gs', u) \<in> set (matches r p s))" by (auto intro!: rev_image_eqI)
  then show ?case by (auto simp: Group.IH intro: parses.intros elim!: parses_elims)
qed (auto intro: parses.intros elim!: parses_elims)

lemma search_from_iff:
  "(\<exists>gs. search_from r p s = Some gs) \<longleftrightarrow> (\<exists>a t gs u. s = a @ t @ u \<and> parses r (before p a) t gs u)"
proof (induction r p s rule: search_from.induct)
  case (1 r p s)
  show ?case
  proof (cases "matches r p s")
    case (Cons m ms)
    obtain t gs u where m: "m = (t, gs, u)" by (cases m)
    have "s = [] @ t @ u \<and> parses r (before p []) t gs u" using matches_parses [of t gs u r p s] Cons m by (simp add: before_def)
    then have "\<exists>a t gs u. s = a @ t @ u \<and> parses r (before p a) t gs u" by blast
    moreover have "search_from r p s = Some gs" using Cons m by (subst search_from.simps) simp
    ultimately show ?thesis by blast
  next
    case Nil
    then have none: "\<not> parses r p t gs u" if "s = t @ u" for t gs u using matches_parses [of t gs u r p s] that by simp
    show ?thesis
    proof (cases s)
      case Nil
      then show ?thesis using \<open>matches r p s = []\<close> none by (subst search_from.simps) (auto simp: before_def)
    next
      case (Cons c cs)
      have "(\<exists>a t gs u. s = a @ t @ u \<and> parses r (before p a) t gs u) \<longleftrightarrow> (\<exists>a t gs u. cs = a @ t @ u \<and> parses r (before (Some c) a) t gs u)"
        (is "?l \<longleftrightarrow> ?r")
      proof
        assume ?l
        then obtain a t gs u where a: "s = a @ t @ u" "parses r (before p a) t gs u" by blast
        then obtain a' where "a = c # a'" using none Cons by (cases a) (auto simp: before_def)
        then show ?r using a Cons by (intro exI [of _ a'] exI [of _ t] exI [of _ gs] exI [of _ u]) (auto simp: before_def)
      next
        assume ?r
        then obtain a t gs u where "cs = a @ t @ u" "parses r (before (Some c) a) t gs u" by blast
        then show ?l using Cons by (intro exI [of _ "c # a"] exI [of _ t] exI [of _ gs] exI [of _ u]) (auto simp: before_def split: if_splits)
      qed
      then show ?thesis using 1 Cons \<open>matches r p s = []\<close> by (subst search_from.simps) auto
    qed
  qed
qed

text \<open>A search succeeds exactly when some part of the text matches.\<close>

lemma search_iff: "(\<exists>gs. search r s = Some gs) \<longleftrightarrow> (\<exists>a t gs u. s = a @ t @ u \<and> parses r (before None a) t gs u)"
  unfolding search_def by (rule search_from_iff)

text \<open>The groups of a match are parts of the text.\<close>

lemma search_from_parses: "search_from r p s = Some gs \<Longrightarrow> \<exists>p' t u. parses r p' t gs u"
proof (induction r p s rule: search_from.induct)
  case (1 r p s)
  show ?case
  proof (cases "matches r p s")
    case (Cons m ms)
    obtain t gs' u where m: "m = (t, gs', u)" by (cases m)
    then show ?thesis using matches_parses [of t gs' u r p s] Cons 1(2) search_from.simps [of r p s] by auto
  next
    case Nil
    then show ?thesis using 1 search_from.simps [of r p s] by (cases s) auto
  qed
qed

end
