(* ===== verification/Symbolic.thy ===== *)
theory Symbolic
  imports Py_Regex
begin

text \<open>
  The symbolic engine (\<open>neurosymbolic/symbolic.py\<close>): tasks are parsed into bounds on variables, and candidate
  solutions are checked against them with Z3.

  Z3 is the argument \<open>check\<close> of \<open>outside\<close>, a function from the expressions in the solver to its answer; the
  expressions are those that the code builds, with their documented meaning \<open>holds\<close>, and the locale \<open>z3\<close> states
  that Z3 decides them. \<open>float()\<close> of a text (finite results only), \<open>str()\<close> and \<open>repr()\<close> are arguments too. A
  check does not await anything, so it runs to its end before a timeout or another check can come in between:
  a solver is back in the pool after every check, and the pool is empty only before \<open>initialize\<close>. Descriptions
  and priorities, which nothing reads, and the metadata are left out.
\<close>

section \<open>Expressions\<close>

datatype z3sort = IntSort | RealSort | BoolSort

datatype z3var = Z3Var (v_name: string) (v_sort: z3sort)

datatype literal = LNum py_float | LBool bool

datatype expr = Ge z3var py_float | Le z3var py_float | And "expr list" | Is z3var | Eq z3var literal

datatype answer = SAT | UNSAT | UNKNOWN

record outside =
  z3_installed :: bool
  check :: "expr list \<Rightarrow> answer"
  float_of :: "string \<Rightarrow> py_float option"
  str_of :: "json \<Rightarrow> string"
  repr_of :: "json \<Rightarrow> string"

definition py_str :: "outside \<Rightarrow> json \<Rightarrow> string" where
  "py_str env j = (case j of JStr s \<Rightarrow> s | _ \<Rightarrow> str_of env j)"

section \<open>Names\<close>

definition ident_char :: "char \<Rightarrow> bool" where
  "ident_char c = (let n = (of_char c :: nat) in 48 \<le> n \<and> n \<le> 57 \<or> 65 \<le> n \<and> n \<le> 90 \<or> 97 \<le> n \<and> n \<le> 122 \<or> n = 95)"

fun collapse :: "string \<Rightarrow> string" where
  "collapse [] = []"
| "collapse (c # cs) = (if c = CHR ''_'' \<and> cs \<noteq> [] \<and> hd cs = CHR ''_'' then collapse cs else c # collapse cs)"

definition strip_underscores :: "string \<Rightarrow> string" where
  "strip_underscores s = rev (dropWhile ((=) CHR ''_'') (rev (dropWhile ((=) CHR ''_'') s)))"

definition sanitize_var_name :: "string \<Rightarrow> string \<Rightarrow> string" where
  "sanitize_var_name name fallback =
     (let t = strip name
      in if t = [] then fallback
         else
           (let safe = strip_underscores (collapse (map (\<lambda>c. if ident_char c then c else CHR ''_'') t))
            in if safe = [] \<or> is_digit (hd safe) then ''v_'' @ safe else safe))"

definition first_truthy :: "(string, json) dict \<Rightarrow> string list \<Rightarrow> json" where
  "first_truthy d ks = (case filter json_truthy (map (\<lambda>k. dict_get d k JNull) ks) of [] \<Rightarrow> JStr [] | j # _ \<Rightarrow> j)"

definition candidate_name :: "outside \<Rightarrow> json \<Rightarrow> nat \<Rightarrow> string" where
  "candidate_name env req i =
     (case req of JDict d \<Rightarrow> py_str env (first_truthy d [''name'', ''category'']) | _ \<Rightarrow> ''req_'' @ show_nat i)"

definition numbered :: "string \<Rightarrow> nat \<Rightarrow> string" where
  "numbered name k = name @ ''_'' @ show_nat k"

lemma numbered_inj: "numbered name i = numbered name j \<Longrightarrow> i = j"
  by (simp add: numbered_def show_nat_inj)

text \<open>The inner loop: the next number that makes a name that was not seen.\<close>

function free_number :: "(string, nat) dict \<Rightarrow> string \<Rightarrow> nat \<Rightarrow> nat" where
  "free_number seen name k = (if dict_has seen (numbered name k) then free_number seen name (k + 1) else k)"
  by auto

termination free_number
proof (relation "measure (\<lambda>(seen, name, k). card {i. k \<le> i \<and> dict_has seen (numbered name i)})")
  fix seen :: "(string, nat) dict" and name k
  assume "dict_has seen (numbered name k)"
  moreover have "finite (numbered name ` {i. k \<le> i \<and> dict_has seen (numbered name i)})"
    by (rule finite_subset [of _ "fst ` set seen"]) (auto simp: dict_has_def)
  then have "finite {i. k \<le> i \<and> dict_has seen (numbered name i)}"
    by (rule finite_imageD) (auto intro: inj_onI numbered_inj)
  moreover have "{i. k + 1 \<le> i \<and> dict_has seen (numbered name i)} \<subseteq> {i. k \<le> i \<and> dict_has seen (numbered name i)}" by auto
  moreover have "k \<notin> {i. k + 1 \<le> i \<and> dict_has seen (numbered name i)}" by simp
  ultimately have "card {i. k + 1 \<le> i \<and> dict_has seen (numbered name i)} < card {i. k \<le> i \<and> dict_has seen (numbered name i)}"
    by (intro psubset_card_mono) blast+
  then show "((seen, name, k + 1), seen, name, k) \<in> measure (\<lambda>(seen, name, k). card {i. k \<le> i \<and> dict_has seen (numbered name i)})" by simp
qed simp

declare free_number.simps [simp del]

definition unique_step :: "(string, nat) dict \<times> string list \<Rightarrow> string \<Rightarrow> (string, nat) dict \<times> string list" where
  "unique_step st name =
     (case st of (seen, out) \<Rightarrow>
        if \<not> dict_has seen name then (dict_set name 0 seen, out @ [name])
        else
          (let k = free_number seen name (dict_get seen name 0 + 1)
           in (dict_set (numbered name k) 0 (dict_set name k seen), out @ [numbered name k])))"

definition unique_names :: "string list \<Rightarrow> string list" where
  "unique_names names = snd (foldl unique_step ([], []) names)"

section \<open>Bounds in texts\<close>

datatype kind = Lower | Upper | Exact

definition many1 :: "(char \<Rightarrow> bool) \<Rightarrow> re" where
  "many1 P = Then (Chars P) (Many P)"

definition sign_re :: re where
  "sign_re = optional (Chars (\<lambda>c. c = CHR ''-'' \<or> c = CHR ''+''))"

definition dot :: "char \<Rightarrow> bool" where
  "dot c \<longleftrightarrow> c = CHR ''.''"

definition loose_re :: re where
  "loose_re = Group (Then sign_re (many1 (\<lambda>c. is_digit c \<or> dot c)))"

definition number_re :: re where
  "number_re = Group (seq [sign_re, many1 is_digit, optional (Then (Chars dot) (many1 is_digit))])"

definition unit_re :: re where
  "unit_re = Group (Many (\<lambda>c. let n = (of_char c :: nat) in 97 \<le> n \<and> n \<le> 122 \<or> n = 181))"

definition in_re :: re where
  "in_re = seq [text_of ''in'', blanks, Chars (\<lambda>c. c = CHR ''['' \<or> c = CHR ''(''), blanks, loose_re, blanks, text_of '','',
     blanks, loose_re, blanks, Chars (\<lambda>c. c = CHR '']'' \<or> c = CHR '')'')]"

definition between_re :: re where
  "between_re = seq [text_of ''between'', blanks1, loose_re, blanks1, text_of ''and'', blanks1, loose_re]"

definition ge_re :: re where
  "ge_re = seq [text_of ''>='', blanks, loose_re]"

definition le_re :: re where
  "le_re = seq [text_of ''<='', blanks, loose_re]"

definition named_re :: "string \<Rightarrow> re" where
  "named_re w = seq [Boundary, text_of w, blanks, optional (Chars (\<lambda>c. c = CHR '':'' \<or> c = CHR ''='')), blanks, loose_re]"

definition phrase :: "re list \<Rightarrow> re" where
  "phrase ws = seq (concat (map (\<lambda>w. [w, blanks1]) ws) @ [number_re, blanks, unit_re])"

definition words :: "string list \<Rightarrow> re" where
  "words ws = phrase (map text_of ws)"

definition bound_patterns :: "(re \<times> kind) list" where
  "bound_patterns =
     [(words [''no'', ''less'', ''than''], Lower),
      (words [''no'', ''more'', ''than''], Upper),
      (phrase [text_of ''must'', text_of ''stay'', Either (text_of ''below'') (text_of ''under'')], Upper),
      (phrase [text_of ''must'', text_of ''stay'', Either (text_of ''above'') (text_of ''over'')], Lower),
      (words [''must'', ''not'', ''exceed''], Upper),
      (words [''must'', ''not'', ''go'', ''above''], Upper),
      (words [''greater'', ''than'', ''or'', ''equal'', ''to''], Lower),
      (words [''less'', ''than'', ''or'', ''equal'', ''to''], Upper),
      (words [''at'', ''least''], Lower),
      (words [''at'', ''most''], Upper),
      (phrase [Then (text_of ''minimum'') (optional (text_of ''ly''))], Lower),
      (phrase [Then (text_of ''maximum'') (optional (text_of ''ly''))], Upper),
      (words [''up'', ''to''], Upper),
      (words [''exactly''], Exact),
      (phrase [seq [Boundary, text_of ''exceed'', optional (text_of ''s'')]], Upper),
      (phrase [Then Boundary (text_of ''below'')], Upper),
      (phrase [Then Boundary (text_of ''above'')], Lower)]"

text \<open>\<open>float()\<close> on what the groups capture: a sign, digits and dots. More than one dot, or no digit, raises.\<close>

definition digits_value :: "string \<Rightarrow> nat" where
  "digits_value ds = foldl (\<lambda>n c. 10 * n + (of_char c - 48)) 0 ds"

definition decimal :: "string \<Rightarrow> py_float result" where
  "decimal s =
     (let b = (if s \<noteq> [] \<and> (hd s = CHR ''-'' \<or> hd s = CHR ''+'') then List.tl s else s);
          sg = (if s \<noteq> [] \<and> hd s = CHR ''-'' then -1 else 1);
          ip = takeWhile is_digit b; rest = dropWhile is_digit b; fp = List.tl rest
      in if rest = [] then (if ip = [] then Inl ValueError else Inr (sg * of_nat (digits_value ip)))
         else if dot (hd rest) \<and> list_all is_digit fp \<and> (ip \<noteq> [] \<or> fp \<noteq> [])
         then Inr (sg * (of_nat (digits_value ip) + of_nat (digits_value fp) / 10 ^ length fp))
         else Inl ValueError)"

definition unit_scale :: "string \<Rightarrow> py_float" where
  "unit_scale suffix =
     (let u = lower (strip suffix)
      in if u \<in> {''ms'', ''millisecond'', ''milliseconds''} then 1 / 1000
         else if u \<in> {''us'', [char_of (181 :: nat), CHR ''s''], ''microsecond'', ''microseconds''} then 1 / 1000000
         else 1)"

text \<open>What one search contributes: the kind and the number of every group, or an exception.\<close>

definition loose_hits :: "re \<Rightarrow> kind list \<Rightarrow> string \<Rightarrow> (kind \<times> py_float) list result" where
  "loose_hits r ks t =
     (case search r t of None \<Rightarrow> Inr [] | Some gs \<Rightarrow> map_result (\<lambda>(k, g). map_res (Pair k) (decimal g)) (zip ks gs))"

definition pattern_hits :: "string \<Rightarrow> re \<times> kind \<Rightarrow> (kind \<times> py_float) list result" where
  "pattern_hits t rk =
     (case search (fst rk) t of
        Some [n, u] \<Rightarrow> map_res (\<lambda>q. [(snd rk, q * unit_scale u)]) (decimal n)
      | _ \<Rightarrow> Inr [])"

definition text_hits :: "string \<Rightarrow> (kind \<times> py_float) list result" where
  "text_hits s =
     (let t = lower s
      in map_res concat (map_result (\<lambda>h. h t)
           ([loose_hits in_re [Lower, Upper], loose_hits between_re [Lower, Upper], loose_hits ge_re [Lower], loose_hits le_re [Upper],
             loose_hits (named_re ''min'') [Lower], loose_hits (named_re ''max'') [Upper]] @ map (\<lambda>p t. pattern_hits t p) bound_patterns)))"

definition BOUND_TEXT_KEYS :: "string list" where
  "BOUND_TEXT_KEYS = [''constraints'', ''description'', ''requirement'', ''text'', ''condition'', ''rule'', ''statement'']"

definition bound_text_parts :: "outside \<Rightarrow> (string, json) dict \<Rightarrow> string list" where
  "bound_text_parts env d =
     concat (map (\<lambda>k. case dict_get d k JNull of
         JStr s \<Rightarrow> if s = [] then [] else [s]
       | JList js \<Rightarrow> map (py_str env) js
       | _ \<Rightarrow> []) BOUND_TEXT_KEYS)"

definition to_num :: "outside \<Rightarrow> json \<Rightarrow> py_float option" where
  "to_num env j =
     (case j of JInt i \<Rightarrow> Some (of_int i) | JFloat q \<Rightarrow> Some q | JStr s \<Rightarrow> float_of env (strip s) | _ \<Rightarrow> None)"

definition raise_to :: "py_float option \<Rightarrow> py_float \<Rightarrow> py_float option" where
  "raise_to lo v = Some (case lo of None \<Rightarrow> v | Some l \<Rightarrow> max l v)"

definition cut_to :: "py_float option \<Rightarrow> py_float \<Rightarrow> py_float option" where
  "cut_to hi v = Some (case hi of None \<Rightarrow> v | Some h \<Rightarrow> min h v)"

definition narrow :: "py_float option \<times> py_float option \<Rightarrow> kind \<times> py_float \<Rightarrow> py_float option \<times> py_float option" where
  "narrow b kv =
     (case kv of
        (Lower, v) \<Rightarrow> (raise_to (fst b) v, snd b)
      | (Upper, v) \<Rightarrow> (fst b, cut_to (snd b) v)
      | (Exact, v) \<Rightarrow> (raise_to (fst b) v, cut_to (snd b) v))"

definition extract_bounds :: "outside \<Rightarrow> (string, json) dict \<Rightarrow> (py_float option \<times> py_float option) result" where
  "extract_bounds env d =
     map_res (\<lambda>hss. foldl narrow (to_num env (dict_get d ''min'' JNull), to_num env (dict_get d ''max'' JNull)) (concat hss))
       (map_result text_hits (bound_text_parts env d))"

section \<open>Parsing tasks\<close>

record sym_constraint =
  c_name :: string
  c_expr :: expr
  c_var :: z3var

record task_graph =
  requirements :: "sym_constraint list"
  constraints :: "sym_constraint list"
  goals :: json
  variables :: "(string, z3var) dict"

definition is_integer :: "py_float \<Rightarrow> bool" where
  "is_integer q \<longleftrightarrow> of_int \<lfloor>q\<rfloor> = q"

definition bound_clauses :: "z3var \<Rightarrow> py_float option \<times> py_float option \<Rightarrow> expr list" where
  "bound_clauses x b =
     (case fst b of None \<Rightarrow> [] | Some l \<Rightarrow> [Ge x l]) @ (case snd b of None \<Rightarrow> [] | Some h \<Rightarrow> [Le x h])"

definition bound_var :: "string \<Rightarrow> py_float option \<times> py_float option \<Rightarrow> z3var" where
  "bound_var name b =
     Z3Var name (if list_ex (\<lambda>v. case v of None \<Rightarrow> False | Some q \<Rightarrow> \<not> is_integer q) [fst b, snd b] then RealSort else IntSort)"

definition parse_requirement :: "outside \<Rightarrow> json \<Rightarrow> string \<Rightarrow> sym_constraint option" where
  "parse_requirement env req name =
     (if \<not> z3_installed env then None
      else
        (case req of
           JDict d \<Rightarrow>
             if dict_get d ''type'' (JStr ''numeric'') = JStr ''numeric'' then
               (case extract_bounds env d of
                  Inl _ \<Rightarrow> None
                | Inr b \<Rightarrow>
                    if b = (None, None) then None
                    else Some \<lparr>c_name = name, c_expr = And (bound_clauses (bound_var name b) b), c_var = bound_var name b\<rparr>)
             else None
         | _ \<Rightarrow> None))"

definition parse_constraint :: "outside \<Rightarrow> json \<Rightarrow> string \<Rightarrow> sym_constraint option" where
  "parse_constraint env const name =
     (if \<not> z3_installed env then None
      else
        (case const of
           JDict d \<Rightarrow> Some \<lparr>c_name = name, c_expr = Is (Z3Var name BoolSort), c_var = Z3Var name BoolSort\<rparr>
         | _ \<Rightarrow> None))"

definition item_names :: "outside \<Rightarrow> string \<Rightarrow> json list \<Rightarrow> string list" where
  "item_names env prefix js =
     unique_names (map (\<lambda>(i, j). sanitize_var_name (candidate_name env j i) (prefix @ show_nat i)) (List.enumerate 0 js))"

fun parse_items :: "(json \<Rightarrow> string \<Rightarrow> sym_constraint option) \<Rightarrow> int \<Rightarrow> (json \<times> string) list \<Rightarrow> sym_constraint list \<Rightarrow> sym_constraint list" where
  "parse_items f limit [] acc = acc"
| "parse_items f limit ((j, n) # rest) acc =
     (if limit \<le> int (length acc) then acc
      else parse_items f limit rest (case f j n of None \<Rightarrow> acc | Some c \<Rightarrow> acc @ [c]))"

definition add_variables :: "sym_constraint list \<Rightarrow> (string, z3var) dict \<Rightarrow> (string, z3var) dict" where
  "add_variables cs d = foldl (\<lambda>d c. dict_set (c_name c) (c_var c) d) d cs"

text \<open>The length of the goals is logged, which raises for a value without one.\<close>

definition parse_task :: "outside \<Rightarrow> int \<Rightarrow> (string, json) dict \<Rightarrow> task_graph result" where
  "parse_task env max_constraints task =
     (case map_of task ''requirements'' of
        Some (JList reqs) \<Rightarrow>
          (let rs = parse_items (parse_requirement env) max_constraints (zip reqs (item_names env ''req_'' reqs)) []
           in bind_res (json_iter (dict_get task ''constraints'' (JList []))) (\<lambda>consts.
                let cs = parse_items (parse_constraint env) max_constraints (zip consts (item_names env ''constraint_'' consts)) [];
                    gs = dict_get task ''goals'' (JList [])
                in map_res (\<lambda>_. \<lparr>requirements = rs, constraints = cs, goals = gs, variables = add_variables cs (add_variables rs [])\<rparr>)
                     (json_iter gs)))
      | _ \<Rightarrow> Inl ValueError)"

section \<open>Checking solutions\<close>

definition coerce_value :: "outside \<Rightarrow> z3var \<Rightarrow> json \<Rightarrow> literal option" where
  "coerce_value env x j =
     (case v_sort x of
        BoolSort \<Rightarrow>
          (case j of
             JBool b \<Rightarrow> Some (LBool b)
           | JInt i \<Rightarrow> Some (LBool (i \<noteq> 0))
           | JFloat q \<Rightarrow> Some (LBool (q \<noteq> 0))
           | JStr s \<Rightarrow>
               (let low = lower (strip s)
                in if low \<in> {''true'', ''1'', ''yes'', ''on''} then Some (LBool True)
                   else if low \<in> {''false'', ''0'', ''no'', ''off''} then Some (LBool False) else None)
           | _ \<Rightarrow> None)
      | IntSort \<Rightarrow> (case to_num env j of Some q \<Rightarrow> if is_integer q then Some (LNum q) else None | None \<Rightarrow> None)
      | RealSort \<Rightarrow> map_option LNum (to_num env j))"

record sym_engine =
  initialized :: bool
  degraded :: bool

definition new_engine :: sym_engine where
  "new_engine = \<lparr>initialized = False, degraded = False\<rparr>"

definition initialize :: "outside \<Rightarrow> sym_engine \<Rightarrow> sym_engine" where
  "initialize env e = (if initialized e then e else \<lparr>initialized = True, degraded = \<not> z3_installed env\<rparr>)"

text \<open>\<open>SymbolicVerificationError\<close>, for a pool without solvers.\<close>

datatype sym_error = PoolExhausted

fun check_values :: "outside \<Rightarrow> expr list \<Rightarrow> (string, z3var) dict \<Rightarrow> (string, json) dict \<Rightarrow> nat \<Rightarrow> (bool \<times> string list) + nat" where
  "check_values env base vars [] checked = Inr checked"
| "check_values env base vars ((name, v) # rest) checked =
     (case map_of vars name of
        None \<Rightarrow> check_values env base vars rest checked
      | Some x \<Rightarrow>
          (case coerce_value env x v of
             None \<Rightarrow> Inl (False, [''requirement_'' @ name @ ''_uncheckable_value: value='' @ repr_of env v])
           | Some l \<Rightarrow>
               if check env (base @ [Eq x l]) = UNSAT then Inl (False, [''requirement_'' @ name @ ''_violated: value='' @ py_str env v])
               else check_values env base vars rest (checked + 1)))"

definition check_solution :: "outside \<Rightarrow> (string, json) dict \<Rightarrow> task_graph \<Rightarrow> bool \<times> string list" where
  "check_solution env sol g =
     (let base = map c_expr (requirements g)
      in if check env base = UNSAT then (False, [''constraints_unsatisfiable''])
         else
           (case check_values env base (variables g) sol 0 of
              Inl r \<Rightarrow> r
            | Inr checked \<Rightarrow> if checked = 0 \<and> sol \<noteq> [] then (False, [''no_solution_variable_matched'']) else (True, [])))"

definition verify_solution :: "outside \<Rightarrow> sym_engine \<Rightarrow> (string, json) dict \<Rightarrow> task_graph \<Rightarrow> sym_error + bool \<times> string list" where
  "verify_solution env e sol g =
     (if degraded e then Inr (False, [''symbolic_engine_unavailable_z3_not_installed''])
      else if \<not> initialized e then Inl PoolExhausted
      else if requirements g = [] \<and> constraints g = [] then Inr (True, [])
      else Inr (check_solution env sol g))"

section \<open>Names are unique\<close>

lemma free_number_free: "\<not> dict_has seen (numbered name (free_number seen name k))"
  by (induction seen name k rule: free_number.induct) (subst free_number.simps, simp)

lemma unique_step_inv:
  assumes "distinct out" and "\<forall>n \<in> set out. dict_has seen n" and "unique_step (seen, out) name = (seen', out')"
  shows "distinct out' \<and> (\<forall>n \<in> set out'. dict_has seen' n) \<and> length out' = length out + 1"
proof -
  have fresh: "x \<notin> set out" if "\<not> dict_has seen x" for x using that assms(2) by blast
  show ?thesis using assms fresh [of name] fresh [OF free_number_free, of name "dict_get seen name 0 + 1"]
    by (auto simp: unique_step_def Let_def dict_has_iff split: if_splits)
qed

lemma unique_names_distinct: "distinct (unique_names names) \<and> length (unique_names names) = length names"
proof -
  have "distinct out \<and> (\<forall>n \<in> set out. dict_has seen n) \<Longrightarrow>
      distinct (snd (foldl unique_step (seen, out) names)) \<and> length (snd (foldl unique_step (seen, out) names)) = length out + length names" for seen out
  proof (induction names arbitrary: seen out)
    case (Cons n ns)
    obtain seen' out' where "unique_step (seen, out) n = (seen', out')" by fastforce
    then show ?case using unique_step_inv [of out seen n seen' out'] Cons by simp
  qed simp
  then show ?thesis by (simp add: unique_names_def)
qed

text \<open>Collisions are numbered from 1, and a numbered name counts as seen.\<close>

lemma first_collision_is_1: "unique_names [''a'', ''a'', ''a_1''] = [''a'', ''a_1'', ''a_1_1'']"
  by code_simp

section \<open>Bounds\<close>

lemma narrow_facts:
  "narrow b (k, v) = b' \<Longrightarrow>
     (case fst b of None \<Rightarrow> True | Some l \<Rightarrow> \<exists>l'. fst b' = Some l' \<and> l \<le> l') \<and> (k \<noteq> Upper \<longrightarrow> (\<exists>l'. fst b' = Some l' \<and> v \<le> l')) \<and>
     (case snd b of None \<Rightarrow> True | Some h \<Rightarrow> \<exists>h'. snd b' = Some h' \<and> h' \<le> h) \<and> (k \<noteq> Lower \<longrightarrow> (\<exists>h'. snd b' = Some h' \<and> h' \<le> v))"
  by (cases k) (auto simp: narrow_def raise_to_def cut_to_def split: option.splits)

definition lower_in :: "py_float \<Rightarrow> py_float option \<times> py_float option \<Rightarrow> bool" where
  "lower_in v b \<longleftrightarrow> (\<exists>l. fst b = Some l \<and> v \<le> l)"

definition upper_in :: "py_float \<Rightarrow> py_float option \<times> py_float option \<Rightarrow> bool" where
  "upper_in v b \<longleftrightarrow> (\<exists>h. snd b = Some h \<and> h \<le> v)"

lemma narrow_keeps: "lower_in v b \<Longrightarrow> lower_in v (narrow b kv)" "upper_in v b \<Longrightarrow> upper_in v (narrow b kv)"
  using narrow_facts [of b "fst kv" "snd kv"] by (auto simp: lower_in_def upper_in_def)

lemma narrow_adds: "k \<noteq> Upper \<Longrightarrow> lower_in v (narrow b (k, v))" "k \<noteq> Lower \<Longrightarrow> upper_in v (narrow b (k, v))"
  using narrow_facts [of b k v] by (auto simp: lower_in_def upper_in_def)

lemma foldl_narrow_keeps: "lower_in v b \<Longrightarrow> lower_in v (foldl narrow b hs)" "upper_in v b \<Longrightarrow> upper_in v (foldl narrow b hs)"
  by (induction hs arbitrary: b) (auto simp: narrow_keeps)

lemma foldl_narrow_adds:
  assumes "(k, v) \<in> set hs"
  shows "k \<noteq> Upper \<Longrightarrow> lower_in v (foldl narrow b hs)" "k \<noteq> Lower \<Longrightarrow> upper_in v (foldl narrow b hs)"
proof -
  obtain us ws where "hs = us @ (k, v) # ws" using assms by (auto simp: in_set_conv_decomp)
  then show "k \<noteq> Upper \<Longrightarrow> lower_in v (foldl narrow b hs)" "k \<noteq> Lower \<Longrightarrow> upper_in v (foldl narrow b hs)"
    by (simp_all add: foldl_narrow_keeps narrow_adds)
qed

lemma foldl_narrow_source:
  "fst (foldl narrow b hs) = Some l \<Longrightarrow> fst b = Some l \<or> (\<exists>k. k \<noteq> Upper \<and> (k, l) \<in> set hs)"
  "snd (foldl narrow b hs) = Some h \<Longrightarrow> snd b = Some h \<or> (\<exists>k. k \<noteq> Lower \<and> (k, h) \<in> set hs)"
proof -
  have 1: "fst (narrow b (k, v)) = Some l \<Longrightarrow> fst b = Some l \<or> k \<noteq> Upper \<and> v = l" for b k v l
    by (cases k) (auto simp: narrow_def raise_to_def max_def split: option.splits if_splits)
  have 2: "snd (narrow b (k, v)) = Some h \<Longrightarrow> snd b = Some h \<or> k \<noteq> Lower \<and> v = h" for b k v h
    by (cases k) (auto simp: narrow_def cut_to_def min_def split: option.splits if_splits)
  show "fst (foldl narrow b hs) = Some l \<Longrightarrow> fst b = Some l \<or> (\<exists>k. k \<noteq> Upper \<and> (k, l) \<in> set hs)"
  proof (induction hs arbitrary: b)
    case (Cons kv hs)
    then have "fst (narrow b kv) = Some l \<or> (\<exists>k. k \<noteq> Upper \<and> (k, l) \<in> set hs)" by simp
    then show ?case using 1 [of b "fst kv" "snd kv" l] by (cases kv) auto
  qed simp
  show "snd (foldl narrow b hs) = Some h \<Longrightarrow> snd b = Some h \<or> (\<exists>k. k \<noteq> Lower \<and> (k, h) \<in> set hs)"
  proof (induction hs arbitrary: b)
    case (Cons kv hs)
    then have "snd (narrow b kv) = Some h \<or> (\<exists>k. k \<noteq> Lower \<and> (k, h) \<in> set hs)" by simp
    then show ?case using 2 [of b "fst kv" "snd kv" h] by (cases kv) auto
  qed simp
qed

lemma map_result_Inr_in: "map_result f xs = Inr ys \<Longrightarrow> x \<in> set xs \<Longrightarrow> \<exists>y \<in> set ys. f x = Inr y"
  by (induction xs arbitrary: ys) (auto simp: bind_res_eq_Inr map_res_eq_Inr)

lemma map_result_in_Inr: "map_result f xs = Inr ys \<Longrightarrow> y \<in> set ys \<Longrightarrow> \<exists>x \<in> set xs. f x = Inr y"
  by (induction xs arbitrary: ys) (auto simp: bind_res_eq_Inr map_res_eq_Inr)

text \<open>A bound is declared by the field, or by a text in which one of the patterns finds it.\<close>

definition declared_lower :: "outside \<Rightarrow> (string, json) dict \<Rightarrow> py_float \<Rightarrow> bool" where
  "declared_lower env d v \<longleftrightarrow> to_num env (dict_get d ''min'' JNull) = Some v \<or>
     (\<exists>t \<in> set (bound_text_parts env d). \<exists>hs. text_hits t = Inr hs \<and> (\<exists>k. k \<noteq> Upper \<and> (k, v) \<in> set hs))"

definition declared_upper :: "outside \<Rightarrow> (string, json) dict \<Rightarrow> py_float \<Rightarrow> bool" where
  "declared_upper env d v \<longleftrightarrow> to_num env (dict_get d ''max'' JNull) = Some v \<or>
     (\<exists>t \<in> set (bound_text_parts env d). \<exists>hs. text_hits t = Inr hs \<and> (\<exists>k. k \<noteq> Lower \<and> (k, v) \<in> set hs))"

lemma declared_hits:
  assumes "map_result text_hits (bound_text_parts env d) = Inr hss"
  shows "declared_lower env d v \<longleftrightarrow> to_num env (dict_get d ''min'' JNull) = Some v \<or> (\<exists>k. k \<noteq> Upper \<and> (k, v) \<in> set (concat hss))"
    and "declared_upper env d v \<longleftrightarrow> to_num env (dict_get d ''max'' JNull) = Some v \<or> (\<exists>k. k \<noteq> Lower \<and> (k, v) \<in> set (concat hss))"
  using map_result_Inr_in [OF assms] map_result_in_Inr [OF assms] unfolding declared_lower_def declared_upper_def by fastforce+


definition demo_outside :: "(expr list \<Rightarrow> answer) \<Rightarrow> outside" where
  "demo_outside c = \<lparr>z3_installed = True, check = c, float_of = (\<lambda>_. None), str_of = (\<lambda>_. []), repr_of = (\<lambda>_. [])\<rparr>"

lemma demo_bounds:
  "extract_bounds (demo_outside c) [(''min'', JInt 1), (''description'', JStr ''at least 2''), (''rule'', JStr ''max 8'')] = Inr (Some 2, Some 8)"
proof -
  have "text_hits ''at least 2'' = Inr [(Lower, 2)]" "text_hits ''max 8'' = Inr [(Upper, 8)]" by code_simp+
  then show ?thesis by (simp add: extract_bounds_def bound_text_parts_def BOUND_TEXT_KEYS_def to_num_def dict_get_def narrow_def raise_to_def cut_to_def)
qed


text \<open>One number that \<open>float\<close> refuses drops the whole requirement, and some sentences are read the wrong way round.\<close>

lemma bad_number_drops_requirement:
  "parse_requirement (demo_outside c) (JDict [(''min'', JInt 5), (''description'', JStr ''>= 1.2.3'')]) n = None"
proof -
  have "text_hits ''>= 1.2.3'' = Inl ValueError" by code_simp
  then show ?thesis by (simp add: parse_requirement_def demo_outside_def extract_bounds_def bound_text_parts_def BOUND_TEXT_KEYS_def dict_get_def)
qed

lemma wrong_way_round:
  "text_hits ''not below 5'' = Inr [(Upper, 5)]"
  by code_simp

section \<open>What Z3 promises\<close>

fun well_sorted :: "literal \<Rightarrow> z3sort \<Rightarrow> bool" where
  "well_sorted (LNum q) IntSort = is_integer q"
| "well_sorted (LNum q) RealSort = True"
| "well_sorted (LBool b) BoolSort = True"
| "well_sorted _ _ = False"

fun holds :: "(z3var \<Rightarrow> literal) \<Rightarrow> expr \<Rightarrow> bool" where
  "holds m (Ge x q) = (case m x of LNum r \<Rightarrow> q \<le> r | _ \<Rightarrow> False)"
| "holds m (Le x q) = (case m x of LNum r \<Rightarrow> r \<le> q | _ \<Rightarrow> False)"
| "holds m (And es) = list_all (holds m) es"
| "holds m (Is x) = (m x = LBool True)"
| "holds m (Eq x l) = (m x = l)"

definition models :: "(z3var \<Rightarrow> literal) \<Rightarrow> expr list \<Rightarrow> bool" where
  "models m es \<longleftrightarrow> (\<forall>x. well_sorted (m x) (v_sort x)) \<and> (\<forall>e \<in> set es. holds m e)"

locale z3 =
  fixes chk :: "expr list \<Rightarrow> answer"
  assumes unsat: "chk es = UNSAT \<longleftrightarrow> (\<nexists>m. models m es)"

text \<open>A concrete solver: for every variable it tries the values at the bounds.\<close>

fun atoms :: "expr \<Rightarrow> expr list" where
  "atoms (And es) = concat (map atoms es)"
| "atoms e = [e]"

fun atom_var :: "expr \<Rightarrow> z3var option" where
  "atom_var (Ge x q) = Some x"
| "atom_var (Le x q) = Some x"
| "atom_var (And es) = None"
| "atom_var (Is x) = Some x"
| "atom_var (Eq x l) = Some x"

definition candidates :: "z3var \<Rightarrow> expr list \<Rightarrow> literal list" where
  "candidates x as =
     [LBool True, LBool False, LNum 0] @
     concat (map (\<lambda>a. case a of
         Ge y q \<Rightarrow> [LNum q, LNum (of_int \<lceil>q\<rceil>)]
       | Le y q \<Rightarrow> [LNum q, LNum (of_int \<lfloor>q\<rfloor>)]
       | Eq y l \<Rightarrow> [l]
       | _ \<Rightarrow> []) (filter (\<lambda>a. atom_var a = Some x) as))"

definition plain_check :: "expr list \<Rightarrow> answer" where
  "plain_check es =
     (let as = concat (map atoms es)
      in if list_all (\<lambda>x. list_ex (\<lambda>l. well_sorted l (v_sort x) \<and> list_all (\<lambda>a. atom_var a \<noteq> Some x \<or> holds (\<lambda>_. l) a) as) (candidates x as))
              (List.map_filter atom_var as)
         then SAT else UNSAT)"

lemma holds_atoms: "holds m e \<longleftrightarrow> (\<forall>a \<in> set (atoms e). holds m a)"
  by (induction e) (auto simp: list_all_iff)

lemma atoms_plain: "a \<in> set (atoms e) \<Longrightarrow> \<exists>x. atom_var a = Some x"
  by (induction e) auto

lemma holds_cong: "atom_var a = Some x \<Longrightarrow> m x = m' x \<Longrightarrow> holds m a = holds m' a"
  by (cases a) auto

lemma ceiling_integer: "is_integer r \<Longrightarrow> q \<le> r \<Longrightarrow> of_int \<lceil>q\<rceil> \<le> r"
  unfolding is_integer_def by (metis ceiling_le_iff of_int_le_iff)

lemma floor_integer: "is_integer r \<Longrightarrow> r \<le> q \<Longrightarrow> r \<le> of_int \<lfloor>q\<rfloor>"
  unfolding is_integer_def by (metis le_floor_iff of_int_le_iff)

definition default_of :: "z3sort \<Rightarrow> literal" where
  "default_of s = (if s = BoolSort then LBool True else LNum 0)"

lemma default_sorted: "well_sorted (default_of s) s"
  by (cases s) (auto simp: default_of_def is_integer_def)

lemma between_bounds:
  fixes L U :: "rat set"
  assumes "finite L" and "finite U" and "\<And>v. v \<in> L \<Longrightarrow> v \<le> r" and "\<And>v. v \<in> U \<Longrightarrow> r \<le> v"
  shows "\<exists>c. (c = 0 \<or> c \<in> L \<or> c \<in> U) \<and> (\<forall>v \<in> L. v \<le> c) \<and> (\<forall>v \<in> U. c \<le> v)"
proof (cases "L = {}")
  case True
  have "U = {} \<or> Min U \<in> U" using assms(2) Min_in by blast
  then show ?thesis using True assms(2) by (elim disjE) (auto intro: exI [of _ "Min U"])
next
  case False
  then have "Max L \<in> L" using assms(1) by simp
  then show ?thesis using assms Max_ge [OF assms(1)] by (intro exI [of _ "Max L"]) (meson order_trans)
qed

text \<open>A value that satisfies the atoms of a variable can be moved to a bound, or to zero when there is none.\<close>

lemma some_candidate:
  assumes "well_sorted l (v_sort x)" and "\<forall>a \<in> set as. atom_var a = Some x \<longrightarrow> holds (\<lambda>_. l) a"
  shows "\<exists>l' \<in> set (candidates x as). well_sorted l' (v_sort x) \<and> (\<forall>a \<in> set as. atom_var a = Some x \<longrightarrow> holds (\<lambda>_. l') a)"
proof (cases l)
  case (LBool b)
  then show ?thesis using assms by (intro bexI [of _ l]) (auto simp: candidates_def)
next
  case (LNum r)
  show ?thesis
  proof (cases "\<exists>k. Eq x k \<in> set as")
    case True
    then have "Eq x l \<in> set as" using assms(2) by fastforce
    then have "l \<in> set (candidates x as)" by (force simp: candidates_def)
    then show ?thesis using assms by blast
  next
    case noeq: False
    define up where "up = (\<lambda>q :: rat. if v_sort x = IntSort then of_int \<lceil>q\<rceil> else q)"
    define dn where "dn = (\<lambda>q :: rat. if v_sort x = IntSort then of_int \<lfloor>q\<rfloor> else q)"
    have num: "v_sort x \<noteq> BoolSort" "v_sort x = IntSort \<Longrightarrow> is_integer r" using assms(1) LNum by (cases "v_sort x"; simp)+
    let ?L = "{up q |q. Ge x q \<in> set as}" and ?U = "{dn q |q. Le x q \<in> set as}"
    have fin: "finite ?L" "finite ?U"
      by (rule finite_surj [of "set as" _ "\<lambda>a. case a of Ge y q \<Rightarrow> up q | _ \<Rightarrow> 0"], force+)
        (rule finite_surj [of "set as" _ "\<lambda>a. case a of Le y q \<Rightarrow> dn q | _ \<Rightarrow> 0"], force+)
    have L: "v \<le> r" if "v \<in> ?L" for v
      using that assms(2) num(2) ceiling_integer [of r] LNum by (auto simp: up_def)
    have U: "r \<le> v" if "v \<in> ?U" for v
      using that assms(2) num(2) floor_integer [of r] LNum by (auto simp: dn_def)
    obtain c where c: "c = 0 \<or> c \<in> ?L \<or> c \<in> ?U" and Lc: "\<forall>v \<in> ?L. v \<le> c" and Uc: "\<forall>v \<in> ?U. c \<le> v"
      using between_bounds [OF fin, of r] L U by blast
    have "LNum c \<in> set (candidates x as)" using c unfolding candidates_def up_def dn_def by (auto 4 4 split: if_splits)
    moreover have "well_sorted (LNum c) (v_sort x)" using c num(1) by (cases "v_sort x") (auto simp: is_integer_def up_def dn_def)
    moreover have "q \<le> c" if "Ge x q \<in> set as" for q
    proof -
      have "up q \<le> c" using that Lc by blast
      moreover have "q \<le> up q" by (simp add: up_def)
      ultimately show ?thesis by simp
    qed
    moreover have "c \<le> q" if "Le x q \<in> set as" for q
    proof -
      have "c \<le> dn q" using that Uc by blast
      moreover have "dn q \<le> q" by (simp add: dn_def)
      ultimately show ?thesis by simp
    qed
    moreover have "\<exists>q. a = Ge x q \<or> a = Le x q" if "a \<in> set as" "atom_var a = Some x" for a
      using that assms(2) [THEN bspec, OF that(1)] noeq LNum by (cases rule: expr.exhaust [of a]) auto
    ultimately show ?thesis by (intro bexI [of _ "LNum c"]) fastforce+
  qed
qed

lemma models_cong:
  assumes "\<And>x. well_sorted (m x) (v_sort x)" and "\<And>a x. a \<in> set (concat (map atoms es)) \<Longrightarrow> atom_var a = Some x \<Longrightarrow> holds (\<lambda>_. m x) a"
  shows "models m es"
proof -
  have "holds m a" if a: "a \<in> set (concat (map atoms es))" for a
  proof -
    obtain x where "atom_var a = Some x" using a atoms_plain by fastforce
    then show ?thesis using assms(2) [OF a] holds_cong [of a x m "\<lambda>_. m x"] by simp
  qed
  then have "holds m e" if "e \<in> set es" for e using that holds_atoms [of m e] by auto
  then show ?thesis using assms(1) by (simp add: models_def)
qed

lemma plain_check_SAT: "plain_check es = SAT \<longleftrightarrow> (\<exists>m. models m es)"
proof -
  define as where "as = concat (map atoms es)"
  define fits where "fits = (\<lambda>x l. well_sorted l (v_sort x) \<and> (\<forall>a \<in> set as. atom_var a = Some x \<longrightarrow> holds (\<lambda>_. l) a))"
  have sat: "plain_check es = SAT \<longleftrightarrow> (\<forall>a \<in> set as. \<forall>x. atom_var a = Some x \<longrightarrow> (\<exists>l \<in> set (candidates x as). fits x l))"
  proof -
    have "(\<forall>x \<in> set (List.map_filter atom_var as). P x) \<longleftrightarrow> (\<forall>a \<in> set as. \<forall>x. atom_var a = Some x \<longrightarrow> P x)" for P
      by (force simp: map_filter_def)
    moreover have "fits x l \<longleftrightarrow> well_sorted l (v_sort x) \<and> list_all (\<lambda>a. atom_var a \<noteq> Some x \<or> holds (\<lambda>_. l) a) as" for x l
      by (auto simp: fits_def list_all_iff)
    ultimately show ?thesis unfolding plain_check_def Let_def as_def [symmetric] list_all_iff [of _ "List.map_filter atom_var as"] list_ex_iff by simp
  qed
  show ?thesis
  proof
    assume "plain_check es = SAT"
    then have ex: "\<exists>l. fits x l" for x
    proof (cases "\<exists>a \<in> set as. atom_var a = Some x")
      case True
      then show ?thesis using sat \<open>plain_check es = SAT\<close> by blast
    next
      case False
      then show ?thesis using default_sorted [of "v_sort x"] unfolding fits_def by blast
    qed
    define m where "m = (\<lambda>x. SOME l. fits x l)"
    have "fits x (m x)" for x unfolding m_def by (rule someI_ex) (rule ex)
    then have "models m es" by (intro models_cong) (auto simp: fits_def as_def)
    then show "\<exists>m. models m es" by blast
  next
    assume "\<exists>m. models m es"
    then obtain m where m0: "models m es" by blast
    have m: "well_sorted (m x) (v_sort x)" for x using m0 by (simp add: models_def)
    have h: "holds m a" if "a \<in> set as" for a
    proof -
      obtain e where "e \<in> set es" "a \<in> set (atoms e)" using \<open>a \<in> set as\<close> unfolding as_def by auto
      then show ?thesis using m0 holds_atoms [of m e] unfolding models_def by blast
    qed
    have "\<forall>a \<in> set as. atom_var a = Some x \<longrightarrow> holds (\<lambda>_. m x) a" for x using h holds_cong [of _ x m "\<lambda>_. m x"] by blast
    then show "plain_check es = SAT" unfolding sat fits_def using some_candidate [OF m] by blast
  qed
qed

lemma plain_check_UNSAT: "plain_check es = UNSAT \<longleftrightarrow> plain_check es \<noteq> SAT"
  by (simp add: plain_check_def Let_def)

interpretation plain: z3 plain_check
  by unfold_locales (simp add: plain_check_SAT plain_check_UNSAT)

section \<open>Parsed graphs\<close>

definition graph_ok :: "task_graph \<Rightarrow> bool" where
  "graph_ok g \<longleftrightarrow>
     (\<forall>r \<in> set (requirements g). v_name (c_var r) = c_name r \<and> (\<forall>a \<in> set (atoms (c_expr r)). atom_var a = Some (c_var r))) \<and>
     distinct (map c_name (requirements g)) \<and> distinct (map c_name (constraints g)) \<and>
     (\<forall>n x. map_of (variables g) n = Some x \<longrightarrow> v_name x = n)"

lemma parse_items_from:
  "c \<in> set (parse_items f limit zs acc) \<Longrightarrow> c \<in> set acc \<or> (\<exists>(j, n) \<in> set zs. f j n = Some c)"
  by (induction f limit zs acc rule: parse_items.induct) (fastforce split: option.splits if_splits)+

lemma parse_items_distinct:
  assumes "\<And>j n c. f j n = Some c \<Longrightarrow> c_name c = n" and "distinct (map c_name acc @ map snd zs)"
  shows "distinct (map c_name (parse_items f limit zs acc)) \<and> int (length (parse_items f limit zs acc)) \<le> max limit (int (length acc))"
  using assms(2)
proof (induction zs arbitrary: acc)
  case (Cons z zs)
  obtain j n where z: "z = (j, n)" by fastforce
  show ?case using Cons.prems Cons.IH [of acc] Cons.IH [of "acc @ [the (f j n)]"] assms(1) [of j n] by (auto simp: z split: option.splits)
qed simp

lemma requirement_facts:
  "parse_requirement env j n = Some c \<Longrightarrow> c_name c = n \<and> v_name (c_var c) = n \<and> (\<forall>a \<in> set (atoms (c_expr c)). atom_var a = Some (c_var c))"
  by (auto simp: parse_requirement_def bound_clauses_def bound_var_def split: if_splits json.splits sum.splits option.splits)

lemma constraint_facts: "parse_constraint env j n = Some c \<Longrightarrow> c_name c = n \<and> c_var c = Z3Var n BoolSort"
  by (auto simp: parse_constraint_def split: if_splits json.splits)

lemma add_variables_names:
  assumes "\<forall>n x. map_of d n = Some x \<longrightarrow> v_name x = n" and "\<forall>c \<in> set cs. v_name (c_var c) = c_name c"
  shows "\<forall>n x. map_of (add_variables cs d) n = Some x \<longrightarrow> v_name x = n"
  using assms unfolding add_variables_def
proof (induction cs arbitrary: d)
  case (Cons c cs)
  have "\<forall>n x. map_of (dict_set (c_name c) (c_var c) d) n = Some x \<longrightarrow> v_name x = n"
  proof (intro allI impI)
    fix n x assume "map_of (dict_set (c_name c) (c_var c) d) n = Some x"
    then show "v_name x = n" using Cons.prems by (metis fun_upd_other fun_upd_same list.set_intros(1) map_of_dict_set option.inject)
  qed
  from Cons.IH [OF this] Cons.prems(2) show ?case unfolding foldl_Cons by (meson list.set_intros(2))
qed simp

lemma zip_names: "distinct (map snd (zip js (item_names env p js)))"
  using unique_names_distinct by (simp add: item_names_def)

lemma parse_task_ok:
  assumes "parse_task env limit task = Inr g"
  shows "graph_ok g \<and> int (length (requirements g)) \<le> max limit 0 \<and> int (length (constraints g)) \<le> max limit 0"
proof -
  obtain reqs ks where rs: "requirements g = parse_items (parse_requirement env) limit (zip reqs (item_names env ''req_'' reqs)) []"
    and cs: "constraints g = parse_items (parse_constraint env) limit (zip ks (item_names env ''constraint_'' ks)) []"
    and vs: "variables g = add_variables (constraints g) (add_variables (requirements g) [])"
    using assms by (auto simp: parse_task_def Let_def bind_res_eq_Inr map_res_eq_Inr split: option.splits json.splits)
  have r: "v_name (c_var r) = c_name r \<and> (\<forall>a \<in> set (atoms (c_expr r)). atom_var a = Some (c_var r))" if "r \<in> set (requirements g)" for r
    using parse_items_from [OF that [unfolded rs]] requirement_facts by fastforce
  have c: "v_name (c_var c) = c_name c" if "c \<in> set (constraints g)" for c
    using parse_items_from [OF that [unfolded cs]] constraint_facts by fastforce
  have "\<forall>n x. map_of (variables g) n = Some x \<longrightarrow> v_name x = n"
    unfolding vs by (intro add_variables_names) (use r c in auto)
  then show ?thesis
    using r parse_items_distinct [of "parse_requirement env" "[]" "zip reqs (item_names env ''req_'' reqs)" limit]
      parse_items_distinct [of "parse_constraint env" "[]" "zip ks (item_names env ''constraint_'' ks)" limit]
      zip_names requirement_facts constraint_facts by (auto simp: graph_ok_def rs cs)
qed

section \<open>The verdict\<close>

lemma check_values_Inr:
  assumes "check_values env base vars sol k = Inr n"
  shows "n = k + length (filter (\<lambda>e. dict_has vars (fst e)) sol) \<and>
    (\<forall>(name, v) \<in> set sol. \<forall>x. map_of vars name = Some x \<longrightarrow> (\<exists>l. coerce_value env x v = Some l \<and> check env (base @ [Eq x l]) \<noteq> UNSAT))"
  using assms by (induction env base vars sol k rule: check_values.induct) (auto simp: dict_has_iff split: option.splits if_splits)

lemma check_values_Inl:
  assumes "check_values env base vars sol k = Inl r"
  shows "\<not> fst r \<and> snd r \<noteq> [] \<and> (\<exists>(name, v) \<in> set sol. \<exists>x. map_of vars name = Some x \<and>
    (\<forall>l. coerce_value env x v = Some l \<longrightarrow> check env (base @ [Eq x l]) = UNSAT))"
  using assms by (induction env base vars sol k rule: check_values.induct) (auto split: option.splits if_splits)

definition agrees :: "outside \<Rightarrow> task_graph \<Rightarrow> (string, json) dict \<Rightarrow> (z3var \<Rightarrow> literal) \<Rightarrow> bool" where
  "agrees env g sol m \<longleftrightarrow> (\<forall>(n, v) \<in> set sol. \<forall>x. map_of (variables g) n = Some x \<longrightarrow> coerce_value env x v = Some (m x))"

text \<open>Values that are possible one by one are possible together, since every expression is about one variable.\<close>

lemma joint_model:
  assumes "graph_ok g" and "wf_dict sol" and "models m0 (map c_expr (requirements g))"
    and "\<forall>(n, v) \<in> set sol. \<forall>x. map_of (variables g) n = Some x \<longrightarrow>
      (\<exists>l. coerce_value env x v = Some l \<and> (\<exists>m. models m (map c_expr (requirements g) @ [Eq x l])))"
  shows "\<exists>m. models m (map c_expr (requirements g)) \<and> agrees env g sol m"
proof -
  let ?base = "map c_expr (requirements g)"
  define val where "val = (\<lambda>x. case map_of sol (v_name x) of
      Some v \<Rightarrow> if map_of (variables g) (v_name x) = Some x then coerce_value env x v else None | None \<Rightarrow> None)"
  define m where "m = (\<lambda>x. case val x of Some l \<Rightarrow> l | None \<Rightarrow> m0 x)"
  have ex: "\<exists>m'. models m' ?base \<and> m' x = m x" for x
  proof (cases "val x")
    case None
    then show ?thesis using assms(3) by (auto simp: m_def)
  next
    case (Some l)
    then obtain v where "map_of sol (v_name x) = Some v" "map_of (variables g) (v_name x) = Some x" "coerce_value env x v = Some l"
      by (auto simp: val_def split: option.splits if_splits)
    then obtain m' where "models m' (?base @ [Eq x l])" using assms(4) map_of_SomeD by fastforce
    then show ?thesis using Some by (intro exI [of _ m']) (auto simp: models_def m_def)
  qed
  have "models m ?base"
  proof (rule models_cong)
    show "well_sorted (m x) (v_sort x)" for x using ex [of x] unfolding models_def by metis
    fix a x assume a: "a \<in> set (concat (map atoms ?base))" "atom_var a = Some x"
    obtain m' where m': "models m' ?base" "m' x = m x" using ex by blast
    obtain e where "e \<in> set ?base" "a \<in> set (atoms e)" using a(1) by auto
    then have "holds m' a" using m'(1) holds_atoms [of m' e] unfolding models_def by blast
    then show "holds (\<lambda>_. m x) a" using holds_cong [OF a(2), of m' "\<lambda>_. m x"] m'(2) by simp
  qed
  moreover have "agrees env g sol m"
  proof -
    have "coerce_value env x v = Some (m x)" if e: "(n, v) \<in> set sol" "map_of (variables g) n = Some x" for n v x
    proof -
      have "v_name x = n" "map_of sol n = Some v" using e assms(1,2) by (auto simp: graph_ok_def wf_dict_def)
      then have "val x = coerce_value env x v" using e(2) by (simp add: val_def)
      moreover obtain l where "coerce_value env x v = Some l" using assms(4) e by blast
      ultimately show ?thesis by (simp add: m_def)
    qed
    then show ?thesis by (auto simp: agrees_def)
  qed
  ultimately show ?thesis by blast
qed

context z3
begin

lemma possible: "chk es \<noteq> UNSAT \<longleftrightarrow> (\<exists>m. models m es)"
  using unsat by blast

lemma check_solution_iff:
  assumes "check env = chk" and "graph_ok g" and "wf_dict sol" and "check_solution env sol g = (b, vs)"
  shows "(b \<longleftrightarrow> vs = []) \<and> (b \<longleftrightarrow> (sol = [] \<or> (\<exists>e \<in> set sol. dict_has (variables g) (fst e))) \<and>
    (\<exists>m. models m (map c_expr (requirements g)) \<and> agrees env g sol m))"
proof (cases "\<exists>m. models m (map c_expr (requirements g))")
  case False
  then have "chk (map c_expr (requirements g)) = UNSAT" using unsat by blast
  then show ?thesis using assms(4) False by (auto simp: check_solution_def assms(1))
next
  case True
  let ?base = "map c_expr (requirements g)"
  have p: "chk ?base \<noteq> UNSAT" using True possible by blast
  show ?thesis
  proof (cases "check_values env ?base (variables g) sol 0")
    case (Inl r)
    then have r: "(b, vs) = r" using assms(4) p by (simp add: check_solution_def assms(1))
    have "\<not> (models m ?base \<and> agrees env g sol m)" for m
    proof
      assume m: "models m ?base \<and> agrees env g sol m"
      obtain n v x where e: "(n, v) \<in> set sol" "map_of (variables g) n = Some x" "\<And>l. coerce_value env x v = Some l \<Longrightarrow> chk (?base @ [Eq x l]) = UNSAT"
        using check_values_Inl [OF Inl] by (auto simp: assms(1))
      have "coerce_value env x v = Some (m x)" using m e(1,2) by (auto simp: agrees_def)
      moreover have "models m (?base @ [Eq x (m x)])" using m by (auto simp: models_def)
      ultimately show False using e(3) possible by blast
    qed
    then show ?thesis using check_values_Inl [OF Inl] r by auto
  next
    case (Inr n)
    note facts = check_values_Inr [OF Inr]
    have "\<exists>m. models m ?base \<and> agrees env g sol m"
      using True facts assms(1) possible by (elim exE) (rule joint_model [OF assms(2,3)], auto)
    moreover have "n = 0 \<longleftrightarrow> (\<forall>e \<in> set sol. \<not> dict_has (variables g) (fst e))" using facts by (auto simp: filter_empty_conv)
    ultimately show ?thesis using assms(4) p Inr by (auto simp: check_solution_def assms(1) split: if_splits)
  qed
qed

end


definition demo_task :: "(string, json) dict" where
  "demo_task = [(''requirements'', JList [JDict [(''name'', JStr ''x''), (''min'', JInt 1), (''max'', JInt 5)]]), (''constraints'', JList [JDict [(''name'', JStr ''safe'')]])]"

definition demo_graph :: task_graph where
  "demo_graph = \<lparr>requirements = [\<lparr>c_name = ''x'', c_expr = And [Ge (Z3Var ''x'' IntSort) 1, Le (Z3Var ''x'' IntSort) 5], c_var = Z3Var ''x'' IntSort\<rparr>],
     constraints = [\<lparr>c_name = ''safe'', c_expr = Is (Z3Var ''safe'' BoolSort), c_var = Z3Var ''safe'' BoolSort\<rparr>], goals = JList [],
     variables = [(''x'', Z3Var ''x'' IntSort), (''safe'', Z3Var ''safe'' BoolSort)]\<rparr>"

lemma demo_parse: "parse_task (demo_outside plain_check) 1000 demo_task = Inr demo_graph"
  by code_simp


text \<open>
  Constraints are never put to the solver: a candidate that denies one passes. A constraint with the name of a
  requirement takes the requirement's place in the table of variables, so that its bounds are not checked.
\<close>

lemma constraint_not_enforced:
  "verify_solution (demo_outside plain_check) (initialize (demo_outside plain_check) new_engine) [(''safe'', JBool False)] demo_graph = Inr (True, [])"
  by code_simp

lemma constraint_hides_requirement:
  "bind_res (map_res (verify_solution (demo_outside plain_check) (initialize (demo_outside plain_check) new_engine) [(''x'', JInt 0)])
     (parse_task (demo_outside plain_check) 1000
        [(''requirements'', JList [JDict [(''name'', JStr ''x''), (''min'', JInt 1)]]), (''constraints'', JList [JDict [(''name'', JStr ''x'')]])]))
     (\<lambda>r. Inr (r = Inr (True, []))) = Inr True"
  by code_simp

text \<open>A requirement that the candidate does not mention is not violated, and a solver that does not know lets everything pass.\<close>

lemma unmentioned_requirement_passes:
  "verify_solution (demo_outside plain_check) (initialize (demo_outside plain_check) new_engine) [(''safe'', JBool True)] demo_graph = Inr (True, [])"
  by code_simp

lemma unknown_passes:
  "verify_solution (demo_outside (\<lambda>_. UNKNOWN)) (initialize (demo_outside (\<lambda>_. UNKNOWN)) new_engine) [(''x'', JInt 7)] demo_graph = Inr (True, [])"
  by code_simp

end
