(* ===== verification/Reasoning_Trace.thy ===== *)
theory Reasoning_Trace
  imports Symbolic Checkpoint
begin

text \<open>
  The static verdict on the code inside a hypothesis (\<open>neurosymbolic/static.py\<close>) and the traces of reasoning
  runs, which are written to files and can be verified again without a model (\<open>tracing/reasoning_trace.py\<close>).

  What \<open>ast.parse\<close> says of a text and what \<open>analyze_code\<close> of the sandbox finds in it are arguments. Files are
  those of \<open>Checkpoint\<close>, whose names and atomic replacement the traces use in the same way. \<open>int()\<close>, \<open>float()\<close>,
  \<open>dict()\<close> and \<open>list()\<close> of a value that does not have the type already are arguments.
\<close>

section \<open>Static verdicts\<close>

text \<open>\<open>ast_of\<close> is \<open>None\<close> for a syntax error, otherwise whether the body is a single expression.\<close>

record analysis =
  ast_of :: "string \<Rightarrow> bool option"
  analyze_code :: "string \<Rightarrow> string list"

record verdict =
  analyzed :: bool
  code_snippets :: nat
  passed :: bool
  issues :: "string list"

definition verdict_json :: "verdict \<Rightarrow> (string, json) dict" where
  "verdict_json v =
     [(''analyzed'', JBool (analyzed v)), (''code_snippets'', JInt (int (code_snippets v))), (''passed'', JBool (passed v)),
      (''issues'', JList (map JStr (issues v)))]"

definition CODE_HINT_KEYS :: "string list" where
  "CODE_HINT_KEYS = [''code'', ''implementation'', ''implementation_code'', ''source'', ''snippet'', ''python'', ''solution_code'']"

definition is_python_code :: "analysis \<Rightarrow> string \<Rightarrow> bool" where
  "is_python_code an t =
     (if length (strip t) < 4 then False
      else (case ast_of an t of None \<Rightarrow> False | Some single \<Rightarrow> if single then CHR ''\<newline>'' \<in> set t else True))"

fun find_code_strings :: "analysis \<Rightarrow> json \<Rightarrow> string list" where
  "find_code_strings an (JDict d) =
     concat (map (\<lambda>(k, j). case j of
         JStr s \<Rightarrow> if k \<in> set CODE_HINT_KEYS \<or> is_python_code an s then [s] else []
       | _ \<Rightarrow> find_code_strings an j) d)"
| "find_code_strings an (JList js) = concat (map (find_code_strings an) js)"
| "find_code_strings an _ = []"

definition snippet_issues :: "analysis \<Rightarrow> nat \<times> string \<Rightarrow> string list" where
  "snippet_issues an isn = map (\<lambda>x. ''snippet '' @ show_nat (fst isn + 1) @ '': '' @ x) (analyze_code an (snd isn))"

definition analyze_solution_static :: "analysis \<Rightarrow> (string, json) dict \<Rightarrow> verdict" where
  "analyze_solution_static an sol =
     (let snippets = find_code_strings an (JDict sol)
      in if snippets = [] then \<lparr>analyzed = False, code_snippets = 0, passed = True, issues = []\<rparr>
         else \<lparr>analyzed = True, code_snippets = length snippets, passed = list_all (\<lambda>s. analyze_code an s = []) snippets,
               issues = concat (map (snippet_issues an) (List.enumerate 0 snippets))\<rparr>)"

section \<open>Traces\<close>

record vround =
  r_attempt :: int
  r_hypothesis :: "(string, json) dict"
  r_static :: "(string, json) dict"
  r_valid :: bool
  r_violations :: "json list"

record trace =
  run_id :: string
  correlation_id :: string
  t_task :: "(string, json) dict"
  t_rounds :: "vround list"
  t_outcome :: string
  t_attempts :: int
  final_hypothesis :: "(string, json) dict option"
  final_static :: "(string, json) dict option"
  final_valid :: "bool option"
  final_violations :: "json list"
  t_error :: string
  schema_version :: int
  created_at :: py_float

text \<open>The trace of some rounds: what is final is what the last round recorded, nothing when there was none.\<close>

definition build_reasoning_trace ::
  "string \<Rightarrow> py_float \<Rightarrow> string \<Rightarrow> (string, json) dict \<Rightarrow> vround list \<Rightarrow> string \<Rightarrow> int \<Rightarrow> string \<Rightarrow> trace" where
  "build_reasoning_trace rid now cid task rs outcome attempts err =
     \<lparr>run_id = rid, correlation_id = cid, t_task = task, t_rounds = rs, t_outcome = outcome, t_attempts = attempts,
      final_hypothesis = (if rs = [] then None else Some (r_hypothesis (last rs))),
      final_static = (if rs = [] then None else Some (r_static (last rs))),
      final_valid = (if rs = [] then None else Some (r_valid (last rs))),
      final_violations = (if rs = [] then [] else r_violations (last rs)), t_error = err, schema_version = 1, created_at = now\<rparr>"

definition round_json :: "vround \<Rightarrow> json" where
  "round_json r =
     JDict [(''attempt'', JInt (r_attempt r)), (''hypothesis'', JDict (r_hypothesis r)), (''static_verdict'', JDict (r_static r)),
       (''symbolic_valid'', JBool (r_valid r)), (''violations'', JList (r_violations r))]"

definition opt_dict :: "(string, json) dict option \<Rightarrow> json" where
  "opt_dict d = (case d of None \<Rightarrow> JNull | Some x \<Rightarrow> JDict x)"

definition trace_json :: "trace \<Rightarrow> (string, json) dict" where
  "trace_json t =
     [(''schema_version'', JInt (schema_version t)), (''run_id'', JStr (run_id t)), (''correlation_id'', JStr (correlation_id t)),
      (''created_at'', JFloat (created_at t)), (''task'', JDict (t_task t)), (''outcome'', JStr (t_outcome t)),
      (''attempts'', JInt (t_attempts t)), (''error'', JStr (t_error t)), (''final_hypothesis'', opt_dict (final_hypothesis t)),
      (''final_static_verdict'', opt_dict (final_static t)),
      (''final_symbolic_valid'', case final_valid t of None \<Rightarrow> JNull | Some b \<Rightarrow> JBool b),
      (''final_violations'', JList (final_violations t)), (''rounds'', JList (map round_json (t_rounds t)))]"

section \<open>Writing and reading\<close>

definition trace_name :: "string \<Rightarrow> string" where
  "trace_name rid = safe_name rid @ ''.json''"

definition commit_reasoning_trace :: "trace \<Rightarrow> disk \<Rightarrow> disk result" where
  "commit_reasoning_trace t d =
     (let path = trace_name (run_id t)
      in replace_file path (dict_set (tmp_name path) (Document (JDict (trace_json t))) d))"

record builtins =
  int_of :: "json \<Rightarrow> int option"
  num_of :: "json \<Rightarrow> py_float option"
  dict_of :: "json \<Rightarrow> (string, json) dict option"
  list_of :: "json \<Rightarrow> json list option"

definition or_raise :: "'a option \<Rightarrow> 'a result" where
  "or_raise x = (case x of None \<Rightarrow> Inl ValueError | Some v \<Rightarrow> Inr v)"

definition py_int :: "builtins \<Rightarrow> json \<Rightarrow> int result" where
  "py_int bi j = (case j of JInt i \<Rightarrow> Inr i | _ \<Rightarrow> or_raise (int_of bi j))"

definition py_num :: "builtins \<Rightarrow> json \<Rightarrow> py_float result" where
  "py_num bi j = (case j of JFloat q \<Rightarrow> Inr q | _ \<Rightarrow> or_raise (num_of bi j))"

definition py_dict :: "builtins \<Rightarrow> json \<Rightarrow> (string, json) dict result" where
  "py_dict bi j = (case j of JDict d \<Rightarrow> Inr d | _ \<Rightarrow> or_raise (dict_of bi j))"

definition py_list :: "builtins \<Rightarrow> json \<Rightarrow> json list result" where
  "py_list bi j = (case j of JList js \<Rightarrow> Inr js | _ \<Rightarrow> or_raise (list_of bi j))"

definition load_round :: "builtins \<Rightarrow> json \<Rightarrow> vround result" where
  "load_round bi j =
     bind_res (bind_res (json_key j ''attempt'') (py_int bi)) (\<lambda>a.
     bind_res (bind_res (json_key j ''hypothesis'') (py_dict bi)) (\<lambda>h.
     bind_res (bind_res (json_key j ''static_verdict'') (py_dict bi)) (\<lambda>s.
     bind_res (json_key j ''symbolic_valid'') (\<lambda>v.
     bind_res (bind_res (json_key j ''violations'') (py_list bi)) (\<lambda>vs.
     Inr \<lparr>r_attempt = a, r_hypothesis = h, r_static = s, r_valid = json_truthy v, r_violations = vs\<rparr>)))))"

definition opt_loaded :: "builtins \<Rightarrow> json \<Rightarrow> (string, json) dict option result" where
  "opt_loaded bi j = (if json_truthy j then map_res Some (py_dict bi j) else Inr None)"

definition load_fields :: "outside \<Rightarrow> builtins \<Rightarrow> (string, json) dict \<Rightarrow> trace result" where
  "load_fields env bi d =
     bind_res (bind_res (json_iter (dict_get d ''rounds'' (JList []))) (map_result (load_round bi))) (\<lambda>rs.
     bind_res (dict_index d ''run_id'') (\<lambda>rid.
     bind_res (dict_index d ''correlation_id'') (\<lambda>cid.
     bind_res (bind_res (dict_index d ''task'') (py_dict bi)) (\<lambda>task.
     bind_res (py_int bi (dict_get d ''attempts'' (JInt (int (length rs))))) (\<lambda>att.
     bind_res (opt_loaded bi (dict_get d ''final_hypothesis'' JNull)) (\<lambda>fh.
     bind_res (opt_loaded bi (dict_get d ''final_static_verdict'' JNull)) (\<lambda>fs.
     bind_res (py_list bi (dict_get d ''final_violations'' (JList []))) (\<lambda>fv.
     bind_res (py_int bi (dict_get d ''schema_version'' (JInt 1))) (\<lambda>sv.
     bind_res (py_num bi (dict_get d ''created_at'' (JFloat 0))) (\<lambda>ca.
     Inr \<lparr>run_id = py_str env rid, correlation_id = py_str env cid, t_task = task, t_rounds = rs,
          t_outcome = py_str env (dict_get d ''outcome'' (JStr ''error'')), t_attempts = att, final_hypothesis = fh, final_static = fs,
          final_valid = (let v = dict_get d ''final_symbolic_valid'' JNull in if v = JNull then None else Some (json_truthy v)),
          final_violations = fv, t_error = py_str env (dict_get d ''error'' (JStr [])), schema_version = sv, created_at = ca\<rparr>))))))))))"

text \<open>
  A missing file, text that is not JSON and fields that are missing or of the wrong type give nothing; a
  document that is not an object raises \<open>AttributeError\<close>, which is not caught.
\<close>

definition load_reasoning_trace :: "outside \<Rightarrow> builtins \<Rightarrow> string \<Rightarrow> disk \<Rightarrow> trace option result" where
  "load_reasoning_trace env bi path d =
     (case map_of d path of
        Some (Document (JDict items)) \<Rightarrow> Inr (case load_fields env bi items of Inl _ \<Rightarrow> None | Inr t \<Rightarrow> Some t)
      | Some (Document _) \<Rightarrow> Inl AttributeError
      | _ \<Rightarrow> Inr None)"

section \<open>Verifying again\<close>

record replay =
  rp_matches :: bool
  static_matches :: "bool option"
  symbolic_matches :: "bool option"
  replayed_static :: "(string, json) dict option"
  replayed_valid :: "bool option"
  replayed_violations :: "json list"

text \<open>Dictionaries are equal when they have the same items in any order.\<close>

definition same_dict :: "(string, json) dict \<Rightarrow> (string, json) dict \<Rightarrow> bool" where
  "same_dict d e \<longleftrightarrow> length d = length e \<and> list_all (\<lambda>(k, v). map_of e k = Some v) d"

datatype replay_error = ParseError py_error | VerifyError sym_error

definition reverify_reasoning_trace ::
  "outside \<Rightarrow> analysis \<Rightarrow> int \<Rightarrow> sym_engine \<Rightarrow> trace \<Rightarrow> replay_error + replay" where
  "reverify_reasoning_trace env an limit e t =
     (let rstatic = map_option (\<lambda>h. verdict_json (analyze_solution_static an h)) (final_hypothesis t);
          smatch = map_option (\<lambda>r. case final_static t of None \<Rightarrow> False | Some s \<Rightarrow> same_dict r s) rstatic;
          done_with = (\<lambda>v vs m. \<lparr>rp_matches = (case smatch of None \<Rightarrow> True | Some b \<Rightarrow> b) \<and> (case m of None \<Rightarrow> True | Some b \<Rightarrow> b),
              static_matches = smatch, symbolic_matches = m, replayed_static = rstatic, replayed_valid = v, replayed_violations = vs\<rparr>)
      in case (final_hypothesis t, final_valid t) of
           (Some h, Some valid) \<Rightarrow>
             (case parse_task env limit (t_task t) of
                Inl x \<Rightarrow> Inl (ParseError x)
              | Inr g \<Rightarrow>
                  (case verify_solution env e h g of
                     Inl x \<Rightarrow> Inl (VerifyError x)
                   | Inr (b, vs) \<Rightarrow> Inr (done_with (Some b) (map JStr vs) (Some (b = valid)))))
         | _ \<Rightarrow> Inr (done_with None (final_violations t) None))"

definition reverify_trace_file ::
  "outside \<Rightarrow> builtins \<Rightarrow> analysis \<Rightarrow> int \<Rightarrow> sym_engine \<Rightarrow> string \<Rightarrow> disk \<Rightarrow> (replay_error + replay) option result" where
  "reverify_trace_file env bi an limit e path d =
     map_res (map_option (reverify_reasoning_trace env an limit e)) (load_reasoning_trace env bi path d)"

section \<open>Round trips\<close>

lemma load_round_json: "load_round bi (round_json r) = Inr r"
  by (simp add: load_round_def round_json_def dict_index_def py_int_def py_dict_def py_list_def)

definition trace_ok :: "trace \<Rightarrow> bool" where
  "trace_ok t \<longleftrightarrow> final_static t \<noteq> Some []"

text \<open>Everything is read back, except that an empty hypothesis counts as none.\<close>

lemma load_trace_json:
  assumes "trace_ok t"
  shows "load_fields env bi (trace_json t) = Inr (t\<lparr>final_hypothesis := (if final_hypothesis t = Some [] then None else final_hypothesis t)\<rparr>)"
proof -
  have rounds: "map_result (load_round bi) (map round_json rs) = Inr rs" for rs
    by (induction rs) (simp_all add: load_round_json)
  have hyp: "opt_loaded bi (opt_dict x) = Inr (if x = Some [] then None else x)" for x
    by (cases x) (auto simp: opt_loaded_def opt_dict_def py_dict_def)
  show ?thesis
    using assms rounds hyp
    by (cases t) (simp add: load_fields_def trace_json_def trace_ok_def dict_index_def dict_get_def py_int_def py_num_def py_dict_def py_list_def py_str_def
        split: option.splits)
qed

lemma tmp_differs: "tmp_name p \<noteq> p"
  by (simp add: tmp_name_def)

lemma committed:
  "\<exists>d'. commit_reasoning_trace t d = Inr d' \<and> map_of d' (trace_name (run_id t)) = Some (Document (JDict (trace_json t))) \<and>
     (\<forall>q. q \<noteq> trace_name (run_id t) \<and> q \<noteq> tmp_name (trace_name (run_id t)) \<longrightarrow> map_of d' q = map_of d q)"
  using tmp_differs [of "trace_name (run_id t)"] by (simp add: commit_reasoning_trace_def replace_file_def Let_def)

lemma same_dict_refl: "wf_dict d \<Longrightarrow> same_dict d d"
  by (auto simp: same_dict_def list_all_iff wf_dict_def)

lemma wf_verdict_json: "wf_dict (verdict_json v)" "verdict_json v \<noteq> []"
  by (simp_all add: verdict_json_def wf_dict_def)

text \<open>A document that is not an object is not reported as a trace that cannot be loaded, but raises.\<close>

lemma list_document_raises: "load_reasoning_trace env bi p [(p, Document (JList js))] = Inl AttributeError"
  by (simp add: load_reasoning_trace_def)

text \<open>Code in a list is not found.\<close>

lemma code_in_list_skipped: "\<not> analyzed (analyze_solution_static an [(''files'', JList [JStr s])])"
  by (simp add: analyze_solution_static_def)

end
