(* ===== verification/Neural.thy ===== *)
theory Neural
  imports Prelude
begin

text \<open>
  The neural interface (\<open>neurosymbolic/neural.py\<close>): requests to the model behind a circuit breaker of its own,
  with retries. An exception is the name of its type. Whether there is a client, its answers to numbered
  requests, the clock before and after every request, and the random part of the delays are arguments. The batch
  processor is left out: nothing puts a request into its queue.
\<close>

section \<open>The circuit breaker\<close>

datatype nstate = NClosed | NOpen | NHalfOpen

record nbreaker =
  failure_threshold :: int
  recovery_timeout :: py_float
  nstate :: nstate
  failure_count :: int
  last_failure_time :: "py_float option"

definition new_nbreaker :: nbreaker where
  "new_nbreaker = \<lparr>failure_threshold = 5, recovery_timeout = 60, nstate = NClosed, failure_count = 0, last_failure_time = None\<rparr>"

definition should_attempt_reset :: "py_float \<Rightarrow> nbreaker \<Rightarrow> bool" where
  "should_attempt_reset now b = (case last_failure_time b of None \<Rightarrow> True | Some t \<Rightarrow> recovery_timeout b < now - t)"

definition on_success :: "nbreaker \<Rightarrow> nbreaker" where
  "on_success b = b\<lparr>failure_count := 0, nstate := NClosed\<rparr>"

definition on_failure :: "py_float \<Rightarrow> nbreaker \<Rightarrow> nbreaker" where
  "on_failure now b =
     (let b1 = b\<lparr>failure_count := failure_count b + 1, last_failure_time := Some now\<rparr>
      in if failure_threshold b1 \<le> failure_count b1 then b1\<lparr>nstate := NOpen\<rparr> else b1)"

text \<open>A call: its outcome, the breaker after it, and whether the function was called.\<close>

definition call :: "(string + 'a) \<Rightarrow> py_float \<Rightarrow> py_float \<Rightarrow> nbreaker \<Rightarrow> (string + 'a) \<times> nbreaker \<times> bool" where
  "call r before after b =
     (if nstate b = NOpen \<and> \<not> should_attempt_reset before b then (Inl ''CircuitOpenError'', b, False)
      else
        (let b1 = (if nstate b = NOpen then b\<lparr>nstate := NHalfOpen\<rparr> else b)
         in case r of Inr v \<Rightarrow> (Inr v, on_success b1, True) | Inl e \<Rightarrow> (Inl e, on_failure after b1, True)))"

section \<open>Requests\<close>

datatype prompt =
    HypothesisPrompt "(string, json) dict"
  | RefinementPrompt "(string, json) dict" "string list" "(string, json) dict"

record llm =
  client :: bool
  answers :: "nat \<Rightarrow> prompt \<Rightarrow> string + string"
  loads :: "string \<Rightarrow> (string, json) dict option"
  clock_before :: "nat \<Rightarrow> py_float"
  clock_after :: "nat \<Rightarrow> py_float"
  jitter :: "nat \<Rightarrow> py_float"
  max_retries :: nat
  base_delay :: py_float
  max_delay :: py_float

record neural =
  nbreaker :: nbreaker
  requests :: nat
  delays :: "py_float list"

definition RETRYABLE :: "string list" where
  "RETRYABLE = [''RateLimitError'', ''APITimeoutError'', ''InternalServerError'', ''APIConnectionError'']"

definition is_retryable :: "string \<Rightarrow> bool" where
  "is_retryable e \<longleftrightarrow> e \<in> set RETRYABLE"

definition execute_request :: "llm \<Rightarrow> nat \<Rightarrow> prompt \<Rightarrow> string + string" where
  "execute_request w i p =
     (if \<not> client w then Inl ''RuntimeError''
      else case answers w i p of Inl e \<Rightarrow> Inl (if e = ''TimeoutError'' then ''APITimeoutError'' else e) | Inr c \<Rightarrow> Inr c)"

text \<open>\<open>jitter\<close> is a number between 0 and 1, the place of the random number in its range.\<close>

definition calculate_backoff :: "llm \<Rightarrow> nat \<Rightarrow> nat \<Rightarrow> py_float" where
  "calculate_backoff w attempt i =
     (let delay = min (base_delay w * 2 ^ attempt) (max_delay w) in delay + jitter w i * (delay * (1 / 10)))"

fun retry_loop :: "llm \<Rightarrow> prompt \<Rightarrow> nat \<Rightarrow> nat \<Rightarrow> string option \<Rightarrow> neural \<Rightarrow> (string + string) \<times> neural" where
  "retry_loop w p 0 attempt last_error n = (Inl (case last_error of None \<Rightarrow> ''Exception'' | Some e \<Rightarrow> e), n)"
| "retry_loop w p (Suc left) attempt last_error n =
     (let i = requests n;
          (r, b, called) = call (execute_request w i p) (clock_before w i) (clock_after w i) (nbreaker n);
          n1 = n\<lparr>nbreaker := b, requests := (if called then i + 1 else i)\<rparr>
      in case r of
           Inr c \<Rightarrow> (Inr c, n1)
         | Inl e \<Rightarrow>
             if e = ''CircuitOpenError'' \<or> \<not> is_retryable e then (Inl e, n1)
             else retry_loop w p left (attempt + 1) (Some e) (n1\<lparr>delays := delays n1 @ [calculate_backoff w attempt i]\<rparr>))"

definition execute_with_retry :: "llm \<Rightarrow> prompt \<Rightarrow> neural \<Rightarrow> (string + string) \<times> neural" where
  "execute_with_retry w p n = retry_loop w p (max_retries w) 0 None n"

text \<open>Both requests ask for a JSON object, so what is loaded is a dictionary.\<close>

definition ask :: "llm \<Rightarrow> prompt \<Rightarrow> neural \<Rightarrow> (string + (string, json) dict) \<times> neural" where
  "ask w p n =
     (let (r, n1) = execute_with_retry w p n
      in (bind_res r (\<lambda>c. case loads w c of None \<Rightarrow> Inl ''JSONDecodeError'' | Some d \<Rightarrow> Inr d), n1))"

definition generate_hypothesis :: "llm \<Rightarrow> (string, json) dict \<Rightarrow> neural \<Rightarrow> (string + (string, json) dict) \<times> neural" where
  "generate_hypothesis w task n = ask w (HypothesisPrompt task) n"

definition refine_hypothesis ::
  "llm \<Rightarrow> (string, json) dict \<Rightarrow> string list \<Rightarrow> (string, json) dict \<Rightarrow> neural \<Rightarrow> (string + (string, json) dict) \<times> neural" where
  "refine_hypothesis w h vs task n = ask w (RefinementPrompt h vs task) n"

section \<open>What a request does\<close>

text \<open>A closed circuit has fewer failures than the threshold, any other at least as many.\<close>

definition nbreaker_ok :: "nbreaker \<Rightarrow> bool" where
  "nbreaker_ok b \<longleftrightarrow> (nstate b = NClosed \<longleftrightarrow> failure_count b < failure_threshold b) \<and> 0 \<le> failure_count b \<and> 0 < failure_threshold b"

lemma new_nbreaker_ok: "nbreaker_ok new_nbreaker"
  by (simp add: nbreaker_ok_def new_nbreaker_def)

lemma call_ok: "nbreaker_ok b \<Longrightarrow> call r t t' b = (r', b', called) \<Longrightarrow> nbreaker_ok b'"
  by (auto simp: call_def nbreaker_ok_def on_success_def on_failure_def Let_def split: if_splits sum.splits)

lemma call_result:
  "call r t t' b = (r', b', called) \<Longrightarrow> (if called then r' = r else r' = Inl ''CircuitOpenError'' \<and> b' = b \<and> nstate b = NOpen)"
  by (auto simp: call_def Let_def split: if_splits sum.splits)

lemma retry_loop_effect:
  assumes "retry_loop w p left a err n = (r, n')" and "nbreaker_ok (nbreaker n)"
  shows "nbreaker_ok (nbreaker n') \<and> requests n \<le> requests n' \<and> requests n' \<le> requests n + left \<and> length (delays n') \<le> length (delays n) + left \<and>
    (\<forall>c. r = Inr c \<longrightarrow> requests n < requests n' \<and> client w \<and> answers w (requests n' - 1) p = Inr c)"
  using assms
proof (induction w p left a err n arbitrary: r n' rule: retry_loop.induct)
  case (2 w p left a err n)
  obtain r1 b c where call: "call (execute_request w (requests n) p) (clock_before w (requests n)) (clock_after w (requests n)) (nbreaker n) = (r1, b, c)"
    by (metis prod_cases3)
  have ok: "nbreaker_ok b" using call_ok [OF _ call] "2.prems"(2) by simp
  define n1 where "n1 = n\<lparr>nbreaker := b, requests := (if c then requests n + 1 else requests n)\<rparr>"
  show ?case
  proof (cases r1)
    case (Inr v)
    then have "c" "execute_request w (requests n) p = Inr v" using call_result [OF call] by (auto split: if_splits)
    moreover have "r = Inr v" "n' = n1" using "2.prems"(1) call Inr by (auto simp: n1_def Let_def)
    ultimately show ?thesis using ok by (auto simp: n1_def execute_request_def split: if_splits sum.splits)
  next
    case (Inl e)
    show ?thesis
    proof (cases "e = ''CircuitOpenError'' \<or> \<not> is_retryable e")
      case True
      then show ?thesis using "2.prems"(1) call Inl ok by (auto simp: n1_def Let_def)
    next
      case False
      let ?n2 = "n1\<lparr>delays := delays n1 @ [calculate_backoff w a (requests n)]\<rparr>"
      have "retry_loop w p left (a + 1) (Some e) ?n2 = (r, n')" using "2.prems"(1) call Inl False by (simp add: n1_def Let_def)
      then show ?thesis using "2.IH" [OF refl call [symmetric] refl refl _ Inl] False ok by (fastforce simp: n1_def Let_def split: if_splits)
    qed
  qed
qed (auto simp: nbreaker_ok_def)

end
