(* ===== verification/Causal_Graph.thy ===== *)
theory Causal_Graph
  imports Prelude "HOL-Library.Char_ord"
begin

text \<open>
  Causal graphs (\<open>causal/graph.py\<close>) and the engine that estimates interventions on them (\<open>causal/engine.py\<close>).

  The \<open>networkx\<close> graph inside is its list of nodes and its edges with their strengths, in order of insertion;
  what \<open>networkx\<close> computes of it (ancestors, descendants, whether it is acyclic) is the argument \<open>nx\<close>, with the
  documented meaning as the laws of the locale \<open>networkx\<close>. Identifiers are arguments. Domains and delays are
  stored by the code but not used, and are left out.
\<close>

section \<open>Graphs\<close>

record cgraph =
  c_nodes :: "(string, string) dict"
  c_values :: "(string, py_float) dict"
  g_nodes :: "string list"
  g_edges :: "(string \<times> string, py_float) dict"

record nx_ops =
  nx_ancestors :: "cgraph \<Rightarrow> string \<Rightarrow> string list"
  nx_descendants :: "cgraph \<Rightarrow> string \<Rightarrow> string list"
  nx_is_dag :: "cgraph \<Rightarrow> bool"

definition new_cgraph :: cgraph where
  "new_cgraph = \<lparr>c_nodes = [], c_values = [], g_nodes = [], g_edges = []\<rparr>"

text \<open>The values of \<open>c_nodes\<close> are the names of the nodes.\<close>

definition add_node :: "string \<Rightarrow> string \<Rightarrow> py_float \<Rightarrow> cgraph \<Rightarrow> cgraph" where
  "add_node i n v g =
     g\<lparr>c_nodes := dict_set i n (c_nodes g), c_values := dict_set i v (c_values g),
       g_nodes := (if i \<in> set (g_nodes g) then g_nodes g else g_nodes g @ [i])\<rparr>"

definition add_edge :: "string \<Rightarrow> string \<Rightarrow> py_float \<Rightarrow> cgraph \<Rightarrow> cgraph result" where
  "add_edge s t w g =
     (if \<not> dict_has (c_nodes g) s \<or> \<not> dict_has (c_nodes g) t then Inl ValueError
      else Inr (g\<lparr>g_edges := dict_set (s, t) w (g_edges g)\<rparr>))"

text \<open>Removing a node that is not there raises, after the dictionaries were looked at.\<close>

definition remove_node :: "string \<Rightarrow> cgraph \<Rightarrow> unit result \<times> cgraph" where
  "remove_node i g =
     (let g1 = g\<lparr>c_nodes := dict_del i (c_nodes g), c_values := dict_del i (c_values g)\<rparr>
      in if i \<notin> set (g_nodes g) then (Inl NetworkXError, g1)
         else (Inr (), g1\<lparr>g_nodes := filter (\<lambda>n. n \<noteq> i) (g_nodes g), g_edges := filter (\<lambda>((s, t), _). s \<noteq> i \<and> t \<noteq> i) (g_edges g)\<rparr>))"

definition remove_edge :: "string \<Rightarrow> string \<Rightarrow> cgraph \<Rightarrow> cgraph result" where
  "remove_edge s t g = (if dict_has (g_edges g) (s, t) then Inr (g\<lparr>g_edges := dict_del (s, t) (g_edges g)\<rparr>) else Inl NetworkXError)"

definition has_edge :: "cgraph \<Rightarrow> string \<Rightarrow> string \<Rightarrow> bool" where
  "has_edge g s t = dict_has (g_edges g) (s, t)"

text \<open>Parents and children are asked for nodes of the graph only, for which \<open>networkx\<close> does not raise.\<close>

definition get_parents :: "cgraph \<Rightarrow> string \<Rightarrow> string list" where
  "get_parents g n = map (fst \<circ> fst) (filter (\<lambda>((_, t), _). t = n) (g_edges g))"

definition get_children :: "cgraph \<Rightarrow> string \<Rightarrow> string list" where
  "get_children g n = map (snd \<circ> fst) (filter (\<lambda>((s, _), _). s = n) (g_edges g))"

section \<open>Confounders, instruments and mediators\<close>

definition others :: "cgraph \<Rightarrow> string \<Rightarrow> string \<Rightarrow> string list" where
  "others g t ob = filter (\<lambda>n. n \<noteq> t \<and> n \<noteq> ob) (map fst (c_nodes g))"

definition sorted_set :: "string list \<Rightarrow> string list" where
  "sorted_set xs = sort (remdups xs)"

definition find_confounders :: "nx_ops \<Rightarrow> string \<Rightarrow> string \<Rightarrow> string list \<Rightarrow> cgraph \<Rightarrow> string list result" where
  "find_confounders nx t ob excluded g =
     (if \<not> nx_is_dag nx g \<or> \<not> dict_has (c_nodes g) t \<or> \<not> dict_has (c_nodes g) ob then Inl ValueError
      else Inr (sorted_set (filter (\<lambda>n. n \<notin> set excluded \<and> n \<in> set (get_parents g ob) \<and> has_edge g n t) (others g t ob))))"

text \<open>\<open>networkx\<close> raises for a node that is not in the graph.\<close>

definition ancestors_of :: "nx_ops \<Rightarrow> cgraph \<Rightarrow> string \<Rightarrow> string list result" where
  "ancestors_of nx g n = (if n \<in> set (g_nodes g) then Inr (nx_ancestors nx g n) else Inl NetworkXError)"

definition descendants_of :: "nx_ops \<Rightarrow> cgraph \<Rightarrow> string \<Rightarrow> string list result" where
  "descendants_of nx g n = (if n \<in> set (g_nodes g) then Inr (nx_descendants nx g n) else Inl NetworkXError)"

definition is_instrument :: "nx_ops \<Rightarrow> cgraph \<Rightarrow> string \<Rightarrow> string \<Rightarrow> string \<Rightarrow> bool result" where
  "is_instrument nx g t ob n =
     (if has_edge g n t \<and> \<not> has_edge g n ob then
        bind_res (ancestors_of nx g ob) (\<lambda>as.
          if n \<in> set as then Inr False else map_res (\<lambda>ds. t \<in> set ds) (descendants_of nx g n))
      else Inr False)"

fun filter_res :: "('a \<Rightarrow> bool result) \<Rightarrow> 'a list \<Rightarrow> 'a list result" where
  "filter_res P [] = Inr []"
| "filter_res P (x # xs) = bind_res (P x) (\<lambda>b. map_res (\<lambda>ys. if b then x # ys else ys) (filter_res P xs))"

definition find_instruments :: "nx_ops \<Rightarrow> string \<Rightarrow> string \<Rightarrow> cgraph \<Rightarrow> string list result" where
  "find_instruments nx t ob g =
     (if \<not> nx_is_dag nx g then Inl ValueError
      else map_res sorted_set (filter_res (is_instrument nx g t ob) (others g t ob)))"

definition is_mediator :: "nx_ops \<Rightarrow> cgraph \<Rightarrow> string \<Rightarrow> string \<Rightarrow> string \<Rightarrow> bool result" where
  "is_mediator nx g t ob n =
     bind_res (ancestors_of nx g ob) (\<lambda>as. map_res (\<lambda>ds. n \<in> set as \<and> n \<in> set ds) (descendants_of nx g t))"

definition find_mediators :: "nx_ops \<Rightarrow> string \<Rightarrow> string \<Rightarrow> cgraph \<Rightarrow> string list result" where
  "find_mediators nx t ob g =
     (if \<not> nx_is_dag nx g then Inl ValueError
      else map_res sorted_set (filter_res (is_mediator nx g t ob) (others g t ob)))"

section \<open>Estimates\<close>

record intervention =
  target_variable :: string
  intervention_value :: py_float
  estimated_effect :: py_float
  i_confidence :: py_float
  backdoor :: "string list"
  frontdoor :: "string list"
  counterfactual :: "(string, py_float) dict option"

definition strength :: "cgraph \<Rightarrow> string \<Rightarrow> string \<Rightarrow> py_float" where
  "strength g s t = dict_get (g_edges g) (s, t) 0"

definition direct_effect :: "nx_ops \<Rightarrow> string \<Rightarrow> string \<Rightarrow> cgraph \<Rightarrow> py_float" where
  "direct_effect nx t ob g =
     (\<Sum>s \<leftarrow> get_children g t. if s = ob then strength g t s else if ob \<in> set (nx_descendants nx g s) then strength g t s * (1 / 2) else 0)"

definition confounder_bias :: "string \<Rightarrow> string \<Rightarrow> string list \<Rightarrow> cgraph \<Rightarrow> py_float" where
  "confounder_bias t ob cs g =
     (\<Sum>c \<leftarrow> cs. if has_edge g c t \<and> has_edge g c ob then strength g c t * strength g c ob * \<bar>dict_get (c_values g) c 0\<bar> else 0)"

definition mediator_effect :: "string \<Rightarrow> string \<Rightarrow> string list \<Rightarrow> cgraph \<Rightarrow> py_float" where
  "mediator_effect t ob ms g = (\<Sum>m \<leftarrow> ms. if has_edge g t m \<and> has_edge g m ob then strength g t m * strength g m ob else 0)"

text \<open>The counterfactual of a node with an influenced parent, under the name of the node or its identifier.\<close>

definition counterfactuals :: "string \<Rightarrow> string \<Rightarrow> string list \<Rightarrow> cgraph \<Rightarrow> (string, py_float) dict" where
  "counterfactuals t ob influences g =
     foldl (\<lambda>d (i, n).
         if i \<noteq> ob \<and> i \<noteq> t \<and> list_ex (\<lambda>p. p \<in> set (t # influences)) (get_parents g i)
         then dict_set (if n = [] then i else n)
                (dict_get (c_values g) i 0 + (\<Sum>p \<leftarrow> get_parents g i. strength g p i * (1 / 10))) d
         else d) [] (c_nodes g)"

definition estimate_ate :: "nx_ops \<Rightarrow> string \<Rightarrow> string \<Rightarrow> py_float \<Rightarrow> cgraph \<Rightarrow> intervention result" where
  "estimate_ate nx t ob v g =
     (if \<not> nx_is_dag nx g then Inl ValueError
      else
        bind_res (find_confounders nx t ob [] g) (\<lambda>back.
        map_res (\<lambda>front.
          let current = dict_get (c_values g) ob 0; delta = v - dict_get (c_values g) t 0
          in if delta = 0
             then \<lparr>target_variable = ob, intervention_value = v, estimated_effect = current, i_confidence = 1,
                   backdoor = back, frontdoor = front, counterfactual = None\<rparr>
             else
               (let effect = max 0 (direct_effect nx t ob g * delta + mediator_effect t ob front g * delta - confounder_bias t ob back g * (1 / 10));
                    conf = max (1 / 10) (min 1 (1 / (1 + of_nat (length back) * (1 / 10) + of_nat (length front) * (1 / 20))));
                    cf = counterfactuals t ob (back @ front) g
                in \<lparr>target_variable = ob, intervention_value = v, estimated_effect = py_round 4 (current + effect),
                    i_confidence = py_round 4 conf, backdoor = back, frontdoor = front,
                    counterfactual = (if cf = [] then None else Some cf)\<rparr>))
          (find_mediators nx t ob g)))"

definition estimate_counterfactual :: "nx_ops \<Rightarrow> string \<Rightarrow> string \<Rightarrow> py_float \<Rightarrow> (string, py_float) dict \<Rightarrow> cgraph \<Rightarrow> intervention result \<times> cgraph" where
  "estimate_counterfactual nx t ob v evidence g =
     (let g' = g\<lparr>c_values := foldl (\<lambda>d (k, x). if dict_has d k then dict_set k x d else d) (c_values g) evidence\<rparr>
      in (estimate_ate nx t ob v g', g'))"

section \<open>Graphs from requirements\<close>

record requirement =
  category :: string
  rdescription :: string
  priority :: py_float

definition req_name :: "requirement \<Rightarrow> string" where
  "req_name r = category r @ ''_'' @ take 20 (rdescription r)"

text \<open>Every requirement comes with the identifier made for it; dependencies between unknown names are left out.\<close>

definition from_requirements :: "(string \<times> requirement) list \<Rightarrow> (string \<times> string \<times> py_float) list \<Rightarrow> cgraph" where
  "from_requirements reqs deps =
     (let g = foldl (\<lambda>g (i, r). add_node i (req_name r) (priority r) g) new_cgraph reqs;
          req_map = foldl (\<lambda>d (i, r). dict_set (req_name r) i d) [] reqs
      in foldl (\<lambda>g (s, t, w).
           case (map_of req_map s, map_of req_map t) of
             (Some si, Some ti) \<Rightarrow>
               if si \<noteq> [] \<and> ti \<noteq> [] then (case add_edge si ti w g of Inr g' \<Rightarrow> g' | Inl _ \<Rightarrow> g) else g
           | _ \<Rightarrow> g) g deps)"

section \<open>The engine\<close>

record cmetrics =
  graphs_built :: nat
  interventions_run :: nat
  counterfactuals_estimated :: nat
  mean_confidence :: py_float
  total_confidence :: py_float

definition reset_metrics :: cmetrics where
  "reset_metrics = \<lparr>graphs_built = 0, interventions_run = 0, counterfactuals_estimated = 0, mean_confidence = 0, total_confidence = 0\<rparr>"

definition build_graph ::
  "(string \<times> requirement) list \<Rightarrow> (string \<times> string) list \<Rightarrow> (string \<times> string \<times> py_float) list \<Rightarrow> cmetrics \<Rightarrow> cgraph \<times> cmetrics" where
  "build_graph reqs constraints deps m =
     (foldl (\<lambda>g (i, n). add_node i (''constraint_'' @ n) 1 g) (from_requirements reqs deps) constraints,
      m\<lparr>graphs_built := graphs_built m + 1\<rparr>)"

definition analyze_counterfactual ::
  "nx_ops \<Rightarrow> bool \<Rightarrow> cgraph \<Rightarrow> string \<Rightarrow> string \<Rightarrow> py_float \<Rightarrow> cmetrics \<Rightarrow> intervention option result \<times> cmetrics" where
  "analyze_counterfactual nx enabled g t ob v m =
     (if \<not> enabled \<or> \<not> dict_has (c_nodes g) t \<or> \<not> dict_has (c_nodes g) ob then (Inr None, m)
      else (case estimate_ate nx t ob v g of
              Inl e \<Rightarrow> (Inl e, m)
            | Inr r \<Rightarrow>
                (let n = counterfactuals_estimated m + 1; tc = total_confidence m + i_confidence r
                 in (Inr (Some r), m\<lparr>interventions_run := interventions_run m + 1, counterfactuals_estimated := n,
                       total_confidence := tc, mean_confidence := tc / of_nat (max 1 n)\<rparr>))))"

text \<open>The loop over the nodes; it stops once the maximal number of results is reached.\<close>

fun analyze_nodes ::
  "nx_ops \<Rightarrow> int \<Rightarrow> cgraph \<Rightarrow> string \<Rightarrow> (string \<times> string) list \<Rightarrow> int \<Rightarrow> cmetrics \<Rightarrow> (string \<times> intervention \<times> intervention option) list result \<times> cmetrics" where
  "analyze_nodes nx limit g ob [] n m = (Inr [], m)"
| "analyze_nodes nx limit g ob ((i, nm) # ns) n m =
     (if limit \<le> n then (Inr [], m)
      else if i = ob then analyze_nodes nx limit g ob ns n m
      else
        (case analyze_counterfactual nx True g i ob 1 m of
           (Inl e, m1) \<Rightarrow> (Inl e, m1)
         | (Inr None, m1) \<Rightarrow> analyze_nodes nx limit g ob ns n m1
         | (Inr (Some r), m1) \<Rightarrow>
             (case analyze_counterfactual nx True g i ob 2 m1 of
                (Inl e, m2) \<Rightarrow> (Inl e, m2)
              | (Inr alt, m2) \<Rightarrow>
                  (let (rest, m3) = analyze_nodes nx limit g ob ns (n + 1) m2
                   in (map_res (Cons (if nm = [] then i else nm, r, alt)) rest, m3)))))"

definition analyze_all_counterfactuals ::
  "nx_ops \<Rightarrow> bool \<Rightarrow> int \<Rightarrow> cgraph \<Rightarrow> cmetrics \<Rightarrow> (string \<times> intervention \<times> intervention option) list result \<times> cmetrics" where
  "analyze_all_counterfactuals nx enabled limit g m =
     (if \<not> enabled \<or> c_nodes g = [] \<or> fst (last (c_nodes g)) = [] then (Inr [], m)
      else analyze_nodes nx limit g (fst (last (c_nodes g))) (c_nodes g) 0 m)"

section \<open>What networkx promises\<close>

definition edge_rel :: "cgraph \<Rightarrow> (string \<times> string) set" where
  "edge_rel g = set (map fst (g_edges g))"

locale networkx =
  fixes nx :: nx_ops
  assumes ancestors: "set (nx_ancestors nx g n) = {m. (m, n) \<in> (edge_rel g)\<^sup>+} - {n}"
    and descendants: "set (nx_descendants nx g n) = {m. (n, m) \<in> (edge_rel g)\<^sup>+} - {n}"
    and is_dag: "nx_is_dag nx g \<longleftrightarrow> acyclic (edge_rel g)"

text \<open>A graph that the operations keep in order: the parts agree on the nodes, and edges join nodes.\<close>

definition cg_ok :: "cgraph \<Rightarrow> bool" where
  "cg_ok g \<longleftrightarrow> wf_dict (c_nodes g) \<and> wf_dict (c_values g) \<and> wf_dict (g_edges g) \<and> distinct (g_nodes g) \<and>
     fst ` set (c_nodes g) = set (g_nodes g) \<and> fst ` set (c_values g) = set (g_nodes g) \<and> edge_rel g \<subseteq> set (g_nodes g) \<times> set (g_nodes g)"

lemma has_edge_iff: "has_edge g s t \<longleftrightarrow> (s, t) \<in> edge_rel g"
  by (simp add: has_edge_def edge_rel_def dict_has_def)

lemma set_get_parents: "set (get_parents g n) = {s. (s, n) \<in> edge_rel g}"
  by (force simp: get_parents_def edge_rel_def)

lemma set_get_children: "set (get_children g n) = {t. (n, t) \<in> edge_rel g}"
  by (force simp: get_children_def edge_rel_def)

lemma set_sorted_set [simp]: "set (sorted_set xs) = set xs"
  by (simp add: sorted_set_def)

lemma strict_sorted_set: "sorted_wrt (<) (sorted_set xs)"
  by (simp add: sorted_set_def strict_sorted_iff)

lemma dict_has_node: "cg_ok g \<Longrightarrow> dict_has (c_nodes g) i \<longleftrightarrow> i \<in> set (g_nodes g)"
  by (auto simp: cg_ok_def dict_has_def)

lemma edge_reach_nodes:
  assumes "cg_ok g" and "(a, b) \<in> (edge_rel g)\<^sup>+"
  shows "a \<in> set (g_nodes g)" and "b \<in> set (g_nodes g)"
proof -
  have "edge_rel g \<subseteq> set (g_nodes g) \<times> set (g_nodes g)" using assms(1) by (simp add: cg_ok_def)
  then have "(edge_rel g)\<^sup>+ \<subseteq> set (g_nodes g) \<times> set (g_nodes g)" by (rule trancl_subset_Sigma)
  then show "a \<in> set (g_nodes g)" and "b \<in> set (g_nodes g)" using assms(2) by auto
qed

lemma set_others: "cg_ok g \<Longrightarrow> set (others g t ob) = set (g_nodes g) - {t, ob}"
  by (auto simp: others_def cg_ok_def)

lemma filter_res_Inr: "(\<And>x. x \<in> set xs \<Longrightarrow> P x = Inr (Q x)) \<Longrightarrow> filter_res P xs = Inr (filter Q xs)"
  by (induction xs) auto

context networkx
begin

lemma confounders:
  assumes "cg_ok g" and "acyclic (edge_rel g)" and "t \<in> set (g_nodes g)" and "ob \<in> set (g_nodes g)"
  shows "\<exists>cs. find_confounders nx t ob [] g = Inr cs \<and> sorted_wrt (<) cs \<and> set cs = {c. (c, t) \<in> edge_rel g \<and> (c, ob) \<in> edge_rel g}"
proof -
  have "c \<noteq> t \<and> c \<noteq> ob" if "(c, t) \<in> edge_rel g" "(c, ob) \<in> edge_rel g" for c
    using that assms(2) by (auto simp: acyclic_def)
  moreover have "c \<in> set (g_nodes g)" if "(c, t) \<in> edge_rel g" for c using edge_reach_nodes(1) [OF assms(1)] that by blast
  ultimately have "set (filter (\<lambda>n. n \<in> set (get_parents g ob) \<and> has_edge g n t) (others g t ob)) = {c. (c, t) \<in> edge_rel g \<and> (c, ob) \<in> edge_rel g}"
    using set_others [OF assms(1), of t ob] by (auto simp: set_get_parents has_edge_iff)
  then show ?thesis using assms dict_has_node [OF assms(1)]
    by (auto simp: find_confounders_def is_dag strict_sorted_set simp del: set_filter)
qed

lemma reach_lists:
  assumes "n \<in> set (g_nodes g)" and "acyclic (edge_rel g)"
  shows "\<exists>xs. ancestors_of nx g n = Inr xs \<and> set xs = {m. (m, n) \<in> (edge_rel g)\<^sup>+}"
    and "\<exists>xs. descendants_of nx g n = Inr xs \<and> set xs = {m. (n, m) \<in> (edge_rel g)\<^sup>+}"
  using assms ancestors descendants by (auto simp: ancestors_of_def descendants_of_def acyclic_def)

lemma mediators:
  assumes "cg_ok g" and "acyclic (edge_rel g)" and "t \<in> set (g_nodes g)" and "ob \<in> set (g_nodes g)"
  shows "\<exists>ms. find_mediators nx t ob g = Inr ms \<and> sorted_wrt (<) ms \<and> set ms = {m. (t, m) \<in> (edge_rel g)\<^sup>+ \<and> (m, ob) \<in> (edge_rel g)\<^sup>+}"
proof -
  obtain as ds where "ancestors_of nx g ob = Inr as" "set as = {m. (m, ob) \<in> (edge_rel g)\<^sup>+}"
      "descendants_of nx g t = Inr ds" "set ds = {m. (t, m) \<in> (edge_rel g)\<^sup>+}"
    using reach_lists(1) [OF assms(4,2)] reach_lists(2) [OF assms(3,2)] by blast
  then have "filter_res (is_mediator nx g t ob) (others g t ob) = Inr (filter (\<lambda>m. (m, ob) \<in> (edge_rel g)\<^sup>+ \<and> (t, m) \<in> (edge_rel g)\<^sup>+) (others g t ob))"
    by (intro filter_res_Inr) (simp add: is_mediator_def)
  moreover have "m \<in> set (others g t ob)" if "(m, ob) \<in> (edge_rel g)\<^sup>+" "(t, m) \<in> (edge_rel g)\<^sup>+" for m
    using that assms(2) edge_reach_nodes(1) [OF assms(1) that(1)] set_others [OF assms(1), of t ob] by (auto simp: acyclic_def)
  ultimately show ?thesis using assms(2) by (auto simp: find_mediators_def is_dag strict_sorted_set)
qed

lemma instruments:
  assumes "cg_ok g" and "acyclic (edge_rel g)" and "t \<in> set (g_nodes g)" and "ob \<in> set (g_nodes g)"
  shows "\<exists>is. find_instruments nx t ob g = Inr is \<and> sorted_wrt (<) is \<and> set is = {n. n \<noteq> ob \<and> (n, t) \<in> edge_rel g \<and> (n, ob) \<notin> (edge_rel g)\<^sup>+}"
proof -
  have P: "is_instrument nx g t ob n = Inr ((n, t) \<in> edge_rel g \<and> (n, ob) \<notin> (edge_rel g)\<^sup>+)" if "n \<in> set (g_nodes g)" for n
    using reach_lists(1) [OF assms(4,2)] reach_lists(2) [OF that assms(2)] by (auto simp: is_instrument_def has_edge_iff)
  have "filter_res (is_instrument nx g t ob) (others g t ob) = Inr (filter (\<lambda>n. (n, t) \<in> edge_rel g \<and> (n, ob) \<notin> (edge_rel g)\<^sup>+) (others g t ob))"
    using P set_others [OF assms(1), of t ob] by (intro filter_res_Inr) simp
  moreover have "n \<in> set (g_nodes g) \<and> n \<noteq> t" if "(n, t) \<in> edge_rel g" for n
    using that edge_reach_nodes(1) [OF assms(1), of n t] assms(2) by (auto simp: acyclic_def)
  ultimately show ?thesis using assms(2) set_others [OF assms(1), of t ob] by (auto simp: find_instruments_def is_dag strict_sorted_set)
qed

end

text \<open>A concrete computation of what is promised.\<close>

definition ends :: "cgraph \<Rightarrow> string list" where
  "ends g = remdups (concat (map (\<lambda>((s, t), _). [s, t]) (g_edges g)))"

definition plain_nx :: nx_ops where
  "plain_nx = \<lparr>nx_ancestors = (\<lambda>g n. filter (\<lambda>m. m \<noteq> n \<and> (m, n) \<in> (edge_rel g)\<^sup>+) (ends g)),
     nx_descendants = (\<lambda>g n. filter (\<lambda>m. m \<noteq> n \<and> (n, m) \<in> (edge_rel g)\<^sup>+) (ends g)),
     nx_is_dag = (\<lambda>g. acyclic (edge_rel g))\<rparr>"

lemma reach_ends: "(a, b) \<in> (edge_rel g)\<^sup>+ \<Longrightarrow> a \<in> set (ends g) \<and> b \<in> set (ends g)"
  by (induction rule: trancl.induct) (force simp: ends_def edge_rel_def)+

interpretation plain: networkx plain_nx
  by unfold_locales (auto simp: plain_nx_def dest: reach_ends)

section \<open>Operations keep graphs in order\<close>

lemma new_cgraph_ok: "cg_ok new_cgraph"
  by (simp add: cg_ok_def new_cgraph_def edge_rel_def)

lemma edge_rel_upd [simp]:
  "edge_rel (g\<lparr>g_edges := dict_set k w (g_edges g)\<rparr>) = insert k (edge_rel g)" "edge_rel (g\<lparr>g_edges := dict_del k (g_edges g)\<rparr>) = edge_rel g - {k}"
  "edge_rel (g\<lparr>c_nodes := x\<rparr>) = edge_rel g" "edge_rel (g\<lparr>c_values := y\<rparr>) = edge_rel g" "edge_rel (g\<lparr>g_nodes := z\<rparr>) = edge_rel g"
  by (simp_all add: edge_rel_def fst_set_dict_set fst_set_dict_del)

lemma cg_ok_keep:
  "cg_ok g \<Longrightarrow> s \<in> set (g_nodes g) \<Longrightarrow> t \<in> set (g_nodes g) \<Longrightarrow> cg_ok (g\<lparr>g_edges := dict_set (s, t) w (g_edges g)\<rparr>)"
  "cg_ok g \<Longrightarrow> cg_ok (g\<lparr>g_edges := dict_del k (g_edges g)\<rparr>)"
  unfolding cg_ok_def by (simp, simp) blast

lemma add_node_ok: "cg_ok g \<Longrightarrow> cg_ok (add_node i n v g)"
  by (auto simp: cg_ok_def add_node_def fst_set_dict_set)

lemma add_edge_ok: "cg_ok g \<Longrightarrow> add_edge s t w g = Inr g' \<Longrightarrow> cg_ok g' \<and> edge_rel g' = insert (s, t) (edge_rel g)"
  using dict_has_node [of g] by (cases "s \<in> set (g_nodes g) \<and> t \<in> set (g_nodes g)") (auto simp: add_edge_def cg_ok_keep)

lemma remove_node_ok:
  assumes "cg_ok g" and "remove_node i g = (Inr u, g')"
  shows "cg_ok g' \<and> edge_rel g' = {e \<in> edge_rel g. fst e \<noteq> i \<and> snd e \<noteq> i}"
proof -
  have g': "g' = g\<lparr>c_nodes := dict_del i (c_nodes g), c_values := dict_del i (c_values g), g_nodes := filter (\<lambda>n. n \<noteq> i) (g_nodes g),
      g_edges := filter (\<lambda>((s, t), _). s \<noteq> i \<and> t \<noteq> i) (g_edges g)\<rparr>" using assms(2) by (auto simp: remove_node_def Let_def split: if_splits)
  have "edge_rel g' = {e \<in> edge_rel g. fst e \<noteq> i \<and> snd e \<noteq> i}" by (force simp: g' edge_rel_def)
  moreover have "wf_dict (filter P (g_edges g))" for P using assms(1) by (simp add: cg_ok_def wf_dict_def distinct_map_filter)
  ultimately show ?thesis using assms(1) by (auto simp: cg_ok_def g' fst_set_dict_del)
qed

lemma remove_edge_ok: "cg_ok g \<Longrightarrow> remove_edge s t g = Inr g' \<Longrightarrow> cg_ok g' \<and> edge_rel g' = edge_rel g - {(s, t)}"
  by (auto simp: remove_edge_def cg_ok_keep split: if_splits)

lemma fold_nodes_ok: "cg_ok g \<Longrightarrow> cg_ok (foldl (\<lambda>g (i, r). add_node i (f r) (v r) g) g xs)"
  by (induction xs arbitrary: g) (auto simp: add_node_ok)

lemma from_requirements_ok: "cg_ok (from_requirements reqs deps)"
proof -
  have keep: "cg_ok (foldl (\<lambda>g (s, t, w).
      case (map_of m s, map_of m t) of
        (Some si, Some ti) \<Rightarrow> if si \<noteq> [] \<and> ti \<noteq> [] then (case add_edge si ti w g of Inr g' \<Rightarrow> g' | Inl _ \<Rightarrow> g) else g
      | _ \<Rightarrow> g) g deps)" if "cg_ok g" for m g
    using that by (induction deps arbitrary: g) (auto simp: add_edge_ok split: option.splits sum.splits)
  show ?thesis unfolding from_requirements_def Let_def by (rule keep) (rule fold_nodes_ok [OF new_cgraph_ok])
qed

section \<open>Estimates\<close>

lemma max_round: "a \<le> x \<Longrightarrow> x \<le> b \<Longrightarrow> py_round n a \<le> py_round n x \<and> py_round n x \<le> py_round n b"
  by (simp add: py_round_mono)

lemma confidence_bounds:
  fixes a b :: nat
  defines "x \<equiv> py_round 4 (max (1 / 10) (1 / (1 + of_nat a / 10 + of_nat b / 20)))"
  shows "1 / 10 \<le> x" "x \<le> 1"
proof -
  have "1 / (1 + of_nat a / 10 + of_nat b / 20) \<le> (1 :: rat)" by simp
  moreover have "py_round 4 (1 / 10) = 1 / 10" "py_round 4 1 = 1" by code_simp+
  ultimately show "1 / 10 \<le> x" "x \<le> 1"
    unfolding x_def using max_round [of "1 / 10" "max (1 / 10) (1 / (1 + of_nat a / 10 + of_nat b / 20))" 1 4] by simp_all
qed

lemma estimate_shape:
  assumes "find_confounders nx t ob [] g = Inr cs" and "find_mediators nx t ob g = Inr ms" and "nx_is_dag nx g"
  shows "\<exists>r. estimate_ate nx t ob v g = Inr r \<and> backdoor r = cs \<and> frontdoor r = ms \<and> 1 / 10 \<le> i_confidence r \<and> i_confidence r \<le> 1 \<and>
    (if v = dict_get (c_values g) t 0 then estimated_effect r = dict_get (c_values g) ob 0
     else py_round 4 (dict_get (c_values g) ob 0) \<le> estimated_effect r)"
  using assms confidence_bounds [of "length cs" "length ms"] py_round_mono unfolding estimate_ate_def Let_def
  by (cases "v = dict_get (c_values g) t 0") (simp_all add: Let_def py_round_mono)

text \<open>
  (C17) In an acyclic causal graph the confounders found for a treatment and an outcome are exactly their common
  parents, the mediators exactly the nodes on directed paths from one to the other, and the instruments the
  parents of the treatment from which the outcome cannot be reached, each in strictly increasing order. The
  estimate of an intervention then returns with these sets, a confidence between 0.1 and 1, and an effect
  that is the present value of the outcome when the treatment is not changed, and never rounds to less.
\<close>

theorem causal_analysis:
  assumes "networkx nx" and "cg_ok g" and "acyclic (edge_rel g)" and "t \<in> set (g_nodes g)" and "ob \<in> set (g_nodes g)"
  shows "\<exists>cs ms ins r. find_confounders nx t ob [] g = Inr cs \<and> find_mediators nx t ob g = Inr ms \<and> find_instruments nx t ob g = Inr ins \<and>
    sorted_wrt (<) cs \<and> set cs = {c. (c, t) \<in> edge_rel g \<and> (c, ob) \<in> edge_rel g} \<and>
    sorted_wrt (<) ms \<and> set ms = {m. (t, m) \<in> (edge_rel g)\<^sup>+ \<and> (m, ob) \<in> (edge_rel g)\<^sup>+} \<and>
    sorted_wrt (<) ins \<and> set ins = {n. n \<noteq> ob \<and> (n, t) \<in> edge_rel g \<and> (n, ob) \<notin> (edge_rel g)\<^sup>+} \<and>
    estimate_ate nx t ob v g = Inr r \<and> backdoor r = cs \<and> frontdoor r = ms \<and> 1 / 10 \<le> i_confidence r \<and> i_confidence r \<le> 1 \<and>
    (if v = dict_get (c_values g) t 0 then estimated_effect r = dict_get (c_values g) ob 0
     else py_round 4 (dict_get (c_values g) ob 0) \<le> estimated_effect r)"
proof -
  obtain cs where cs: "find_confounders nx t ob [] g = Inr cs" "sorted_wrt (<) cs" "set cs = {c. (c, t) \<in> edge_rel g \<and> (c, ob) \<in> edge_rel g}"
    using networkx.confounders [OF assms] by blast
  obtain ms where ms: "find_mediators nx t ob g = Inr ms" "sorted_wrt (<) ms" "set ms = {m. (t, m) \<in> (edge_rel g)\<^sup>+ \<and> (m, ob) \<in> (edge_rel g)\<^sup>+}"
    using networkx.mediators [OF assms] by blast
  obtain ins where ins: "find_instruments nx t ob g = Inr ins" "sorted_wrt (<) ins"
      "set ins = {n. n \<noteq> ob \<and> (n, t) \<in> edge_rel g \<and> (n, ob) \<notin> (edge_rel g)\<^sup>+}"
    using networkx.instruments [OF assms] by blast
  have dag: "nx_is_dag nx g" using networkx.is_dag [OF assms(1)] assms(3) by simp
  show ?thesis using cs ms ins estimate_shape [OF cs(1) ms(1) dag, of v] by blast
qed

definition demo_graph :: cgraph where
  "demo_graph = \<lparr>c_nodes = [(''t'', []), (''o'', []), (''c'', []), (''m'', [])], c_values = [(''t'', 0), (''o'', 5), (''c'', 1), (''m'', 0)],
     g_nodes = [''t'', ''o'', ''c'', ''m''], g_edges = [((''t'', ''o''), -1), ((''c'', ''t''), 1), ((''c'', ''o''), 1), ((''t'', ''m''), 1), ((''m'', ''o''), 1)]\<rparr>"

lemma demo_graph_ok: "cg_ok demo_graph" "acyclic (edge_rel demo_graph)"
proof -
  show "cg_ok demo_graph" by (simp add: cg_ok_def demo_graph_def edge_rel_def wf_dict_def)
  have "edge_rel demo_graph \<subseteq> (measure (\<lambda>s. if s = ''c'' then 3 else if s = ''t'' then 2 else if s = ''m'' then 1 else (0 :: nat)))\<inverse>"
    by (auto simp: edge_rel_def demo_graph_def)
  then show "acyclic (edge_rel demo_graph)" by (meson acyclic_converse acyclic_subset wf_acyclic wf_measure)
qed

theorem causal_analysis_witness:
  "\<exists>ms. find_mediators plain_nx ''t'' ''o'' demo_graph = Inr ms \<and> ''m'' \<in> set ms"
proof -
  have "(''t'', ''m'') \<in> edge_rel demo_graph" "(''m'', ''o'') \<in> edge_rel demo_graph" "''t'' \<in> set (g_nodes demo_graph)" "''o'' \<in> set (g_nodes demo_graph)"
    by (simp_all add: edge_rel_def demo_graph_def)
  then show ?thesis using causal_analysis [OF plain.networkx_axioms demo_graph_ok, of "''t''" "''o''" 1] by (auto intro: r_into_trancl)
qed

text \<open>There are no instruments at all when the treatment affects the outcome: every parent of it reaches the outcome.\<close>

lemma no_instruments:
  assumes "networkx nx" and "cg_ok g" and "acyclic (edge_rel g)" and "t \<in> set (g_nodes g)" and "ob \<in> set (g_nodes g)" and "(t, ob) \<in> (edge_rel g)\<^sup>+"
  shows "find_instruments nx t ob g = Inr []"
proof -
  have "(n, ob) \<in> (edge_rel g)\<^sup>+" if "(n, t) \<in> edge_rel g" for n using that assms(6) by (rule trancl_into_trancl2)
  then have "xs = []" if "set xs = {n. n \<noteq> ob \<and> (n, t) \<in> edge_rel g \<and> (n, ob) \<notin> (edge_rel g)\<^sup>+}" for xs
    using that by (cases xs) auto
  then show ?thesis using networkx.instruments [OF assms(1-5)] by blast
qed

text \<open>A negative effect is cut off at zero: the estimate never falls below the present value.\<close>

lemma negative_effect_lost:
  "map_res estimated_effect (estimate_ate plain_nx ''t'' ''o'' 1
     (new_cgraph\<lparr>c_nodes := [(''t'', []), (''o'', [])], c_values := [(''t'', 0), (''o'', 5)], g_nodes := [''t'', ''o''], g_edges := [((''t'', ''o''), -3)]\<rparr>)) = Inr 5"
  by code_simp

text \<open>Asking for a counterfactual changes the values of the graph for good.\<close>

lemma evidence_stays:
  assumes "dict_has (c_values g) k"
  shows "map_of (c_values (snd (estimate_counterfactual nx t ob v [(k, x)] g))) k = Some x"
  using assms by (simp add: estimate_counterfactual_def Let_def map_of_dict_set)

section \<open>The engine's metrics\<close>

definition metrics_ok :: "cmetrics \<Rightarrow> bool" where
  "metrics_ok m \<longleftrightarrow> interventions_run m = counterfactuals_estimated m \<and>
     mean_confidence m = (if counterfactuals_estimated m = 0 then mean_confidence m else total_confidence m / of_nat (counterfactuals_estimated m))"

lemma analyze_metrics:
  assumes "metrics_ok m" and "analyze_counterfactual nx en g t ob v m = (r, m')"
  shows "metrics_ok m' \<and> (case r of Inr (Some x) \<Rightarrow> counterfactuals_estimated m' = counterfactuals_estimated m + 1 \<and>
      total_confidence m' = total_confidence m + i_confidence x | _ \<Rightarrow> m' = m)"
  using assms by (auto simp: analyze_counterfactual_def metrics_ok_def Let_def split: if_splits sum.splits)

lemma analyze_nodes_bound:
  "analyze_nodes nx limit g ob ns n m = (Inr rs, m') \<Longrightarrow> 0 \<le> n \<Longrightarrow> n \<le> max limit n \<Longrightarrow> n + int (length rs) \<le> max limit n"
proof (induction ns arbitrary: n m m' rs)
  case (Cons a ns)
  obtain i nm where a: "a = (i, nm)" by fastforce
  show ?case
    using Cons.prems Cons.IH [of n] Cons.IH [of "n + 1"]
    by (auto simp: a map_res_eq_Inr split: if_splits prod.splits sum.splits option.splits) force+
qed auto

end
