(* ===== verification/Neuro_Symbolic.thy ===== *)
theory Neuro_Symbolic
  imports Reasoning_Trace Neural Causal_Graph
begin

text \<open>
  The neurosymbolic engine (\<open>neurosymbolic/engine.py\<close>, \<open>neurosymbolic/evolution.py\<close>): a task is parsed into a
  symbolic graph, the model is asked for a hypothesis, and the hypothesis is verified and refined until it is
  valid or the attempts are used up; then counterfactuals are estimated, and the run is committed as a trace.

  It composes \<open>Symbolic\<close>, \<open>Neural\<close>, \<open>Reasoning_Trace\<close> and \<open>Causal_Graph\<close>. A run is its list of events, its rounds,
  the engine after it and the exception it raises, if any; the consumer of the events takes all of them. Only one
  run is under way at a time. Identifiers, the time of a commit and whether the disk takes it are arguments.
\<close>

section \<open>The engine\<close>

record outcome =
  o_successful :: bool
  o_violations :: "string list"
  o_keys :: "string list"

record ns_metrics =
  tasks_processed :: nat
  tasks_successful :: nat
  tasks_failed :: nat
  total_refinements :: nat
  total_llm_calls :: nat

record ns_engine =
  max_attempts :: nat
  evolution_on :: bool
  causal_on :: bool
  max_counterfactuals :: int
  tracing_on :: bool
  ns_started :: bool
  sym :: sym_engine
  neural_state :: neural
  outcomes :: "outcome list"
  cmet :: cmetrics
  met :: ns_metrics
  traces :: disk

record ns_world =
  out :: outside
  an :: analysis
  bi :: builtins
  nx :: nx_ops
  lm :: llm
  ids :: "nat \<Rightarrow> string"
  cid :: string
  rids :: "nat \<Rightarrow> string"
  now :: py_float
  disk_ok :: "nat \<Rightarrow> bool"

definition new_ns_engine :: "int \<Rightarrow> py_float \<Rightarrow> bool \<Rightarrow> bool \<Rightarrow> int \<Rightarrow> bool \<Rightarrow> ns_engine result" where
  "new_ns_engine attempts timeout evo causal cfs tracing =
     (if attempts < 1 \<or> timeout \<le> 0 \<or> cfs < 0 then Inl ValueError
      else Inr \<lparr>max_attempts = nat attempts, evolution_on = evo, causal_on = causal, max_counterfactuals = cfs,
        tracing_on = tracing, ns_started = False, sym = new_engine,
        neural_state = \<lparr>nbreaker = new_nbreaker, requests = 0, delays = []\<rparr>, outcomes = [], cmet = reset_metrics,
        met = \<lparr>tasks_processed = 0, tasks_successful = 0, tasks_failed = 0, total_refinements = 0, total_llm_calls = 0\<rparr>, traces = []\<rparr>)"

definition start :: "outside \<Rightarrow> ns_engine \<Rightarrow> ns_engine" where
  "start env e = (if ns_started e then e else e\<lparr>sym := initialize env (sym e), ns_started := True\<rparr>)"

definition stop :: "ns_engine \<Rightarrow> ns_engine" where
  "stop e = e\<lparr>ns_started := False\<rparr>"

definition record_outcome :: "(string, json) dict \<Rightarrow> bool \<Rightarrow> string list \<Rightarrow> ns_engine \<Rightarrow> ns_engine" where
  "record_outcome h successful vs e =
     (if evolution_on e then e\<lparr>outcomes := outcomes e @ [\<lparr>o_successful = successful, o_violations = vs, o_keys = map fst h\<rparr>]\<rparr> else e)"

record evo_stats =
  es_total :: nat
  es_successful :: nat
  es_failed :: nat
  es_rate :: py_float

definition evolution_stats :: "outcome list \<Rightarrow> evo_stats" where
  "evolution_stats os =
     (let s = length (filter o_successful os)
      in \<lparr>es_total = length os, es_successful = s, es_failed = length os - s,
          es_rate = (if os = [] then 0 else of_nat s / of_nat (length os))\<rparr>)"

definition success_rate :: "ns_engine \<Rightarrow> py_float" where
  "success_rate e = (if 0 < tasks_processed (met e) then of_nat (tasks_successful (met e)) / of_nat (tasks_processed (met e)) else 0)"

section \<open>Tasks\<close>

definition FIELDS :: "string list" where
  "FIELDS = [''requirements'', ''constraints'', ''goals'', ''variables'']"

fun is_dict :: "json \<Rightarrow> bool" where
  "is_dict (JDict d) = True"
| "is_dict _ = False"

fun is_str :: "json \<Rightarrow> bool" where
  "is_str (JStr s) = True"
| "is_str _ = False"

fun list_with :: "(json \<Rightarrow> bool) \<Rightarrow> json \<Rightarrow> bool" where
  "list_with P (JList js) = list_all P js"
| "list_with P _ = False"

text \<open>The strict model: no other fields, exact types, and what is missing becomes empty.\<close>

definition validate_input :: "(string, json) dict \<Rightarrow> string + (string, json) dict" where
  "validate_input task =
     (let r = dict_get task ''requirements'' (JList []); c = dict_get task ''constraints'' (JList []);
          g = dict_get task ''goals'' (JList []); v = dict_get task ''variables'' (JDict [])
      in if list_all (\<lambda>(k, _). k \<in> set FIELDS) task \<and> list_with is_dict r \<and> list_with is_dict c \<and> list_with is_str g \<and> is_dict v
         then Inr [(''requirements'', r), (''constraints'', c), (''goals'', g), (''variables'', v)]
         else Inl ''ValidationError'')"

fun items :: "json \<Rightarrow> json list" where
  "items (JList js) = js"
| "items _ = []"

fun fields :: "json \<Rightarrow> (string, json) dict" where
  "fields (JDict d) = d"
| "fields _ = []"

section \<open>Causal analysis\<close>

definition coerce_priority :: "builtins \<Rightarrow> json \<Rightarrow> int" where
  "coerce_priority b j = (case py_int b j of Inl _ \<Rightarrow> 5 | Inr i \<Rightarrow> min (max i 0) 10)"

definition normal_requirement :: "ns_world \<Rightarrow> json \<Rightarrow> requirement" where
  "normal_requirement w j =
     \<lparr>category = py_str (out w) (dict_get (fields j) ''category'' (JStr ''unknown'')),
      rdescription = py_str (out w) (dict_get (fields j) ''description'' (JStr [])),
      priority = of_int (coerce_priority (bi w) (dict_get (fields j) ''priority'' (JInt 5)))\<rparr>"

definition constraint_name :: "ns_world \<Rightarrow> nat \<times> json \<Rightarrow> string" where
  "constraint_name w ij = py_str (out w) (dict_get (fields (snd ij)) ''name'' (JStr (''c_'' @ show_nat (fst ij))))"

definition dependency_node_name :: "requirement \<Rightarrow> string" where
  "dependency_node_name r = category r @ ''_'' @ take 20 (rdescription r)"

text \<open>A requirement is skipped for itself, which its priority does as well.\<close>

definition dependencies :: "requirement list \<Rightarrow> (string \<times> string \<times> py_float) list" where
  "dependencies rs =
     concat (map (\<lambda>r. concat (map (\<lambda>other.
       if priority other < priority r then [(dependency_node_name r, dependency_node_name other, 1 / 2)] else []) rs)) rs)"

definition compute_counterfactuals ::
  "ns_world \<Rightarrow> int \<Rightarrow> requirement list \<Rightarrow> string list \<Rightarrow> cmetrics \<Rightarrow> (string \<times> intervention \<times> intervention option) list result \<times> cmetrics" where
  "compute_counterfactuals w limit rs cs m =
     (let (g, m1) = build_graph (zip (map (ids w) [0..<length rs]) rs) (zip (map (ids w) [length rs..<length rs + length cs]) cs) (dependencies rs) m
      in analyze_all_counterfactuals (nx w) True limit g m1)"

definition run_causal_analysis ::
  "ns_world \<Rightarrow> int \<Rightarrow> (string, json) dict \<Rightarrow> cmetrics \<Rightarrow> (string \<times> intervention \<times> intervention option) list result \<times> cmetrics" where
  "run_causal_analysis w limit task m =
     (let rs = map (normal_requirement w) (items (dict_get task ''requirements'' (JList [])));
          cs = map (constraint_name w) (List.enumerate 0 (items (dict_get task ''constraints'' (JList []))))
      in if rs = [] \<and> cs = [] then (Inr [], m) else compute_counterfactuals w limit rs cs m)"

section \<open>A run\<close>

datatype event =
    ParsingStarted
  | ParsingCompleted nat nat
  | HypothesisStarted
  | HypothesisCompleted "string list"
  | VerificationStarted nat verdict
  | VerificationCompleted nat bool nat verdict
  | CausalStarted
  | CausalCompleted nat
  | RefinementStarted nat
  | RefinementCompleted nat
  | Completed "(string, json) dict" nat verdict "(string \<times> intervention \<times> intervention option) list"
  | Failed nat verdict
  | ErrorEvent string

record run =
  events :: "event list"
  rounds :: "vround list"
  eng :: ns_engine

definition emit :: "event \<Rightarrow> run \<Rightarrow> run" where
  "emit ev r = r\<lparr>events := events r @ [ev]\<rparr>"

definition on_engine :: "(ns_engine \<Rightarrow> ns_engine) \<Rightarrow> run \<Rightarrow> run" where
  "on_engine f r = r\<lparr>eng := f (eng r)\<rparr>"

definition count_success :: "ns_engine \<Rightarrow> ns_engine" where
  "count_success e = e\<lparr>met := (met e)\<lparr>tasks_successful := tasks_successful (met e) + 1, tasks_processed := tasks_processed (met e) + 1\<rparr>\<rparr>"

definition count_failure :: "ns_engine \<Rightarrow> ns_engine" where
  "count_failure e = e\<lparr>met := (met e)\<lparr>tasks_failed := tasks_failed (met e) + 1, tasks_processed := tasks_processed (met e) + 1\<rparr>\<rparr>"

definition count_llm :: "bool \<Rightarrow> ns_engine \<Rightarrow> ns_engine" where
  "count_llm refinement e =
     e\<lparr>met := (met e)\<lparr>total_llm_calls := total_llm_calls (met e) + 1,
         total_refinements := total_refinements (met e) + (if refinement then 1 else 0)\<rparr>\<rparr>"

text \<open>\<open>_commit_trace\<close>; the disk may refuse the file.\<close>

definition commit_trace :: "ns_world \<Rightarrow> nat \<Rightarrow> (string, json) dict \<Rightarrow> string \<Rightarrow> int \<Rightarrow> string \<Rightarrow> run \<Rightarrow> string option \<times> run" where
  "commit_trace w k task how attempts err r =
     (if \<not> tracing_on (eng r) then (None, r)
      else if \<not> disk_ok w k then (Some ''OSError'', r)
      else
        (case commit_reasoning_trace (build_reasoning_trace (rids w k) (now w) (cid w) task (rounds r) how attempts err) (traces (eng r)) of
           Inl _ \<Rightarrow> (Some ''OSError'', r)
         | Inr d \<Rightarrow> (None, on_engine (\<lambda>e. e\<lparr>traces := d\<rparr>) r)))"

datatype loop_end =
    Valid nat "(string, json) dict" verdict
  | Exhausted "(string, json) dict" verdict "string list"
  | Raised string

definition no_verdict :: verdict where
  "no_verdict = \<lparr>analyzed = False, code_snippets = 0, passed = True, issues = []\<rparr>"

definition add_round :: "nat \<Rightarrow> (string, json) dict \<Rightarrow> verdict \<Rightarrow> bool \<Rightarrow> string list \<Rightarrow> run \<Rightarrow> run" where
  "add_round k h v b vs r =
     r\<lparr>rounds := rounds r @ [\<lparr>r_attempt = int k, r_hypothesis = h, r_static = verdict_json v, r_valid = b, r_violations = map JStr vs\<rparr>]\<rparr>"

text \<open>The loop, with the attempts left and the number of the attempt.\<close>

fun verify_loop :: "ns_world \<Rightarrow> (string, json) dict \<Rightarrow> task_graph \<Rightarrow> nat \<Rightarrow> nat \<Rightarrow> (string, json) dict \<Rightarrow> run \<Rightarrow> loop_end \<times> run" where
  "verify_loop w task g 0 k h r = (Exhausted h no_verdict [], r)"
| "verify_loop w task g (Suc left) k h r =
     (let v = analyze_solution_static (an w) h; r1 = emit (VerificationStarted k v) r
      in case verify_solution (out w) (sym (eng r1)) h g of
           Inl PoolExhausted \<Rightarrow> (Raised ''SymbolicVerificationError'', r1)
         | Inr (b, vs) \<Rightarrow>
             (let r2 = emit (VerificationCompleted k b (length vs) v) (add_round k h v b vs r1)
              in if b then (Valid k h v, r2)
                 else if left = 0 then (Exhausted h v vs, r2)
                 else
                   (let r3 = emit (RefinementStarted k) r2;
                        (answer, n) = refine_hypothesis (lm w) h vs task (neural_state (eng r3));
                        r4 = on_engine (\<lambda>e. e\<lparr>neural_state := n\<rparr>) r3
                    in case answer of
                         Inl e \<Rightarrow> (Raised e, r4)
                       | Inr h' \<Rightarrow> verify_loop w task g left (k + 1) h' (emit (RefinementCompleted k) (on_engine (count_llm True) r4)))))"

definition exn_name :: "py_error \<Rightarrow> string" where
  "exn_name e =
     (case e of ValueError \<Rightarrow> ''ValueError'' | IndexError \<Rightarrow> ''IndexError'' | KeyError \<Rightarrow> ''KeyError'' | OverflowError \<Rightarrow> ''OverflowError''
      | RuntimeError \<Rightarrow> ''RuntimeError'' | TypeError \<Rightarrow> ''TypeError'' | AttributeError \<Rightarrow> ''AttributeError'' | TimeoutError \<Rightarrow> ''TimeoutError''
      | NetworkXError \<Rightarrow> ''NetworkXError'')"

definition finish_valid :: "ns_world \<Rightarrow> (string, json) dict \<Rightarrow> nat \<Rightarrow> (string, json) dict \<Rightarrow> verdict \<Rightarrow> run \<Rightarrow> string option \<times> run" where
  "finish_valid w task n h v r =
     (let r1 = on_engine (\<lambda>e. record_outcome h True [] (count_success e)) r
      in if causal_on (eng r1) then
           (let r2 = emit CausalStarted r1; (res, m) = run_causal_analysis w (max_counterfactuals (eng r2)) task (cmet (eng r2));
                r3 = on_engine (\<lambda>e. e\<lparr>cmet := m\<rparr>) r2
            in case res of
                 Inl x \<Rightarrow> (Some (exn_name x), r3)
               | Inr xs \<Rightarrow> commit_trace w 0 task ''completed'' (int n) [] (emit (Completed h n v xs) (emit (CausalCompleted (length xs)) r3)))
         else commit_trace w 0 task ''completed'' (int n) [] (emit (Completed h n v []) r1))"

definition finish_exhausted :: "ns_world \<Rightarrow> (string, json) dict \<Rightarrow> (string, json) dict \<Rightarrow> verdict \<Rightarrow> string list \<Rightarrow> run \<Rightarrow> string option \<times> run" where
  "finish_exhausted w task h v vs r =
     (let n = max_attempts (eng r)
      in commit_trace w 0 task ''failed'' (int n) [] (emit (Failed n v) (on_engine (\<lambda>e. record_outcome h False vs (count_failure e)) r)))"

definition think_body :: "ns_world \<Rightarrow> (string, json) dict \<Rightarrow> run \<Rightarrow> string option \<times> run" where
  "think_body w task r =
     (let r1 = emit ParsingStarted r
      in case parse_task (out w) 1000 task of
           Inl x \<Rightarrow> (Some (exn_name x), r1)
         | Inr g \<Rightarrow>
             (let r2 = emit HypothesisStarted (emit (ParsingCompleted (length (requirements g)) (length (constraints g))) r1);
                  (answer, n) = generate_hypothesis (lm w) task (neural_state (eng r2));
                  r3 = on_engine (\<lambda>e. e\<lparr>neural_state := n\<rparr>) r2
              in case answer of
                   Inl e \<Rightarrow> (Some e, r3)
                 | Inr h \<Rightarrow>
                     (case verify_loop w task g (max_attempts (eng r3)) 1 h (emit (HypothesisCompleted (map fst h)) (on_engine (count_llm False) r3)) of
                        (Valid k h' v, r4) \<Rightarrow> finish_valid w task k h' v r4
                      | (Exhausted h' v vs, r4) \<Rightarrow> finish_exhausted w task h' v vs r4
                      | (Raised e, r4) \<Rightarrow> (Some e, r4))))"

definition handle_error :: "ns_world \<Rightarrow> (string, json) dict \<Rightarrow> string \<Rightarrow> run \<Rightarrow> string option \<times> run" where
  "handle_error w task e r =
     (let (x, r1) = commit_trace w 1 task ''error'' (if rounds r = [] then 1 else int (length (rounds r))) e (emit (ErrorEvent e) (on_engine count_failure r))
      in (Some (case x of None \<Rightarrow> e | Some y \<Rightarrow> y), r1))"

definition think :: "ns_world \<Rightarrow> (string, json) dict \<Rightarrow> ns_engine \<Rightarrow> string option \<times> run" where
  "think w task e =
     (let r = \<lparr>events = [], rounds = [], eng = e\<rparr>
      in if \<not> ns_started e then (Some ''RuntimeError'', r)
         else
           (case validate_input task of
              Inl x \<Rightarrow> (Some x, r)
            | Inr task' \<Rightarrow>
                (case think_body w task' r of
                   (None, r') \<Rightarrow> (None, r')
                 | (Some x, r') \<Rightarrow> handle_error w task' x r')))"

section \<open>The loop\<close>

definition final :: "event \<Rightarrow> bool" where
  "final ev = (case ev of Completed _ _ _ _ \<Rightarrow> True | Failed _ _ \<Rightarrow> True | ErrorEvent _ \<Rightarrow> True | _ \<Rightarrow> False)"

text \<open>What the steps of the loop do not change of the engine.\<close>

definition config :: "ns_engine \<Rightarrow> ns_engine" where
  "config e = e\<lparr>neural_state := \<lparr>nbreaker = new_nbreaker, requests = 0, delays = []\<rparr>,
     met := (met e)\<lparr>total_refinements := 0, total_llm_calls := 0\<rparr>\<rparr>"

lemma config_simps [simp]:
  "config (e\<lparr>neural_state := n\<rparr>) = config e" "config (count_llm b e) = config e"
  by (simp_all add: config_def count_llm_def)

lemma config_eq:
  assumes "config e = config e'"
  shows "sym e = sym e'" "max_attempts e = max_attempts e'" "tracing_on e = tracing_on e'" "causal_on e = causal_on e'"
    "traces e = traces e'" "cmet e = cmet e'" "max_counterfactuals e = max_counterfactuals e'"
    "tasks_processed (met e) = tasks_processed (met e')" "tasks_successful (met e) = tasks_successful (met e')" "tasks_failed (met e) = tasks_failed (met e')"
proof -
  have "sym (config e) = sym (config e')" "max_attempts (config e) = max_attempts (config e')" "tracing_on (config e) = tracing_on (config e')"
    "causal_on (config e) = causal_on (config e')" "traces (config e) = traces (config e')" "cmet (config e) = cmet (config e')"
    "max_counterfactuals (config e) = max_counterfactuals (config e')"
    "tasks_processed (met (config e)) = tasks_processed (met (config e'))" "tasks_successful (met (config e)) = tasks_successful (met (config e'))"
    "tasks_failed (met (config e)) = tasks_failed (met (config e'))" by (simp_all only: assms)
  then show "sym e = sym e'" "max_attempts e = max_attempts e'" "tracing_on e = tracing_on e'" "causal_on e = causal_on e'"
    "traces e = traces e'" "cmet e = cmet e'" "max_counterfactuals e = max_counterfactuals e'"
    "tasks_processed (met e) = tasks_processed (met e')" "tasks_successful (met e) = tasks_successful (met e')" "tasks_failed (met e) = tasks_failed (met e')"
    by (simp_all add: config_def)
qed

text \<open>A round records what the checks say of its hypothesis.\<close>

definition true_round :: "ns_world \<Rightarrow> sym_engine \<Rightarrow> task_graph \<Rightarrow> vround \<Rightarrow> bool" where
  "true_round w s g x \<longleftrightarrow> r_static x = verdict_json (analyze_solution_static (an w) (r_hypothesis x)) \<and>
     (\<exists>vs. verify_solution (out w) s (r_hypothesis x) g = Inr (r_valid x, vs) \<and> r_violations x = map JStr vs)"

definition asked :: "ns_engine \<Rightarrow> nat" where
  "asked e = requests (neural_state e)"

definition breaker_of :: "ns_engine \<Rightarrow> nbreaker" where
  "breaker_of e = nbreaker (neural_state e)"

definition loop_ok :: "ns_world \<Rightarrow> task_graph \<Rightarrow> nat \<Rightarrow> nat \<Rightarrow> run \<Rightarrow> loop_end \<Rightarrow> run \<Rightarrow> bool" where
  "loop_ok w g left k r en r' \<longleftrightarrow>
     config (eng r') = config (eng r) \<and> nbreaker_ok (breaker_of (eng r')) \<and> asked (eng r') \<le> asked (eng r) + (left - 1) * max_retries (lm w) \<and>
     (\<exists>es. events r' = events r @ es \<and> (\<forall>ev \<in> set es. \<not> final ev)) \<and>
     (\<exists>rs. rounds r' = rounds r @ rs \<and> length rs \<le> left \<and> (\<forall>x \<in> set rs. true_round w (sym (eng r)) g x) \<and>
        (case en of
           Valid n h v \<Rightarrow> rs \<noteq> [] \<and> n + 1 = k + length rs \<and> r_valid (last rs) \<and> r_hypothesis (last rs) = h \<and> (\<forall>x \<in> set (butlast rs). \<not> r_valid x)
         | Exhausted h v vs \<Rightarrow> length rs = left \<and> (\<forall>x \<in> set rs. \<not> r_valid x)
         | Raised e \<Rightarrow> \<forall>x \<in> set rs. \<not> r_valid x))"

lemma run_simps [simp]:
  "eng (emit ev r) = eng r" "rounds (emit ev r) = rounds r" "events (emit ev r) = events r @ [ev]"
  "eng (on_engine f r) = f (eng r)" "rounds (on_engine f r) = rounds r" "events (on_engine f r) = events r"
  "eng (add_round k h v b vs r) = eng r" "events (add_round k h v b vs r) = events r"
  "rounds (add_round k h v b vs r) = rounds r @ [\<lparr>r_attempt = int k, r_hypothesis = h, r_static = verdict_json v, r_valid = b, r_violations = map JStr vs\<rparr>]"
  by (simp_all add: emit_def on_engine_def add_round_def)

lemma asked_simps [simp]:
  "asked (e\<lparr>neural_state := n\<rparr>) = requests n" "breaker_of (e\<lparr>neural_state := n\<rparr>) = nbreaker n" "asked (count_llm b e) = asked e" "breaker_of (count_llm b e) = breaker_of e"
  by (simp_all add: asked_def breaker_of_def count_llm_def)

lemma ask_effect:
  assumes "ask l p (neural_state e) = (a, n)" and "nbreaker_ok (breaker_of e)"
  shows "nbreaker_ok (nbreaker n) \<and> requests n \<le> asked e + max_retries l"
proof -
  obtain x where "execute_with_retry l p (neural_state e) = (x, n)" using assms(1) by (auto simp: ask_def split: prod.splits)
  then show ?thesis using retry_loop_effect [of l p "max_retries l" 0 None "neural_state e" x n] assms(2)
    by (auto simp: execute_with_retry_def asked_def breaker_of_def)
qed

lemma loop_ok_step:
  assumes "loop_ok w g left (k + 1) r4 en r'" and "left \<noteq> 0" and "config (eng r4) = config (eng r)" and "asked (eng r4) \<le> asked (eng r) + max_retries (lm w)"
    and "events r4 = events r @ es" and "\<forall>ev \<in> set es. \<not> final ev" and "rounds r4 = rounds r @ [x]" and "true_round w (sym (eng r)) g x" and "\<not> r_valid x"
  shows "loop_ok w g (Suc left) k r en r'"
proof -
  obtain es' rs where l: "config (eng r') = config (eng r4)" "nbreaker_ok (breaker_of (eng r'))" "asked (eng r') \<le> asked (eng r4) + (left - 1) * max_retries (lm w)"
    "events r' = events r4 @ es'" "\<forall>ev \<in> set es'. \<not> final ev" "rounds r' = rounds r4 @ rs" "length rs \<le> left" "\<forall>y \<in> set rs. true_round w (sym (eng r4)) g y"
    "case en of Valid n h v \<Rightarrow> rs \<noteq> [] \<and> n + 1 = k + 1 + length rs \<and> r_valid (last rs) \<and> r_hypothesis (last rs) = h \<and> (\<forall>x \<in> set (butlast rs). \<not> r_valid x)
         | Exhausted h v vs \<Rightarrow> length rs = left \<and> (\<forall>x \<in> set rs. \<not> r_valid x)
         | Raised e \<Rightarrow> \<forall>x \<in> set rs. \<not> r_valid x"
    using assms(1) unfolding loop_ok_def by blast
  have "max_retries (lm w) + (left - 1) * max_retries (lm w) = left * max_retries (lm w)" using assms(2) by (cases left) auto
  then have a: "asked (eng r') \<le> asked (eng r) + (Suc left - 1) * max_retries (lm w)" using l(3) assms(4) by simp
  have b: "events r' = events r @ (es @ es')" "\<forall>ev \<in> set (es @ es'). \<not> final ev" using l(4,5) assms(5,6) by auto
  have c: "rounds r' = rounds r @ (x # rs)" "length (x # rs) \<le> Suc left" "\<forall>y \<in> set (x # rs). true_round w (sym (eng r)) g y"
    using l(6-8) assms(7,8) config_eq(1) [OF assms(3)] by auto
  have d: "case en of Valid n h v \<Rightarrow> x # rs \<noteq> [] \<and> n + 1 = k + length (x # rs) \<and> r_valid (last (x # rs)) \<and> r_hypothesis (last (x # rs)) = h \<and> (\<forall>y \<in> set (butlast (x # rs)). \<not> r_valid y)
         | Exhausted h v vs \<Rightarrow> length (x # rs) = Suc left \<and> (\<forall>y \<in> set (x # rs). \<not> r_valid y)
         | Raised e \<Rightarrow> \<forall>y \<in> set (x # rs). \<not> r_valid y"
    using l(9) assms(9) by (auto split: loop_end.splits)
  have e: "config (eng r') = config (eng r)" using l(1) assms(3) by simp
  show ?thesis unfolding loop_ok_def
    by (intro conjI exI [of _ "es @ es'"] exI [of _ "x # rs"]) (fact a b c d e l(2))+
qed

lemma verify_loop_ok:
  assumes "verify_loop w task g left k h r = (en, r')" and "nbreaker_ok (breaker_of (eng r))"
  shows "loop_ok w g left k r en r'"
  using assms
proof (induction left arbitrary: k h r)
  case 0
  then show ?case by (auto simp: loop_ok_def)
next
  case (Suc left)
  define v where "v = analyze_solution_static (an w) h"
  define r1 where "r1 = emit (VerificationStarted k v) r"
  show ?case
  proof (cases "verify_solution (out w) (sym (eng r)) h g")
    case (Inl x)
    then have "en = Raised ''SymbolicVerificationError''" "r' = r1" using Suc.prems(1) by (cases x; simp add: v_def [symmetric] r1_def Let_def)+
    then show ?thesis using Suc.prems(2) by (simp add: loop_ok_def r1_def final_def)
  next
    case (Inr bvs)
    then obtain b vs where ver: "verify_solution (out w) (sym (eng r)) h g = Inr (b, vs)" by (cases bvs) auto
    define x where "x = \<lparr>r_attempt = int k, r_hypothesis = h, r_static = verdict_json v, r_valid = b, r_violations = map JStr vs\<rparr>"
    define r2 where "r2 = emit (VerificationCompleted k b (length vs) v) (add_round k h v b vs r1)"
    have x: "true_round w (sym (eng r)) g x" using ver by (simp add: true_round_def x_def v_def)
    have r2: "eng r2 = eng r" "rounds r2 = rounds r @ [x]" "events r2 = events r @ [VerificationStarted k v, VerificationCompleted k b (length vs) v]"
      by (simp_all add: r2_def r1_def x_def)
    show ?thesis
    proof (cases "b \<or> left = 0")
      case True
      then have "r' = r2" "en = (if b then Valid k h v else Exhausted h v vs)"
        using Suc.prems(1) ver unfolding r2_def r1_def v_def by (auto simp: Let_def split: if_splits)
      then show ?thesis using Suc.prems(2) x r2 True by (auto simp: loop_ok_def final_def x_def)
    next
      case False
      then have nb: "b = False" "left \<noteq> 0" by simp_all
      define r3 where "r3 = emit (RefinementStarted k) r2"
      obtain answer n where ref: "refine_hypothesis (lm w) h vs task (neural_state (eng r)) = (answer, n)" by fastforce
      have n: "nbreaker_ok (nbreaker n) \<and> requests n \<le> asked (eng r) + max_retries (lm w)"
        using ask_effect [OF ref [unfolded refine_hypothesis_def] Suc.prems(2)] .
      define r4 where "r4 = on_engine (\<lambda>e. e\<lparr>neural_state := n\<rparr>) r3"
      have step: "(case answer of Inl e \<Rightarrow> (Raised e, r4)
          | Inr h' \<Rightarrow> verify_loop w task g left (k + 1) h' (emit (RefinementCompleted k) (on_engine (count_llm True) r4))) = (en, r')"
        using Suc.prems(1) ver ref r2(1) nb(2) unfolding r4_def r3_def r2_def r1_def v_def nb(1) by (simp add: Let_def)
      have r4: "config (eng r4) = config (eng r)" "asked (eng r4) \<le> asked (eng r) + max_retries (lm w)" "nbreaker_ok (breaker_of (eng r4))"
        "rounds r4 = rounds r @ [x]" "events r4 = events r @ [VerificationStarted k v, VerificationCompleted k b (length vs) v, RefinementStarted k]"
        using n r2 by (simp_all add: r4_def r3_def)
      show ?thesis
      proof (cases answer)
        case (Inl e)
        have "asked (eng r4) \<le> asked (eng r) + left * max_retries (lm w)" using r4(2) nb(2) by (cases left) auto
        then show ?thesis using Inl step r4(1,3-5) x False by (auto simp: loop_ok_def final_def x_def)
      next
        case (Inr h')
        let ?r5 = "emit (RefinementCompleted k) (on_engine (count_llm True) r4)"
        have "verify_loop w task g left (k + 1) h' ?r5 = (en, r')" using step Inr by simp
        then have "loop_ok w g left (k + 1) ?r5 en r'" using Suc.IH r4(3) by simp
        then show ?thesis
          by (rule loop_ok_step [where es = "[VerificationStarted k v, VerificationCompleted k b (length vs) v, RefinementStarted k, RefinementCompleted k]" and x = x])
            (use r4 x False in \<open>simp_all add: final_def x_def\<close>)
      qed
    qed
  qed
qed

section \<open>Runs\<close>

definition stored :: "ns_world \<Rightarrow> nat \<Rightarrow> (string, json) dict \<Rightarrow> run \<Rightarrow> bool" where
  "stored w k task r \<longleftrightarrow> (\<exists>how att err. map_of (traces (eng r)) (trace_name (rids w k)) =
     Some (Document (JDict (trace_json (build_reasoning_trace (rids w k) (now w) (cid w) task (rounds r) how att err)))))"

lemma commit_trace_effect:
  assumes "commit_trace w k task how att err r = (x, r')"
  shows "events r' = events r \<and> rounds r' = rounds r \<and> (\<exists>d. eng r' = (eng r)\<lparr>traces := d\<rparr>) \<and> (disk_ok w k \<longrightarrow> x = None) \<and>
    (x = None \<and> tracing_on (eng r) \<longrightarrow> stored w k task r')"
proof -
  let ?t = "build_reasoning_trace (rids w k) (now w) (cid w) task (rounds r) how att err"
  obtain d where d: "commit_reasoning_trace ?t (traces (eng r)) = Inr d" "map_of d (trace_name (run_id ?t)) = Some (Document (JDict (trace_json ?t)))"
    using committed [of ?t "traces (eng r)"] by blast
  have same: "\<exists>d. eng r = (eng r)\<lparr>traces := d\<rparr>" by (rule exI [of _ "traces (eng r)"]) simp
  have "run_id ?t = rids w k" by (simp add: build_reasoning_trace_def)
  then have "stored w k task (on_engine (\<lambda>e. e\<lparr>traces := d\<rparr>) r)" using d(2) unfolding stored_def by (intro exI [of _ how] exI [of _ att] exI [of _ err]) simp
  then show ?thesis using assms d(1) same unfolding commit_trace_def by (auto split: if_splits)
qed

text \<open>The counters of a run that ends without an exception.\<close>

definition counted :: "ns_engine \<Rightarrow> ns_engine \<Rightarrow> bool \<Rightarrow> bool" where
  "counted e e' success \<longleftrightarrow> tasks_processed (met e') = tasks_processed (met e) + 1 \<and>
     tasks_successful (met e') = tasks_successful (met e) + (if success then 1 else 0) \<and> tasks_failed (met e') = tasks_failed (met e) + (if success then 0 else 1)"

definition fin_ok :: "ns_engine \<Rightarrow> string option \<Rightarrow> run \<Rightarrow> event option \<Rightarrow> bool" where
  "fin_ok e x r fin =
     (case fin of
        None \<Rightarrow> x \<noteq> None
      | Some (Completed h n v xs) \<Rightarrow> n = length (rounds r) \<and> rounds r \<noteq> [] \<and> r_valid (last (rounds r)) \<and> r_hypothesis (last (rounds r)) = h \<and> counted e (eng r) True
      | Some (Failed n v) \<Rightarrow> n = max_attempts e \<and> length (rounds r) = n \<and> (\<forall>y \<in> set (rounds r). \<not> r_valid y) \<and> counted e (eng r) False
      | _ \<Rightarrow> False)"

definition body_ok :: "ns_world \<Rightarrow> (string, json) dict \<Rightarrow> ns_engine \<Rightarrow> string option \<Rightarrow> run \<Rightarrow> bool" where
  "body_ok w task e x r \<longleftrightarrow>
     length (rounds r) \<le> max_attempts e \<and> asked (eng r) \<le> asked e + max_attempts e * max_retries (lm w) \<and> sym (eng r) = sym e \<and> tracing_on (eng r) = tracing_on e \<and>
     (\<forall>y \<in> set (rounds r). \<exists>g. parse_task (out w) 1000 task = Inr g \<and> true_round w (sym e) g y) \<and>
     (\<exists>es fin. events r = es @ (case fin of None \<Rightarrow> [] | Some ev \<Rightarrow> [ev]) \<and> (\<forall>ev \<in> set es. \<not> final ev) \<and> fin_ok e x r fin) \<and>
     (x = None \<and> tracing_on e \<longrightarrow> stored w 0 task r)"

lemma frame_simps [simp]:
  "asked (record_outcome h b vs e) = asked e" "sym (record_outcome h b vs e) = sym e" "tracing_on (record_outcome h b vs e) = tracing_on e"
  "max_attempts (record_outcome h b vs e) = max_attempts e" "met (record_outcome h b vs e) = met e"
  "asked (count_success e) = asked e" "sym (count_success e) = sym e" "tracing_on (count_success e) = tracing_on e" "max_attempts (count_success e) = max_attempts e"
  "asked (count_failure e) = asked e" "sym (count_failure e) = sym e" "tracing_on (count_failure e) = tracing_on e" "max_attempts (count_failure e) = max_attempts e"
  "asked (e\<lparr>cmet := m\<rparr>) = asked e" "asked (e\<lparr>traces := d\<rparr>) = asked e"
  by (simp_all add: asked_def record_outcome_def count_success_def count_failure_def)

lemma counted_simps [simp]:
  "counted e (e'\<lparr>traces := d\<rparr>) b = counted e e' b" "counted e (e'\<lparr>cmet := m\<rparr>) b = counted e e' b" "counted e (record_outcome h b' vs e') b = counted e e' b"
  by (simp_all add: counted_def)

lemma counted_count: "config e' = config e \<Longrightarrow> counted e (count_success e') True \<and> counted e (count_failure e') False"
  using config_eq [of e' e] by (simp add: counted_def count_success_def count_failure_def)

lemma body_ok_raised:
  assumes "length (rounds r) \<le> max_attempts e" and "asked (eng r) \<le> asked e + max_attempts e * max_retries (lm w)" and "sym (eng r) = sym e"
    and "tracing_on (eng r) = tracing_on e" and "\<forall>y \<in> set (rounds r). \<exists>g. parse_task (out w) 1000 task = Inr g \<and> true_round w (sym e) g y"
    and "\<forall>ev \<in> set (events r). \<not> final ev"
  shows "body_ok w task e (Some y) r"
  unfolding body_ok_def by (intro conjI exI [of _ "events r"] exI [of _ None]) (use assms in \<open>auto simp: fin_ok_def\<close>)

lemma finish_valid_cases:
  fixes h :: "(string, json) dict"
  defines "r1 \<equiv> \<lambda>r. on_engine (\<lambda>e. record_outcome h True [] (count_success e)) r"
  assumes "finish_valid w task n h v r = (x, r')"
  shows "(\<exists>y m. x = Some (exn_name y) \<and> r' = on_engine (\<lambda>e. e\<lparr>cmet := m\<rparr>) (emit CausalStarted (r1 r))) \<or>
    (\<exists>r5 es xs m. commit_trace w 0 task ''completed'' (int n) [] r5 = (x, r') \<and> events r5 = events r @ es @ [Completed h n v xs] \<and>
       (\<forall>ev \<in> set es. \<not> final ev) \<and> rounds r5 = rounds r \<and> eng r5 = (eng (r1 r))\<lparr>cmet := m\<rparr>)"
proof (cases "causal_on (eng (r1 r))")
  case True
  obtain res m where rc: "run_causal_analysis w (max_counterfactuals (eng (r1 r))) task (cmet (eng (r1 r))) = (res, m)" by fastforce
  show ?thesis
  proof (cases res)
    case (Inl y)
    then have "x = Some (exn_name y) \<and> r' = on_engine (\<lambda>e. e\<lparr>cmet := m\<rparr>) (emit CausalStarted (r1 r))"
      using assms(2) True rc unfolding finish_valid_def r1_def by (simp add: Let_def)
    then show ?thesis by blast
  next
    case (Inr xs)
    let ?r5 = "emit (Completed h n v xs) (emit (CausalCompleted (length xs)) (on_engine (\<lambda>e. e\<lparr>cmet := m\<rparr>) (emit CausalStarted (r1 r))))"
    have "commit_trace w 0 task ''completed'' (int n) [] ?r5 = (x, r')"
      using assms(2) True rc Inr unfolding finish_valid_def r1_def by (simp add: Let_def)
    then show ?thesis
      by (intro disjI2 exI [of _ ?r5] exI [of _ "[CausalStarted, CausalCompleted (length xs)]"] exI [of _ xs] exI [of _ m]) (simp add: r1_def final_def)
  qed
next
  case False
  let ?r5 = "emit (Completed h n v []) (r1 r)"
  have "commit_trace w 0 task ''completed'' (int n) [] ?r5 = (x, r')"
    using assms(2) False unfolding finish_valid_def r1_def by (simp add: Let_def)
  then show ?thesis by (intro disjI2 exI [of _ ?r5] exI [of _ "[]"] exI [of _ "cmet (eng (r1 r))"]) (simp add: r1_def)
qed

lemma body_ok_valid:
  assumes "loop_ok w g (max_attempts e) 1 r0 (Valid n h v) r4" and "rounds r0 = []" and "config (eng r0) = config e" and "\<forall>ev \<in> set (events r0). \<not> final ev"
    and "asked (eng r0) \<le> asked e + max_retries (lm w)" and "0 < max_attempts e" and "parse_task (out w) 1000 task = Inr g" and "finish_valid w task n h v r4 = (x, r)"
  shows "body_ok w task e x r"
proof -
  have bound: "asked (eng r4) \<le> asked e + max_attempts e * max_retries (lm w)" using assms(1,5,6) unfolding loop_ok_def by (cases "max_attempts e") auto
  obtain es where "events r4 = events r0 @ es" "\<forall>ev \<in> set es. \<not> final ev" using assms(1) unfolding loop_ok_def by blast
  then have es: "\<forall>ev \<in> set (events r4). \<not> final ev" using assms(4) by auto
  have c: "config (eng r4) = config e" using assms(1,3) by (simp add: loop_ok_def)
  have rs: "length (rounds r4) \<le> max_attempts e" "\<forall>y \<in> set (rounds r4). true_round w (sym e) g y" "n = length (rounds r4)" "rounds r4 \<noteq> []" "r_valid (last (rounds r4))" "r_hypothesis (last (rounds r4)) = h"
    using assms(1,2) config_eq(1) [OF assms(3)] by (auto simp: loop_ok_def)
  note frame = config_eq [OF c] counted_count [OF c]
  let ?r1 = "on_engine (\<lambda>e. record_outcome h True [] (count_success e)) r4"
  from finish_valid_cases [OF assms(8)] show ?thesis
  proof (elim disjE exE conjE)
    fix y m assume "x = Some (exn_name y)" "r = on_engine (\<lambda>e. e\<lparr>cmet := m\<rparr>) (emit CausalStarted ?r1)"
    then show ?thesis using rs es frame bound assms(7) by (auto simp: final_def intro!: body_ok_raised)
  next
    fix r5 es' xs m
    assume commit: "commit_trace w 0 task ''completed'' (int n) [] r5 = (x, r)" and r5: "events r5 = events r4 @ es' @ [Completed h n v xs]"
      "\<forall>ev \<in> set es'. \<not> final ev" "rounds r5 = rounds r4" "eng r5 = (eng ?r1)\<lparr>cmet := m\<rparr>"
    note ce = commit_trace_effect [OF commit]
    obtain d where e: "eng r = (eng ?r1)\<lparr>cmet := m, traces := d\<rparr>" using ce r5(4) by auto
    have ev: "events r = (events r4 @ es') @ [Completed h n v xs]" and rr: "rounds r = rounds r4" using ce r5 by auto
    have "fin_ok e x r (Some (Completed h n v xs))" using rs frame e rr by (simp add: fin_ok_def)
    then show ?thesis unfolding body_ok_def
      by (intro conjI exI [of _ "events r4 @ es'"] exI [of _ "Some (Completed h n v xs)"])
        (use ce ev es r5(2,4) rs frame bound e rr assms(7) in \<open>auto simp del: counted_simps\<close>)
  qed
qed

lemma body_ok_exhausted:
  assumes "loop_ok w g (max_attempts e) 1 r0 (Exhausted h v vs) r4" and "rounds r0 = []" and "config (eng r0) = config e" and "\<forall>ev \<in> set (events r0). \<not> final ev"
    and "asked (eng r4) \<le> asked e + max_attempts e * max_retries (lm w)" and "parse_task (out w) 1000 task = Inr g" and "finish_exhausted w task h v vs r4 = (x, r)"
  shows "body_ok w task e x r"
proof -
  obtain es where "events r4 = events r0 @ es" "\<forall>ev \<in> set es. \<not> final ev" using assms(1) unfolding loop_ok_def by blast
  then have es: "\<forall>ev \<in> set (events r4). \<not> final ev" using assms(4) by auto
  have c: "config (eng r4) = config e" using assms(1,3) by (simp add: loop_ok_def)
  have rs: "length (rounds r4) = max_attempts e" "\<forall>y \<in> set (rounds r4). true_round w (sym e) g y" "\<forall>y \<in> set (rounds r4). \<not> r_valid y"
    using assms(1,2) config_eq(1) [OF assms(3)] by (auto simp: loop_ok_def)
  note frame = config_eq [OF c] counted_count [OF c]
  let ?r5 = "emit (Failed (max_attempts e) v) (on_engine (\<lambda>e. record_outcome h False vs (count_failure e)) r4)"
  have "commit_trace w 0 task ''failed'' (int (max_attempts e)) [] ?r5 = (x, r)" using assms(7) frame by (simp add: finish_exhausted_def Let_def)
  note ce = commit_trace_effect [OF this]
  have ev: "events r = events r4 @ [Failed (max_attempts e) v]" and rr: "rounds r = rounds r4" using ce by auto
  obtain d where e: "eng r = (eng ?r5)\<lparr>traces := d\<rparr>" using ce by auto
  have "fin_ok e x r (Some (Failed (max_attempts e) v))" using rs frame e rr by (simp add: fin_ok_def)
  then show ?thesis unfolding body_ok_def
    by (intro conjI exI [of _ "events r4"] exI [of _ "Some (Failed (max_attempts e) v)"])
      (use ce ev es rs frame assms(5) e rr assms(6) in \<open>auto simp del: counted_simps\<close>)
qed

lemma think_body_ok:
  assumes "think_body w task \<lparr>events = [], rounds = [], eng = e\<rparr> = (x, r)" and "nbreaker_ok (breaker_of e)" and "0 < max_attempts e"
  shows "body_ok w task e x r"
proof -
  have room: "max_retries (lm w) \<le> max_attempts e * max_retries (lm w)" using assms(3) by (cases "max_attempts e") auto
  show ?thesis
  proof (cases "parse_task (out w) 1000 task")
    case (Inl y)
    then show ?thesis using assms(1) by (auto simp: think_body_def final_def intro!: body_ok_raised)
  next
    case (Inr g)
    obtain answer n where gen: "generate_hypothesis (lm w) task (neural_state e) = (answer, n)" by fastforce
    have n: "nbreaker_ok (nbreaker n) \<and> requests n \<le> asked e + max_retries (lm w)" using ask_effect [OF gen [unfolded generate_hypothesis_def] assms(2)] .
    let ?r3 = "on_engine (\<lambda>e. e\<lparr>neural_state := n\<rparr>) (emit HypothesisStarted (emit (ParsingCompleted (length (requirements g)) (length (constraints g)))
      (emit ParsingStarted \<lparr>events = [], rounds = [], eng = e\<rparr>)))"
    show ?thesis
    proof (cases answer)
      case (Inl y)
      have "requests n \<le> asked e + max_attempts e * max_retries (lm w)" using n room by linarith
      then show ?thesis using assms(1) Inr gen Inl by (auto simp: think_body_def Let_def final_def intro!: body_ok_raised)
    next
      case h: (Inr h)
      let ?r0 = "emit (HypothesisCompleted (map fst h)) (on_engine (count_llm False) ?r3)"
      obtain en r4 where loop: "verify_loop w task g (max_attempts e) 1 h ?r0 = (en, r4)" by fastforce
      have ok: "loop_ok w g (max_attempts e) 1 ?r0 en r4" using verify_loop_ok [OF loop] n by simp
      have r0: "rounds ?r0 = []" "config (eng ?r0) = config e" "\<forall>ev \<in> set (events ?r0). \<not> final ev" "asked (eng ?r0) \<le> asked e + max_retries (lm w)"
        using n by (simp_all add: final_def)
      have bound: "asked (eng r4) \<le> asked e + max_attempts e * max_retries (lm w)" using ok r0(4) assms(3) unfolding loop_ok_def by (cases "max_attempts e") auto
      have res: "(case en of Valid k h' v \<Rightarrow> finish_valid w task k h' v r4 | Exhausted h' v vs \<Rightarrow> finish_exhausted w task h' v vs r4 | Raised y \<Rightarrow> (Some y, r4)) = (x, r)"
        using assms(1) Inr gen h loop by (simp add: think_body_def Let_def split: loop_end.splits)
      show ?thesis
      proof (cases en)
        case (Valid k h' v)
        then show ?thesis using body_ok_valid [OF ok [unfolded Valid] r0 assms(3) Inr] res by simp
      next
        case (Exhausted h' v vs)
        then show ?thesis using body_ok_exhausted [OF ok [unfolded Exhausted] r0(1-3) bound Inr] res by simp
      next
        case (Raised y)
        have c: "config (eng r4) = config e" using ok r0(2) by (simp add: loop_ok_def)
        have "\<forall>ev \<in> set (events r4). \<not> final ev" using ok r0(3) unfolding loop_ok_def by fastforce
        moreover have "length (rounds r4) \<le> max_attempts e" "\<forall>y \<in> set (rounds r4). true_round w (sym e) g y" using ok r0(1) config_eq(1) [OF r0(2)] by (auto simp: loop_ok_def)
        ultimately show ?thesis using res Raised Inr bound config_eq [OF c] by (auto intro!: body_ok_raised)
      qed
    qed
  qed
qed

lemma handle_error_effect:
  assumes "handle_error w task z r = (x, r')"
  shows "x \<noteq> None \<and> events r' = events r @ [ErrorEvent z] \<and> rounds r' = rounds r \<and> asked (eng r') = asked (eng r) \<and>
    (disk_ok w 1 \<longrightarrow> x = Some z) \<and> (disk_ok w 1 \<and> tracing_on (eng r) \<longrightarrow> stored w 1 task r')"
proof -
  let ?r1 = "emit (ErrorEvent z) (on_engine count_failure r)"
  obtain y where c: "commit_trace w 1 task ''error'' (if rounds r = [] then 1 else int (length (rounds r))) z ?r1 = (y, r')"
    and x: "x = Some (case y of None \<Rightarrow> z | Some y \<Rightarrow> y)"
    using assms by (auto simp: handle_error_def split: prod.splits)
  then show ?thesis using commit_trace_effect [OF c] by auto
qed

lemma think_cases:
  assumes "think w task e = (x, r)" and "ns_started e" and "nbreaker_ok (breaker_of e)" and "0 < max_attempts e"
  obtains y where "validate_input task = Inl y" "x = Some y" "r = \<lparr>events = [], rounds = [], eng = e\<rparr>"
  | task' where "validate_input task = Inr task'" "body_ok w task' e None r" "x = None"
  | task' z r1 where "validate_input task = Inr task'" "body_ok w task' e (Some z) r1" "handle_error w task' z r1 = (x, r)"
proof (cases "validate_input task")
  case (Inl y)
  then show ?thesis using assms(1,2) that(1) by (simp add: think_def)
next
  case (Inr task')
  obtain y r1 where b: "think_body w task' \<lparr>events = [], rounds = [], eng = e\<rparr> = (y, r1)" by fastforce
  note ok = think_body_ok [OF b assms(3,4)]
  show ?thesis
  proof (cases y)
    case None
    then have "x = None" "r = r1" using assms(1,2) Inr b by (simp_all add: think_def)
    then show ?thesis using ok None that(2) Inr by simp
  next
    case (Some z)
    then have "handle_error w task' z r1 = (x, r)" using assms(1,2) Inr b by (simp add: think_def)
    then show ?thesis using ok Some that(3) Inr by simp
  qed
qed

text \<open>What a run may say, with \<open>g\<close> the graph of the task.\<close>

definition event_ok :: "ns_world \<Rightarrow> (string, json) dict \<Rightarrow> ns_engine \<Rightarrow> run \<Rightarrow> event \<Rightarrow> bool" where
  "event_ok w task e r ev =
     (case ev of
        Completed h n v xs \<Rightarrow> 0 < n \<and> n = length (rounds r) \<and>
          (\<exists>task' g vs. validate_input task = Inr task' \<and> parse_task (out w) 1000 task' = Inr g \<and> verify_solution (out w) (sym e) h g = Inr (True, vs))
      | Failed n v \<Rightarrow> n = max_attempts e \<and> length (rounds r) = n \<and> (\<forall>y \<in> set (rounds r). \<not> r_valid y)
      | _ \<Rightarrow> True)"

lemma event_ok_rounds: "rounds r = rounds r' \<Longrightarrow> event_ok w task e r ev = event_ok w task e r' ev" "event_ok w task e r (ErrorEvent z)"
  by (cases ev) (simp_all add: event_ok_def)

lemma body_events_ok:
  assumes "validate_input task = Inr task'" and "body_ok w task' e x r" and "ev \<in> set (events r)"
  shows "event_ok w task e r ev"
proof -
  obtain es fin where ev: "events r = es @ (case fin of None \<Rightarrow> [] | Some ev \<Rightarrow> [ev])" "\<forall>ev \<in> set es. \<not> final ev" "fin_ok e x r fin"
    and tr: "\<forall>y \<in> set (rounds r). \<exists>g. parse_task (out w) 1000 task' = Inr g \<and> true_round w (sym e) g y"
    using assms(2) unfolding body_ok_def by blast
  show ?thesis
  proof (cases "final ev")
    case False
    then show ?thesis by (auto simp: event_ok_def final_def split: event.splits)
  next
    case True
    then have "fin = Some ev" using assms(3) ev(1,2) by (auto split: option.splits)
    moreover have "\<exists>g. parse_task (out w) 1000 task' = Inr g \<and> true_round w (sym e) g (last (rounds r))" if "rounds r \<noteq> []" using that tr by simp
    ultimately show ?thesis using ev(3) assms(1) by (auto simp: event_ok_def fin_ok_def true_round_def split: event.splits)
  qed
qed

text \<open>
  (C20) A run asks the model for at most as many hypotheses as there are attempts, each with at most as many
  requests as there are retries. It reports a solution as completed only if the verification of the parsed task
  accepts it, in the round that it names, and a failure only after all attempts, none of which was valid. It
  ends with exactly one final event when it does not raise, and is then counted once, as a success or as a
  failure; when it raises after the task was accepted, the last event says so.
\<close>

theorem think_outcome:
  assumes "ns_started e" and "nbreaker_ok (breaker_of e)" and "0 < max_attempts e" and "think w task e = (x, r)"
  shows "length (rounds r) \<le> max_attempts e \<and> asked (eng r) \<le> asked e + max_attempts e * max_retries (lm w) \<and>
    (\<forall>ev \<in> set (events r). event_ok w task e r ev) \<and>
    (x = None \<longrightarrow> final (last (events r)) \<and> length (filter final (events r)) = 1 \<and> (\<exists>b. counted e (eng r) b)) \<and>
    (x \<noteq> None \<and> events r \<noteq> [] \<longrightarrow> (\<exists>z. last (events r) = ErrorEvent z))"
  using assms(4,1-3)
proof (cases rule: think_cases)
  case (2 task')
  have "filter final es = []" if "\<forall>ev \<in> set es. \<not> final ev" for es using that by (simp add: filter_empty_conv)
  then have "final (last (events r)) \<and> length (filter final (events r)) = 1 \<and> (\<exists>b. counted e (eng r) b)"
    using 2(2) unfolding body_ok_def by (elim conjE exE) (auto simp: fin_ok_def final_def split: option.splits event.splits)
  then show ?thesis using 2 body_events_ok [OF 2(1,2)] by (simp add: body_ok_def)
next
  case (3 task' z r1)
  note he = handle_error_effect [OF 3(3)]
  have "event_ok w task e r ev" if "ev \<in> set (events r)" for ev
    using that he body_events_ok [OF 3(1,2), of ev] event_ok_rounds(1) [of r r1 w task e ev] event_ok_rounds(2) [of w task e r z] by auto
  then show ?thesis using he 3(2) by (auto simp: body_ok_def)
qed simp_all

lemma stored_replays:
  assumes "stored w k task r" and "\<forall>y \<in> set (rounds r). \<exists>g. parse_task (out w) 1000 task = Inr g \<and> true_round w s g y"
  shows "\<exists>t rv. load_reasoning_trace (out w) b (trace_name (rids w k)) (traces (eng r)) = Inr (Some t) \<and> t_task t = task \<and> t_rounds t = rounds r \<and>
    reverify_reasoning_trace (out w) (an w) 1000 s t = Inr rv \<and> rp_matches rv"
proof -
  obtain how att err where st: "map_of (traces (eng r)) (trace_name (rids w k)) =
      Some (Document (JDict (trace_json (build_reasoning_trace (rids w k) (now w) (cid w) task (rounds r) how att err))))"
    using assms(1) unfolding stored_def by blast
  define t0 where "t0 = build_reasoning_trace (rids w k) (now w) (cid w) task (rounds r) how att err"
  define t where "t = t0\<lparr>final_hypothesis := (if final_hypothesis t0 = Some [] then None else final_hypothesis t0)\<rparr>"
  have static: "final_static t0 = (if rounds r = [] then None else Some (verdict_json (analyze_solution_static (an w) (r_hypothesis (last (rounds r))))))"
    using assms(2) last_in_set [of "rounds r"] by (auto simp: t0_def build_reasoning_trace_def true_round_def)
  then have "trace_ok t0" using wf_verdict_json(2) by (auto simp: trace_ok_def)
  then have "load_reasoning_trace (out w) b (trace_name (rids w k)) (traces (eng r)) = Inr (Some t)"
    using st load_trace_json [of t0 "out w" b] by (simp add: load_reasoning_trace_def t0_def [symmetric] t_def)
  moreover have "t_task t = task \<and> t_rounds t = rounds r" by (simp add: t_def t0_def build_reasoning_trace_def)
  moreover have "\<exists>rv. reverify_reasoning_trace (out w) (an w) 1000 s t = Inr rv \<and> rp_matches rv"
  proof (cases "final_hypothesis t")
    case None
    then show ?thesis by (simp add: reverify_reasoning_trace_def Let_def)
  next
    case (Some h)
    then have h: "rounds r \<noteq> []" "h = r_hypothesis (last (rounds r))" by (auto simp: t_def t0_def build_reasoning_trace_def split: if_splits)
    then obtain g vs where "parse_task (out w) 1000 task = Inr g" "verify_solution (out w) s h g = Inr (r_valid (last (rounds r)), vs)"
      using assms(2) [THEN bspec, OF last_in_set [OF h(1)]] by (auto simp: true_round_def)
    moreover have "final_valid t = Some (r_valid (last (rounds r)))" "final_static t = Some (verdict_json (analyze_solution_static (an w) h))" "t_task t = task"
      using h static by (simp_all add: t_def t0_def build_reasoning_trace_def)
    ultimately show ?thesis using Some same_dict_refl [OF wf_verdict_json(1)] by (simp add: reverify_reasoning_trace_def Let_def)
  qed
  ultimately show ?thesis by blast
qed


definition demo_llm :: "(string, json) dict \<Rightarrow> llm" where
  "demo_llm h = \<lparr>client = True, answers = (\<lambda>_ _. Inr []), loads = (\<lambda>_. Some h), clock_before = (\<lambda>_. 0), clock_after = (\<lambda>_. 0), jitter = (\<lambda>_. 0),
     max_retries = 3, base_delay = 1, max_delay = 10\<rparr>"

definition demo_world :: "(string, json) dict \<Rightarrow> bool \<Rightarrow> ns_world" where
  "demo_world h writable = \<lparr>out = demo_outside plain_check, an = \<lparr>ast_of = (\<lambda>_. None), analyze_code = (\<lambda>_. [])\<rparr>,
     bi = \<lparr>int_of = (\<lambda>_. None), num_of = (\<lambda>_. None), dict_of = (\<lambda>_. None), list_of = (\<lambda>_. None)\<rparr>, nx = plain_nx, lm = demo_llm h,
     ids = show_nat, cid = ''c'', rids = show_nat, now = 0, disk_ok = (\<lambda>_. writable)\<rparr>"

definition demo_ns :: ns_engine where
  "demo_ns = start (demo_outside plain_check) (projr (new_ns_engine 2 5 True False 5 True))"

lemma demo_ns_facts: "ns_started demo_ns" "nbreaker_ok (breaker_of demo_ns)" "max_attempts demo_ns = 2" "tracing_on demo_ns" "asked demo_ns = 0"
  by (simp_all add: demo_ns_def start_def new_ns_engine_def breaker_of_def asked_def new_nbreaker_ok)

theorem think_outcome_witness:
  "asked (eng (snd (think (demo_world [(''x'', JInt 7)] True) demo_task demo_ns))) \<le> 6 \<and>
   length (rounds (snd (think (demo_world [(''x'', JInt 7)] True) demo_task demo_ns))) \<le> 2"
  using think_outcome [OF demo_ns_facts(1,2) _ prod.collapse [symmetric], of "demo_world [(''x'', JInt 7)] True" demo_task] demo_ns_facts
  by (simp add: demo_world_def demo_llm_def)

lemma demo_validated: "validate_input demo_task = Inr (demo_task @ [(''goals'', JList []), (''variables'', JDict [])])"
  by (simp add: validate_input_def demo_task_def FIELDS_def dict_get_def)


text \<open>A success whose trace cannot be written is counted again, as a failure, and an error follows the solution.\<close>

lemma unwritten_success_counted_twice:
  "(let r = snd (think (demo_world [(''x'', JInt 3)] False) demo_task demo_ns)
    in (tasks_processed (met (eng r)), tasks_successful (met (eng r)), tasks_failed (met (eng r)), last (events r))) = (2, 1, 1, ErrorEvent ''OSError'')"
  by code_simp

text \<open>An empty hypothesis is loaded as none, so that nothing is verified again, and the verdicts are said to match.\<close>

lemma empty_hypothesis_not_replayed:
  assumes "trace_ok t" and "final_hypothesis t = Some []" and "map_of d p = Some (Document (JDict (trace_json t)))"
  shows "map_res (map_option (map_res (\<lambda>rv. (rp_matches rv, symbolic_matches rv)))) (reverify_trace_file env b a limit s p d) = Inr (Some (Inr (True, None)))"
  using assms load_trace_json [OF assms(1), of env b] by (simp add: reverify_trace_file_def load_reasoning_trace_def reverify_reasoning_trace_def Let_def)

section \<open>The causal analysis\<close>

lemma estimate_total:
  assumes "networkx n" and "cg_ok g" and "acyclic (edge_rel g)" and "t \<in> set (g_nodes g)" and "ob \<in> set (g_nodes g)"
  shows "\<exists>r. estimate_ate n t ob v g = Inr r"
proof -
  obtain cs ms where "find_confounders n t ob [] g = Inr cs" "find_mediators n t ob g = Inr ms"
    using networkx.confounders [OF assms] networkx.mediators [OF assms] by blast
  moreover have "nx_is_dag n g" using networkx.is_dag [OF assms(1)] assms(3) by simp
  ultimately show ?thesis using estimate_shape [of n t ob g cs ms v] by blast
qed

lemma analyze_counterfactual_total:
  assumes "networkx n" and "cg_ok g" and "acyclic (edge_rel g)"
  shows "\<exists>o' m'. analyze_counterfactual n en g t ob v m = (Inr o', m')"
proof (cases "en \<and> dict_has (c_nodes g) t \<and> dict_has (c_nodes g) ob")
  case True
  then obtain r where "estimate_ate n t ob v g = Inr r" using estimate_total [OF assms] dict_has_node [OF assms(2)] by blast
  then show ?thesis using True by (simp add: analyze_counterfactual_def Let_def)
qed (auto simp: analyze_counterfactual_def)

lemma analyze_nodes_total:
  assumes "networkx nn" and "cg_ok g" and "acyclic (edge_rel g)"
  shows "\<exists>rs m'. analyze_nodes nn limit g ob ns k m = (Inr rs, m')"
proof (induction ns arbitrary: k m)
  case (Cons a ns)
  obtain i nm where a: "a = (i, nm)" by fastforce
  obtain o1 m1 where 1: "analyze_counterfactual nn True g i ob 1 m = (Inr o1, m1)" using analyze_counterfactual_total [OF assms] by blast
  obtain o2 m2 where 2: "analyze_counterfactual nn True g i ob 2 m1 = (Inr o2, m2)" using analyze_counterfactual_total [OF assms] by blast
  obtain rs m3 where "analyze_nodes nn limit g ob ns (k + 1) m2 = (Inr rs, m3)" using Cons.IH by blast
  then show ?case using 1 2 Cons.IH [of k m] Cons.IH [of k m1] by (auto simp: a split: option.split)
qed simp

lemma edge_rel_add_node [simp]: "edge_rel (add_node i n v g) = edge_rel g"
  by (simp add: add_node_def edge_rel_def)

lemma fold_constraints:
  "edge_rel (foldl (\<lambda>g (i, n). add_node i (f n) v g) g cs) = edge_rel g \<and> (cg_ok g \<longrightarrow> cg_ok (foldl (\<lambda>g (i, n). add_node i (f n) v g) g cs))"
proof (induction cs arbitrary: g)
  case (Cons c cs)
  show ?case using Cons.IH [of "add_node (fst c) (f (snd c)) v g"] by (cases c) (simp add: add_node_ok)
qed simp

text \<open>Edges come from dependencies between names that are known.\<close>

lemma from_requirements_edges:
  "edge_rel (from_requirements reqs deps) \<subseteq>
     {(si, ti). \<exists>s t wt. (s, t, wt) \<in> set deps \<and> map_of (foldl (\<lambda>d (i, r). dict_set (req_name r) i d) [] reqs) s = Some si \<and>
        map_of (foldl (\<lambda>d (i, r). dict_set (req_name r) i d) [] reqs) t = Some ti}" (is "_ \<subseteq> ?E deps")
proof -
  define M where "M = foldl (\<lambda>d (i, r). dict_set (req_name r) i d) [] reqs"
  define step where "step = (\<lambda>g (s, t, w). case (map_of M s, map_of M t) of
        (Some si, Some ti) \<Rightarrow> if si \<noteq> [] \<and> ti \<noteq> [] then (case add_edge si ti w g of Inr g' \<Rightarrow> g' | Inl _ \<Rightarrow> g) else g
      | _ \<Rightarrow> g)"
  have one: "edge_rel (step g (s, t, w)) \<subseteq> edge_rel g \<union> {(si, ti). map_of M s = Some si \<and> map_of M t = Some ti}" for g s t w
    by (auto simp: step_def add_edge_def split: option.splits if_splits)
  define S where "S = (\<lambda>ds. {(si, ti). \<exists>s t w. (s, t, w :: rat) \<in> set ds \<and> map_of M s = Some si \<and> map_of M t = Some ti})"
  have A: "edge_rel (foldl step g ds) \<subseteq> edge_rel g \<union> S ds" for g ds
  proof (induction ds arbitrary: g)
    case (Cons d ds)
    obtain s t w where d: "d = (s, t, w)" by (cases d)
    have 1: "{(si, ti). map_of M s = Some si \<and> map_of M t = Some ti} \<subseteq> S (d # ds)"
      unfolding S_def d by (clarsimp, rule exI [of _ s], rule exI [of _ t], auto)
    have "S ds \<subseteq> S (d # ds)" unfolding S_def by (clarsimp, meson)
    with 1 show ?case using Cons.IH [of "step g d"] one [of g s t w] unfolding d foldl_Cons by blast
  qed simp
  have B: "edge_rel (foldl (\<lambda>g (i, r). add_node i (req_name r) (priority r) g) g xs) = edge_rel g" for g xs
    by (induction xs arbitrary: g) auto
  have "from_requirements reqs deps = foldl step (foldl (\<lambda>g (i, r). add_node i (req_name r) (priority r) g) new_cgraph reqs) deps"
    unfolding from_requirements_def Let_def M_def step_def by simp
  moreover have "edge_rel new_cgraph = {}" by (simp add: new_cgraph_def edge_rel_def)
  ultimately have "edge_rel (from_requirements reqs deps) \<subseteq> S deps"
    using A [of "foldl (\<lambda>g (i, r). add_node i (req_name r) (priority r) g) new_cgraph reqs" deps] B [of new_cgraph reqs] by simp
  then show ?thesis unfolding S_def M_def .
qed

lemma req_map_distinct:
  assumes "distinct (map req_name rs)" and "length is = length rs" and "j < length rs"
  shows "map_of (foldl (\<lambda>d (i, r). dict_set (req_name r) i d) [] (zip is rs)) (req_name (rs ! j)) = Some (is ! j)"
proof -
  have keep: "map_of (foldl (\<lambda>d (i, r). dict_set (req_name r) i d) d xs) n = map_of d n" if "n \<notin> req_name ` snd ` set xs" for d xs n
    using that by (induction xs arbitrary: d) (auto simp: image_iff)
  have eq: "zip is rs = take j (zip is rs) @ (is ! j, rs ! j) # drop (Suc j) (zip is rs)"
    using assms(2,3) id_take_nth_drop [of j "zip is rs"] by simp
  have new: "req_name (rs ! j) \<notin> req_name ` snd ` set (drop (Suc j) (zip is rs))"
  proof
    assume "req_name (rs ! j) \<in> req_name ` snd ` set (drop (Suc j) (zip is rs))"
    then have "req_name (rs ! j) \<in> set (drop (Suc j) (map req_name rs))" using assms(2) by (auto simp: drop_zip drop_map dest: set_zip_rightD)
    moreover have "distinct (take (Suc j) (map req_name rs) @ drop (Suc j) (map req_name rs))" using assms(1) by simp
    moreover have "req_name (rs ! j) \<in> set (take (Suc j) (map req_name rs))" using assms(3) by (simp add: take_Suc_conv_app_nth)
    ultimately show False unfolding distinct_append by blast
  qed
  show ?thesis by (subst eq) (simp add: keep [OF new])
qed

lemma dependency_edges:
  fixes w :: ns_world and rs :: "requirement list"
  defines "g \<equiv> from_requirements (zip (map (ids w) [0..<length rs]) rs) (dependencies rs)"
  assumes "distinct (map dependency_node_name rs)" and "(si, ti) \<in> edge_rel g"
  shows "\<exists>a b. a < length rs \<and> b < length rs \<and> si = ids w a \<and> ti = ids w b \<and> priority (rs ! b) < priority (rs ! a)"
proof -
  define ii where "ii = map (ids w) [0..<length rs]"
  have names: "dependency_node_name = req_name" by (simp add: fun_eq_iff dependency_node_name_def req_name_def)
  obtain s t wt where e: "(s, t, wt) \<in> set (dependencies rs)" "map_of (foldl (\<lambda>d (i, r). dict_set (req_name r) i d) [] (zip ii rs)) s = Some si"
    "map_of (foldl (\<lambda>d (i, r). dict_set (req_name r) i d) [] (zip ii rs)) t = Some ti"
    using subsetD [OF from_requirements_edges assms(3) [unfolded g_def]] unfolding ii_def by auto
  obtain a b where ab: "a < length rs" "b < length rs" "s = req_name (rs ! a)" "t = req_name (rs ! b)" "priority (rs ! b) < priority (rs ! a)"
    using e(1) by (auto simp: dependencies_def names in_set_conv_nth split: if_splits)
  have "si = ii ! a" "ti = ii ! b"
    using e(2,3) ab req_map_distinct [of rs ii] assms(2) by (auto simp: names ii_def)
  then show ?thesis using ab by (auto simp: ii_def)
qed


definition demo_requirements :: "requirement list" where
  "demo_requirements = [\<lparr>category = ''speed'', rdescription = [], priority = 8\<rparr>, \<lparr>category = ''cost'', rdescription = [], priority = 3\<rparr>]"

lemma demo_ids: "inj (ids (demo_world h b))"
  by (simp add: demo_world_def inj_def show_nat_inj)


text \<open>Two requirements with the same label but different priorities make a loop, and the run of a valid solution raises.\<close>

lemma same_label_raises:
  "fst (compute_counterfactuals (demo_world [] True) 5
     [\<lparr>category = ''speed'', rdescription = [], priority = 8\<rparr>, \<lparr>category = ''speed'', rdescription = [], priority = 3\<rparr>] [] reset_metrics) = Inl ValueError"
  by code_simp

end
